(* ===== verification/Campagnol_Prelude.thy ===== *)
theory Campagnol_Prelude
  imports Main "HOL-Library.Word" "HOL-Library.Monad_Syntax"
begin

text \<open>
  Shared vocabulary of the Campagnol development: the machine types the sources use,
  pointers and heaps, the C character classes, and the generic lemmas and collections
  that the component theories rest on.

  A pointer is a natural number, the null pointer is \<open>None\<close> of \<open>ptr option\<close>, and the
  heap of one kind of structure is a partial map. A read through a pointer that is not
  allocated is a fault; operations that follow pointers return \<open>None\<close> for a fault, so a
  theorem that an operation returns \<open>Some\<close> is a memory safety statement.
\<close>

section \<open>Collections\<close>

named_theorems strbuf_simps \<open>content of a string buffer after an operation\<close>
named_theorems link_simps \<open>link and payload fields of list nodes\<close>
named_theorems fifo_simps \<open>definitions of the packet queue\<close>

section \<open>Machine types\<close>

type_synonym u8 = "8 word"
type_synonym u16 = "16 word"
type_synonym u32 = "32 word"

type_synonym ptr = nat
type_synonym 'a heap = "ptr \<Rightarrow> 'a option"

text \<open>An IPv4 endpoint, \<^verbatim>\<open>struct sockaddr_in\<close>. Both fields are the raw 32 and 16 bit
  memory words, in network byte order as the program keeps them; \<^verbatim>\<open>sin_family\<close> is always
  \<^verbatim>\<open>AF_INET\<close>.\<close>

record sockaddr_in =
  sin_addr :: u32
  sin_port :: u16

lemma sockaddr_in_eqI: "sin_addr a = sin_addr b \<Longrightarrow> sin_port a = sin_port b \<Longrightarrow> (a :: sockaddr_in) = b"
  by (cases a; cases b) simp

text \<open>\<^verbatim>\<open>struct timeval\<close> and \<^verbatim>\<open>struct timespec\<close>.\<close>

record timeval =
  tv_sec :: int
  tv_usec :: int

record timespec =
  ts_sec :: int
  ts_nsec :: int

abbreviation IN_ADDR_EMPTY :: u32 where
  "IN_ADDR_EMPTY \<equiv> 0"

text \<open>The allocator is a parameter of the operations that survive its failure: given the
  set of allocated blocks it returns a block or fails. What the code relies on is that a
  block it returns is not one in use.\<close>

type_synonym allocator = "(ptr \<Rightarrow> bool) \<Rightarrow> ptr option"

definition malloc_fresh :: "allocator \<Rightarrow> bool" where
  "malloc_fresh m \<longleftrightarrow> (\<forall>used p. m used = Some p \<longrightarrow> \<not> used p)"

lemma malloc_freshD: "malloc_fresh m \<Longrightarrow> m used = Some p \<Longrightarrow> \<not> used p"
  by (auto simp: malloc_fresh_def)

abbreviation allocated :: "'a heap \<Rightarrow> ptr \<Rightarrow> bool" where
  "allocated h p \<equiv> h p \<noteq> None"

text \<open>An allocator that hands out the first free block of three; it makes the hypotheses
  on allocators satisfiable at concrete inputs.\<close>

definition malloc3 :: allocator where
  "malloc3 used = (if \<not> used 1 then Some 1 else if \<not> used 2 then Some 2
                   else if \<not> used 3 then Some 3 else None)"

lemma malloc3_fresh: "malloc_fresh malloc3"
  by (auto simp: malloc_fresh_def malloc3_def split: if_splits)

section \<open>Characters\<close>

abbreviation NUL :: char where
  "NUL \<equiv> CHR 0x00"

definition isblank :: "char \<Rightarrow> bool" where
  "isblank c \<longleftrightarrow> c = CHR '' '' \<or> c = CHR 0x09"

section \<open>Lists\<close>

lemma list_update_take: "i < n \<Longrightarrow> take n (xs[i := x]) = (take n xs)[i := x]"
  by (simp add: take_update_swap)

lemma take_Suc_update: "i < length xs \<Longrightarrow> take (Suc i) (xs[i := x]) = take i xs @ [x]"
  by (simp add: take_Suc_conv_app_nth)

lemma take_replicate_pad: "length xs \<le> n \<Longrightarrow> take (length xs) (xs @ replicate (n - length xs) y) = xs"
  by simp

lemma takeWhile_append_stop: "\<not> P x \<Longrightarrow> takeWhile P (xs @ x # ys) = takeWhile P xs"
  by (induction xs) auto

lemma remove1_split: "p \<notin> set as \<Longrightarrow> remove1 p (as @ p # bs) = as @ bs"
  by (induction as) auto

lemma ran_remove:
  assumes "m q = Some k" and "\<And>r. m r = Some k \<Longrightarrow> r = q"
  shows "ran (m(q := None)) = ran m - {k}"
proof (rule set_eqI)
  fix x
  have "x \<in> ran (m(q := None)) \<longleftrightarrow> (\<exists>r. r \<noteq> q \<and> m r = Some x)" by (auto simp: ran_def)
  also have "\<dots> \<longleftrightarrow> (\<exists>r. m r = Some x) \<and> x \<noteq> k" using assms by (metis option.inject)
  finally show "x \<in> ran (m(q := None)) \<longleftrightarrow> x \<in> ran m - {k}" by (simp add: ran_def)
qed

section \<open>Fields behind pointers\<close>

text \<open>\<open>field_at f h p\<close> is the field \<open>f\<close> of the structure that \<open>p\<close> refers to.\<close>

definition field_at :: "('a \<Rightarrow> 'b) \<Rightarrow> 'a heap \<Rightarrow> ptr \<Rightarrow> 'b option" where
  "field_at f h p = map_option f (h p)"

lemma field_at_upd [simp]:
  "field_at f (h(p := x)) q = (if q = p then map_option f x else field_at f h q)"
  by (simp add: field_at_def)

lemma field_at_None [simp]: "field_at f h p = None \<longleftrightarrow> h p = None"
  by (simp add: field_at_def)

lemma field_at_Some: "h p = Some v \<Longrightarrow> field_at f h p = Some (f v)"
  by (simp add: field_at_def)

lemma field_at_SomeE:
  assumes "field_at f h p = Some y" obtains v where "h p = Some v" and "y = f v"
  using assms by (auto simp: field_at_def)

text \<open>A field that is a function of another one agrees where that one agrees.\<close>

lemma field_at_cong:
  assumes "field_at f h p = field_at f h' q" and "\<And>v. g v = k (f v)"
  shows "field_at g h p = field_at g h' q"
proof -
  have "field_at g h0 p0 = map_option k (field_at f h0 p0)" for h0 p0
    using assms(2) by (cases "h0 p0") (simp_all add: field_at_def)
  with assms(1) show ?thesis by simp
qed

lemma field_at_alloc: "field_at f h p = field_at g h' q \<Longrightarrow> h p = None \<longleftrightarrow> h' q = None"
  by (cases "h p"; cases "h' q") (auto simp: field_at_def)

lemma inj_field_insert:
  assumes "inj_on (field_at f h) A" and "p \<notin> A" and "\<And>q. q \<in> A \<Longrightarrow> field_at f h q \<noteq> Some (f c)"
  shows "inj_on (field_at f (h(p \<mapsto> c))) (insert p A)"
proof -
  have "inj_on (field_at f (h(p \<mapsto> c))) A"
    using assms(1,2) by (simp cong: inj_on_cong add: inj_on_def)
  moreover have "field_at f (h(p \<mapsto> c)) p \<notin> field_at f (h(p \<mapsto> c)) ` A"
  proof
    assume "field_at f (h(p \<mapsto> c)) p \<in> field_at f (h(p \<mapsto> c)) ` A"
    then obtain q where "q \<in> A" "Some (f c) = field_at f (h(p \<mapsto> c)) q" by auto
    with assms(2) assms(3) [of q] show False by (auto split: if_splits)
  qed
  ultimately show ?thesis using assms(2) by (simp add: inj_on_insert)
qed

end
