(* ===== verification/Linked_List.thy ===== *)
theory Linked_List
  imports Campagnol_Prelude
begin

text \<open>
  The doubly linked lists that the program threads through its structures
  (\<^verbatim>\<open>clients\<close> and \<^verbatim>\<open>sessions\<close> of the rendezvous server, \<^verbatim>\<open>peers_list\<close> of the client):
  every one is written with the same two idioms, linking a node in front of the head and
  unlinking a node from the middle. The idioms are defined once over the accessors of the
  two link fields; the locale states what the accessors must satisfy and carries the
  proofs, and each component interprets it for its own structure.
\<close>

section \<open>The two idioms\<close>

text \<open>Linking: \<^verbatim>\<open>n->next = head; n->prev = NULL; if (n->next) n->next->prev = n; head = n\<close>.\<close>

definition link_head ::
  "('a \<Rightarrow> ptr option \<Rightarrow> 'a) \<Rightarrow> ('a \<Rightarrow> ptr option \<Rightarrow> 'a) \<Rightarrow> 'a heap \<Rightarrow> ptr option \<Rightarrow> ptr
   \<Rightarrow> ('a heap \<times> ptr option) option" where
  "link_head set_nx set_pv h head p =
     do {
       v \<leftarrow> h p;
       let h1 = h(p \<mapsto> set_pv (set_nx v head) None);
       (case head of
          None \<Rightarrow> Some (h1, Some p)
        | Some q \<Rightarrow> do { w \<leftarrow> h1 q; Some (h1(q \<mapsto> set_pv w (Some p)), Some p) })
     }"

text \<open>Unlinking: \<^verbatim>\<open>if (n->next) n->next->prev = n->prev;\<close>
  \<^verbatim>\<open>if (n->prev) n->prev->next = n->next; else head = n->next\<close>.\<close>

definition unlink_node ::
  "('a \<Rightarrow> ptr option) \<Rightarrow> ('a \<Rightarrow> ptr option) \<Rightarrow> ('a \<Rightarrow> ptr option \<Rightarrow> 'a) \<Rightarrow>
   ('a \<Rightarrow> ptr option \<Rightarrow> 'a) \<Rightarrow> 'a heap \<Rightarrow> ptr option \<Rightarrow> ptr
   \<Rightarrow> ('a heap \<times> ptr option) option" where
  "unlink_node nx pv set_nx set_pv h head p =
     do {
       v \<leftarrow> h p;
       h1 \<leftarrow> (case nx v of
                None \<Rightarrow> Some h
              | Some q \<Rightarrow> do { w \<leftarrow> h q; Some (h(q \<mapsto> set_pv w (pv v))) });
       v1 \<leftarrow> h1 p;
       (case pv v1 of
          None \<Rightarrow> Some (h1, nx v1)
        | Some r \<Rightarrow> do { w \<leftarrow> h1 r; Some (h1(r \<mapsto> set_nx w (nx v1)), head) })
     }"

section \<open>List segments\<close>

text \<open>\<open>dlseg nx pv h pr x ps z\<close>: starting at \<open>x\<close> the \<open>next\<close> fields visit exactly the nodes
  \<open>ps\<close> and then reach \<open>z\<close>, and the \<open>prev\<close> fields lead back to \<open>pr\<close>.\<close>

fun dlseg :: "('a \<Rightarrow> ptr option) \<Rightarrow> ('a \<Rightarrow> ptr option) \<Rightarrow> 'a heap \<Rightarrow> ptr option \<Rightarrow> ptr option
  \<Rightarrow> ptr list \<Rightarrow> ptr option \<Rightarrow> bool" where
  "dlseg nx pv h pr x [] z = (x = z)"
| "dlseg nx pv h pr x (p # ps) z =
     (x = Some p \<and>
      (case h p of None \<Rightarrow> False | Some v \<Rightarrow> pv v = pr \<and> dlseg nx pv h (Some p) (nx v) ps z))"

abbreviation dlist :: "('a \<Rightarrow> ptr option) \<Rightarrow> ('a \<Rightarrow> ptr option) \<Rightarrow> 'a heap \<Rightarrow> ptr option
  \<Rightarrow> ptr list \<Rightarrow> bool" where
  "dlist nx pv h x ps \<equiv> dlseg nx pv h None x ps None"

definition last_or :: "ptr option \<Rightarrow> ptr list \<Rightarrow> ptr option" where
  "last_or pr ps = (if ps = [] then pr else Some (last ps))"

lemma last_or_simps [simp]:
  "last_or pr [] = pr" "last_or pr (p # ps) = last_or (Some p) ps"
  by (simp_all add: last_or_def)

lemma last_or_snoc [simp]: "last_or pr (ps @ [p]) = Some p"
  by (simp add: last_or_def)

lemma dlseg_append:
  "dlseg nx pv h pr x (as @ bs) z \<longleftrightarrow>
     (\<exists>m. dlseg nx pv h pr x as m \<and> dlseg nx pv h (last_or pr as) m bs z)"
  by (induction as arbitrary: pr x) (auto split: option.splits)

lemma dlseg_frame:
  "(\<And>q. q \<in> set ps \<Longrightarrow> h' q = h q) \<Longrightarrow> dlseg nx pv h' pr x ps z = dlseg nx pv h pr x ps z"
  by (induction ps arbitrary: pr x) (auto split: option.splits)

lemma dlseg_update_other:
  "q \<notin> set ps \<Longrightarrow> dlseg nx pv (h(q := y)) pr x ps z = dlseg nx pv h pr x ps z"
  by (rule dlseg_frame) auto

lemma dlseg_update_same:
  assumes "h q = Some v" and "nx v' = nx v" and "pv v' = pv v"
  shows "dlseg nx pv (h(q \<mapsto> v')) pr x ps z = dlseg nx pv h pr x ps z"
  using assms by (induction ps arbitrary: pr x) (auto split: option.splits)

lemma dlseg_allocated: "dlseg nx pv h pr x ps z \<Longrightarrow> p \<in> set ps \<Longrightarrow> \<exists>v. h p = Some v"
  by (induction ps arbitrary: pr x) (auto split: option.splits)

lemma dlseg_step:
  "dlseg nx pv h pr (Some p) ps None \<Longrightarrow>
     \<exists>v ps'. ps = p # ps' \<and> h p = Some v \<and> pv v = pr \<and> dlseg nx pv h (Some p) (nx v) ps' None"
  by (cases ps) (auto split: option.splits)

lemma dlseg_None_nil: "dlseg nx pv h pr None ps z \<Longrightarrow> ps = []"
  by (cases ps) auto

lemma dlseg_set_first_prev:
  assumes "dlseg nx pv h pr x (q # bs) z" and "q \<notin> set bs" and "h q = Some w"
    and "pv (set_pv w pr') = pr'" and "nx (set_pv w pr') = nx w"
  shows "dlseg nx pv (h(q \<mapsto> set_pv w pr')) pr' (Some q) (q # bs) z"
  using assms by (auto simp: dlseg_update_other)

lemma dlseg_set_last_next:
  assumes "dlseg nx pv h pr x (as @ [r]) z" and "r \<notin> set as" and "h r = Some w"
    and "nx (set_nx w z') = z'" and "pv (set_nx w z') = pv w"
  shows "dlseg nx pv (h(r \<mapsto> set_nx w z')) pr x (as @ [r]) z'"
  using assms by (auto simp: dlseg_append dlseg_update_other)

text \<open>In a list, the \<open>next\<close> field of a node is the node after it.\<close>

definition first_of :: "ptr list \<Rightarrow> ptr option" where
  "first_of ps = (case ps of [] \<Rightarrow> None | p # _ \<Rightarrow> Some p)"

lemma first_of_simps [simp]: "first_of [] = None" "first_of (p # ps) = Some p"
  by (simp_all add: first_of_def)

lemma dlseg_head: "dlseg nx pv h pr x ps None \<Longrightarrow> x = first_of ps"
  by (cases ps) auto

lemma dlist_next:
  assumes "dlist nx pv h x (ys @ q # zs)" and "h q = Some v"
  shows "nx v = first_of zs"
  using assms by (auto simp: dlseg_append dest: dlseg_head)

section \<open>The contract of the link fields\<close>

text \<open>A structure that carries the two link fields: writing one link field leaves the other
  one and everything else (its \<open>payload\<close>) alone.\<close>

locale linked_node =
  fixes nx pv :: "'a \<Rightarrow> ptr option"
    and set_nx set_pv :: "'a \<Rightarrow> ptr option \<Rightarrow> 'a"
    and payload :: "'a \<Rightarrow> 'b"
  assumes nx_set_nx [link_simps]: "nx (set_nx v x) = x"
    and nx_set_pv [link_simps]: "nx (set_pv v x) = nx v"
    and pv_set_pv [link_simps]: "pv (set_pv v x) = x"
    and pv_set_nx [link_simps]: "pv (set_nx v x) = pv v"
    and payload_set_nx [link_simps]: "payload (set_nx v x) = payload v"
    and payload_set_pv [link_simps]: "payload (set_pv v x) = payload v"
begin

text \<open>Linking a fresh node in front of a list gives the longer list and keeps every payload.\<close>

lemma link_head_list:
  assumes l: "dlist nx pv h x ps" and new: "p \<notin> set ps" and hp: "h p = Some v"
    and d: "distinct ps"
  obtains h' where "link_head set_nx set_pv h x p = Some (h', Some p)"
    and "dlist nx pv h' (Some p) (p # ps)"
    and "\<And>q. field_at payload h' q = field_at payload h q"
proof (cases ps)
  case Nil
  with l have x: "x = None" by simp
  show thesis
    by (rule that [of "h(p \<mapsto> set_pv (set_nx v None) None)"])
      (use x Nil hp in \<open>auto simp: link_head_def link_simps field_at_def\<close>)
next
  case (Cons q qs)
  with l obtain w where x: "x = Some q" and hq: "h q = Some w"
    by (auto split: option.splits)
  from Cons new d have ne: "q \<noteq> p" "q \<notin> set qs" "p \<notin> set qs" by auto
  let ?h1 = "h(p \<mapsto> set_pv (set_nx v (Some q)) None)"
  let ?h' = "?h1(q \<mapsto> set_pv w (Some p))"
  have "dlseg nx pv ?h1 None (Some q) (q # qs) None"
    using l x Cons ne by (simp add: dlseg_update_other split: option.splits)
  then have "dlseg nx pv ?h' (Some p) (Some q) (q # qs) None"
    by (rule dlseg_set_first_prev) (use ne hq in \<open>auto simp: link_simps\<close>)
  then have "dlist nx pv ?h' (Some p) (p # ps)"
    using Cons ne by (simp add: link_simps)
  moreover have "link_head set_nx set_pv h x p = Some (?h', Some p)"
    using x hp hq ne by (simp add: link_head_def)
  ultimately show thesis
    by (intro that [of ?h']) (use hp hq in \<open>auto simp: link_simps field_at_def\<close>)
qed

text \<open>Unlinking a member of a list gives the list without it and keeps every payload.\<close>

lemma unlink_first_half:
  assumes l: "dlist nx pv h x (as @ p # bs)" and d: "distinct (as @ p # bs)"
  obtains v h1 where "h p = Some v" and "h1 p = Some v" and "pv v = last_or None as"
    and "(case nx v of None \<Rightarrow> Some h
          | Some q \<Rightarrow> do { w \<leftarrow> h q; Some (h(q \<mapsto> set_pv w (pv v))) }) = Some h1"
    and "dlseg nx pv h1 None x as (Some p)"
    and "dlseg nx pv h1 (last_or None as) (nx v) bs None"
    and "\<And>q. field_at payload h1 q = field_at payload h q"
proof -
  from l obtain v where hp: "h p = Some v" and pvv: "pv v = last_or None as"
    and sa: "dlseg nx pv h None x as (Some p)"
    and sb: "dlseg nx pv h (Some p) (nx v) bs None"
    by (auto simp: dlseg_append split: option.splits)
  show thesis
  proof (cases bs)
    case Nil
    show thesis
      by (rule that [OF hp hp pvv _ sa]) (use sb Nil in auto)
  next
    case (Cons q qs)
    with sb obtain w where nv: "nx v = Some q" and hq: "h q = Some w"
      by (auto split: option.splits)
    from d Cons have ne: "q \<noteq> p" "q \<notin> set as" "q \<notin> set qs" by auto
    let ?h1 = "h(q \<mapsto> set_pv w (pv v))"
    from sb [unfolded Cons nv] have "dlseg nx pv ?h1 (pv v) (Some q) (q # qs) None"
      by (rule dlseg_set_first_prev) (use ne hq in \<open>auto simp: link_simps\<close>)
    moreover have "dlseg nx pv ?h1 None x as (Some p)"
      using sa ne by (simp add: dlseg_update_other)
    ultimately show thesis
      by (intro that [of v ?h1]) (use hp hq pvv nv ne Cons in \<open>auto simp: link_simps field_at_def\<close>)
  qed
qed

lemma unlink_node_list:
  assumes l: "dlist nx pv h x ps" and d: "distinct ps" and p: "p \<in> set ps"
  obtains h' x' where "unlink_node nx pv set_nx set_pv h x p = Some (h', x')"
    and "dlist nx pv h' x' (remove1 p ps)"
    and "\<And>q. field_at payload h' q = field_at payload h q"
proof -
  from p obtain as bs where ps: "ps = as @ p # bs" and pa: "p \<notin> set as"
    using split_list_first by metis
  have rm: "remove1 p ps = as @ bs" using ps pa by (simp add: remove1_split)
  obtain v h1 where hp: "h p = Some v" and h1p: "h1 p = Some v" and pvv: "pv v = last_or None as"
    and c: "(case nx v of None \<Rightarrow> Some h
          | Some q \<Rightarrow> do { w \<leftarrow> h q; Some (h(q \<mapsto> set_pv w (pv v))) }) = Some h1"
    and sa: "dlseg nx pv h1 None x as (Some p)"
    and sb: "dlseg nx pv h1 (last_or None as) (nx v) bs None"
    and pay: "\<And>q. field_at payload h1 q = field_at payload h q"
    using unlink_first_half [OF l [unfolded ps] d [unfolded ps]] by blast
  show thesis
  proof (cases as rule: rev_cases)
    case Nil
    show thesis
      by (rule that [of h1 "nx v"]) (use hp h1p pvv c sb pay rm Nil in \<open>auto simp: unlink_node_def\<close>)
  next
    case (snoc cs r)
    with sa obtain w where hr: "h1 r = Some w"
      using dlseg_allocated [OF sa, of r] by auto
    from d ps snoc have ne: "r \<notin> set cs" "r \<notin> set bs" by auto
    let ?h2 = "h1(r \<mapsto> set_nx w (nx v))"
    from sa [unfolded snoc] have "dlseg nx pv ?h2 None x (cs @ [r]) (nx v)"
      by (rule dlseg_set_last_next) (use ne hr in \<open>auto simp: link_simps\<close>)
    moreover have "dlseg nx pv ?h2 (last_or None as) (nx v) bs None"
      using sb ne by (simp add: dlseg_update_other)
    ultimately have "dlist nx pv ?h2 x (remove1 p ps)"
      using rm snoc dlseg_append by metis
    moreover have "unlink_node nx pv set_nx set_pv h x p = Some (?h2, x)"
      using hp h1p pvv c snoc hr by (simp add: unlink_node_def)
    moreover have "field_at payload h r = Some (payload w)"
      using pay [of r] hr by (simp add: field_at_Some)
    ultimately show thesis
      by (intro that [of ?h2 x]) (use pay in \<open>auto simp: link_simps\<close>)
  qed
qed

end

end
