(* ===== verification/Search_Tree.thy ===== *)
theory Search_Tree
  imports Campagnol_Prelude
begin

text \<open>
  The binary search trees of POSIX \<^verbatim>\<open>search.h\<close> (\<^verbatim>\<open>tsearch\<close>, \<^verbatim>\<open>tfind\<close>, \<^verbatim>\<open>tdelete\<close>), which the
  program uses as indexes over its structures. A tree is the collection of the pointers it
  stores; \<open>cmp q\<close> is the result of the comparison routine on the searched item and the item
  behind the stored pointer \<open>q\<close>, or a fault when \<open>q\<close> is not allocated. The shape of the tree
  is internal to the C library; what POSIX documents is that an item is found exactly when
  some stored item compares equal to it. Every stored pointer is followed here, so a search
  that does not fault here does not fault on any tree over the same pointers.

  The allocation of a tree node inside \<^verbatim>\<open>tsearch\<close> can fail: the flag \<open>ok\<close> says whether it
  succeeds, should one be needed.
\<close>

type_synonym search_tree = "ptr list"

fun tfind :: "(ptr \<Rightarrow> int option) \<Rightarrow> search_tree \<Rightarrow> ptr option option" where
  "tfind cmp [] = Some None"
| "tfind cmp (q # t) = do { c \<leftarrow> cmp q; if c = 0 then Some (Some q) else tfind cmp t }"

fun tdelete :: "(ptr \<Rightarrow> int option) \<Rightarrow> search_tree \<Rightarrow> search_tree option" where
  "tdelete cmp [] = Some []"
| "tdelete cmp (q # t) =
     do { c \<leftarrow> cmp q; if c = 0 then Some t else do { t' \<leftarrow> tdelete cmp t; Some (q # t') } }"

text \<open>The result of \<^verbatim>\<open>tsearch\<close> is the stored pointer of the slot it returns, \<open>None\<close> for a null
  slot.\<close>

definition tsearch :: "(ptr \<Rightarrow> int option) \<Rightarrow> bool \<Rightarrow> ptr \<Rightarrow> search_tree \<Rightarrow>
  (ptr option \<times> search_tree) option" where
  "tsearch cmp ok p t =
     do {
       r \<leftarrow> tfind cmp t;
       (case r of
          Some q \<Rightarrow> Some (Some q, t)
        | None \<Rightarrow> if ok then Some (Some p, p # t) else Some (None, t))
     }"

section \<open>Comparison routines\<close>

text \<open>The comparison of the item \<open>a\<close> with the item a stored pointer refers to.\<close>

abbreviation cmp_at :: "('a \<Rightarrow> 'a \<Rightarrow> int) \<Rightarrow> 'a heap \<Rightarrow> 'a \<Rightarrow> ptr \<Rightarrow> int option" where
  "cmp_at cmp h a \<equiv> \<lambda>q. map_option (cmp a) (h q)"

text \<open>What a comparison routine has to satisfy for the index to be a map from keys: on
  allocated items it is zero exactly on equal keys. The laws of the three operations over an
  index whose keys are pairwise different follow.\<close>

locale key_compare =
  fixes cmp :: "'a \<Rightarrow> 'a \<Rightarrow> int" and key :: "'a \<Rightarrow> 'k"
  assumes cmp_zero: "cmp a b = 0 \<longleftrightarrow> key a = key b"
begin

lemma tfind_key:
  assumes "\<And>q. q \<in> set t \<Longrightarrow> h q \<noteq> None"
  shows "tfind (cmp_at cmp h a) t = Some (find (\<lambda>q. field_at key h q = Some (key a)) t)"
  using assms
proof (induction t)
  case Nil
  then show ?case by simp
next
  case (Cons q t)
  then obtain v where "h q = Some v" by auto
  with Cons show ?case by (auto simp: cmp_zero field_at_Some)
qed

lemma find_eq_SomeI:
  assumes "q \<in> set t" and "field_at key h q = Some k"
    and "inj_on (field_at key h) (set t)"
  shows "find (\<lambda>q. field_at key h q = Some k) t = Some q"
proof -
  have "find (\<lambda>q. field_at key h q = Some k) t \<noteq> None"
    using assms(1,2) by (auto simp: find_None_iff)
  then obtain r where r: "find (\<lambda>q. field_at key h q = Some k) t = Some r" by blast
  then have "r \<in> set t" "field_at key h r = Some k"
    by (auto simp: find_Some_iff)
  with assms(1,2) have "field_at key h r = field_at key h q" by simp
  with \<open>r \<in> set t\<close> assms(1,3) have "r = q" by (simp add: inj_on_def)
  with r show ?thesis by simp
qed

lemma find_eq_NoneI:
  "(\<And>q. q \<in> set t \<Longrightarrow> field_at key h q \<noteq> Some k) \<Longrightarrow>
     find (\<lambda>q. field_at key h q = Some k) t = None"
  by (auto simp: find_None_iff)

lemma find_SomeD:
  "find (\<lambda>q. field_at key h q = Some k) t = Some q \<Longrightarrow>
     q \<in> set t \<and> field_at key h q = Some k"
  by (auto simp: find_Some_iff)

lemma tfind_SomeD:
  "tfind (cmp_at cmp h a) t = Some (Some q) \<Longrightarrow> q \<in> set t \<and> field_at key h q = Some (key a)"
  by (induction t) (auto simp: bind_eq_Some_conv cmp_zero field_at_def split: if_splits)

lemma tfind_NoneD:
  "tfind (cmp_at cmp h a) t = Some None \<Longrightarrow> q \<in> set t \<Longrightarrow> field_at key h q \<noteq> Some (key a)"
  by (induction t) (auto simp: bind_eq_Some_conv cmp_zero field_at_def split: if_splits)

lemma tsearch_cases:
  assumes "tsearch (cmp_at cmp h a) ok p t = Some (r, t')"
  obtains (found) q where "r = Some q" "t' = t" "q \<in> set t" "field_at key h q = Some (key a)"
  | (added) "r = Some p" "t' = p # t" "ok" "\<And>q. q \<in> set t \<Longrightarrow> field_at key h q \<noteq> Some (key a)"
  | (failed) "r = None" "t' = t" "\<not> ok" "\<And>q. q \<in> set t \<Longrightarrow> field_at key h q \<noteq> Some (key a)"
proof -
  from assms obtain r' where f: "tfind (cmp_at cmp h a) t = Some r'"
    by (auto simp: tsearch_def bind_eq_Some_conv)
  show thesis
  proof (cases r')
    case None
    with f have n: "\<And>q. q \<in> set t \<Longrightarrow> field_at key h q \<noteq> Some (key a)"
      using tfind_NoneD by blast
    show thesis
      using assms f None n added failed by (auto simp: tsearch_def split: if_splits)
  next
    case (Some q)
    with f assms tfind_SomeD found show thesis
      by (auto simp: tsearch_def)
  qed
qed

text \<open>Deleting from an index removes the one stored item that compares equal, if any.\<close>

lemma tdelete_key:
  assumes "\<And>q. q \<in> set t \<Longrightarrow> h q \<noteq> None"
    and "inj_on (field_at key h) (set t)" and "distinct t"
  shows "tdelete (cmp_at cmp h a) t = Some (filter (\<lambda>q. field_at key h q \<noteq> Some (key a)) t)"
  using assms
proof (induction t)
  case Nil
  then show ?case by simp
next
  case (Cons q t)
  then obtain v where v: "h q = Some v" by auto
  have IH: "tdelete (cmp_at cmp h a) t = Some (filter (\<lambda>q. field_at key h q \<noteq> Some (key a)) t)"
    using Cons by (simp add: inj_on_def)
  show ?case
  proof (cases "key v = key a")
    case True
    with Cons.prems v have "\<And>r. r \<in> set t \<Longrightarrow> field_at key h r \<noteq> Some (key a)"
      by (auto simp: inj_on_def field_at_Some)
    then have "filter (\<lambda>q. field_at key h q \<noteq> Some (key a)) t = t"
      by (simp add: filter_id_conv)
    with True v show ?thesis by (simp add: cmp_zero field_at_Some)
  next
    case False
    with v IH show ?thesis by (auto simp: cmp_zero field_at_Some)
  qed
qed

text \<open>An index over a set \<open>A\<close> of allocated items: it stores some of them, each once, under pairwise
  different keys. The three operations on it.\<close>

definition index_ok :: "'a heap \<Rightarrow> ptr set \<Rightarrow> search_tree \<Rightarrow> bool" where
  "index_ok h A t \<longleftrightarrow> set t \<subseteq> A \<and> (\<forall>q \<in> A. h q \<noteq> None) \<and> distinct t \<and> inj_on (field_at key h) (set t)"

lemma index_ok_Nil: "(\<forall>q \<in> A. h q \<noteq> None) \<Longrightarrow> index_ok h A []"
  by (simp add: index_ok_def)

lemma index_ok_cong:
  assumes "\<And>q. q \<in> A \<Longrightarrow> field_at key h' q = field_at key h q"
  shows "index_ok h' A t = index_ok h A t"
proof -
  have "h' q = None \<longleftrightarrow> h q = None" if "q \<in> A" for q using field_at_alloc [OF assms [OF that]] .
  moreover have "inj_on (field_at key h') (set t) = inj_on (field_at key h) (set t)" if "set t \<subseteq> A"
    using that assms by (intro inj_on_cong) auto
  ultimately show ?thesis by (auto simp: index_ok_def)
qed

lemma index_ok_mono: "index_ok h A t \<Longrightarrow> A \<subseteq> B \<Longrightarrow> (\<forall>q \<in> B. h q \<noteq> None) \<Longrightarrow> index_ok h B t"
  by (auto simp: index_ok_def)

lemma tfind_index:
  assumes "index_ok h A t"
  obtains r where "tfind (cmp_at cmp h a) t = Some r"
    and "\<And>q. r = Some q \<longleftrightarrow> q \<in> set t \<and> field_at key h q = Some (key a)"
proof -
  have al: "h q \<noteq> None" if "q \<in> set t" for q using assms that by (auto simp: index_ok_def)
  have inj: "inj_on (field_at key h) (set t)" using assms by (simp add: index_ok_def)
  have "find (\<lambda>q. field_at key h q = Some (key a)) t = Some q \<longleftrightarrow> q \<in> set t \<and> field_at key h q = Some (key a)" for q
    using find_eq_SomeI [OF _ _ inj] find_SomeD by metis
  with tfind_key [OF al] show thesis by (intro that) auto
qed

lemma tsearch_index:
  assumes ix: "index_ok h A t" and p: "p \<in> A" "p \<notin> set t" and c: "h p = Some c"
  obtains r t' where "tsearch (cmp_at cmp h c) ok p t = Some (r, t')" "index_ok h A t'"
    and "r = None \<Longrightarrow> \<not> ok \<and> t' = t" "t' = t \<or> t' = p # t"
    and "ok \<Longrightarrow> r \<noteq> None"
proof -
  obtain r where r: "tfind (cmp_at cmp h c) t = Some r"
    and rq: "\<And>q. r = Some q \<longleftrightarrow> q \<in> set t \<and> field_at key h q = Some (key c)"
    using tfind_index [OF ix, of c] by blast
  show thesis
  proof (cases r)
    case (Some q)
    with r ix show thesis by (intro that [of "Some q" t]) (simp_all add: tsearch_def)
  next
    case None
    have "index_ok h A (p # t)"
      using ix p c rq None by (auto simp: index_ok_def field_at_Some image_iff) (metis)
    with ix r None show thesis
      by (intro that [of "if ok then Some p else None" "if ok then p # t else t"])
        (simp_all add: tsearch_def split: if_splits)
  qed
qed

lemma tdelete_index:
  assumes ix: "index_ok h A t" and c: "h p = Some c"
  obtains t' where "tdelete (cmp_at cmp h c) t = Some t'" "index_ok h A t'" "p \<notin> set t'" "set t' \<subseteq> set t"
proof -
  let ?t = "filter (\<lambda>q. field_at key h q \<noteq> Some (key c)) t"
  have "tdelete (cmp_at cmp h c) t = Some ?t"
    using ix by (intro tdelete_key) (auto simp: index_ok_def)
  moreover have "index_ok h A ?t" using ix by (auto simp: index_ok_def inj_on_def)
  ultimately show thesis using c by (intro that [of ?t]) (auto simp: field_at_Some)
qed

lemma tfind_absent:
  assumes "\<And>q. q \<in> set t \<Longrightarrow> h q \<noteq> None" and "\<And>q. q \<in> set t \<Longrightarrow> field_at key h q \<noteq> Some (key a)"
  shows "tfind (cmp_at cmp h a) t = Some None"
  using assms(2) by (simp add: tfind_key [OF assms(1)] find_None_iff)

end

end
