(* ===== verification/Rdv_Peer.thy ===== *)
theory Rdv_Peer
  imports Linked_List Search_Tree
begin

text \<open>
  The table of registered clients of the rendezvous server (\<^verbatim>\<open>rdvserver/peer.c\<close>,
  \<^verbatim>\<open>rdvserver/peer.h\<close>): the structures themselves, the doubly linked list \<open>clients\<close> with its
  counter, and the two search trees by public endpoint and by VPN address. The operations
  follow the C statement by statement; \<open>None\<close> is a fault (a read through a pointer that is
  not allocated). The strings kept for log messages are not modelled.
\<close>

section \<open>Data\<close>

record rdv_config =
  rc_verbose :: bool
  rc_debug :: bool
  rc_daemonize :: bool
  rc_dump :: bool
  rc_serverport :: u16
  max_clients :: int
  rc_pidfile :: "string option"

record rdv_client =
  cl_time :: int
  cl_clientaddr :: sockaddr_in
  cl_localaddr :: sockaddr_in
  cl_vpnIP :: u32
  cl_sockfd :: int
  cl_next :: "ptr option"
  cl_prev :: "ptr option"

abbreviation PEER_TIMEOUT :: int where
  "PEER_TIMEOUT \<equiv> 5"

record rdv_peers =
  cl_heap :: "rdv_client heap"
  clients :: "ptr option"
  n_clients :: int
  clients_address_root :: search_tree
  clients_vpn_root :: search_tree

text \<open>What the allocation calls of one operation return: \<^verbatim>\<open>malloc\<close>, and whether the node that
  \<^verbatim>\<open>tsearch\<close> may need for each of the three trees can be allocated.\<close>

record rdv_mem =
  rm_malloc :: allocator
  rm_tsearch_addr :: bool
  rm_tsearch_vpn :: bool
  rm_tsearch_sess :: bool

section \<open>Operations\<close>

definition compare_clients_addr :: "rdv_client \<Rightarrow> rdv_client \<Rightarrow> int" where
  "compare_clients_addr peer1 peer2 =
     (if sin_addr (cl_clientaddr peer1) < sin_addr (cl_clientaddr peer2) then -1
      else if sin_addr (cl_clientaddr peer1) = sin_addr (cl_clientaddr peer2) then
        (if sin_port (cl_clientaddr peer1) < sin_port (cl_clientaddr peer2) then -1
         else if sin_port (cl_clientaddr peer1) = sin_port (cl_clientaddr peer2) then 0
         else 1)
      else 1)"

definition compare_clients_vpn :: "rdv_client \<Rightarrow> rdv_client \<Rightarrow> int" where
  "compare_clients_vpn peer1 peer2 =
     (if cl_vpnIP peer1 < cl_vpnIP peer2 then -1
      else if cl_vpnIP peer1 = cl_vpnIP peer2 then 0
      else 1)"

definition new_client :: "int \<Rightarrow> int \<Rightarrow> u32 \<Rightarrow> u16 \<Rightarrow> u32 \<Rightarrow> u32 \<Rightarrow> u16 \<Rightarrow> rdv_client" where
  "new_client sockfd t clientIP clientPort vpnIP localIP localPort =
     \<lparr>cl_time = t,
      cl_clientaddr = \<lparr>sin_addr = clientIP, sin_port = clientPort\<rparr>,
      cl_localaddr = \<lparr>sin_addr = localIP, sin_port = localPort\<rparr>,
      cl_vpnIP = vpnIP, cl_sockfd = sockfd, cl_next = None, cl_prev = None\<rparr>"

abbreviation set_cl_next :: "rdv_client \<Rightarrow> ptr option \<Rightarrow> rdv_client" where
  "set_cl_next c x \<equiv> c\<lparr>cl_next := x\<rparr>"

abbreviation set_cl_prev :: "rdv_client \<Rightarrow> ptr option \<Rightarrow> rdv_client" where
  "set_cl_prev c x \<equiv> c\<lparr>cl_prev := x\<rparr>"

definition add_client :: "rdv_config \<Rightarrow> rdv_mem \<Rightarrow> int \<Rightarrow> int \<Rightarrow> u32 \<Rightarrow> u16 \<Rightarrow> u32 \<Rightarrow> u32 \<Rightarrow> u16
  \<Rightarrow> 'a rdv_peers_scheme \<Rightarrow> (ptr option \<times> 'a rdv_peers_scheme) option" where
  "add_client cfg mem sockfd t clientIP clientPort vpnIP localIP localPort s =
     (if max_clients cfg \<noteq> 0 \<and> n_clients s \<ge> max_clients cfg then Some (None, s)
      else case rm_malloc mem (allocated (cl_heap s)) of
        None \<Rightarrow> Some (None, s)
      | Some p \<Rightarrow>
          (let peer = new_client sockfd t clientIP clientPort vpnIP localIP localPort;
               h = (cl_heap s)(p \<mapsto> peer) in
           do {
             (slot1, addr_root) \<leftarrow> tsearch (cmp_at compare_clients_addr h peer)
                (rm_tsearch_addr mem) p (clients_address_root s);
             (case slot1 of
                None \<Rightarrow> Some (None, s\<lparr>cl_heap := h(p := None), clients_address_root := addr_root\<rparr>)
              | Some _ \<Rightarrow> do {
                  (slot2, vpn_root) \<leftarrow> tsearch (cmp_at compare_clients_vpn h peer)
                     (rm_tsearch_vpn mem) p (clients_vpn_root s);
                  (case slot2 of
                     None \<Rightarrow> do {
                       addr_root' \<leftarrow> tdelete (cmp_at compare_clients_addr h peer) addr_root;
                       Some (None, s\<lparr>cl_heap := h(p := None), clients_address_root := addr_root',
                                     clients_vpn_root := vpn_root\<rparr>)
                     }
                   | Some _ \<Rightarrow> do {
                       (h', head) \<leftarrow> link_head set_cl_next set_cl_prev h (clients s) p;
                       Some (Some p, s\<lparr>cl_heap := h', clients := head,
                                       n_clients := n_clients s + 1,
                                       clients_address_root := addr_root,
                                       clients_vpn_root := vpn_root\<rparr>)
                     })
                })
           }))"

definition remove_client :: "ptr \<Rightarrow> 'a rdv_peers_scheme \<Rightarrow> 'a rdv_peers_scheme option" where
  "remove_client p s =
     do {
       (h, head) \<leftarrow> unlink_node cl_next cl_prev set_cl_next set_cl_prev (cl_heap s) (clients s) p;
       peer \<leftarrow> h p;
       addr_root \<leftarrow> tdelete (cmp_at compare_clients_addr h peer) (clients_address_root s);
       vpn_root \<leftarrow> tdelete (cmp_at compare_clients_vpn h peer) (clients_vpn_root s);
       Some (s\<lparr>cl_heap := h(p := None), clients := head, clients_address_root := addr_root,
               clients_vpn_root := vpn_root, n_clients := n_clients s - 1\<rparr>)
     }"

text \<open>The searched item: only the key fields are set in the C, the others are never read.\<close>

definition get_client_VPN :: "u32 \<Rightarrow> 'a rdv_peers_scheme \<Rightarrow> ptr option option" where
  "get_client_VPN address s =
     (let peer_tmp = new_client 0 0 0 0 address 0 0
      in tfind (cmp_at compare_clients_vpn (cl_heap s) peer_tmp) (clients_vpn_root s))"

definition get_client_real :: "sockaddr_in \<Rightarrow> 'a rdv_peers_scheme \<Rightarrow> ptr option option" where
  "get_client_real cl_address s =
     (let peer_tmp = new_client 0 0 (sin_addr cl_address) (sin_port cl_address) 0 0 0
      in tfind (cmp_at compare_clients_addr (cl_heap s) peer_tmp) (clients_address_root s))"

definition client_update_time :: "int \<Rightarrow> ptr \<Rightarrow> 'a rdv_peers_scheme \<Rightarrow> 'a rdv_peers_scheme option" where
  "client_update_time now p s =
     do { peer \<leftarrow> cl_heap s p;
          Some (s\<lparr>cl_heap := (cl_heap s)(p \<mapsto> peer\<lparr>cl_time := now\<rparr>)\<rparr>) }"

definition client_is_timeout :: "int \<Rightarrow> ptr \<Rightarrow> 'a rdv_peers_scheme \<Rightarrow> bool option" where
  "client_is_timeout now p s = do { peer \<leftarrow> cl_heap s p; Some (now - cl_time peer > PEER_TIMEOUT) }"

definition client_is_dead :: "int \<Rightarrow> ptr \<Rightarrow> 'a rdv_peers_scheme \<Rightarrow> bool option" where
  "client_is_dead now p s = do { peer \<leftarrow> cl_heap s p; Some (now - cl_time peer > 2 * PEER_TIMEOUT) }"

section \<open>Interfaces\<close>

definition cl_payload :: "rdv_client \<Rightarrow> rdv_client" where
  "cl_payload c = c\<lparr>cl_next := None, cl_prev := None\<rparr>"

definition cl_endpoint :: "rdv_client \<Rightarrow> u32 \<times> u16" where
  "cl_endpoint c = (sin_addr (cl_clientaddr c), sin_port (cl_clientaddr c))"

lemma cl_payload_fields [simp]:
  "cl_endpoint (cl_payload c) = cl_endpoint c" "cl_vpnIP (cl_payload c) = cl_vpnIP c"
  "cl_time (cl_payload c) = cl_time c" "cl_clientaddr (cl_payload c) = cl_clientaddr c"
  "cl_localaddr (cl_payload c) = cl_localaddr c"
  by (simp_all add: cl_payload_def cl_endpoint_def)

interpretation client_links: linked_node cl_next cl_prev set_cl_next set_cl_prev cl_payload
  by unfold_locales (simp_all add: cl_payload_def)

interpretation by_addr: key_compare compare_clients_addr cl_endpoint
  by unfold_locales (auto simp: compare_clients_addr_def cl_endpoint_def)

interpretation by_vpn: key_compare compare_clients_vpn cl_vpnIP
  by unfold_locales (auto simp: compare_clients_vpn_def)

section \<open>The invariant of the client table\<close>

text \<open>The content of a client table: what each pointer refers to, links aside.\<close>

abbreviation cl_view :: "'a rdv_peers_scheme \<Rightarrow> ptr \<Rightarrow> rdv_client option" where
  "cl_view s \<equiv> field_at cl_payload (cl_heap s)"

text \<open>\<open>peers_wf ps s\<close>: the list holds the clients \<open>ps\<close>, which are exactly the allocated
  structures; the counter counts them; the endpoint index holds each of them once under its
  own endpoint; the VPN index holds some of them, under pairwise different addresses.\<close>

definition peers_wf :: "ptr list \<Rightarrow> 'a rdv_peers_scheme \<Rightarrow> bool" where
  "peers_wf ps s \<longleftrightarrow>
     dlist cl_next cl_prev (cl_heap s) (clients s) ps \<and> distinct ps \<and>
     (\<forall>p. cl_heap s p \<noteq> None \<longleftrightarrow> p \<in> set ps) \<and>
     n_clients s = int (length ps) \<and>
     set (clients_address_root s) = set ps \<and> distinct (clients_address_root s) \<and>
     inj_on (field_at cl_endpoint (cl_heap s)) (set ps) \<and>
     set (clients_vpn_root s) \<subseteq> set ps \<and> distinct (clients_vpn_root s) \<and>
     inj_on (field_at cl_vpnIP (cl_heap s)) (set (clients_vpn_root s))"

definition peers_inv :: "'a rdv_peers_scheme \<Rightarrow> bool" where
  "peers_inv s \<longleftrightarrow> (\<exists>ps. peers_wf ps s)"

definition init_peers :: "rdv_peers" where
  "init_peers = \<lparr>cl_heap = (\<lambda>_. None), clients = None, n_clients = 0,
                 clients_address_root = [], clients_vpn_root = []\<rparr>"

lemma peers_wf_init: "peers_wf [] init_peers"
  by (simp add: peers_wf_def init_peers_def)

lemma peers_wf_allocated: "peers_wf ps s \<Longrightarrow> cl_heap s p \<noteq> None \<longleftrightarrow> p \<in> set ps"
  by (simp add: peers_wf_def)

lemma peers_wf_roots:
  assumes "peers_wf ps s"
  shows "q \<in> set (clients_address_root s) \<longleftrightarrow> cl_heap s q \<noteq> None"
    and "q \<in> set (clients_vpn_root s) \<Longrightarrow> cl_heap s q \<noteq> None"
  using assms by (auto simp: peers_wf_def)

lemma payload_key:
  assumes "field_at cl_payload h p = field_at cl_payload h' q"
  shows "field_at cl_endpoint h p = field_at cl_endpoint h' q"
    and "field_at cl_vpnIP h p = field_at cl_vpnIP h' q"
    and "field_at cl_time h p = field_at cl_time h' q"
  using field_at_cong [OF assms, of cl_endpoint cl_endpoint]
    field_at_cong [OF assms, of cl_vpnIP cl_vpnIP] field_at_cong [OF assms, of cl_time cl_time]
  by (simp_all add: cl_endpoint_def cl_payload_def)

section \<open>What the operations do\<close>

text \<open>The lookups are the inverse of the two key functions on the indexed clients.\<close>

lemma get_client_real_spec:
  assumes wf: "peers_wf ps s"
  obtains r where "get_client_real a s = Some r"
    and "\<And>p. r = Some p \<longleftrightarrow> field_at cl_endpoint (cl_heap s) p = Some (sin_addr a, sin_port a)"
proof -
  let ?k = "(sin_addr a, sin_port a)"
  let ?P = "\<lambda>q. field_at cl_endpoint (cl_heap s) q = Some ?k"
  have key: "cl_endpoint (new_client 0 0 (sin_addr a) (sin_port a) 0 0 0) = ?k"
    by (simp add: cl_endpoint_def new_client_def)
  have inj: "inj_on (field_at cl_endpoint (cl_heap s)) (set (clients_address_root s))"
    using wf by (simp add: peers_wf_def)
  have "get_client_real a s = Some (find ?P (clients_address_root s))"
    unfolding get_client_real_def Let_def
    by (subst by_addr.tfind_key) (use wf in \<open>simp_all add: peers_wf_roots [OF wf] key\<close>)
  moreover have "find ?P (clients_address_root s) = Some p \<longleftrightarrow> ?P p" for p
  proof
    assume P: "?P p"
    then have "p \<in> set (clients_address_root s)" by (auto simp: peers_wf_roots(1) [OF wf] elim: field_at_SomeE)
    then show "find ?P (clients_address_root s) = Some p"
      using P inj by (rule by_addr.find_eq_SomeI)
  qed (metis by_addr.find_SomeD)
  ultimately show thesis by (rule that)
qed

lemma get_client_VPN_spec:
  assumes wf: "peers_wf ps s"
  obtains r where "get_client_VPN a s = Some r"
    and "\<And>p. r = Some p \<longleftrightarrow> p \<in> set (clients_vpn_root s) \<and> field_at cl_vpnIP (cl_heap s) p = Some a"
proof -
  let ?P = "\<lambda>q. field_at cl_vpnIP (cl_heap s) q = Some a"
  have key: "cl_vpnIP (new_client 0 0 0 0 a 0 0) = a"
    by (simp add: new_client_def)
  have inj: "inj_on (field_at cl_vpnIP (cl_heap s)) (set (clients_vpn_root s))"
    using wf by (simp add: peers_wf_def)
  have "get_client_VPN a s = Some (find ?P (clients_vpn_root s))"
    unfolding get_client_VPN_def Let_def
    by (subst by_vpn.tfind_key) (use wf in \<open>simp_all add: peers_wf_roots [OF wf] key\<close>)
  moreover have "find ?P (clients_vpn_root s) = Some p \<longleftrightarrow> p \<in> set (clients_vpn_root s) \<and> ?P p" for p
  proof
    assume "p \<in> set (clients_vpn_root s) \<and> ?P p"
    then show "find ?P (clients_vpn_root s) = Some p"
      using inj by (metis by_vpn.find_eq_SomeI)
  qed (metis by_vpn.find_SomeD)
  ultimately show thesis by (rule that)
qed

text \<open>A client structure that is not yet in the table.\<close>

lemma tsearch_addr_fresh:
  assumes wf: "peers_wf ps s" and fresh: "cl_heap s p = None"
    and new: "\<And>q. field_at cl_endpoint (cl_heap s) q \<noteq> Some (cl_endpoint c)"
  shows "tsearch (cmp_at compare_clients_addr ((cl_heap s)(p \<mapsto> c)) c) ok p (clients_address_root s) =
    Some (if ok then (Some p, p # clients_address_root s) else (None, clients_address_root s))"
proof -
  have p: "p \<notin> set (clients_address_root s)"
    using fresh by (simp add: peers_wf_roots(1) [OF wf])
  have "tfind (cmp_at compare_clients_addr ((cl_heap s)(p \<mapsto> c)) c) (clients_address_root s) =
    Some (find (\<lambda>q. field_at cl_endpoint ((cl_heap s)(p \<mapsto> c)) q = Some (cl_endpoint c))
      (clients_address_root s))"
    by (rule by_addr.tfind_key) (simp add: peers_wf_roots(1) [OF wf])
  also have "\<dots> = Some None"
    using p new by (auto simp: find_None_iff)
  finally show ?thesis by (simp add: tsearch_def)
qed

lemma tdelete_addr_fresh:
  assumes wf: "peers_wf ps s" and fresh: "cl_heap s p = None"
    and new: "\<And>q. field_at cl_endpoint (cl_heap s) q \<noteq> Some (cl_endpoint c)"
  shows "tdelete (cmp_at compare_clients_addr ((cl_heap s)(p \<mapsto> c)) c) (p # clients_address_root s) =
    Some (clients_address_root s)"
  by (simp add: by_addr.cmp_zero)

lemma tsearch_vpn_fresh:
  assumes wf: "peers_wf ps s" and fresh: "cl_heap s p = None"
  obtains q where "field_at cl_vpnIP (cl_heap s) q = Some (cl_vpnIP c)" "q \<in> set (clients_vpn_root s)"
    "tsearch (cmp_at compare_clients_vpn ((cl_heap s)(p \<mapsto> c)) c) ok p (clients_vpn_root s) =
       Some (Some q, clients_vpn_root s)"
  | "\<And>q. q \<in> set (clients_vpn_root s) \<Longrightarrow> field_at cl_vpnIP (cl_heap s) q \<noteq> Some (cl_vpnIP c)"
    "tsearch (cmp_at compare_clients_vpn ((cl_heap s)(p \<mapsto> c)) c) ok p (clients_vpn_root s) =
       Some (if ok then (Some p, p # clients_vpn_root s) else (None, clients_vpn_root s))"
proof -
  let ?h = "(cl_heap s)(p \<mapsto> c)"
  let ?f = "find (\<lambda>q. field_at cl_vpnIP ?h q = Some (cl_vpnIP c)) (clients_vpn_root s)"
  have p: "p \<notin> set (clients_vpn_root s)"
    using fresh peers_wf_roots(2) [OF wf, of p] by auto
  have t: "tfind (cmp_at compare_clients_vpn ?h c) (clients_vpn_root s) = Some ?f"
    by (rule by_vpn.tfind_key) (use peers_wf_roots(2) [OF wf] in auto)
  show thesis
  proof (cases ?f)
    case None
    then have "\<And>q. q \<in> set (clients_vpn_root s) \<Longrightarrow> field_at cl_vpnIP ?h q \<noteq> Some (cl_vpnIP c)"
      by (metis (mono_tags, lifting) find_None_iff)
    with p have "\<And>q. q \<in> set (clients_vpn_root s) \<Longrightarrow> field_at cl_vpnIP (cl_heap s) q \<noteq> Some (cl_vpnIP c)"
      by (metis field_at_upd)
    with t None show thesis by (intro that(2)) (simp_all add: tsearch_def)
  next
    case (Some q)
    then have "q \<in> set (clients_vpn_root s)" "field_at cl_vpnIP ?h q = Some (cl_vpnIP c)"
      using by_vpn.find_SomeD by blast+
    moreover from this p have "field_at cl_vpnIP (cl_heap s) q = Some (cl_vpnIP c)"
      by (metis field_at_upd)
    ultimately show thesis using t Some by (intro that(1)) (simp_all add: tsearch_def)
  qed
qed

text \<open>Linking the new client keeps the invariant.\<close>

lemma peers_wf_link:
  assumes wf: "peers_wf ps s" and fresh: "cl_heap s p = None"
    and new: "\<And>q. field_at cl_endpoint (cl_heap s) q \<noteq> Some (cl_endpoint c)"
    and vpn: "vpn_root = clients_vpn_root s \<or>
      vpn_root = p # clients_vpn_root s \<and>
      (\<forall>q \<in> set (clients_vpn_root s). field_at cl_vpnIP (cl_heap s) q \<noteq> Some (cl_vpnIP c))"
  obtains h' where "link_head set_cl_next set_cl_prev ((cl_heap s)(p \<mapsto> c)) (clients s) p = Some (h', Some p)"
    and "\<And>q. field_at cl_payload h' q = field_at cl_payload ((cl_heap s)(p \<mapsto> c)) q"
    and "peers_wf (p # ps) (s\<lparr>cl_heap := h', clients := Some p, n_clients := n_clients s + 1,
            clients_address_root := p # clients_address_root s, clients_vpn_root := vpn_root\<rparr>)"
proof -
  let ?h = "(cl_heap s)(p \<mapsto> c)"
  have p: "p \<notin> set ps" using fresh peers_wf_allocated [OF wf, of p] by simp
  have l: "dlist cl_next cl_prev ?h (clients s) ps" and d: "distinct ps"
    using wf p by (simp_all add: peers_wf_def dlseg_update_other)
  obtain h' where h': "link_head set_cl_next set_cl_prev ?h (clients s) p = Some (h', Some p)"
    and l': "dlist cl_next cl_prev h' (Some p) (p # ps)"
    and pay: "\<And>q. field_at cl_payload h' q = field_at cl_payload ?h q"
    by (rule client_links.link_head_list [OF l p _ d]) auto
  note ep = payload_key(1) [OF pay] and vp = payload_key(2) [OF pay]
  have alloc: "\<And>q. h' q \<noteq> None \<longleftrightarrow> q \<in> set (p # ps)"
    using field_at_alloc [OF pay] peers_wf_allocated [OF wf] by simp
  have "inj_on (field_at cl_endpoint h') (set (p # ps))"
    unfolding ep list.set by (rule inj_field_insert) (use wf new p in \<open>auto simp: peers_wf_def\<close>)
  moreover have "inj_on (field_at cl_vpnIP h') (set vpn_root)"
    using vpn
  proof (elim disjE conjE)
    assume "vpn_root = clients_vpn_root s"
    moreover have "p \<notin> set (clients_vpn_root s)" using wf p by (auto simp: peers_wf_def)
    ultimately show ?thesis unfolding vp using wf
      by (auto simp: peers_wf_def inj_on_def)
  next
    assume v: "vpn_root = p # clients_vpn_root s"
      and n: "\<forall>q \<in> set (clients_vpn_root s). field_at cl_vpnIP (cl_heap s) q \<noteq> Some (cl_vpnIP c)"
    have "p \<notin> set (clients_vpn_root s)" using wf p by (auto simp: peers_wf_def)
    then show ?thesis unfolding vp v list.set
      by (intro inj_field_insert) (use wf n in \<open>auto simp: peers_wf_def\<close>)
  qed
  ultimately have "peers_wf (p # ps) (s\<lparr>cl_heap := h', clients := Some p, n_clients := n_clients s + 1,
            clients_address_root := p # clients_address_root s, clients_vpn_root := vpn_root\<rparr>)"
    using wf l' alloc p d vpn by (auto simp: peers_wf_def simp del: dlseg.simps)
  then show thesis by (rule that [OF h' pay])
qed

text \<open>The table has no room left or one of the three allocations fails.\<close>

definition registration_fails :: "rdv_config \<Rightarrow> rdv_mem \<Rightarrow> 'a rdv_peers_scheme \<Rightarrow> bool" where
  "registration_fails cfg mem s \<longleftrightarrow>
     max_clients cfg \<noteq> 0 \<and> n_clients s \<ge> max_clients cfg \<or>
     rm_malloc mem (allocated (cl_heap s)) = None \<or> \<not> rm_tsearch_addr mem \<or> \<not> rm_tsearch_vpn mem"

text \<open>Registering a client under an endpoint that is not in use. Either the table is full or
  an allocation fails, and nothing changes; or the client is in front of the list, counted and
  indexed by its endpoint. It is indexed by its VPN address only when no indexed client has
  that address already.\<close>

lemma add_client_spec:
  assumes wf: "peers_wf ps s" and fr: "malloc_fresh (rm_malloc mem)"
    and new: "\<And>q. field_at cl_endpoint (cl_heap s) q \<noteq> Some (cIP, cPort)"
    and c_def: "c = new_client sockfd t cIP cPort vpnIP lIP lPort"
  obtains (full) "add_client cfg mem sockfd t cIP cPort vpnIP lIP lPort s = Some (None, s)"
      "registration_fails cfg mem s"
  | (added) p s' where
      "add_client cfg mem sockfd t cIP cPort vpnIP lIP lPort s = Some (Some p, s')"
      "max_clients cfg = 0 \<or> n_clients s < max_clients cfg"
      "rm_malloc mem (allocated (cl_heap s)) = Some p"
      "p \<notin> set ps" "peers_wf (p # ps) s'" "cl_view s' = (cl_view s)(p \<mapsto> c)"
      "n_clients s' = n_clients s + 1"
      "clients_vpn_root s' =
         (if \<exists>q \<in> set (clients_vpn_root s). field_at cl_vpnIP (cl_heap s) q = Some vpnIP
          then clients_vpn_root s else p # clients_vpn_root s)"
      "rdv_peers.more s' = rdv_peers.more s"
proof (cases "(max_clients cfg \<noteq> 0 \<and> n_clients s \<ge> max_clients cfg) \<or>
    rm_malloc mem (allocated (cl_heap s)) = None")
  case True
  then show thesis by (intro full) (auto simp: add_client_def registration_fails_def)
next
  case False
  then obtain p where room: "max_clients cfg = 0 \<or> n_clients s < max_clients cfg"
    and m: "rm_malloc mem (allocated (cl_heap s)) = Some p"
    by auto
  have p: "cl_heap s p = None" using malloc_freshD [OF fr m] by simp
  then have ps: "p \<notin> set ps" using peers_wf_allocated [OF wf, of p] by simp
  have new': "\<And>q. field_at cl_endpoint (cl_heap s) q \<noteq> Some (cl_endpoint c)"
    and cv: "cl_vpnIP c = vpnIP" and cp: "cl_payload c = c"
    using new by (auto simp: c_def new_client_def cl_endpoint_def cl_payload_def)
  note s1 = tsearch_addr_fresh [OF wf p new', of "rm_tsearch_addr mem"]
  note start = add_client_def [of cfg mem sockfd t cIP cPort vpnIP lIP lPort s, folded c_def]
  have undo: "(cl_heap s)(p := None) = cl_heap s" using p by (simp add: fun_upd_idem)
  show thesis
  proof (cases "rm_tsearch_addr mem")
    case False
    with s1 room m undo show thesis by (intro full) (auto simp: start registration_fails_def)
  next
    case True
    note s1 = s1 [unfolded if_P [OF True]]
    obtain r root where s2: "tsearch (cmp_at compare_clients_vpn ((cl_heap s)(p \<mapsto> c)) c)
        (rm_tsearch_vpn mem) p (clients_vpn_root s) = Some (r, root)"
      and r: "r = None \<and> \<not> rm_tsearch_vpn mem \<and> root = clients_vpn_root s \<or>
        (\<exists>q. r = Some q) \<and> root = (if \<exists>q \<in> set (clients_vpn_root s). field_at cl_vpnIP (cl_heap s) q = Some vpnIP
          then clients_vpn_root s else p # clients_vpn_root s)"
    proof (rule tsearch_vpn_fresh [OF wf p, of c "rm_tsearch_vpn mem"], goal_cases)
      case (1 q)
      then have "\<exists>q \<in> set (clients_vpn_root s). field_at cl_vpnIP (cl_heap s) q = Some vpnIP"
        by (auto simp: cv)
      with 1(4) show ?case by (intro 1(1)) auto
    next
      case 2
      then have "\<not> (\<exists>q \<in> set (clients_vpn_root s). field_at cl_vpnIP (cl_heap s) q = Some vpnIP)"
        by (auto simp: cv)
      with 2(3) show ?case by (cases "rm_tsearch_vpn mem") (intro 2(1), auto)+
    qed
    show thesis
    proof (cases r)
      case None
      with s1 s2 r room m undo tdelete_addr_fresh [OF wf p new'] show thesis
        by (intro full) (auto simp: start registration_fails_def)
    next
      case (Some q)
      with r have root: "root = clients_vpn_root s \<or> root = p # clients_vpn_root s \<and>
          (\<forall>q \<in> set (clients_vpn_root s). field_at cl_vpnIP (cl_heap s) q \<noteq> Some (cl_vpnIP c))"
        by (auto simp: cv)
      obtain h' where h': "link_head set_cl_next set_cl_prev ((cl_heap s)(p \<mapsto> c)) (clients s) p = Some (h', Some p)"
        and pay: "\<And>q. field_at cl_payload h' q = field_at cl_payload ((cl_heap s)(p \<mapsto> c)) q"
        and wf': "peers_wf (p # ps) (s\<lparr>cl_heap := h', clients := Some p, n_clients := n_clients s + 1,
            clients_address_root := p # clients_address_root s, clients_vpn_root := root\<rparr>)"
        using peers_wf_link [OF wf p new' root] by blast
      have "cl_view (s\<lparr>cl_heap := h', clients := Some p, n_clients := n_clients s + 1,
            clients_address_root := p # clients_address_root s, clients_vpn_root := root\<rparr>) =
          (cl_view s)(p \<mapsto> c)"
        using cp by (auto simp: pay fun_eq_iff)
      with s1 s2 r Some room m h' wf' ps show thesis
        by (intro added [of p "s\<lparr>cl_heap := h', clients := Some p, n_clients := n_clients s + 1,
            clients_address_root := p # clients_address_root s, clients_vpn_root := root\<rparr>"])
          (auto simp: start)
    qed
  qed
qed

text \<open>Removing a registered client takes it, and only it, out of the list and the endpoint
  index; the VPN index loses the entry that has its VPN address.\<close>

lemma remove_client_spec:
  assumes wf: "peers_wf ps s" and p: "p \<in> set ps"
  obtains s' where "remove_client p s = Some s'" "peers_wf (remove1 p ps) s'"
    "cl_view s' = (cl_view s)(p := None)" "n_clients s' = n_clients s - 1"
    "clients_vpn_root s' =
       filter (\<lambda>q. field_at cl_vpnIP (cl_heap s) q \<noteq> field_at cl_vpnIP (cl_heap s) p) (clients_vpn_root s)"
    "rdv_peers.more s' = rdv_peers.more s"
proof -
  from wf have l: "dlist cl_next cl_prev (cl_heap s) (clients s) ps" and d: "distinct ps"
    by (auto simp: peers_wf_def)
  obtain h x where u: "unlink_node cl_next cl_prev set_cl_next set_cl_prev (cl_heap s) (clients s) p = Some (h, x)"
    and l': "dlist cl_next cl_prev h x (remove1 p ps)"
    and pay: "\<And>q. field_at cl_payload h q = field_at cl_payload (cl_heap s) q"
    using client_links.unlink_node_list [OF l d p] by blast
  note ep = payload_key(1) [OF pay] and vp = payload_key(2) [OF pay]
  have alloc: "h q \<noteq> None \<longleftrightarrow> q \<in> set ps" for q
    using field_at_alloc [OF pay [of q]] peers_wf_allocated [OF wf, of q] by simp
  with p obtain c where c: "h p = Some c" by blast
  have injA: "inj_on (field_at cl_endpoint h) (set (clients_address_root s))"
    and injV: "inj_on (field_at cl_vpnIP h) (set (clients_vpn_root s))"
    using wf by (auto simp: peers_wf_def inj_on_def ep vp)
  let ?A = "filter (\<lambda>q. field_at cl_endpoint h q \<noteq> Some (cl_endpoint c)) (clients_address_root s)"
  let ?V = "filter (\<lambda>q. field_at cl_vpnIP h q \<noteq> Some (cl_vpnIP c)) (clients_vpn_root s)"
  have tA: "tdelete (cmp_at compare_clients_addr h c) (clients_address_root s) = Some ?A"
    by (rule by_addr.tdelete_key [OF _ injA]) (use wf alloc in \<open>auto simp: peers_wf_def\<close>)
  have tV: "tdelete (cmp_at compare_clients_vpn h c) (clients_vpn_root s) = Some ?V"
    by (rule by_vpn.tdelete_key [OF _ injV]) (use wf alloc in \<open>auto simp: peers_wf_def\<close>)
  let ?s' = "s\<lparr>cl_heap := h(p := None), clients := x, clients_address_root := ?A,
               clients_vpn_root := ?V, n_clients := n_clients s - 1\<rparr>"
  have r: "remove_client p s = Some ?s'"
    using u c tA tV by (simp add: remove_client_def)
  have cp: "field_at cl_endpoint h p = Some (cl_endpoint c)" "field_at cl_vpnIP h p = Some (cl_vpnIP c)"
    using c by (simp_all add: field_at_Some)
  have A: "set ?A = set ps - {p}"
    using wf p injA cp by (auto simp: peers_wf_def inj_on_def)
  have V: "p \<notin> set ?V" using cp by simp
  have "peers_wf (remove1 p ps) ?s'"
    unfolding peers_wf_def
  proof (intro conjI)
    show "dlist cl_next cl_prev (cl_heap ?s') (clients ?s') (remove1 p ps)"
      using l' d by (simp add: dlseg_update_other)
    show "inj_on (field_at cl_endpoint (cl_heap ?s')) (set (remove1 p ps))"
      using wf ep d by (auto simp: peers_wf_def inj_on_def)
    show "inj_on (field_at cl_vpnIP (cl_heap ?s')) (set (clients_vpn_root ?s'))"
      using injV V by (auto simp: inj_on_def)
    show "set (clients_vpn_root ?s') \<subseteq> set (remove1 p ps)"
      using wf V d by (auto simp: peers_wf_def)
    show "n_clients ?s' = int (length (remove1 p ps))"
      using wf p length_pos_if_in_set [OF p]
      by (simp add: peers_wf_def length_remove1 del: length_greater_0_conv)
  qed (use wf alloc A d in \<open>auto simp: peers_wf_def\<close>)
  moreover have "field_at cl_vpnIP (cl_heap s) p = Some (cl_vpnIP c)" using cp(2) vp by simp
  ultimately show thesis
    by (intro that [OF r]) (auto simp: pay fun_eq_iff vp)
qed

end
