(* ===== verification/Rdv_Session.thy ===== *)
theory Rdv_Session
  imports Rdv_Peer
begin

text \<open>
  The connection requests the rendezvous server keeps (\<^verbatim>\<open>rdvserver/session.c\<close>,
  \<^verbatim>\<open>rdvserver/session.h\<close>). A session holds the pointers of its two clients, so the invariant
  says that both are allocated: this is what the order ``sessions first, then the client'' of
  the callers is for. The log calls of the C read \<^verbatim>\<open>peer1->vpnIP_string\<close> and
  \<^verbatim>\<open>peer2->vpnIP_string\<close>; those two reads are part of the operations.
\<close>

section \<open>Data\<close>

record rdv_session =
  se_peer1 :: ptr
  se_peer2 :: ptr
  se_time :: int
  se_next :: "ptr option"
  se_prev :: "ptr option"

record rdv_tables = rdv_peers +
  se_heap :: "rdv_session heap"
  sessions :: "ptr option"
  sessions_root :: search_tree

abbreviation set_se_next :: "rdv_session \<Rightarrow> ptr option \<Rightarrow> rdv_session" where
  "set_se_next c x \<equiv> c\<lparr>se_next := x\<rparr>"

abbreviation set_se_prev :: "rdv_session \<Rightarrow> ptr option \<Rightarrow> rdv_session" where
  "set_se_prev c x \<equiv> c\<lparr>se_prev := x\<rparr>"

section \<open>Operations\<close>

definition compare_sessions :: "rdv_session \<Rightarrow> rdv_session \<Rightarrow> int" where
  "compare_sessions sess1 sess2 =
     (if se_peer1 sess1 < se_peer1 sess2 then -1
      else if se_peer1 sess1 = se_peer1 sess2 then
        (if se_peer2 sess1 < se_peer2 sess2 then -1
         else if se_peer2 sess1 = se_peer2 sess2 then 0
         else 1)
      else 1)"

definition new_session :: "ptr \<Rightarrow> ptr \<Rightarrow> int \<Rightarrow> rdv_session" where
  "new_session peer1 peer2 t =
     \<lparr>se_peer1 = peer1, se_peer2 = peer2, se_time = t, se_next = None, se_prev = None\<rparr>"

definition add_session :: "rdv_mem \<Rightarrow> ptr \<Rightarrow> ptr \<Rightarrow> int \<Rightarrow> 'a rdv_tables_scheme \<Rightarrow>
  (ptr option \<times> 'a rdv_tables_scheme) option" where
  "add_session mem peer1 peer2 t s =
     (case rm_malloc mem (allocated (se_heap s)) of
        None \<Rightarrow> Some (None, s)
      | Some q \<Rightarrow>
          (let sess = new_session peer1 peer2 t; h = (se_heap s)(q \<mapsto> sess) in
           do {
             (slot, root) \<leftarrow> tsearch (cmp_at compare_sessions h sess) (rm_tsearch_sess mem) q
                (sessions_root s);
             (case slot of
                None \<Rightarrow> Some (None, s\<lparr>se_heap := h(q := None), sessions_root := root\<rparr>)
              | Some _ \<Rightarrow> do {
                  _ \<leftarrow> cl_heap s peer1;
                  _ \<leftarrow> cl_heap s peer2;
                  (h', head) \<leftarrow> link_head set_se_next set_se_prev h (sessions s) q;
                  Some (Some q, s\<lparr>se_heap := h', sessions := head, sessions_root := root\<rparr>)
                })
           }))"

definition remove_session :: "ptr \<Rightarrow> 'a rdv_tables_scheme \<Rightarrow> 'a rdv_tables_scheme option" where
  "remove_session q s =
     do {
       sess \<leftarrow> se_heap s q;
       _ \<leftarrow> cl_heap s (se_peer1 sess);
       _ \<leftarrow> cl_heap s (se_peer2 sess);
       (h, head) \<leftarrow> unlink_node se_next se_prev set_se_next set_se_prev (se_heap s) (sessions s) q;
       sess' \<leftarrow> h q;
       root \<leftarrow> tdelete (cmp_at compare_sessions h sess') (sessions_root s);
       Some (s\<lparr>se_heap := h(q := None), sessions := head, sessions_root := root\<rparr>)
     }"

definition get_session :: "ptr \<Rightarrow> ptr \<Rightarrow> 'a rdv_tables_scheme \<Rightarrow> ptr option option" where
  "get_session peer1 peer2 s =
     tfind (cmp_at compare_sessions (se_heap s) (new_session peer1 peer2 0)) (sessions_root s)"

definition session_update_time :: "int \<Rightarrow> ptr \<Rightarrow> 'a rdv_tables_scheme \<Rightarrow> 'a rdv_tables_scheme option" where
  "session_update_time now q s =
     do { sess \<leftarrow> se_heap s q;
          Some (s\<lparr>se_heap := (se_heap s)(q \<mapsto> sess\<lparr>se_time := now\<rparr>)\<rparr>) }"

text \<open>The walk over the session list: the successor is read before the session can be freed.\<close>

partial_function (option) remove_sessions_from ::
  "ptr \<Rightarrow> ptr option \<Rightarrow> 'a rdv_tables_scheme \<Rightarrow> 'a rdv_tables_scheme option" where
  "remove_sessions_from peer sess s =
     (case sess of
        None \<Rightarrow> Some s
      | Some q \<Rightarrow> do {
          v \<leftarrow> se_heap s q;
          s' \<leftarrow> (if se_peer1 v = peer \<or> se_peer2 v = peer then remove_session q s else Some s);
          remove_sessions_from peer (se_next v) s'
        })"

definition remove_sessions_with_client :: "ptr \<Rightarrow> 'a rdv_tables_scheme \<Rightarrow> 'a rdv_tables_scheme option" where
  "remove_sessions_with_client peer s = remove_sessions_from peer (sessions s) s"

section \<open>Interfaces\<close>

definition se_payload :: "rdv_session \<Rightarrow> rdv_session" where
  "se_payload c = c\<lparr>se_next := None, se_prev := None\<rparr>"

definition se_pair :: "rdv_session \<Rightarrow> ptr \<times> ptr" where
  "se_pair c = (se_peer1 c, se_peer2 c)"

interpretation session_links: linked_node se_next se_prev set_se_next set_se_prev se_payload
  by unfold_locales (simp_all add: se_payload_def)

interpretation by_pair: key_compare compare_sessions se_pair
  by unfold_locales (auto simp: compare_sessions_def se_pair_def)

section \<open>The invariant of the session table\<close>

abbreviation se_view :: "'a rdv_tables_scheme \<Rightarrow> ptr \<Rightarrow> rdv_session option" where
  "se_view s \<equiv> field_at se_payload (se_heap s)"

text \<open>\<open>sessions_wf ss s\<close>: the list holds the sessions \<open>ss\<close>, which are exactly the allocated
  ones, and the index holds each of them once under its ordered pair of clients.\<close>

definition sessions_wf :: "ptr list \<Rightarrow> 'a rdv_tables_scheme \<Rightarrow> bool" where
  "sessions_wf ss s \<longleftrightarrow>
     dlist se_next se_prev (se_heap s) (sessions s) ss \<and> distinct ss \<and>
     (\<forall>q. se_heap s q \<noteq> None \<longleftrightarrow> q \<in> set ss) \<and>
     set (sessions_root s) = set ss \<and> distinct (sessions_root s) \<and>
     inj_on (field_at se_pair (se_heap s)) (set ss)"

text \<open>The clients of every session are allocated.\<close>

definition peers_live :: "'a rdv_tables_scheme \<Rightarrow> bool" where
  "peers_live s \<longleftrightarrow>
     (\<forall>q a b. field_at se_pair (se_heap s) q = Some (a, b) \<longrightarrow>
        cl_heap s a \<noteq> None \<and> cl_heap s b \<noteq> None)"

text \<open>There is never a session and the session of the opposite direction.\<close>

definition one_direction :: "'a rdv_tables_scheme \<Rightarrow> bool" where
  "one_direction s \<longleftrightarrow>
     (\<forall>q r a b. field_at se_pair (se_heap s) q = Some (a, b) \<longrightarrow>
        field_at se_pair (se_heap s) r = Some (b, a) \<longrightarrow> a = b)"

lemma se_payload_pair:
  assumes "field_at se_payload h p = field_at se_payload h' q"
  shows "field_at se_pair h p = field_at se_pair h' q"
  using field_at_cong [OF assms, of se_pair se_pair] by (simp add: se_pair_def se_payload_def)

lemma sessions_wf_allocated: "sessions_wf ss s \<Longrightarrow> se_heap s q \<noteq> None \<longleftrightarrow> q \<in> set ss"
  by (simp add: sessions_wf_def)

lemma sessions_wf_root: "sessions_wf ss s \<Longrightarrow> q \<in> set (sessions_root s) \<longleftrightarrow> se_heap s q \<noteq> None"
  by (simp add: sessions_wf_def)

text \<open>The session operations leave the client table alone, the client operations leave the
  session table alone.\<close>

definition same_peers :: "'a rdv_tables_scheme \<Rightarrow> 'a rdv_tables_scheme \<Rightarrow> bool" where
  "same_peers s s' \<longleftrightarrow> rdv_peers.truncate s' = rdv_peers.truncate s \<and> rdv_tables.more s' = rdv_tables.more s"

lemma same_peersD:
  assumes "same_peers s s'"
  shows "cl_heap s' = cl_heap s" "clients s' = clients s" "n_clients s' = n_clients s"
    "clients_address_root s' = clients_address_root s" "clients_vpn_root s' = clients_vpn_root s"
    "rdv_tables.more s' = rdv_tables.more s" "peers_wf ps s' \<longleftrightarrow> peers_wf ps s"
  using assms by (auto simp: same_peers_def rdv_peers.truncate_def peers_wf_def)

lemma same_peers_refl [simp]: "same_peers s s"
  by (simp add: same_peers_def)

lemma same_peers_trans: "same_peers s t \<Longrightarrow> same_peers t u \<Longrightarrow> same_peers s u"
  by (simp add: same_peers_def)

lemma same_peers_upd [simp]:
  "same_peers s (s\<lparr>se_heap := h, sessions := x, sessions_root := t\<rparr>)"
  "same_peers s (s\<lparr>se_heap := h\<rparr>)"
  by (simp_all add: same_peers_def rdv_peers.truncate_def)

lemma peers_moreD:
  assumes "rdv_peers.more s' = rdv_peers.more (s :: 'a rdv_tables_scheme)"
  shows "se_heap s' = se_heap s" "sessions s' = sessions s" "sessions_root s' = sessions_root s"
    "rdv_tables.more s' = rdv_tables.more s" "sessions_wf ss s' \<longleftrightarrow> sessions_wf ss s"
proof -
  show "se_heap s' = se_heap s" "sessions s' = sessions s" "sessions_root s' = sessions_root s"
    "rdv_tables.more s' = rdv_tables.more s"
    using assms by (cases s; cases s'; simp)+
  then show "sessions_wf ss s' \<longleftrightarrow> sessions_wf ss s" by (simp add: sessions_wf_def)
qed

section \<open>What the operations do\<close>

lemma get_session_spec:
  assumes wf: "sessions_wf ss s"
  obtains r where "get_session a b s = Some r"
    and "\<And>q. r = Some q \<longleftrightarrow> field_at se_pair (se_heap s) q = Some (a, b)"
proof -
  let ?P = "\<lambda>q. field_at se_pair (se_heap s) q = Some (a, b)"
  have key: "se_pair (new_session a b 0) = (a, b)"
    by (simp add: se_pair_def new_session_def)
  have inj: "inj_on (field_at se_pair (se_heap s)) (set (sessions_root s))"
    using wf by (simp add: sessions_wf_def)
  have "get_session a b s = Some (find ?P (sessions_root s))"
    unfolding get_session_def
    by (subst by_pair.tfind_key) (simp_all add: sessions_wf_root [OF wf] key)
  moreover have "find ?P (sessions_root s) = Some q \<longleftrightarrow> ?P q" for q
  proof
    assume P: "?P q"
    then have "q \<in> set (sessions_root s)" by (auto simp: sessions_wf_root [OF wf] elim: field_at_SomeE)
    then show "find ?P (sessions_root s) = Some q" using P inj by (rule by_pair.find_eq_SomeI)
  qed (metis by_pair.find_SomeD)
  ultimately show thesis by (rule that)
qed

lemma add_session_spec:
  assumes wf: "sessions_wf ss s" and fr: "malloc_fresh (rm_malloc mem)"
    and new: "\<And>q. field_at se_pair (se_heap s) q \<noteq> Some (a, b)"
    and live: "cl_heap s a \<noteq> None" "cl_heap s b \<noteq> None"
  obtains (failed) "add_session mem a b t s = Some (None, s)"
      "rm_malloc mem (allocated (se_heap s)) = None \<or> \<not> rm_tsearch_sess mem"
  | (added) q s' where "add_session mem a b t s = Some (Some q, s')" "q \<notin> set ss"
      "sessions_wf (q # ss) s'" "se_view s' = (se_view s)(q \<mapsto> new_session a b t)" "same_peers s s'"
proof (cases "rm_malloc mem (allocated (se_heap s))")
  case None
  then show thesis by (intro failed) (simp_all add: add_session_def)
next
  case (Some q)
  let ?c = "new_session a b t"
  let ?h = "(se_heap s)(q \<mapsto> ?c)"
  have q: "se_heap s q = None" using malloc_freshD [OF fr Some] by simp
  then have qs: "q \<notin> set ss" using sessions_wf_allocated [OF wf, of q] by simp
  have key: "se_pair ?c = (a, b)" and pay_c: "se_payload ?c = ?c"
    by (simp_all add: se_pair_def new_session_def se_payload_def)
  have undo: "(se_heap s)(q := None) = se_heap s" using q by (simp add: fun_upd_idem)
  have "tfind (cmp_at compare_sessions ?h ?c) (sessions_root s) =
    Some (find (\<lambda>r. field_at se_pair ?h r = Some (se_pair ?c)) (sessions_root s))"
    by (rule by_pair.tfind_key) (simp add: sessions_wf_root [OF wf])
  also have "\<dots> = Some None"
    using q new by (auto simp: find_None_iff key sessions_wf_root [OF wf])
  finally have t: "tsearch (cmp_at compare_sessions ?h ?c) ok q (sessions_root s) =
    Some (if ok then (Some q, q # sessions_root s) else (None, sessions_root s))" for ok
    by (simp add: tsearch_def)
  show thesis
  proof (cases "rm_tsearch_sess mem")
    case False
    with t Some undo show thesis by (intro failed) (simp_all add: add_session_def Let_def)
  next
    case True
    have l: "dlist se_next se_prev ?h (sessions s) ss" and d: "distinct ss"
      using wf qs by (simp_all add: sessions_wf_def dlseg_update_other)
    obtain h' where h': "link_head set_se_next set_se_prev ?h (sessions s) q = Some (h', Some q)"
      and l': "dlist se_next se_prev h' (Some q) (q # ss)"
      and pay: "\<And>r. field_at se_payload h' r = field_at se_payload ?h r"
      using session_links.link_head_list [OF l qs _ d] by (metis fun_upd_same)
    note pr = se_payload_pair [OF pay]
    let ?s' = "s\<lparr>se_heap := h', sessions := Some q, sessions_root := q # sessions_root s\<rparr>"
    have alloc: "\<And>r. h' r \<noteq> None \<longleftrightarrow> r \<in> set (q # ss)"
      using field_at_alloc [OF pay] sessions_wf_allocated [OF wf] by simp
    have "inj_on (field_at se_pair h') (set (q # ss))"
      unfolding pr list.set by (rule inj_field_insert) (use wf new qs key in \<open>auto simp: sessions_wf_def\<close>)
    then have "sessions_wf (q # ss) ?s'"
      using wf l' alloc qs d by (auto simp: sessions_wf_def simp del: dlseg.simps)
    moreover have "se_view ?s' = (se_view s)(q \<mapsto> ?c)"
      using pay_c by (auto simp: pay fun_eq_iff)
    moreover have "add_session mem a b t s = Some (Some q, ?s')"
      using t [of True] True Some h' live by (auto simp: add_session_def Let_def)
    ultimately show thesis using qs by (intro added [of q ?s']) simp_all
  qed
qed

lemma remove_session_spec:
  assumes wf: "sessions_wf ss s" and live: "peers_live s" and q: "q \<in> set ss"
  obtains s' where "remove_session q s = Some s'" "sessions_wf (remove1 q ss) s'"
    "se_view s' = (se_view s)(q := None)" "same_peers s s'"
proof -
  from wf have l: "dlist se_next se_prev (se_heap s) (sessions s) ss" and d: "distinct ss"
    by (auto simp: sessions_wf_def)
  obtain h x where u: "unlink_node se_next se_prev set_se_next set_se_prev (se_heap s) (sessions s) q = Some (h, x)"
    and l': "dlist se_next se_prev h x (remove1 q ss)"
    and pay: "\<And>r. field_at se_payload h r = field_at se_payload (se_heap s) r"
    using session_links.unlink_node_list [OF l d q] by blast
  note pr = se_payload_pair [OF pay]
  have alloc: "h r \<noteq> None \<longleftrightarrow> r \<in> set ss" for r
    using field_at_alloc [OF pay [of r]] sessions_wf_allocated [OF wf, of r] by simp
  with q obtain c where c: "h q = Some c" by blast
  from q wf obtain c0 where c0: "se_heap s q = Some c0"
    using sessions_wf_allocated by fastforce
  with live obtain v1 v2 where lv: "cl_heap s (se_peer1 c0) = Some v1" "cl_heap s (se_peer2 c0) = Some v2"
    by (fastforce simp: peers_live_def se_pair_def field_at_def)
  have inj: "inj_on (field_at se_pair h) (set (sessions_root s))"
    using wf by (auto simp: sessions_wf_def inj_on_def pr)
  let ?R = "filter (\<lambda>r. field_at se_pair h r \<noteq> Some (se_pair c)) (sessions_root s)"
  let ?s' = "s\<lparr>se_heap := h(q := None), sessions := x, sessions_root := ?R\<rparr>"
  have t: "tdelete (cmp_at compare_sessions h c) (sessions_root s) = Some ?R"
    by (rule by_pair.tdelete_key [OF _ inj]) (use wf alloc in \<open>auto simp: sessions_wf_def\<close>)
  have r: "remove_session q s = Some ?s'"
    using u c t c0 lv by (simp add: remove_session_def)
  have cq: "field_at se_pair h q = Some (se_pair c)" using c by (simp add: field_at_Some)
  have R: "set ?R = set ss - {q}"
    using wf q inj cq by (auto simp: sessions_wf_def inj_on_def)
  have "sessions_wf (remove1 q ss) ?s'"
    unfolding sessions_wf_def
  proof (intro conjI)
    show "dlist se_next se_prev (se_heap ?s') (sessions ?s') (remove1 q ss)"
      using l' d by (simp add: dlseg_update_other)
    show "inj_on (field_at se_pair (se_heap ?s')) (set (remove1 q ss))"
      using wf pr d by (auto simp: sessions_wf_def inj_on_def)
  qed (use wf alloc R d in \<open>auto simp: sessions_wf_def\<close>)
  then show thesis
    by (rule that [OF r]) (use c in \<open>auto simp: pay fun_eq_iff\<close>)
qed

text \<open>Whether a session involves a client.\<close>

definition involves :: "ptr \<Rightarrow> 'a rdv_tables_scheme \<Rightarrow> ptr \<Rightarrow> bool" where
  "involves peer s q \<longleftrightarrow>
     (case field_at se_pair (se_heap s) q of None \<Rightarrow> False | Some (a, b) \<Rightarrow> a = peer \<or> b = peer)"

lemma involves_alloc: "se_heap s q = Some v \<Longrightarrow> involves peer s q \<longleftrightarrow> se_peer1 v = peer \<or> se_peer2 v = peer"
  by (simp add: involves_def field_at_Some se_pair_def)

lemma involves_view: "se_view s q = se_view s' q \<Longrightarrow> involves peer s q = involves peer s' q"
  using se_payload_pair [of "se_heap s" q "se_heap s'" q] by (simp add: involves_def)

lemma peers_live_view:
  assumes "peers_live s" and "cl_heap s' = cl_heap s"
    and "\<And>q. se_view s' q = None \<or> se_view s' q = se_view s q"
  shows "peers_live s'"
  unfolding peers_live_def
proof (intro allI impI)
  fix q a b assume f: "field_at se_pair (se_heap s') q = Some (a, b)"
  then have "se_view s' q \<noteq> None" by (auto elim: field_at_SomeE)
  with assms(3) [of q] have "se_view s' q = se_view s q" by auto
  from se_payload_pair [OF this] f assms(1,2) show "cl_heap s' a \<noteq> None \<and> cl_heap s' b \<noteq> None"
    unfolding peers_live_def by metis
qed

text \<open>The walk from the node \<open>first_of zs\<close> on removes exactly the sessions of \<open>zs\<close> that involve
  the client.\<close>

lemma remove_sessions_from_spec:
  assumes "sessions_wf (ys @ zs) s" and "peers_live s"
  shows "\<exists>s' ss'. remove_sessions_from peer (first_of zs) s = Some s' \<and> sessions_wf ss' s' \<and>
    same_peers s s' \<and>
    (\<forall>q. se_view s' q = (if q \<in> set zs \<and> involves peer s q then None else se_view s q))"
  using assms
proof (induction zs arbitrary: ys s)
  case Nil
  then show ?case by (auto simp: remove_sessions_from.simps)
next
  case (Cons q zs)
  from Cons.prems(1) have d: "distinct (ys @ q # zs)"
    and l: "dlist se_next se_prev (se_heap s) (sessions s) (ys @ q # zs)"
    by (auto simp: sessions_wf_def)
  obtain v where v: "se_heap s q = Some v"
    using sessions_wf_allocated [OF Cons.prems(1), of q] by auto
  have nx: "se_next v = first_of zs" by (rule dlist_next [OF l v])
  show ?case
  proof (cases "involves peer s q")
    case False
    have "sessions_wf ((ys @ [q]) @ zs) s" using Cons.prems(1) by simp
    from Cons.IH [OF this Cons.prems(2)] obtain s' ss' where
      s': "remove_sessions_from peer (first_of zs) s = Some s'" "sessions_wf ss' s'" "same_peers s s'"
      and v': "\<And>r. se_view s' r = (if r \<in> set zs \<and> involves peer s r then None else se_view s r)"
      by auto
    have "remove_sessions_from peer (first_of (q # zs)) s = Some s'"
      using False v nx s'(1) by (simp add: remove_sessions_from.simps [of _ "Some q"] involves_alloc)
    moreover have "\<And>r. se_view s' r = (if r \<in> set (q # zs) \<and> involves peer s r then None else se_view s r)"
      using False v' by auto
    ultimately show ?thesis using s'(2,3) by blast
  next
    case True
    obtain s1 where s1: "remove_session q s = Some s1" and wf1: "sessions_wf (remove1 q (ys @ q # zs)) s1"
      and v1: "se_view s1 = (se_view s)(q := None)" and p1: "same_peers s s1"
      by (rule remove_session_spec [OF Cons.prems, of q]) auto
    have live1: "peers_live s1"
      by (rule peers_live_view [OF Cons.prems(2)]) (simp_all add: same_peersD [OF p1] v1)
    have "sessions_wf (ys @ zs) s1" using wf1 d by (simp add: remove1_split)
    from Cons.IH [OF this live1] obtain s' ss' where s': "remove_sessions_from peer (first_of zs) s1 = Some s'"
      "sessions_wf ss' s'" "same_peers s1 s'"
      and v': "\<And>r. se_view s' r = (if r \<in> set zs \<and> involves peer s1 r then None else se_view s1 r)"
      by auto
    have "se_view s' r = (if r \<in> set (q # zs) \<and> involves peer s r then None else se_view s r)" for r
    proof (cases "r = q")
      case False
      then have "se_view s1 r = se_view s r" by (simp add: v1)
      with involves_view [OF this] False show ?thesis by (simp add: v')
    qed (use True d v1 v' in auto)
    moreover have "remove_sessions_from peer (first_of (q # zs)) s = Some s'"
      using True v nx s1 s'(1)
      by (simp add: remove_sessions_from.simps [of _ "Some q"] involves_alloc)
    ultimately show ?thesis using s'(2,3) same_peers_trans [OF p1] by blast
  qed
qed

lemma remove_sessions_with_client_spec:
  assumes wf: "sessions_wf ss s" and live: "peers_live s"
  obtains s' ss' where "remove_sessions_with_client peer s = Some s'" "sessions_wf ss' s'"
    "same_peers s s'" "\<And>q. se_view s' q = (if involves peer s q then None else se_view s q)"
proof -
  have hd: "sessions s = first_of ss" using wf by (auto simp: sessions_wf_def dest: dlseg_head)
  have "involves peer s q \<Longrightarrow> q \<in> set ss" for q
    using sessions_wf_allocated [OF wf, of q] by (auto simp: involves_def split: option.splits elim: field_at_SomeE)
  then show thesis
    using remove_sessions_from_spec [of "[]" ss s peer] wf live that
    by (fastforce simp: remove_sessions_with_client_def hd)
qed

end
