(* ===== verification/Messages.thy ===== *)
theory Messages
  imports Campagnol_Prelude
begin

unbundle bit_operations_syntax

text \<open>
  The messages between the clients and the rendezvous server (\<^verbatim>\<open>message_t\<close> of
  \<^verbatim>\<open>rdvserver/server.h\<close> and \<^verbatim>\<open>client/communication.h\<close>) and the byte order conversions. The
  structure is packed: one byte for the type, then the port and the two addresses, in the
  memory order of a little endian host, which is the order of the words themselves.
\<close>

abbreviation HELLO :: u8 where "HELLO \<equiv> 0"
abbreviation PING :: u8 where "PING \<equiv> 1"
abbreviation ASK_CONNECTION :: u8 where "ASK_CONNECTION \<equiv> 2"
abbreviation PONG :: u8 where "PONG \<equiv> 3"
abbreviation OK :: u8 where "OK \<equiv> 4"
abbreviation NOK :: u8 where "NOK \<equiv> 5"
abbreviation FWD_CONNECTION :: u8 where "FWD_CONNECTION \<equiv> 6"
abbreviation ANS_CONNECTION :: u8 where "ANS_CONNECTION \<equiv> 7"
abbreviation REJ_CONNECTION :: u8 where "REJ_CONNECTION \<equiv> 8"
abbreviation PUNCH :: u8 where "PUNCH \<equiv> 9"
abbreviation PUNCH_KEEP_ALIVE :: u8 where "PUNCH_KEEP_ALIVE \<equiv> 10"
abbreviation BYE :: u8 where "BYE \<equiv> 11"
abbreviation RECONNECT :: u8 where "RECONNECT \<equiv> 12"
abbreviation CLOSE_CONNECTION :: u8 where "CLOSE_CONNECTION \<equiv> 13"

record message_t =
  m_type :: u8
  m_port :: u16
  m_ip1 :: u32
  m_ip2 :: u32

section \<open>Memory layout\<close>

definition bytes_of_u16 :: "u16 \<Rightarrow> u8 list" where
  "bytes_of_u16 w = [ucast w, ucast (drop_bit 8 w)]"

definition bytes_of_u32 :: "u32 \<Rightarrow> u8 list" where
  "bytes_of_u32 w = [ucast w, ucast (drop_bit 8 w), ucast (drop_bit 16 w), ucast (drop_bit 24 w)]"

definition u16_of_bytes :: "u8 \<Rightarrow> u8 \<Rightarrow> u16" where
  "u16_of_bytes a b = ucast a OR push_bit 8 (ucast b)"

definition u32_of_bytes :: "u8 \<Rightarrow> u8 \<Rightarrow> u8 \<Rightarrow> u8 \<Rightarrow> u32" where
  "u32_of_bytes a b c d =
     ucast a OR push_bit 8 (ucast b) OR push_bit 16 (ucast c) OR push_bit 24 (ucast d)"

text \<open>The bytes that \<^verbatim>\<open>sendto(&smsg, sizeof(smsg))\<close> transmits, and the message that the receive
  buffer holds after a datagram of exactly \<^verbatim>\<open>sizeof(message_t)\<close> bytes.\<close>

abbreviation sizeof_message_t :: nat where
  "sizeof_message_t \<equiv> 11"

definition bytes_of_message :: "message_t \<Rightarrow> u8 list" where
  "bytes_of_message m =
     m_type m # bytes_of_u16 (m_port m) @ bytes_of_u32 (m_ip1 m) @ bytes_of_u32 (m_ip2 m)"

fun message_of_bytes :: "u8 list \<Rightarrow> message_t option" where
  "message_of_bytes [t, p0, p1, a0, a1, a2, a3, b0, b1, b2, b3] =
     Some \<lparr>m_type = t, m_port = u16_of_bytes p0 p1,
           m_ip1 = u32_of_bytes a0 a1 a2 a3, m_ip2 = u32_of_bytes b0 b1 b2 b3\<rparr>"
| "message_of_bytes _ = None"

section \<open>Byte order\<close>

definition ntohs :: "u16 \<Rightarrow> u16" where
  "ntohs x = push_bit 8 (x AND 0x00ff) OR drop_bit 8 (x AND 0xff00)"

definition ntohl :: "u32 \<Rightarrow> u32" where
  "ntohl x = push_bit 24 (x AND 0x000000ff) OR push_bit 8 (x AND 0x0000ff00) OR
             drop_bit 8 (x AND 0x00ff0000) OR drop_bit 24 (x AND 0xff000000)"

abbreviation htons :: "u16 \<Rightarrow> u16" where "htons \<equiv> ntohs"
abbreviation htonl :: "u32 \<Rightarrow> u32" where "htonl \<equiv> ntohl"

section \<open>Round trips\<close>

lemma u16_of_bytes_of_u16: "u16_of_bytes (ucast w) (ucast (drop_bit 8 w)) = w"
  by (rule bit_word_eqI) (auto simp: u16_of_bytes_def bit_simps)

lemma u32_of_bytes_of_u32:
  "u32_of_bytes (ucast w) (ucast (drop_bit 8 w)) (ucast (drop_bit 16 w)) (ucast (drop_bit 24 w)) = w"
proof (rule bit_word_eqI)
  fix n :: nat
  assume "n < LENGTH(32)"
  then consider "n < 8" | "8 \<le> n" "n < 16" | "16 \<le> n" "n < 24" | "24 \<le> n" "n < 32"
    by fastforce
  then show "bit (u32_of_bytes (ucast w) (ucast (drop_bit 8 w)) (ucast (drop_bit 16 w))
      (ucast (drop_bit 24 w))) n = bit w n"
    by cases (auto simp: u32_of_bytes_def bit_simps)
qed

lemma message_of_bytes_length: "message_of_bytes bs \<noteq> None \<longleftrightarrow> length bs = sizeof_message_t"
  by (cases bs rule: message_of_bytes.cases) auto

lemma message_of_bytes_of_message: "message_of_bytes (bytes_of_message m) = Some m"
  by (simp add: bytes_of_message_def bytes_of_u16_def bytes_of_u32_def
      u16_of_bytes_of_u16 u32_of_bytes_of_u32)

lemma length_bytes_of_message: "length (bytes_of_message m) = sizeof_message_t"
  by (simp add: bytes_of_message_def bytes_of_u16_def bytes_of_u32_def)

lemma bytes_of_u16_of_bytes:
  "ucast (u16_of_bytes a b) = a" "ucast (drop_bit 8 (u16_of_bytes a b)) = b"
  by (rule bit_word_eqI; auto simp: u16_of_bytes_def bit_simps dest: bit_imp_le_length)+

lemma bytes_of_u32_of_bytes:
  "ucast (u32_of_bytes a b c d) = a" "ucast (drop_bit 8 (u32_of_bytes a b c d)) = b"
  "ucast (drop_bit 16 (u32_of_bytes a b c d)) = c" "ucast (drop_bit 24 (u32_of_bytes a b c d)) = d"
  by (rule bit_word_eqI; auto simp: u32_of_bytes_def bit_simps dest: bit_imp_le_length)+

lemma bytes_of_message_of_bytes: "message_of_bytes bs = Some m \<Longrightarrow> bytes_of_message m = bs"
  by (cases bs rule: message_of_bytes.cases)
    (auto simp: bytes_of_message_def bytes_of_u16_def bytes_of_u32_def bytes_of_u16_of_bytes bytes_of_u32_of_bytes)

lemma byte_masks:
  "0x00ff = (mask 8 :: u16)" "0xff00 = (push_bit 8 (mask 8) :: u16)"
  "0x000000ff = (mask 8 :: u32)" "0x0000ff00 = (push_bit 8 (mask 8) :: u32)"
  "0x00ff0000 = (push_bit 16 (mask 8) :: u32)" "0xff000000 = (push_bit 24 (mask 8) :: u32)"
  by (simp_all add: mask_eq_exp_minus_1 push_bit_eq_mult)

lemma bytes_of_ntohs: "bytes_of_u16 (ntohs x) = rev (bytes_of_u16 x)"
  unfolding bytes_of_u16_def ntohs_def byte_masks
  by simp (rule conjI; rule bit_word_eqI; auto simp: bit_simps)

lemma byte0_ntohl: "ucast (ntohl x) = (ucast (drop_bit 24 x) :: u8)"
  unfolding ntohl_def byte_masks by (rule bit_word_eqI) (simp add: bit_simps)

lemma byte1_ntohl: "ucast (drop_bit 8 (ntohl x)) = (ucast (drop_bit 16 x) :: u8)"
  unfolding ntohl_def byte_masks by (rule bit_word_eqI) (simp add: bit_simps)

lemma byte2_ntohl: "ucast (drop_bit 16 (ntohl x)) = (ucast (drop_bit 8 x) :: u8)"
  unfolding ntohl_def byte_masks by (rule bit_word_eqI) (simp add: bit_simps)

lemma byte3_ntohl: "ucast (drop_bit 24 (ntohl x)) = (ucast x :: u8)"
  unfolding ntohl_def byte_masks by (rule bit_word_eqI) (simp add: bit_simps)

lemmas bytes_ntohl = byte0_ntohl byte1_ntohl byte2_ntohl byte3_ntohl

lemma bytes_of_ntohl: "bytes_of_u32 (ntohl x) = rev (bytes_of_u32 x)"
  unfolding bytes_of_u32_def bytes_ntohl by simp

lemma bytes_of_u16_inj: "bytes_of_u16 x = bytes_of_u16 y \<Longrightarrow> x = y"
  by (metis bytes_of_u16_def list.inject u16_of_bytes_of_u16)

lemma bytes_of_u32_inj: "bytes_of_u32 x = bytes_of_u32 y \<Longrightarrow> x = y"
  unfolding bytes_of_u32_def list.inject
  by (elim conjE) (subst u32_of_bytes_of_u32 [of x, symmetric], subst u32_of_bytes_of_u32 [of y, symmetric], simp only:)

text \<open>The conversion permutes the bits, so it commutes with the bitwise operations.\<close>

lemma bit_ntohl:
  assumes "i < 32"
  shows "bit (ntohl x) i = bit x (if i < 8 then i + 24 else if i < 16 then i + 8 else if i < 24 then i - 8 else i - 24)"
proof -
  from assms consider "i < 8" | "8 \<le> i" "i < 16" | "16 \<le> i" "i < 24" | "24 \<le> i" "i < 32"
    by fastforce
  then show ?thesis unfolding ntohl_def byte_masks by cases (auto simp: bit_simps add.commute)
qed

lemma ntohl_ntohl: "ntohl (ntohl x) = x"
  by (rule bytes_of_u32_inj) (simp add: bytes_of_ntohl)

lemma ntohl_and: "ntohl (x AND y) = ntohl x AND ntohl y"
  by (rule bit_word_eqI) (simp add: bit_ntohl bit_simps)

lemma ntohl_or: "ntohl (x OR y) = ntohl x OR ntohl y"
  by (rule bit_word_eqI) (simp add: bit_ntohl bit_simps)

lemma ntohl_not: "ntohl (NOT x) = NOT (ntohl x)"
  by (rule bit_word_eqI) (auto simp: bit_ntohl bit_simps)

section \<open>Properties\<close>

text \<open>The wire format is a faithful encoding: a message takes \<^verbatim>\<open>sizeof(message_t)\<close> bytes, every
  message is read back as it was sent, a datagram is accepted as a message exactly when it has
  that length, and a datagram that is read as a message is the encoding of that message.\<close>

theorem message_wire_format:
  "length (bytes_of_message m) = sizeof_message_t \<and> message_of_bytes (bytes_of_message m) = Some m \<and>
   (message_of_bytes bs \<noteq> None \<longleftrightarrow> length bs = sizeof_message_t) \<and>
   (message_of_bytes bs = Some m \<longrightarrow> bs = bytes_of_message m)"
  using message_of_bytes_length [of bs] bytes_of_message_of_bytes [of bs m]
  by (simp add: length_bytes_of_message message_of_bytes_of_message)

theorem message_wire_format_witness:
  "message_of_bytes [5, 0, 0, 1, 2, 3, 4, 0, 0, 0, 0] \<noteq> None \<and>
   length (bytes_of_message \<lparr>m_type = 5, m_port = 0, m_ip1 = 1, m_ip2 = 0\<rparr>) = sizeof_message_t"
  using message_wire_format [of "\<lparr>m_type = 5, m_port = 0, m_ip1 = 1, m_ip2 = 0\<rparr>"
      "[5, 0, 0, 1, 2, 3, 4, 0, 0, 0, 0]"] by simp

text \<open>The byte order conversions of the 16 and 32 bit words reverse the bytes in memory and
  undo themselves.\<close>

theorem byte_order_reverses:
  "bytes_of_u16 (ntohs x) = rev (bytes_of_u16 x) \<and> bytes_of_u32 (ntohl y) = rev (bytes_of_u32 y) \<and>
   ntohs (htons x) = x \<and> ntohl (htonl y) = y"
  using bytes_of_ntohs bytes_of_ntohl bytes_of_u16_inj [of "ntohs (ntohs x)" x] bytes_of_u32_inj [of "ntohl (ntohl y)" y]
  by simp

end
