(* ===== verification/Rdv_Server.thy ===== *)
theory Rdv_Server
  imports Rdv_Session Messages
begin

text \<open>
  The rendezvous server itself (\<^verbatim>\<open>rdvserver/server.c\<close>): the handler of one datagram, one
  definition per message type, the removal of dead clients, and the main loop over a sequence
  of \<^verbatim>\<open>select\<close> outcomes. The state is the two tables and the list \<open>sent\<close> of the datagrams passed
  to \<^verbatim>\<open>sendto\<close>, oldest first (an error of \<^verbatim>\<open>sendto\<close> is only logged by the code). The clock is
  read once per handled datagram. The debug output to the terminal is not modelled.
\<close>

section \<open>State and replies\<close>

record rdv_server = rdv_tables +
  sent :: "(sockaddr_in \<times> message_t) list"

definition send_message :: "u8 \<Rightarrow> u16 \<Rightarrow> u32 \<Rightarrow> u32 \<Rightarrow> sockaddr_in \<Rightarrow> rdv_server \<Rightarrow> rdv_server" where
  "send_message type port ip1 ip2 to s =
     s\<lparr>sent := sent s @ [(to, \<lparr>m_type = type, m_port = port, m_ip1 = ip1, m_ip2 = ip2\<rparr>)]\<rparr>"

definition send_OK :: "sockaddr_in \<Rightarrow> rdv_server \<Rightarrow> rdv_server" where
  "send_OK to = send_message OK 0 IN_ADDR_EMPTY IN_ADDR_EMPTY to"

definition send_NOK :: "sockaddr_in \<Rightarrow> rdv_server \<Rightarrow> rdv_server" where
  "send_NOK to = send_message NOK 0 IN_ADDR_EMPTY IN_ADDR_EMPTY to"

definition send_REJECT :: "u32 \<Rightarrow> sockaddr_in \<Rightarrow> rdv_server \<Rightarrow> rdv_server" where
  "send_REJECT ip to = send_message REJ_CONNECTION 0 ip IN_ADDR_EMPTY to"

definition send_PONG :: "sockaddr_in \<Rightarrow> rdv_server \<Rightarrow> rdv_server" where
  "send_PONG to = send_message PONG 0 IN_ADDR_EMPTY IN_ADDR_EMPTY to"

definition send_RECONNECT :: "sockaddr_in \<Rightarrow> rdv_server \<Rightarrow> rdv_server" where
  "send_RECONNECT to = send_message RECONNECT 0 IN_ADDR_EMPTY IN_ADDR_EMPTY to"

definition send_ANS :: "ptr \<Rightarrow> ptr \<Rightarrow> bool \<Rightarrow> rdv_server \<Rightarrow> rdv_server option" where
  "send_ANS client requested_client send_local s =
     do {
       c \<leftarrow> cl_heap s client;
       r \<leftarrow> cl_heap s requested_client;
       Some (if send_local
             then send_message ANS_CONNECTION (sin_port (cl_localaddr r))
                    (sin_addr (cl_localaddr r)) (cl_vpnIP r) (cl_clientaddr c) s
             else send_message ANS_CONNECTION (sin_port (cl_clientaddr r))
                    (sin_addr (cl_clientaddr r)) (cl_vpnIP r) (cl_clientaddr c) s)
     }"

definition send_FWD :: "ptr \<Rightarrow> ptr \<Rightarrow> bool \<Rightarrow> rdv_server \<Rightarrow> rdv_server option" where
  "send_FWD client requested_client send_local s =
     do {
       c \<leftarrow> cl_heap s client;
       r \<leftarrow> cl_heap s requested_client;
       Some (if send_local
             then send_message FWD_CONNECTION (sin_port (cl_localaddr r))
                    (sin_addr (cl_localaddr r)) (cl_vpnIP r) (cl_clientaddr c) s
             else send_message FWD_CONNECTION (sin_port (cl_clientaddr r))
                    (sin_addr (cl_clientaddr r)) (cl_vpnIP r) (cl_clientaddr c) s)
     }"

section \<open>Removing clients\<close>

text \<open>The pair of calls \<^verbatim>\<open>remove_sessions_with_client(p); remove_client(p);\<close> of the handlers.\<close>

definition drop_client :: "ptr \<Rightarrow> 'a rdv_tables_scheme \<Rightarrow> 'a rdv_tables_scheme option" where
  "drop_client p s = do { s1 \<leftarrow> remove_sessions_with_client p s; remove_client p s1 }"

partial_function (option) clean_dead_from ::
  "int \<Rightarrow> ptr option \<Rightarrow> 'a rdv_tables_scheme \<Rightarrow> 'a rdv_tables_scheme option" where
  "clean_dead_from now peer s =
     (case peer of
        None \<Rightarrow> Some s
      | Some p \<Rightarrow> do {
          c \<leftarrow> cl_heap s p;
          dead \<leftarrow> client_is_dead now p s;
          s' \<leftarrow> (if dead then drop_client p s else Some s);
          clean_dead_from now (cl_next c) s'
        })"

definition clean_dead_clients :: "int \<Rightarrow> 'a rdv_tables_scheme \<Rightarrow> 'a rdv_tables_scheme option" where
  "clean_dead_clients now s = clean_dead_from now (clients s) s"

text \<open>The loop after the main loop of \<^verbatim>\<open>rdv_server\<close>, which removes every client.\<close>

partial_function (option) remove_all_from ::
  "ptr option \<Rightarrow> 'a rdv_tables_scheme \<Rightarrow> 'a rdv_tables_scheme option" where
  "remove_all_from peer s =
     (case peer of
        None \<Rightarrow> Some s
      | Some p \<Rightarrow> do {
          c \<leftarrow> cl_heap s p;
          s' \<leftarrow> drop_client p s;
          remove_all_from (cl_next c) s'
        })"

section \<open>The handler\<close>

text \<open>\<^verbatim>\<open>add_client\<close> as both \<^verbatim>\<open>HELLO\<close> branches call it: the announced local endpoint is kept only
  when its port is not zero; \<^verbatim>\<open>OK\<close> is sent when the client could be added.\<close>

definition hello_add :: "rdv_config \<Rightarrow> rdv_mem \<Rightarrow> int \<Rightarrow> int \<Rightarrow> message_t \<Rightarrow> sockaddr_in \<Rightarrow> rdv_server
  \<Rightarrow> rdv_server option" where
  "hello_add cfg mem sockfd now rmsg unknownaddr s =
     do {
       (peer, s') \<leftarrow>
         (if m_port rmsg \<noteq> 0
          then add_client cfg mem sockfd now (sin_addr unknownaddr) (sin_port unknownaddr)
                 (m_ip1 rmsg) (m_ip2 rmsg) (m_port rmsg) s
          else add_client cfg mem sockfd now (sin_addr unknownaddr) (sin_port unknownaddr)
                 (m_ip1 rmsg) IN_ADDR_EMPTY 0 s);
       Some (if peer \<noteq> None then send_OK unknownaddr s' else s')
     }"

definition handle_HELLO_new :: "rdv_config \<Rightarrow> rdv_mem \<Rightarrow> int \<Rightarrow> int \<Rightarrow> message_t \<Rightarrow> sockaddr_in
  \<Rightarrow> rdv_server \<Rightarrow> rdv_server option" where
  "handle_HELLO_new cfg mem sockfd now rmsg unknownaddr s =
     do {
       peer_tmp \<leftarrow> get_client_VPN (m_ip1 rmsg) s;
       (refused, s1) \<leftarrow>
         (case peer_tmp of
            None \<Rightarrow> Some (False, s)
          | Some p \<Rightarrow> do {
              timeout \<leftarrow> client_is_timeout now p s;
              (if timeout then do { s' \<leftarrow> drop_client p s; Some (False, s') }
               else Some (True, s))
            });
       (if refused then Some (send_NOK unknownaddr s1)
        else do {
          (full, s2) \<leftarrow>
            (if max_clients cfg \<noteq> 0 \<and> n_clients s1 = max_clients cfg
             then do { s' \<leftarrow> clean_dead_clients now s1; Some (n_clients s' = max_clients cfg, s') }
             else Some (False, s1));
          (if full then Some (send_NOK unknownaddr s2)
           else hello_add cfg mem sockfd now rmsg unknownaddr s2)
        })
     }"

definition handle_HELLO_known :: "rdv_config \<Rightarrow> rdv_mem \<Rightarrow> int \<Rightarrow> int \<Rightarrow> message_t \<Rightarrow> sockaddr_in
  \<Rightarrow> ptr \<Rightarrow> rdv_server \<Rightarrow> rdv_server option" where
  "handle_HELLO_known cfg mem sockfd now rmsg unknownaddr peer s =
     do {
       timeout \<leftarrow> client_is_timeout now peer s;
       (if timeout then do {
          c \<leftarrow> cl_heap s peer;
          (if cl_vpnIP c = m_ip1 rmsg then do {
             s' \<leftarrow> client_update_time now peer s;
             Some (send_OK unknownaddr s')
           }
           else do {
             s' \<leftarrow> drop_client peer s;
             hello_add cfg mem sockfd now rmsg unknownaddr s'
           })
        }
        else Some (send_NOK unknownaddr s))
     }"

definition handle_ASK :: "rdv_mem \<Rightarrow> int \<Rightarrow> message_t \<Rightarrow> sockaddr_in \<Rightarrow> ptr \<Rightarrow> rdv_server
  \<Rightarrow> rdv_server option" where
  "handle_ASK mem now rmsg unknownaddr peer s =
     do {
       peer_tmp \<leftarrow> get_client_VPN (m_ip1 rmsg) s;
       (case peer_tmp of
          None \<Rightarrow> Some (send_REJECT (m_ip1 rmsg) unknownaddr s)
        | Some tmp \<Rightarrow> do {
            timeout \<leftarrow> client_is_timeout now tmp s;
            (if timeout then drop_client tmp (send_REJECT (m_ip1 rmsg) unknownaddr s)
             else do {
               sess_tmp \<leftarrow> get_session peer tmp s;
               c \<leftarrow> cl_heap s peer;
               d \<leftarrow> cl_heap s tmp;
               let send_local_ip = (sin_port (cl_localaddr c) \<noteq> 0 \<and> sin_port (cl_localaddr d) \<noteq> 0 \<and>
                      sin_addr (cl_clientaddr c) = sin_addr (cl_clientaddr d));
               (case sess_tmp of
                  None \<Rightarrow> do {
                    rev_sess_tmp \<leftarrow> get_session tmp peer s;
                    s1 \<leftarrow> (case rev_sess_tmp of None \<Rightarrow> Some s | Some q \<Rightarrow> remove_session q s);
                    (sess, s2) \<leftarrow> add_session mem peer tmp now s1;
                    (case sess of
                       None \<Rightarrow> Some (send_REJECT (m_ip1 rmsg) unknownaddr s2)
                     | Some _ \<Rightarrow> do {
                         s3 \<leftarrow> send_ANS peer tmp send_local_ip s2;
                         send_FWD tmp peer send_local_ip s3
                       })
                  }
                | Some q \<Rightarrow> do {
                    v \<leftarrow> se_heap s q;
                    s1 \<leftarrow> send_ANS (se_peer1 v) (se_peer2 v) send_local_ip s;
                    s2 \<leftarrow> send_FWD (se_peer2 v) (se_peer1 v) send_local_ip s1;
                    session_update_time now q s2
                  })
             })
          })
     }"

definition remove_session_between :: "ptr \<Rightarrow> ptr \<Rightarrow> 'a rdv_tables_scheme \<Rightarrow> 'a rdv_tables_scheme option" where
  "remove_session_between a b s =
     do {
       sess_tmp \<leftarrow> get_session a b s;
       (case sess_tmp of None \<Rightarrow> Some s | Some q \<Rightarrow> remove_session q s)
     }"

definition handle_CLOSE :: "message_t \<Rightarrow> ptr \<Rightarrow> rdv_server \<Rightarrow> rdv_server option" where
  "handle_CLOSE rmsg peer s =
     do {
       peer_tmp \<leftarrow> get_client_VPN (m_ip1 rmsg) s;
       (case peer_tmp of
          None \<Rightarrow> Some s
        | Some tmp \<Rightarrow> do {
            s1 \<leftarrow> remove_session_between peer tmp s;
            remove_session_between tmp peer s1
          })
     }"

definition handle_packet :: "rdv_config \<Rightarrow> rdv_mem \<Rightarrow> int \<Rightarrow> message_t \<Rightarrow> sockaddr_in \<Rightarrow> int
  \<Rightarrow> rdv_server \<Rightarrow> rdv_server option" where
  "handle_packet cfg mem now rmsg unknownaddr sockfd s =
     do {
       r \<leftarrow> get_client_real unknownaddr s;
       (case r of
          None \<Rightarrow>
            (if m_type rmsg \<noteq> HELLO then Some (send_RECONNECT unknownaddr s)
             else handle_HELLO_new cfg mem sockfd now rmsg unknownaddr s)
        | Some peer \<Rightarrow>
            (if m_type rmsg = HELLO then handle_HELLO_known cfg mem sockfd now rmsg unknownaddr peer s
             else if m_type rmsg = BYE then drop_client peer s
             else if m_type rmsg = PING then client_update_time now peer (send_PONG unknownaddr s)
             else if m_type rmsg = ASK_CONNECTION then handle_ASK mem now rmsg unknownaddr peer s
             else if m_type rmsg = CLOSE_CONNECTION then handle_CLOSE rmsg peer s
             else Some s))
     }"

section \<open>The main loop\<close>

text \<open>One return of \<^verbatim>\<open>select\<close>: readable, with the datagram that \<^verbatim>\<open>recvfrom\<close> takes from the socket
  (\<open>None\<close> for an error), a timeout, or an error. Each comes with the time and the outcome of the
  allocations. \<^verbatim>\<open>recvfrom\<close> stores at most \<^verbatim>\<open>sizeof(message_t)\<close> bytes of the datagram.\<close>

datatype select_result = Readable "(u8 list \<times> sockaddr_in) option" | Timed_out | Failed

record rdv_event =
  ev_select :: select_result
  ev_now :: int
  ev_mem :: rdv_mem

definition rdv_server_step :: "rdv_config \<Rightarrow> int \<Rightarrow> rdv_event \<Rightarrow> int \<times> rdv_server
  \<Rightarrow> (int \<times> rdv_server) option" where
  "rdv_server_step cfg sockfd e st =
     (case st of (last_cleaning, s) \<Rightarrow>
       (case ev_select e of
          Readable d \<Rightarrow> do {
            s1 \<leftarrow> (case d of
                     None \<Rightarrow> Some s
                   | Some (bs, unknownaddr) \<Rightarrow>
                       (case message_of_bytes (take sizeof_message_t bs) of
                          None \<Rightarrow> Some s
                        | Some rmsg \<Rightarrow> handle_packet cfg (ev_mem e) (ev_now e) rmsg unknownaddr sockfd s));
            (if ev_now e - last_cleaning > 5
             then do { s2 \<leftarrow> clean_dead_clients (ev_now e) s1; Some (ev_now e, s2) }
             else Some (last_cleaning, s1))
          }
        | Timed_out \<Rightarrow> do { s1 \<leftarrow> clean_dead_clients (ev_now e) s; Some (ev_now e, s1) }
        | Failed \<Rightarrow> Some (last_cleaning, s)))"

fun rdv_server_loop :: "rdv_config \<Rightarrow> int \<Rightarrow> rdv_event list \<Rightarrow> int \<times> rdv_server
  \<Rightarrow> (int \<times> rdv_server) option" where
  "rdv_server_loop cfg sockfd [] st = Some st"
| "rdv_server_loop cfg sockfd (e # es) st =
     do { st' \<leftarrow> rdv_server_step cfg sockfd e st; rdv_server_loop cfg sockfd es st' }"

definition init_server :: rdv_server where
  "init_server = \<lparr>cl_heap = (\<lambda>_. None), clients = None, n_clients = 0,
     clients_address_root = [], clients_vpn_root = [],
     se_heap = (\<lambda>_. None), sessions = None, sessions_root = [], sent = []\<rparr>"

text \<open>A whole run: the events until a signal sets \<^verbatim>\<open>end_server\<close>, then the final cleanup.\<close>

definition rdv_server_run :: "rdv_config \<Rightarrow> int \<Rightarrow> rdv_event list \<Rightarrow> rdv_server option" where
  "rdv_server_run cfg sockfd es =
     do {
       (last_cleaning, s) \<leftarrow> rdv_server_loop cfg sockfd es (0, init_server);
       remove_all_from (clients s) s
     }"

section \<open>The invariant of the server\<close>

definition tables_ok :: "ptr list \<Rightarrow> ptr list \<Rightarrow> 'a rdv_tables_scheme \<Rightarrow> bool" where
  "tables_ok ps ss s \<longleftrightarrow> peers_wf ps s \<and> sessions_wf ss s \<and> peers_live s \<and> one_direction s"

definition tables_inv :: "rdv_config \<Rightarrow> 'a rdv_tables_scheme \<Rightarrow> bool" where
  "tables_inv cfg s \<longleftrightarrow> (\<exists>ps ss. tables_ok ps ss s) \<and>
     (max_clients cfg \<noteq> 0 \<longrightarrow> n_clients s \<le> max_clients cfg)"

lemma tables_okD:
  assumes "tables_ok ps ss s"
  shows "peers_wf ps s" "sessions_wf ss s" "peers_live s" "one_direction s"
  using assms by (simp_all add: tables_ok_def)

lemma one_direction_view:
  assumes "one_direction s" and v: "\<And>q. se_view s' q = None \<or> se_view s' q = se_view s q"
  shows "one_direction s'"
  unfolding one_direction_def
proof (intro allI impI)
  fix q r a b
  assume q: "field_at se_pair (se_heap s') q = Some (a, b)"
    and r: "field_at se_pair (se_heap s') r = Some (b, a)"
  have eq: "field_at se_pair (se_heap s') x = Some y \<Longrightarrow> field_at se_pair (se_heap s) x = Some y" for x y
  proof -
    assume f: "field_at se_pair (se_heap s') x = Some y"
    then have "se_view s' x \<noteq> None" by (auto elim: field_at_SomeE)
    with v [of x] have "se_view s' x = se_view s x" by auto
    from se_payload_pair [OF this] f show ?thesis by simp
  qed
  from assms(1) eq [OF q] eq [OF r] show "a = b"
    unfolding one_direction_def by blast
qed

lemma drop_client_spec:
  assumes ok: "tables_ok ps ss s" and p: "cl_heap s p \<noteq> None"
  obtains s' ss' where "drop_client p s = Some s'" "tables_ok (remove1 p ps) ss' s'"
    "cl_view s' = (cl_view s)(p := None)" "n_clients s' = n_clients s - 1"
    "\<And>q. se_view s' q = (if involves p s q then None else se_view s q)"
    "clients_vpn_root s' =
       filter (\<lambda>q. field_at cl_vpnIP (cl_heap s) q \<noteq> field_at cl_vpnIP (cl_heap s) p) (clients_vpn_root s)"
    "rdv_tables.more s' = rdv_tables.more s"
proof -
  note D = tables_okD [OF ok]
  obtain s1 ss' where s1: "remove_sessions_with_client p s = Some s1" and w1: "sessions_wf ss' s1"
    and p1: "same_peers s s1"
    and v1: "\<And>q. se_view s1 q = (if involves p s q then None else se_view s q)"
    using remove_sessions_with_client_spec [OF D(2,3)] by blast
  note P1 = same_peersD [OF p1]
  have "p \<in> set ps" using p peers_wf_allocated [OF D(1)] by simp
  then obtain s' where s': "remove_client p s1 = Some s'" and w': "peers_wf (remove1 p ps) s'"
    and v': "cl_view s' = (cl_view s1)(p := None)" and n': "n_clients s' = n_clients s1 - 1"
    and r': "clients_vpn_root s' = filter (\<lambda>q. field_at cl_vpnIP (cl_heap s1) q \<noteq> field_at cl_vpnIP (cl_heap s1) p)
       (clients_vpn_root s1)" and m': "rdv_peers.more s' = rdv_peers.more s1"
    using remove_client_spec [of ps s1 p] D(1) P1(7) by blast
  note M = peers_moreD [OF m']
  have sv: "se_view s' q = (if involves p s q then None else se_view s q)" for q
    by (simp add: M v1)
  have "peers_live s'"
    unfolding peers_live_def
  proof (intro allI impI)
    fix q a b assume f: "field_at se_pair (se_heap s') q = Some (a, b)"
    then have "se_view s' q \<noteq> None" by (auto elim: field_at_SomeE)
    with sv [of q] have e: "se_view s' q = se_view s q" and ni: "\<not> involves p s q"
      by (auto split: if_splits)
    from se_payload_pair [OF e] f have g: "field_at se_pair (se_heap s) q = Some (a, b)" by simp
    with D(3) have "cl_heap s a \<noteq> None" "cl_heap s b \<noteq> None"
      unfolding peers_live_def by blast+
    moreover from g ni have "a \<noteq> p" "b \<noteq> p" by (auto simp: involves_def)
    ultimately have "cl_view s' a \<noteq> None" "cl_view s' b \<noteq> None" by (simp_all add: v' P1(1))
    then show "cl_heap s' a \<noteq> None \<and> cl_heap s' b \<noteq> None" by simp
  qed
  moreover have "one_direction s'"
    by (rule one_direction_view [OF D(4)]) (simp add: sv)
  ultimately have "tables_ok (remove1 p ps) ss' s'"
    using w' w1 by (simp add: tables_ok_def M)
  then show thesis
    by (rule that [rotated]) (use s1 s' v' n' sv r' in \<open>simp_all add: drop_client_def P1 M\<close>)
qed

text \<open>Every client is indexed by its VPN address; then no two clients have the same one.\<close>

definition vpn_complete :: "'a rdv_peers_scheme \<Rightarrow> bool" where
  "vpn_complete s \<longleftrightarrow> (\<forall>p. cl_heap s p \<noteq> None \<longrightarrow> p \<in> set (clients_vpn_root s))"

lemma drop_client_vpn_complete:
  assumes ok: "tables_ok ps ss s" and c: "vpn_complete s" and p: "cl_heap s p \<noteq> None"
    and d: "drop_client p s = Some s'"
  shows "vpn_complete s'"
proof -
  obtain s2 ss' where s2: "drop_client p s = Some s2" and v: "cl_view s2 = (cl_view s)(p := None)"
    and r: "clients_vpn_root s2 =
       filter (\<lambda>q. field_at cl_vpnIP (cl_heap s) q \<noteq> field_at cl_vpnIP (cl_heap s) p) (clients_vpn_root s)"
    using drop_client_spec [OF ok p] by metis
  have inj: "inj_on (field_at cl_vpnIP (cl_heap s)) (set (clients_vpn_root s))"
    using tables_okD(1) [OF ok] by (simp add: peers_wf_def)
  show ?thesis
    unfolding vpn_complete_def
  proof (intro allI impI)
    fix q assume "cl_heap s' q \<noteq> None"
    then have "cl_view s2 q \<noteq> None" using d s2 by simp
    then have q: "q \<noteq> p" "cl_heap s q \<noteq> None" by (auto simp: v split: if_splits elim: field_at_SomeE)
    with c p have "q \<in> set (clients_vpn_root s)" "p \<in> set (clients_vpn_root s)"
      by (auto simp: vpn_complete_def)
    with inj q(1) have "field_at cl_vpnIP (cl_heap s) q \<noteq> field_at cl_vpnIP (cl_heap s) p"
      by (auto dest: inj_onD)
    with \<open>q \<in> set (clients_vpn_root s)\<close> show "q \<in> set (clients_vpn_root s')"
      using d s2 r by simp
  qed
qed

text \<open>What removing clients can do to the tables: some clients and sessions disappear.\<close>

definition shrinks :: "'a rdv_tables_scheme \<Rightarrow> 'a rdv_tables_scheme \<Rightarrow> bool" where
  "shrinks s s' \<longleftrightarrow>
     (\<forall>p. cl_view s' p = None \<or> cl_view s' p = cl_view s p) \<and>
     (\<forall>q. se_view s' q = None \<or> se_view s' q = se_view s q) \<and>
     n_clients s' \<le> n_clients s \<and> (vpn_complete s \<longrightarrow> vpn_complete s') \<and>
     rdv_tables.more s' = rdv_tables.more s"

lemma shrinks_refl [simp]: "shrinks s s"
  by (simp add: shrinks_def)

lemma shrinks_trans: "shrinks s t \<Longrightarrow> shrinks t u \<Longrightarrow> shrinks s u"
  unfolding shrinks_def by (metis order.trans)

lemma drop_client_shrinks:
  assumes ok: "tables_ok ps ss s" and p: "cl_heap s p \<noteq> None"
  obtains s' ss' where "drop_client p s = Some s'" "tables_ok (remove1 p ps) ss' s'"
    "cl_view s' = (cl_view s)(p := None)" "shrinks s s'"
    "\<And>q. se_view s' q = (if involves p s q then None else se_view s q)"
proof (rule drop_client_spec [OF ok p], goal_cases)
  case (1 s' ss')
  moreover have "vpn_complete s \<longrightarrow> vpn_complete s'"
    using drop_client_vpn_complete [OF ok _ p 1(2)] by blast
  ultimately show ?case by (intro that [of s' ss']) (auto simp: shrinks_def)
qed

lemma shrinks_endpoint:
  assumes "shrinks s s'" and "\<And>q. field_at cl_endpoint (cl_heap s) q \<noteq> Some k"
  shows "field_at cl_endpoint (cl_heap s') q \<noteq> Some k"
proof
  assume f: "field_at cl_endpoint (cl_heap s') q = Some k"
  then have "cl_view s' q \<noteq> None" by (auto elim: field_at_SomeE)
  with assms(1) have "cl_view s' q = cl_view s q" by (metis shrinks_def)
  from payload_key(1) [OF this] f assms(2) show False by metis
qed

definition dead_at :: "int \<Rightarrow> 'a rdv_peers_scheme \<Rightarrow> ptr \<Rightarrow> bool" where
  "dead_at now s p \<longleftrightarrow>
     (case field_at cl_time (cl_heap s) p of None \<Rightarrow> False | Some t \<Rightarrow> now - t > 2 * PEER_TIMEOUT)"

lemma dead_at_alloc: "cl_heap s p = Some c \<Longrightarrow> client_is_dead now p s = Some (dead_at now s p)"
  by (simp add: dead_at_def client_is_dead_def field_at_Some)

lemma dead_at_view: "cl_view s p = cl_view s' p \<Longrightarrow> dead_at now s p = dead_at now s' p"
  using payload_key(3) [of "cl_heap s" p "cl_heap s'" p] by (simp add: dead_at_def)

text \<open>The walk over the client list: from the node \<open>first_of zs\<close> on, exactly the dead clients of
  \<open>zs\<close> are removed.\<close>

lemma clean_dead_from_spec:
  assumes "tables_ok (ys @ zs) ss s"
  shows "\<exists>s' ps' ss'. clean_dead_from now (first_of zs) s = Some s' \<and> tables_ok ps' ss' s' \<and>
    shrinks s s' \<and>
    (\<forall>p. cl_view s' p = (if p \<in> set zs \<and> dead_at now s p then None else cl_view s p))"
  using assms
proof (induction zs arbitrary: ys ss s)
  case Nil
  then show ?case by (auto simp: clean_dead_from.simps)
next
  case (Cons p zs)
  note wf = tables_okD(1) [OF Cons.prems]
  have d: "distinct (ys @ p # zs)"
    and l: "dlist cl_next cl_prev (cl_heap s) (clients s) (ys @ p # zs)"
    using wf by (auto simp: peers_wf_def)
  obtain c where c: "cl_heap s p = Some c"
    using peers_wf_allocated [OF wf, of p] by auto
  have nx: "cl_next c = first_of zs" by (rule dlist_next [OF l c])
  show ?case
  proof (cases "dead_at now s p")
    case False
    have "tables_ok ((ys @ [p]) @ zs) ss s" using Cons.prems by simp
    from Cons.IH [OF this] obtain s' ps' ss' where
      s': "clean_dead_from now (first_of zs) s = Some s'" "tables_ok ps' ss' s'" "shrinks s s'"
      and v': "\<And>r. cl_view s' r = (if r \<in> set zs \<and> dead_at now s r then None else cl_view s r)"
      by auto
    have "clean_dead_from now (first_of (p # zs)) s = Some s'"
      using False c nx s'(1) by (simp add: clean_dead_from.simps [of _ "Some p"] dead_at_alloc)
    moreover have "\<And>r. cl_view s' r = (if r \<in> set (p # zs) \<and> dead_at now s r then None else cl_view s r)"
      using False v' by auto
    ultimately show ?thesis using s'(2,3) by blast
  next
    case True
    obtain s1 ss1 where s1: "drop_client p s = Some s1"
      and ok1: "tables_ok (remove1 p (ys @ p # zs)) ss1 s1"
      and v1: "cl_view s1 = (cl_view s)(p := None)" and sh1: "shrinks s s1"
      using drop_client_shrinks [OF Cons.prems, of p] c by blast
    have "tables_ok (ys @ zs) ss1 s1" using ok1 d by (simp add: remove1_split)
    from Cons.IH [OF this] obtain s' ps' ss' where
      s': "clean_dead_from now (first_of zs) s1 = Some s'" "tables_ok ps' ss' s'" "shrinks s1 s'"
      and v': "\<And>r. cl_view s' r = (if r \<in> set zs \<and> dead_at now s1 r then None else cl_view s1 r)"
      by auto
    have "cl_view s' r = (if r \<in> set (p # zs) \<and> dead_at now s r then None else cl_view s r)" for r
    proof (cases "r = p")
      case False
      then have "cl_view s1 r = cl_view s r" by (simp add: v1)
      with dead_at_view [OF this] False show ?thesis by (simp add: v')
    qed (use True d v1 v' in auto)
    moreover have "clean_dead_from now (first_of (p # zs)) s = Some s'"
      using True c nx s1 s'(1) by (simp add: clean_dead_from.simps [of _ "Some p"] dead_at_alloc)
    ultimately show ?thesis using s'(2) shrinks_trans [OF sh1 s'(3)] by blast
  qed
qed

lemma clean_dead_clients_spec:
  assumes ok: "tables_ok ps ss s"
  obtains s' ps' ss' where "clean_dead_clients now s = Some s'" "tables_ok ps' ss' s'" "shrinks s s'"
    "\<And>p. cl_view s' p = (if dead_at now s p then None else cl_view s p)"
proof -
  note wf = tables_okD(1) [OF ok]
  have hd: "clients s = first_of ps" using wf by (auto simp: peers_wf_def dest: dlseg_head)
  have "dead_at now s p \<Longrightarrow> p \<in> set ps" for p
    using peers_wf_allocated [OF wf, of p] by (auto simp: dead_at_def split: option.splits elim: field_at_SomeE)
  then show thesis
    using clean_dead_from_spec [of "[]" ps ss s now] ok that
    by (fastforce simp: clean_dead_clients_def hd)
qed

lemma remove_all_from_spec:
  assumes "tables_ok ps ss s"
  shows "\<exists>s' ss'. remove_all_from (first_of ps) s = Some s' \<and> tables_ok [] ss' s' \<and> shrinks s s'"
  using assms
proof (induction ps arbitrary: ss s)
  case Nil
  then show ?case by (auto simp: remove_all_from.simps)
next
  case (Cons p ps)
  note wf = tables_okD(1) [OF Cons.prems]
  have l: "dlist cl_next cl_prev (cl_heap s) (clients s) ([] @ p # ps)"
    using wf by (simp add: peers_wf_def)
  obtain c where c: "cl_heap s p = Some c"
    using peers_wf_allocated [OF wf, of p] by auto
  obtain s1 ss1 where s1: "drop_client p s = Some s1" "tables_ok (remove1 p (p # ps)) ss1 s1" "shrinks s s1"
    using drop_client_shrinks [OF Cons.prems, of p] c by blast
  from Cons.IH [of ss1 s1] s1(2) obtain s' ss' where
    "remove_all_from (first_of ps) s1 = Some s'" "tables_ok [] ss' s'" "shrinks s1 s'" by auto
  with s1 c dlist_next [OF l c] show ?case
    by (auto simp: remove_all_from.simps [of "Some p"] intro: shrinks_trans)
qed

section \<open>Every handler keeps the invariant and does not fault\<close>

lemma tables_ok_sent [simp]: "tables_ok ps ss (s\<lparr>sent := x\<rparr>) = tables_ok ps ss s"
  by (simp add: tables_ok_def peers_wf_def sessions_wf_def peers_live_def one_direction_def)

lemmas send_defs = send_message_def send_OK_def send_NOK_def send_REJECT_def send_PONG_def
  send_RECONNECT_def

lemma tables_invI: "tables_ok ps ss s \<Longrightarrow> max_clients cfg \<noteq> 0 \<longrightarrow> n_clients s \<le> max_clients cfg \<Longrightarrow>
  tables_inv cfg s"
  by (auto simp: tables_inv_def)

lemma tables_inv_sent [simp]: "tables_inv cfg (s\<lparr>sent := x\<rparr>) = tables_inv cfg s"
  by (simp add: tables_inv_def)

lemma shrinks_inv:
  "tables_inv cfg s \<Longrightarrow> tables_ok ps ss s' \<Longrightarrow> shrinks s s' \<Longrightarrow> tables_inv cfg s'"
  by (fastforce simp: tables_inv_def shrinks_def)

text \<open>A write to a field that is neither a key nor a link.\<close>

lemma client_update_time_spec:
  assumes ok: "tables_ok ps ss s" and c: "cl_heap s p = Some c"
  obtains s' where "client_update_time now p s = Some s'" "tables_ok ps ss s'"
    "cl_view s' = (cl_view s)(p \<mapsto> (cl_payload c)\<lparr>cl_time := now\<rparr>)" "n_clients s' = n_clients s"
    "clients_vpn_root s' = clients_vpn_root s" "rdv_peers.more s' = rdv_peers.more s"
proof -
  let ?c = "c\<lparr>cl_time := now\<rparr>"
  let ?s' = "s\<lparr>cl_heap := (cl_heap s)(p \<mapsto> ?c)\<rparr>"
  have k: "field_at cl_endpoint (cl_heap ?s') = field_at cl_endpoint (cl_heap s)"
    "field_at cl_vpnIP (cl_heap ?s') = field_at cl_vpnIP (cl_heap s)"
    using c by (auto simp: fun_eq_iff field_at_Some cl_endpoint_def)
  have l: "dlist cl_next cl_prev (cl_heap ?s') (clients ?s') ps \<longleftrightarrow>
      dlist cl_next cl_prev (cl_heap s) (clients s) ps"
    using c by (simp add: dlseg_update_same)
  have a: "cl_heap ?s' q = None \<longleftrightarrow> cl_heap s q = None" for q using c by simp
  have "tables_ok ps ss ?s'"
    using ok unfolding tables_ok_def peers_wf_def peers_live_def k l a
    by (auto simp: sessions_wf_def one_direction_def)
  then show thesis
    by (rule that [rotated]) (use c in \<open>auto simp: client_update_time_def cl_payload_def fun_eq_iff\<close>)
qed

lemma session_update_time_spec:
  assumes ok: "tables_ok ps ss s" and v: "se_heap s q = Some v"
  obtains s' where "session_update_time now q s = Some s'" "tables_ok ps ss s'"
    "se_view s' = (se_view s)(q \<mapsto> (se_payload v)\<lparr>se_time := now\<rparr>)" "same_peers s s'"
proof -
  let ?v = "v\<lparr>se_time := now\<rparr>"
  let ?s' = "s\<lparr>se_heap := (se_heap s)(q \<mapsto> ?v)\<rparr>"
  have k: "field_at se_pair (se_heap ?s') = field_at se_pair (se_heap s)"
    using v by (auto simp: fun_eq_iff field_at_Some se_pair_def)
  have l: "dlist se_next se_prev (se_heap ?s') (sessions ?s') ss \<longleftrightarrow>
      dlist se_next se_prev (se_heap s) (sessions s) ss"
    using v by (simp add: dlseg_update_same)
  have a: "se_heap ?s' r = None \<longleftrightarrow> se_heap s r = None" for r using v by simp
  have "tables_ok ps ss ?s'"
    using ok unfolding tables_ok_def sessions_wf_def peers_live_def one_direction_def k l a
    by (auto simp: peers_wf_def)
  then show thesis
    by (rule that [rotated]) (use v in \<open>auto simp: session_update_time_def se_payload_def fun_eq_iff\<close>)
qed

lemma peers_live_grow:
  assumes "peers_live s" and "cl_view s' = (cl_view s)(p \<mapsto> c)" and "se_heap s' = se_heap s"
  shows "peers_live s'"
  unfolding peers_live_def
proof (intro allI impI)
  fix q a b assume "field_at se_pair (se_heap s') q = Some (a, b)"
  with assms(1,3) have "cl_view s a \<noteq> None" "cl_view s b \<noteq> None"
    by (simp_all add: peers_live_def)
  then have "cl_view s' a \<noteq> None" "cl_view s' b \<noteq> None"
    by (auto simp: assms(2) field_at_def)
  then show "cl_heap s' a \<noteq> None \<and> cl_heap s' b \<noteq> None" by simp
qed

text \<open>The registration at the end of a \<^verbatim>\<open>HELLO\<close>.\<close>

definition hello_client :: "int \<Rightarrow> int \<Rightarrow> message_t \<Rightarrow> sockaddr_in \<Rightarrow> rdv_client" where
  "hello_client sockfd now rmsg a =
     new_client sockfd now (sin_addr a) (sin_port a) (m_ip1 rmsg)
       (if m_port rmsg \<noteq> 0 then m_ip2 rmsg else IN_ADDR_EMPTY) (m_port rmsg)"

lemma hello_add_spec:
  assumes ok: "tables_ok ps ss s" and fr: "malloc_fresh (rm_malloc mem)"
    and new: "\<And>q. field_at cl_endpoint (cl_heap s) q \<noteq> Some (sin_addr a, sin_port a)"
  obtains (full) "hello_add cfg mem sockfd now rmsg a s = Some s" "registration_fails cfg mem s"
  | (added) p s' where "hello_add cfg mem sockfd now rmsg a s = Some (send_OK a s')"
      "max_clients cfg = 0 \<or> n_clients s < max_clients cfg"
      "tables_ok (p # ps) ss s'" "cl_view s' = (cl_view s)(p \<mapsto> hello_client sockfd now rmsg a)"
      "n_clients s' = n_clients s + 1" "cl_heap s p = None"
      "clients_vpn_root s' =
         (if \<exists>q \<in> set (clients_vpn_root s). field_at cl_vpnIP (cl_heap s) q = Some (m_ip1 rmsg)
          then clients_vpn_root s else p # clients_vpn_root s)"
      "rdv_peers.more s' = rdv_peers.more s"
proof -
  note D = tables_okD [OF ok]
  have h: "hello_add cfg mem sockfd now rmsg a s =
    do { (peer, s') \<leftarrow> add_client cfg mem sockfd now (sin_addr a) (sin_port a) (m_ip1 rmsg)
           (if m_port rmsg \<noteq> 0 then m_ip2 rmsg else IN_ADDR_EMPTY) (m_port rmsg) s;
         Some (if peer \<noteq> None then send_OK a s' else s') }"
    by (simp add: hello_add_def)
  show thesis
  proof (rule add_client_spec [OF D(1) fr new hello_client_def [of sockfd now rmsg a], where cfg = cfg], goal_cases)
    case 1
    then show thesis by (intro full) (simp_all add: h)
  next
    case (2 p s')
    note M = peers_moreD [OF 2(9)]
    have "cl_heap s p = None" using 2(4) peers_wf_allocated [OF D(1), of p] by simp
    moreover have "tables_ok (p # ps) ss s'"
      using D 2(5) peers_live_grow [OF D(3) 2(6) M(1)]
      by (simp add: tables_ok_def M one_direction_def)
    ultimately show thesis using 2 by (intro added [of s' p]) (simp_all add: h)
  qed
qed

lemma hello_add_safe:
  assumes inv: "tables_inv cfg s" and fr: "malloc_fresh (rm_malloc mem)"
    and new: "\<And>q. field_at cl_endpoint (cl_heap s) q \<noteq> Some (sin_addr a, sin_port a)"
  shows "\<exists>s'. hello_add cfg mem sockfd now rmsg a s = Some s' \<and> tables_inv cfg s'"
proof -
  from inv obtain ps ss where ok: "tables_ok ps ss s" by (auto simp: tables_inv_def)
  show ?thesis
    by (rule hello_add_spec [OF ok fr new, where cfg = cfg and rmsg = rmsg and now = now and sockfd = sockfd])
      (use inv in \<open>auto simp: send_defs intro: tables_invI\<close>)
qed

lemma client_is_timeout_alloc:
  "cl_heap s p = Some c \<Longrightarrow> client_is_timeout now p s = Some (now - cl_time c > PEER_TIMEOUT)"
  by (simp add: client_is_timeout_def)

lemma handle_HELLO_new_safe:
  assumes inv: "tables_inv cfg s" and fr: "malloc_fresh (rm_malloc mem)"
    and new: "\<And>q. field_at cl_endpoint (cl_heap s) q \<noteq> Some (sin_addr a, sin_port a)"
  shows "\<exists>s'. handle_HELLO_new cfg mem sockfd now rmsg a s = Some s' \<and> tables_inv cfg s'"
proof -
  from inv obtain ps ss where ok: "tables_ok ps ss s" by (auto simp: tables_inv_def)
  obtain r where r: "get_client_VPN (m_ip1 rmsg) s = Some r"
    and r': "\<And>p. r = Some p \<Longrightarrow> p \<in> set (clients_vpn_root s)"
    using get_client_VPN_spec [OF tables_okD(1) [OF ok]] by metis
  have finish: "\<exists>s'. do {
          (full, s2) \<leftarrow>
            (if max_clients cfg \<noteq> 0 \<and> n_clients s1 = max_clients cfg
             then do { s' \<leftarrow> clean_dead_clients now s1; Some (n_clients s' = max_clients cfg, s') }
             else Some (False, s1));
          (if full then Some (send_NOK a s2)
           else hello_add cfg mem sockfd now rmsg a s2)
        } = Some s' \<and> tables_inv cfg s'"
    if sh: "shrinks s s1" and inv1: "tables_inv cfg s1" for s1
  proof -
    from inv1 obtain ps1 ss1 where ok1: "tables_ok ps1 ss1 s1" by (auto simp: tables_inv_def)
    obtain s2 ps2 ss2 where s2: "clean_dead_clients now s1 = Some s2" "tables_ok ps2 ss2 s2" "shrinks s1 s2"
      using clean_dead_clients_spec [OF ok1] by metis
    have inv2: "tables_inv cfg s2" using shrinks_inv [OF inv1 s2(2,3)] .
    have e: "\<exists>s'. hello_add cfg mem sockfd now rmsg a s1 = Some s' \<and> tables_inv cfg s'"
      "\<exists>s'. hello_add cfg mem sockfd now rmsg a s2 = Some s' \<and> tables_inv cfg s'"
      using hello_add_safe [OF inv1 fr] hello_add_safe [OF inv2 fr] new shrinks_endpoint [OF sh]
        shrinks_endpoint [OF shrinks_trans [OF sh s2(3)]] by blast+
    show ?thesis
      using e inv2 by (auto simp: s2(1) send_defs)
  qed
  show ?thesis
  proof (cases r)
    case None
    then show ?thesis using finish [OF shrinks_refl inv] by (simp add: handle_HELLO_new_def r)
  next
    case (Some p)
    with r' obtain c where c: "cl_heap s p = Some c"
      using peers_wf_roots(2) [OF tables_okD(1) [OF ok]] by blast
    obtain s1 ss1 where s1: "drop_client p s = Some s1" "tables_ok (remove1 p ps) ss1 s1" "shrinks s s1"
      using drop_client_shrinks [OF ok, of p] c by blast
    show ?thesis
      using finish [OF s1(3) shrinks_inv [OF inv s1(2,3)]] inv
      by (auto simp: handle_HELLO_new_def r Some client_is_timeout_alloc [OF c] s1(1) send_defs)
  qed
qed

lemma drop_client_frees_endpoint:
  assumes ok: "tables_ok ps ss s" and c: "cl_heap s p = Some c" and v: "cl_view s' = (cl_view s)(p := None)"
  shows "field_at cl_endpoint (cl_heap s') q \<noteq> Some (cl_endpoint c)"
proof
  assume f: "field_at cl_endpoint (cl_heap s') q = Some (cl_endpoint c)"
  then have n: "cl_view s' q \<noteq> None" by (auto elim: field_at_SomeE)
  with v have e: "cl_view s' q = cl_view s q" and q: "q \<noteq> p" by (auto split: if_splits)
  from payload_key(1) [OF e] f c have "field_at cl_endpoint (cl_heap s) q = field_at cl_endpoint (cl_heap s) p"
    by (simp add: field_at_Some)
  moreover have "q \<in> set ps" "p \<in> set ps"
    using peers_wf_allocated [OF tables_okD(1) [OF ok]] c n e by auto
  ultimately show False
    using q tables_okD(1) [OF ok] by (auto simp: peers_wf_def inj_on_def)
qed

lemma handle_HELLO_known_safe:
  assumes inv: "tables_inv cfg s" and fr: "malloc_fresh (rm_malloc mem)"
    and p: "field_at cl_endpoint (cl_heap s) p = Some (sin_addr a, sin_port a)"
  shows "\<exists>s'. handle_HELLO_known cfg mem sockfd now rmsg a p s = Some s' \<and> tables_inv cfg s'"
proof -
  from inv obtain ps ss where ok: "tables_ok ps ss s" by (auto simp: tables_inv_def)
  from p obtain c where c: "cl_heap s p = Some c" by (auto elim: field_at_SomeE)
  obtain s1 where s1: "client_update_time now p s = Some s1" "tables_ok ps ss s1" "n_clients s1 = n_clients s"
    by (rule client_update_time_spec [OF ok c])
  obtain s2 ss2 where s2: "drop_client p s = Some s2" "tables_ok (remove1 p ps) ss2 s2" "shrinks s s2"
    and v2: "cl_view s2 = (cl_view s)(p := None)"
    using drop_client_shrinks [OF ok, of p] c by blast
  have new: "field_at cl_endpoint (cl_heap s2) q \<noteq> Some (sin_addr a, sin_port a)" for q
    using drop_client_frees_endpoint [OF ok c v2, of q] p c by (simp add: field_at_Some)
  have "tables_inv cfg s1" using inv s1 by (auto simp: tables_inv_def)
  moreover have "\<exists>s'. hello_add cfg mem sockfd now rmsg a s2 = Some s' \<and> tables_inv cfg s'"
    using hello_add_safe [OF shrinks_inv [OF inv s2(2,3)] fr new] .
  ultimately show ?thesis
    using inv s1(1) s2(1)
    by (auto simp: handle_HELLO_known_def client_is_timeout_alloc [OF c] c send_defs)
qed

text \<open>Sessions, at the level of both tables.\<close>

definition session_pairs :: "'a rdv_tables_scheme \<Rightarrow> (ptr \<times> ptr) set" where
  "session_pairs s = ran (field_at se_pair (se_heap s))"

lemma session_pairs_sent [simp]: "session_pairs (s\<lparr>sent := x\<rparr>) = session_pairs s"
  by (simp add: session_pairs_def)

lemma session_pairsI: "field_at se_pair (se_heap s) q = Some k \<Longrightarrow> k \<in> session_pairs s"
  by (auto simp: session_pairs_def ran_def)

lemma session_pairs_view:
  "se_view s' = (se_view s)(q := x) \<Longrightarrow> map_option se_pair x = y \<Longrightarrow>
   field_at se_pair (se_heap s') = (field_at se_pair (se_heap s))(q := y)"
proof (rule ext)
  fix r assume v: "se_view s' = (se_view s)(q := x)" and y: "map_option se_pair x = y"
  have k: "field_at se_pair h p = map_option se_pair (field_at se_payload h p)" for h p
    by (cases "h p") (simp_all add: field_at_def se_pair_def se_payload_def)
  show "field_at se_pair (se_heap s') r = ((field_at se_pair (se_heap s))(q := y)) r"
    unfolding k [of "se_heap s'"] v using y by (simp add: k)
qed

lemma remove_session_ok:
  assumes ok: "tables_ok ps ss s" and q: "field_at se_pair (se_heap s) q = Some k"
  obtains s' where "remove_session q s = Some s'" "tables_ok ps (remove1 q ss) s'" "same_peers s s'"
    "session_pairs s' = session_pairs s - {k}" "\<forall>x. se_heap s' x \<noteq> None \<longrightarrow> se_heap s x \<noteq> None"
proof -
  note D = tables_okD [OF ok]
  have qs: "q \<in> set ss" using q sessions_wf_allocated [OF D(2), of q] by (auto elim: field_at_SomeE)
  obtain s' where s': "remove_session q s = Some s'" "sessions_wf (remove1 q ss) s'"
    "se_view s' = (se_view s)(q := None)" "same_peers s s'"
    by (rule remove_session_spec [OF D(2,3) qs])
  have v: "\<And>r. se_view s' r = None \<or> se_view s' r = se_view s r" by (simp add: s'(3))
  have "tables_ok ps (remove1 q ss) s'"
    using D(1) s'(2) peers_live_view [OF D(3) same_peersD(1) [OF s'(4)] v] one_direction_view [OF D(4) v]
    by (simp add: tables_ok_def same_peersD [OF s'(4)])
  moreover have inj: "field_at se_pair (se_heap s) r = Some k \<Longrightarrow> r = q" for r
  proof (rule inj_onD [of "field_at se_pair (se_heap s)" "set ss" r q])
    assume r: "field_at se_pair (se_heap s) r = Some k"
    then show "field_at se_pair (se_heap s) r = field_at se_pair (se_heap s) q" by (simp add: q)
    show "r \<in> set ss" using r sessions_wf_allocated [OF D(2), of r] by (auto elim: field_at_SomeE)
  qed (use D(2) qs in \<open>simp_all add: sessions_wf_def\<close>)
  have "session_pairs s' = session_pairs s - {k}"
    unfolding session_pairs_def session_pairs_view [OF s'(3) refl]
    using ran_remove [of "field_at se_pair (se_heap s)", OF q inj] by simp
  moreover have "\<forall>x. se_heap s' x \<noteq> None \<longrightarrow> se_heap s x \<noteq> None"
    using v by (metis field_at_None)
  ultimately show thesis using s'(1,4) that by blast
qed

lemma one_direction_add:
  assumes od: "one_direction s" and n: "\<And>q. field_at se_pair (se_heap s) q \<noteq> Some (a, b)"
    "\<And>q. field_at se_pair (se_heap s) q \<noteq> Some (b, a)"
    and f: "field_at se_pair (se_heap s') = (field_at se_pair (se_heap s))(q \<mapsto> (a, b))"
  shows "one_direction s'"
  unfolding one_direction_def
proof (intro allI impI)
  fix r r' c d
  assume r: "field_at se_pair (se_heap s') r = Some (c, d)" "field_at se_pair (se_heap s') r' = Some (d, c)"
  consider "r = q" "r' = q" | "r = q" "r' \<noteq> q" | "r \<noteq> q" "r' = q" | "r \<noteq> q" "r' \<noteq> q" by blast
  then show "c = d"
  proof cases
    case 1
    then have "Some (c, d) = Some (d, c)" unfolding r [symmetric] by simp
    then show ?thesis by blast
  next
    case 2
    then have "Some (c, d) = Some (a, b)" "field_at se_pair (se_heap s) r' = Some (d, c)"
      unfolding r [symmetric] f by simp_all
    then show ?thesis using n(2) [of r'] by blast
  next
    case 3
    then have "Some (d, c) = Some (a, b)" "field_at se_pair (se_heap s) r = Some (c, d)"
      unfolding r [symmetric] f by simp_all
    then show ?thesis using n(2) [of r] by blast
  next
    case 4
    then have "field_at se_pair (se_heap s) r = Some (c, d)" "field_at se_pair (se_heap s) r' = Some (d, c)"
      unfolding r [symmetric] f by simp_all
    with od show ?thesis unfolding one_direction_def by blast
  qed
qed

lemma add_session_ok:
  assumes ok: "tables_ok ps ss s" and fr: "malloc_fresh (rm_malloc mem)"
    and live: "cl_heap s a \<noteq> None" "cl_heap s b \<noteq> None"
    and new: "(a, b) \<notin> session_pairs s" "(b, a) \<notin> session_pairs s"
  obtains (failed) "add_session mem a b t s = Some (None, s)"
      "rm_malloc mem (allocated (se_heap s)) = None \<or> \<not> rm_tsearch_sess mem"
  | (added) q s' where "add_session mem a b t s = Some (Some q, s')" "tables_ok ps (q # ss) s'"
      "same_peers s s'" "session_pairs s' = insert (a, b) (session_pairs s)"
proof -
  note D = tables_okD [OF ok]
  have n: "\<And>q. field_at se_pair (se_heap s) q \<noteq> Some (a, b)" "\<And>q. field_at se_pair (se_heap s) q \<noteq> Some (b, a)"
    using new by (auto dest: session_pairsI)
  show thesis
  proof (rule add_session_spec [OF D(2) fr n(1) live, where t = t], goal_cases)
    case 1
    then show thesis by (rule failed)
  next
    case (2 q s')
    note P = same_peersD [OF 2(5)]
    have f: "field_at se_pair (se_heap s') = (field_at se_pair (se_heap s))(q \<mapsto> (a, b))"
      by (rule session_pairs_view [OF 2(4)]) (simp add: se_pair_def new_session_def)
    have q: "se_heap s q = None" using 2(2) sessions_wf_allocated [OF D(2), of q] by simp
    have "peers_live s'"
      unfolding peers_live_def f P
    proof (intro allI impI)
      fix r c d assume "((field_at se_pair (se_heap s))(q \<mapsto> (a, b))) r = Some (c, d)"
      then show "cl_heap s c \<noteq> None \<and> cl_heap s d \<noteq> None"
        using D(3) [unfolded peers_live_def, rule_format, of r c d] live by (cases "r = q") auto
    qed
    moreover have "one_direction s'"
      by (rule one_direction_add [OF D(4) n f])
    ultimately have "tables_ok ps (q # ss) s'"
      using D(1) 2(3) P by (simp add: tables_ok_def)
    moreover have "session_pairs s' = insert (a, b) (session_pairs s)"
      unfolding session_pairs_def f using q by (simp add: ran_map_upd)
    ultimately show thesis using 2(1,5) by (intro added) auto
  qed
qed

text \<open>What is told to one client about another one.\<close>

definition peer_answer :: "u8 \<Rightarrow> bool \<Rightarrow> rdv_client \<Rightarrow> rdv_client \<Rightarrow> sockaddr_in \<times> message_t" where
  "peer_answer type send_local c r =
     (let a = (if send_local then cl_localaddr r else cl_clientaddr r)
      in (cl_clientaddr c, \<lparr>m_type = type, m_port = sin_port a, m_ip1 = sin_addr a, m_ip2 = cl_vpnIP r\<rparr>))"

definition same_network :: "rdv_client \<Rightarrow> rdv_client \<Rightarrow> bool" where
  "same_network c d \<longleftrightarrow> sin_port (cl_localaddr c) \<noteq> 0 \<and> sin_port (cl_localaddr d) \<noteq> 0 \<and>
     sin_addr (cl_clientaddr c) = sin_addr (cl_clientaddr d)"

lemma send_ANS_FWD:
  assumes "cl_heap s p = Some c" "cl_heap s q = Some r"
  shows "send_ANS p q l s = Some (s\<lparr>sent := sent s @ [peer_answer ANS_CONNECTION l c r]\<rparr>)"
    "send_FWD p q l s = Some (s\<lparr>sent := sent s @ [peer_answer FWD_CONNECTION l c r]\<rparr>)"
  using assms by (simp_all add: send_ANS_def send_FWD_def peer_answer_def send_message_def Let_def)

text \<open>There is memory for a session: for its structure, whichever of the present ones are freed
  before, and for its node in the search tree.\<close>

definition session_memory :: "rdv_mem \<Rightarrow> 'a rdv_tables_scheme \<Rightarrow> bool" where
  "session_memory mem s \<longleftrightarrow> rm_tsearch_sess mem \<and>
     (\<forall>used. (\<forall>x. used x \<longrightarrow> se_heap s x \<noteq> None) \<longrightarrow> rm_malloc mem used \<noteq> None)"

lemma session_memoryD:
  "session_memory mem s \<Longrightarrow> \<forall>x. used x \<longrightarrow> se_heap s x \<noteq> None \<Longrightarrow> rm_malloc mem used \<noteq> None"
  by (simp add: session_memory_def)

text \<open>An \<^verbatim>\<open>ASK_CONNECTION\<close> for a client that is registered and not timed out.\<close>

lemma handle_ASK_found:
  assumes ok: "tables_ok ps ss s" and fr: "malloc_fresh (rm_malloc mem)"
    and c: "cl_heap s peer = Some c" and d: "cl_heap s tmp = Some d"
    and look: "get_client_VPN (m_ip1 rmsg) s = Some (Some tmp)"
    and fresh: "\<not> now - cl_time d > PEER_TIMEOUT"
  obtains (rejected) s' ss' where
      "handle_ASK mem now rmsg a peer s = Some (send_REJECT (m_ip1 rmsg) a s')" "tables_ok ps ss' s'"
      "same_peers s s'" "session_pairs s' = session_pairs s - {(tmp, peer)}"
      "\<not> session_memory mem s"
  | (answered) s' ss' where
      "handle_ASK mem now rmsg a peer s = Some (s'\<lparr>sent := sent s @
         [peer_answer ANS_CONNECTION (same_network c d) c d,
          peer_answer FWD_CONNECTION (same_network c d) d c]\<rparr>)"
      "tables_ok ps ss' s'" "same_peers s s'"
      "session_pairs s' = insert (peer, tmp) (session_pairs s - {(tmp, peer)})"
proof -
  note D = tables_okD [OF ok]
  let ?l = "same_network c d"
  let ?msgs = "[peer_answer ANS_CONNECTION ?l c d, peer_answer FWD_CONNECTION ?l d c]"
  obtain r where r: "get_session peer tmp s = Some r"
    and r': "\<And>q. r = Some q \<longleftrightarrow> field_at se_pair (se_heap s) q = Some (peer, tmp)"
    using get_session_spec [OF D(2), of peer tmp] by metis
  obtain x where x: "get_session tmp peer s = Some x"
    and x': "\<And>q. x = Some q \<longleftrightarrow> field_at se_pair (se_heap s) q = Some (tmp, peer)"
    using get_session_spec [OF D(2), of tmp peer] by metis
  note start = handle_ASK_def look client_is_timeout_alloc [OF d] fresh c d r x
    same_network_def [symmetric] Let_def
  show thesis
  proof (cases r)
    case (Some q)
    then obtain v where v: "se_heap s q = Some v" and pv: "se_peer1 v = peer" "se_peer2 v = tmp"
      using r' by (auto simp: se_pair_def elim!: field_at_SomeE)
    let ?s1 = "s\<lparr>sent := sent s @ ?msgs\<rparr>"
    have one: "session_pairs s = insert (peer, tmp) (session_pairs s - {(tmp, peer)})"
    proof (cases "tmp = peer")
      case False
      have "(peer, tmp) \<in> session_pairs s" using r' Some by (auto intro: session_pairsI)
      moreover have "(tmp, peer) \<notin> session_pairs s"
        using D(4) r' Some False unfolding one_direction_def session_pairs_def ran_def by blast
      ultimately show ?thesis by blast
    qed (use r' Some in \<open>auto intro: session_pairsI\<close>)
    obtain s2 where s2: "session_update_time now q s = Some s2" "tables_ok ps ss s2"
      "same_peers s s2" "se_view s2 = (se_view s)(q \<mapsto> (se_payload v)\<lparr>se_time := now\<rparr>)"
      by (rule session_update_time_spec [OF ok v])
    have u: "session_update_time now q ?s1 = Some (s2\<lparr>sent := sent s @ ?msgs\<rparr>)"
      using s2(1) v by (auto simp: session_update_time_def)
    have "field_at se_pair (se_heap s2) = field_at se_pair (se_heap s)"
      using session_pairs_view [OF s2(4) refl] v pv
      by (simp add: se_pair_def se_payload_def field_at_Some fun_upd_idem)
    then have "session_pairs s2 = session_pairs s" by (simp add: session_pairs_def)
    then show thesis
      using u s2(2,3) one Some v pv
      by (intro answered [of s2 ss]) (simp_all add: start send_ANS_FWD)
  next
    case None
    then have nr: "(peer, tmp) \<notin> session_pairs s"
      using r' by (auto simp: session_pairs_def ran_def)
    obtain s1 ss1 where s1: "(case x of None \<Rightarrow> Some s | Some q \<Rightarrow> remove_session q s) = Some s1"
      and ok1: "tables_ok ps ss1 s1" and p1: "same_peers s s1"
      and k1: "session_pairs s1 = session_pairs s - {(tmp, peer)}"
      and h1: "\<forall>x. se_heap s1 x \<noteq> None \<longrightarrow> se_heap s x \<noteq> None"
    proof (cases x)
      case None
      with x' have "(tmp, peer) \<notin> session_pairs s" by (auto simp: session_pairs_def ran_def)
      with None ok that show thesis by auto
    next
      case (Some q)
      then have "field_at se_pair (se_heap s) q = Some (tmp, peer)" using x' by simp
      then obtain s1 where s1: "remove_session q s = Some s1" "tables_ok ps (remove1 q ss) s1"
        "same_peers s s1" "session_pairs s1 = session_pairs s - {(tmp, peer)}"
        "\<forall>x. se_heap s1 x \<noteq> None \<longrightarrow> se_heap s x \<noteq> None"
        by (rule remove_session_ok [OF ok])
      show thesis by (rule that [OF _ s1(2-5)]) (simp add: Some s1(1))
    qed
    note P1 = same_peersD [OF p1]
    have sent1: "sent s1 = sent s" using P1(6) by (cases s; cases s1) simp
    have live: "cl_heap s1 peer \<noteq> None" "cl_heap s1 tmp \<noteq> None" by (simp_all add: P1 c d)
    have new: "(peer, tmp) \<notin> session_pairs s1" "(tmp, peer) \<notin> session_pairs s1"
      using nr by (simp_all add: k1)
    show thesis
    proof (rule add_session_ok [OF ok1 fr live new, where t = now], goal_cases)
      case 1
      have "\<not> session_memory mem s" 
      proof
        assume m: "session_memory mem s"
        then have "rm_malloc mem (allocated (se_heap s1)) \<noteq> None" using h1 by (rule session_memoryD)
        with 1(2) m show False unfolding session_memory_def by (metis (no_types))
      qed
      then show thesis
        using 1 None s1 ok1 p1 k1 by (intro rejected [of s1 ss1]) (simp_all add: start)
    next
      case (2 q s2)
      note P2 = same_peersD [OF 2(3)]
      have "sent s2 = sent s" using P2(6) sent1 by (cases s2; cases s1) simp
      then have "handle_ASK mem now rmsg a peer s = Some (s2\<lparr>sent := sent s @ ?msgs\<rparr>)"
        using None s1 2(1) by (simp add: start send_ANS_FWD P1 P2)
      then show thesis
        by (rule answered) (use 2 k1 same_peers_trans [OF p1 2(3)] in auto)
    qed
  qed
qed

end
