(* ===== verification/Rdv_Protocol.thy ===== *)
theory Rdv_Protocol
  imports Rdv_Server
begin

text \<open>
  The properties of the rendezvous server: the handlers never follow a dangling pointer and
  keep the two tables consistent, a whole run frees everything it allocated, and what each
  message type does to the tables and which datagrams it makes the server send.
\<close>

section \<open>No fault, and the invariant is kept\<close>

lemma tables_inv_same_peers:
  "tables_inv cfg s \<Longrightarrow> same_peers s s' \<Longrightarrow> tables_ok ps ss s' \<Longrightarrow> tables_inv cfg s'"
  by (auto simp: tables_inv_def same_peersD)

lemma get_client_VPN_cell:
  assumes "tables_ok ps ss s"
  obtains (unknown) "get_client_VPN ip s = Some None"
      "\<And>p. p \<in> set (clients_vpn_root s) \<Longrightarrow> field_at cl_vpnIP (cl_heap s) p \<noteq> Some ip"
  | (known) tmp d where "get_client_VPN ip s = Some (Some tmp)" "cl_heap s tmp = Some d" "cl_vpnIP d = ip"
      "tmp \<in> set (clients_vpn_root s)"
proof -
  obtain r where r: "get_client_VPN ip s = Some r"
    and r': "\<And>p. r = Some p \<longleftrightarrow> p \<in> set (clients_vpn_root s) \<and> field_at cl_vpnIP (cl_heap s) p = Some ip"
    using get_client_VPN_spec [OF tables_okD(1) [OF assms], of ip] by metis
  show thesis
  proof (cases r)
    case None
    with r r' show thesis by (intro unknown) auto
  next
    case (Some tmp)
    with r' [of tmp] have "tmp \<in> set (clients_vpn_root s)" "field_at cl_vpnIP (cl_heap s) tmp = Some ip"
      by simp_all
    with r Some show thesis by (auto elim!: field_at_SomeE intro: known)
  qed
qed

lemma handle_ASK_safe:
  assumes inv: "tables_inv cfg s" and fr: "malloc_fresh (rm_malloc mem)" and c: "cl_heap s peer = Some c"
  shows "\<exists>s'. handle_ASK mem now rmsg a peer s = Some s' \<and> tables_inv cfg s'"
proof -
  from inv obtain ps ss where ok: "tables_ok ps ss s" by (auto simp: tables_inv_def)
  show ?thesis
  proof (rule get_client_VPN_cell [OF ok, of "m_ip1 rmsg"], goal_cases)
    case 1
    then show ?case using inv by (auto simp: handle_ASK_def send_defs)
  next
    case (2 tmp d)
    show ?case
    proof (cases "now - cl_time d > PEER_TIMEOUT")
      case True
      let ?s1 = "send_REJECT (m_ip1 rmsg) a s"
      have "tables_ok ps ss ?s1" "tables_inv cfg ?s1" "cl_heap ?s1 tmp \<noteq> None"
        using ok inv 2(2) by (simp_all add: send_defs)
      then obtain s' ss' where "drop_client tmp ?s1 = Some s'" "tables_inv cfg s'"
        using drop_client_shrinks [of ps ss ?s1 tmp] shrinks_inv by metis
      with True 2 show ?thesis by (simp add: handle_ASK_def client_is_timeout_alloc [OF 2(2)])
    next
      case False
      show ?thesis
        by (rule handle_ASK_found [OF ok fr c 2(2,1) False, where a = a])
          (use inv in \<open>auto simp: send_defs intro: tables_inv_same_peers\<close>)
    qed
  qed
qed

lemma remove_session_between_spec:
  assumes ok: "tables_ok ps ss s"
  obtains s' ss' where "remove_session_between a b s = Some s'" "tables_ok ps ss' s'" "same_peers s s'"
    "session_pairs s' = session_pairs s - {(a, b)}"
proof -
  obtain r where r: "get_session a b s = Some r"
    and r': "\<And>q. r = Some q \<longleftrightarrow> field_at se_pair (se_heap s) q = Some (a, b)"
    using get_session_spec [OF tables_okD(2) [OF ok], of a b] by metis
  show thesis
  proof (cases r)
    case None
    with r' have "(a, b) \<notin> session_pairs s" by (auto simp: session_pairs_def ran_def)
    with None r ok that show thesis by (auto simp: remove_session_between_def)
  next
    case (Some q)
    with r' [of q] have "field_at se_pair (se_heap s) q = Some (a, b)" by simp
    then obtain s' where s': "remove_session q s = Some s'" "tables_ok ps (remove1 q ss) s'"
      "same_peers s s'" "session_pairs s' = session_pairs s - {(a, b)}"
      by (rule remove_session_ok [OF ok])
    show thesis by (rule that [OF _ s'(2-4)]) (simp add: remove_session_between_def r Some s'(1))
  qed
qed

lemma handle_CLOSE_spec:
  assumes ok: "tables_ok ps ss s"
  obtains (unknown) "handle_CLOSE rmsg peer s = Some s" "get_client_VPN (m_ip1 rmsg) s = Some None"
  | (closed) tmp s' ss' where "handle_CLOSE rmsg peer s = Some s'"
      "get_client_VPN (m_ip1 rmsg) s = Some (Some tmp)" "tables_ok ps ss' s'" "same_peers s s'"
      "session_pairs s' = session_pairs s - {(peer, tmp), (tmp, peer)}"
proof (rule get_client_VPN_cell [OF ok, of "m_ip1 rmsg"], goal_cases)
  case 1
  then show ?case by (intro unknown) (simp_all add: handle_CLOSE_def)
next
  case (2 tmp d)
  obtain s1 ss1 where s1: "remove_session_between peer tmp s = Some s1" "tables_ok ps ss1 s1" "same_peers s s1"
    "session_pairs s1 = session_pairs s - {(peer, tmp)}"
    by (rule remove_session_between_spec [OF ok])
  obtain s2 ss2 where s2: "remove_session_between tmp peer s1 = Some s2" "tables_ok ps ss2 s2" "same_peers s1 s2"
    "session_pairs s2 = session_pairs s1 - {(tmp, peer)}"
    by (rule remove_session_between_spec [OF s1(2)])
  show ?case
    by (rule closed [OF _ 2(3) s2(2) same_peers_trans [OF s1(3) s2(3)]])
      (use 2(3) s1 s2 in \<open>auto simp: handle_CLOSE_def\<close>)
qed

lemma handle_CLOSE_safe:
  assumes inv: "tables_inv cfg s"
  shows "\<exists>s'. handle_CLOSE rmsg peer s = Some s' \<and> tables_inv cfg s'"
proof -
  from inv obtain ps ss where ok: "tables_ok ps ss s" by (auto simp: tables_inv_def)
  show ?thesis
    by (rule handle_CLOSE_spec [OF ok, of rmsg peer]) (use inv in \<open>auto intro: tables_inv_same_peers\<close>)
qed

text \<open>The sender of a datagram is either not registered or one allocated client.\<close>

lemma get_client_real_cell:
  assumes "tables_ok ps ss s"
  obtains (unknown) "get_client_real a s = Some None"
      "\<And>q. field_at cl_endpoint (cl_heap s) q \<noteq> Some (sin_addr a, sin_port a)"
  | (known) peer c where "get_client_real a s = Some (Some peer)" "cl_heap s peer = Some c"
      "cl_endpoint c = (sin_addr a, sin_port a)"
proof -
  obtain r where r: "get_client_real a s = Some r"
    and r': "\<And>p. r = Some p \<longleftrightarrow> field_at cl_endpoint (cl_heap s) p = Some (sin_addr a, sin_port a)"
    using get_client_real_spec [OF tables_okD(1) [OF assms], of a] by metis
  show thesis
  proof (cases r)
    case None
    with r r' show thesis by (intro unknown) auto
  next
    case (Some p)
    with r' [of p] have "field_at cl_endpoint (cl_heap s) p = Some (sin_addr a, sin_port a)" by simp
    with r Some show thesis by (auto elim!: field_at_SomeE intro: known)
  qed
qed

lemma drop_client_safe:
  assumes inv: "tables_inv cfg s" and p: "cl_heap s p \<noteq> None"
  shows "\<exists>s'. drop_client p s = Some s' \<and> tables_inv cfg s'"
proof -
  from inv obtain ps ss where ok: "tables_ok ps ss s" by (auto simp: tables_inv_def)
  then show ?thesis using drop_client_shrinks [OF ok p] shrinks_inv [OF inv] by metis
qed

lemma handle_packet_safe:
  assumes inv: "tables_inv cfg s" and fr: "malloc_fresh (rm_malloc mem)"
  shows "\<exists>s'. handle_packet cfg mem now rmsg a sockfd s = Some s' \<and> tables_inv cfg s'"
proof -
  from inv obtain ps ss where ok: "tables_ok ps ss s" by (auto simp: tables_inv_def)
  show ?thesis
  proof (rule get_client_real_cell [OF ok, of a], goal_cases)
    case 1
    with inv handle_HELLO_new_safe [OF inv fr 1(2)] show ?case
      by (auto simp: handle_packet_def send_defs)
  next
    case (2 peer c)
    have f: "field_at cl_endpoint (cl_heap s) peer = Some (sin_addr a, sin_port a)"
      using 2 by (simp add: field_at_Some)
    have pong: "\<exists>s'. client_update_time now peer (send_PONG a s) = Some s' \<and> tables_inv cfg s'"
    proof -
      have "tables_ok ps ss (send_PONG a s)" "cl_heap (send_PONG a s) peer = Some c"
        using ok 2 by (simp_all add: send_defs)
      from client_update_time_spec [OF this] show ?thesis
        using inv by (metis tables_inv_def send_PONG_def send_message_def tables_inv_sent)
    qed
    show ?case
      using handle_HELLO_known_safe [OF inv fr f] drop_client_safe [OF inv] pong
        handle_ASK_safe [OF inv fr 2(2)] handle_CLOSE_safe [OF inv] inv 2
      by (auto simp: handle_packet_def)
  qed
qed

lemma clean_dead_clients_safe:
  assumes inv: "tables_inv cfg s"
  shows "\<exists>s'. clean_dead_clients now s = Some s' \<and> tables_inv cfg s'"
proof -
  from inv obtain ps ss where ok: "tables_ok ps ss s" by (auto simp: tables_inv_def)
  show ?thesis using clean_dead_clients_spec [OF ok, of now] shrinks_inv [OF inv] by metis
qed

lemma rdv_server_step_safe:
  assumes inv: "tables_inv cfg s" and fr: "malloc_fresh (rm_malloc (ev_mem e))"
  shows "\<exists>t' s'. rdv_server_step cfg sockfd e (t, s) = Some (t', s') \<and> tables_inv cfg s'"
proof -
  have clean: "\<exists>t' s''. (if ev_now e - t > 5
        then do { s2 \<leftarrow> clean_dead_clients (ev_now e) s'; Some (ev_now e, s2) }
        else Some (t, s')) = Some (t', s'') \<and> tables_inv cfg s''"
    if "tables_inv cfg s'" for s'
    using clean_dead_clients_safe [OF that, of "ev_now e"] that by auto
  show ?thesis
  proof (cases "ev_select e")
    case (Readable d)
    obtain s1 where "(case d of None \<Rightarrow> Some s | Some (bs, unknownaddr) \<Rightarrow>
         (case message_of_bytes (take sizeof_message_t bs) of None \<Rightarrow> Some s
          | Some rmsg \<Rightarrow> handle_packet cfg (ev_mem e) (ev_now e) rmsg unknownaddr sockfd s)) = Some s1"
      and "tables_inv cfg s1"
      using inv handle_packet_safe [OF inv fr]
      by (cases d; cases "message_of_bytes (take sizeof_message_t (fst (the d)))")
        (auto split: prod.splits, blast)
    with clean [of s1] Readable show ?thesis by (auto simp: rdv_server_step_def)
  next
    case Timed_out
    with clean_dead_clients_safe [OF inv, of "ev_now e"] show ?thesis by (auto simp: rdv_server_step_def)
  next
    case Failed
    with inv show ?thesis by (simp add: rdv_server_step_def)
  qed
qed

lemma tables_inv_init: "max_clients cfg \<ge> 0 \<Longrightarrow> tables_inv cfg init_server"
  unfolding tables_inv_def tables_ok_def
  by (intro conjI exI [of _ "[]"])
    (simp_all add: init_server_def peers_wf_def sessions_wf_def peers_live_def one_direction_def field_at_def)

section \<open>Reachable states\<close>

inductive rdv_reachable :: "rdv_config \<Rightarrow> int \<Rightarrow> int \<times> rdv_server \<Rightarrow> bool" for cfg sockfd where
  start: "rdv_reachable cfg sockfd (0, init_server)"
| step: "rdv_reachable cfg sockfd st \<Longrightarrow> malloc_fresh (rm_malloc (ev_mem e)) \<Longrightarrow>
    rdv_server_step cfg sockfd e st = Some st' \<Longrightarrow> rdv_reachable cfg sockfd st'"

inductive_cases rdv_reachableE: "rdv_reachable cfg sockfd st"

lemma reachable_tables_inv:
  assumes "rdv_reachable cfg sockfd st" and "max_clients cfg \<ge> 0"
  shows "tables_inv cfg (snd st)"
  using assms
proof (induction rule: rdv_reachable.induct)
  case start
  then show ?case by (simp add: tables_inv_init)
next
  case (step st e st')
  then obtain t s where st: "st = (t, s)" and "tables_inv cfg s" by (cases st) simp
  with rdv_server_step_safe [of cfg s e sockfd t] step show ?case by auto
qed

lemma reachable_ok:
  assumes "rdv_reachable cfg sockfd (t, s)" and "max_clients cfg \<ge> 0"
  obtains ps ss where "tables_ok ps ss s"
  using reachable_tables_inv [OF assms] by (auto simp: tables_inv_def)

lemma loop_reachable:
  assumes "rdv_server_loop cfg sockfd es st = Some st'" and "rdv_reachable cfg sockfd st"
    and "\<And>e. e \<in> set es \<Longrightarrow> malloc_fresh (rm_malloc (ev_mem e))"
  shows "rdv_reachable cfg sockfd st'"
  using assms
proof (induction es arbitrary: st)
  case (Cons e es)
  then obtain st1 where st1: "rdv_server_step cfg sockfd e st = Some st1"
    "rdv_server_loop cfg sockfd es st1 = Some st'"
    by (auto split: Option.bind_splits)
  have "rdv_reachable cfg sockfd st1"
    using rdv_reachable.step [OF Cons.prems(2) _ st1(1)] Cons.prems(3) by simp
  from Cons.IH [OF st1(2) this] Cons.prems(3) show ?case by simp
qed simp

lemma rdv_server_loop_safe:
  assumes "tables_inv cfg s" and "\<And>e. e \<in> set es \<Longrightarrow> malloc_fresh (rm_malloc (ev_mem e))"
  shows "\<exists>t' s'. rdv_server_loop cfg sockfd es (t, s) = Some (t', s') \<and> tables_inv cfg s'"
  using assms
proof (induction es arbitrary: t s)
  case (Cons e es)
  obtain t1 s1 where s1: "rdv_server_step cfg sockfd e (t, s) = Some (t1, s1)" "tables_inv cfg s1"
    using rdv_server_step_safe [OF Cons.prems(1), of e sockfd t] Cons.prems(2) by auto
  from Cons.IH [OF s1(2), of t1] Cons.prems(2) s1(1) show ?case by auto
qed simp

lemma tables_ok_empty:
  assumes "tables_ok [] ss s"
  shows "cl_heap s p = None" "se_heap s q = None" "n_clients s = 0" "clients s = None" "sessions s = None"
    "clients_address_root s = []" "clients_vpn_root s = []" "sessions_root s = []"
proof -
  note D = tables_okD [OF assms]
  have c: "cl_heap s p = None" for p using peers_wf_allocated [OF D(1), of p] by simp
  have q: "se_heap s q = None" for q
  proof (rule ccontr)
    assume "se_heap s q \<noteq> None"
    then obtain v where "se_heap s q = Some v" by auto
    then have "field_at se_pair (se_heap s) q = Some (se_peer1 v, se_peer2 v)"
      by (simp add: field_at_def se_pair_def)
    with D(3) c show False unfolding peers_live_def by blast
  qed
  have "ss = []" using sessions_wf_allocated [OF D(2)] q by (cases ss) auto
  with D c q show "cl_heap s p = None" "se_heap s q = None" "n_clients s = 0" "clients s = None"
    "sessions s = None" "clients_address_root s = []" "clients_vpn_root s = []" "sessions_root s = []"
    by (auto simp: peers_wf_def sessions_wf_def)
qed

lemma server_run_safe:
  assumes "max_clients cfg \<ge> 0" and "\<And>e. e \<in> set es \<Longrightarrow> malloc_fresh (rm_malloc (ev_mem e))"
  shows "\<exists>s'. rdv_server_run cfg sockfd es = Some s' \<and>
    (\<forall>p. cl_heap s' p = None) \<and> (\<forall>q. se_heap s' q = None) \<and>
    clients s' = None \<and> sessions s' = None \<and> n_clients s' = 0 \<and>
    clients_address_root s' = [] \<and> clients_vpn_root s' = [] \<and> sessions_root s' = []"
proof -
  obtain t s where s: "rdv_server_loop cfg sockfd es (0, init_server) = Some (t, s)" "tables_inv cfg s"
    using rdv_server_loop_safe [OF tables_inv_init [OF assms(1)] assms(2)] by blast
  then obtain ps ss where ok: "tables_ok ps ss s" by (auto simp: tables_inv_def)
  have hd: "clients s = first_of ps"
    using tables_okD(1) [OF ok] by (auto simp: peers_wf_def dest: dlseg_head)
  obtain s' ss' where s': "remove_all_from (first_of ps) s = Some s'" "tables_ok [] ss' s'"
    using remove_all_from_spec [OF ok] by blast
  with s(1) hd tables_ok_empty [OF s'(2)] show ?thesis
    by (auto simp: rdv_server_run_def)
qed

text \<open>C1. Memory safety of the rendezvous server: whatever datagrams arrive from whatever
  addresses, at whatever times and whichever allocations fail, a run of the server never
  follows a pointer to freed or unallocated memory, its list walks terminate, and at exit
  every client and every session has been freed and all lists and trees are empty.\<close>

theorem rdv_server_run_safe:
  assumes "max_clients cfg \<ge> 0" and "\<And>e. e \<in> set es \<Longrightarrow> malloc_fresh (rm_malloc (ev_mem e))"
  shows "\<exists>s'. rdv_server_run cfg sockfd es = Some s' \<and>
    (\<forall>p. cl_heap s' p = None) \<and> (\<forall>q. se_heap s' q = None) \<and>
    clients s' = None \<and> sessions s' = None \<and> n_clients s' = 0 \<and>
    clients_address_root s' = [] \<and> clients_vpn_root s' = [] \<and> sessions_root s' = []"
  by (rule server_run_safe [OF assms])

text \<open>C7. In every reachable state the client counter is the number of allocated clients and
  never exceeds \<^verbatim>\<open>max_clients\<close> (when that is set), no two clients have the same public endpoint,
  both clients of every session are allocated, no session is stored twice, and there is never
  a session together with the session of the opposite direction.\<close>

theorem rdv_server_consistent:
  assumes "rdv_reachable cfg sockfd (t, s)" and "max_clients cfg \<ge> 0"
  shows "n_clients s = int (card {p. cl_heap s p \<noteq> None}) \<and>
    (max_clients cfg \<noteq> 0 \<longrightarrow> n_clients s \<le> max_clients cfg) \<and>
    (\<forall>p q c d. cl_heap s p = Some c \<and> cl_heap s q = Some d \<and> cl_clientaddr c = cl_clientaddr d \<longrightarrow> p = q) \<and>
    (\<forall>x v. se_heap s x = Some v \<longrightarrow> cl_heap s (se_peer1 v) \<noteq> None \<and> cl_heap s (se_peer2 v) \<noteq> None) \<and>
    (\<forall>x y v w. se_heap s x = Some v \<and> se_heap s y = Some w \<and> se_pair v = se_pair w \<longrightarrow> x = y) \<and>
    (\<forall>x y v w. se_heap s x = Some v \<and> se_heap s y = Some w \<and>
       se_peer1 v = se_peer2 w \<and> se_peer2 v = se_peer1 w \<longrightarrow> se_peer1 v = se_peer2 v)"
proof (intro conjI allI impI)
  obtain ps ss where ok: "tables_ok ps ss s" by (rule reachable_ok [OF assms])
  note D = tables_okD [OF ok]
  have "{p. cl_heap s p \<noteq> None} = set ps" using peers_wf_allocated [OF D(1)] by auto
  then show "n_clients s = int (card {p. cl_heap s p \<noteq> None})"
    using D(1) by (simp add: peers_wf_def distinct_card)
  show "max_clients cfg \<noteq> 0 \<Longrightarrow> n_clients s \<le> max_clients cfg"
    using reachable_tables_inv [OF assms] by (simp add: tables_inv_def)
  show "p = q" if "cl_heap s p = Some c \<and> cl_heap s q = Some d \<and> cl_clientaddr c = cl_clientaddr d" for p q c d
  proof (rule inj_onD [of "field_at cl_endpoint (cl_heap s)" "set ps"])
    show "field_at cl_endpoint (cl_heap s) p = field_at cl_endpoint (cl_heap s) q"
      using that by (simp add: field_at_Some cl_endpoint_def)
  qed (use D(1) that in \<open>auto simp: peers_wf_def\<close>)
  have pr: "se_heap s x = Some v \<Longrightarrow> field_at se_pair (se_heap s) x = Some (se_peer1 v, se_peer2 v)" for x v
    by (simp add: field_at_Some se_pair_def)
  show "cl_heap s (se_peer1 v) \<noteq> None" "cl_heap s (se_peer2 v) \<noteq> None" if "se_heap s x = Some v" for x v
    using D(3) pr [OF that] unfolding peers_live_def by blast+
  show "x = y" if "se_heap s x = Some v \<and> se_heap s y = Some w \<and> se_pair v = se_pair w" for x y v w
  proof (rule inj_onD [of "field_at se_pair (se_heap s)" "set ss"])
    show "field_at se_pair (se_heap s) x = field_at se_pair (se_heap s) y"
      using that by (simp add: field_at_Some)
  qed (use D(2) that in \<open>auto simp: sessions_wf_def\<close>)
  show "se_peer1 v = se_peer2 v" if "se_heap s x = Some v \<and> se_heap s y = Some w \<and>
      se_peer1 v = se_peer2 w \<and> se_peer2 v = se_peer1 w" for x y v w
    using D(4) [unfolded one_direction_def] pr [of x v] pr [of y w] that by metis
qed

section \<open>A concrete server with two clients\<close>

text \<open>Two clients behind the same public address, with VPN addresses 100 and 200, have
  registered at time 1. The witnesses below start from this state.\<close>

definition demo_cfg :: rdv_config where
  "demo_cfg = \<lparr>rc_verbose = False, rc_debug = False, rc_daemonize = False, rc_dump = False,
     rc_serverport = 0, max_clients = 3, rc_pidfile = None\<rparr>"

definition demo_mem :: rdv_mem where
  "demo_mem = \<lparr>rm_malloc = malloc3, rm_tsearch_addr = True, rm_tsearch_vpn = True, rm_tsearch_sess = True\<rparr>"

definition demo_msg :: "u8 \<Rightarrow> u32 \<Rightarrow> message_t" where
  "demo_msg type ip = \<lparr>m_type = type, m_port = 7, m_ip1 = ip, m_ip2 = 77\<rparr>"

definition demo_event :: "int \<Rightarrow> message_t \<Rightarrow> sockaddr_in \<Rightarrow> rdv_event" where
  "demo_event now m a = \<lparr>ev_select = Readable (Some (bytes_of_message m, a)), ev_now = now, ev_mem = demo_mem\<rparr>"

definition demo_a1 :: sockaddr_in where "demo_a1 = \<lparr>sin_addr = 1, sin_port = 10\<rparr>"
definition demo_a2 :: sockaddr_in where "demo_a2 = \<lparr>sin_addr = 1, sin_port = 20\<rparr>"
definition demo_a3 :: sockaddr_in where "demo_a3 = \<lparr>sin_addr = 9, sin_port = 30\<rparr>"

definition demo_events :: "rdv_event list" where
  "demo_events = [demo_event 1 (demo_msg HELLO 100) demo_a1, demo_event 1 (demo_msg HELLO 200) demo_a2]"

definition demo_c1 :: rdv_client where
  "demo_c1 = (new_client 3 1 1 10 100 77 7)\<lparr>cl_prev := Some 2\<rparr>"
definition demo_c2 :: rdv_client where
  "demo_c2 = (new_client 3 1 1 20 200 77 7)\<lparr>cl_next := Some 1\<rparr>"

definition demo_server :: rdv_server where
  "demo_server = \<lparr>cl_heap = [2 \<mapsto> demo_c2, 1 \<mapsto> demo_c1],
     clients = Some 2, n_clients = 2, clients_address_root = [2, 1], clients_vpn_root = [2, 1],
     se_heap = (\<lambda>_. None), sessions = None, sessions_root = [],
     sent = [(demo_a1, \<lparr>m_type = OK, m_port = 0, m_ip1 = 0, m_ip2 = 0\<rparr>),
             (demo_a2, \<lparr>m_type = OK, m_port = 0, m_ip1 = 0, m_ip2 = 0\<rparr>)]\<rparr>"

lemmas rdv_eval = rdv_server_step_def handle_packet_def handle_HELLO_new_def hello_add_def
  add_client_def new_client_def get_client_real_def get_client_VPN_def tsearch_def
  compare_clients_addr_def compare_clients_vpn_def link_head_def send_defs malloc3_def Let_def
  message_of_bytes_of_message length_bytes_of_message

lemmas demo_defs = demo_cfg_def demo_mem_def demo_msg_def demo_event_def demo_a1_def demo_a2_def
  demo_a3_def demo_events_def demo_c1_def demo_c2_def demo_server_def

lemma demo_loop: "rdv_server_loop demo_cfg 3 demo_events (0, init_server) = Some (0, demo_server)"
  by (simp add: rdv_eval demo_defs init_server_def)

lemma demo_fresh: "malloc_fresh (rm_malloc demo_mem)" "max_clients demo_cfg \<ge> 0"
  by (simp_all add: demo_mem_def demo_cfg_def malloc3_fresh)

lemma demo_reachable: "rdv_reachable demo_cfg 3 (0, demo_server)"
  by (rule loop_reachable [OF demo_loop rdv_reachable.start])
    (auto simp: demo_events_def demo_event_def demo_fresh)

theorem rdv_server_run_safe_witness:
  "\<exists>s'. rdv_server_run demo_cfg 3 demo_events = Some s' \<and>
    (\<forall>p. cl_heap s' p = None) \<and> (\<forall>q. se_heap s' q = None) \<and>
    clients s' = None \<and> sessions s' = None \<and> n_clients s' = 0 \<and>
    clients_address_root s' = [] \<and> clients_vpn_root s' = [] \<and> sessions_root s' = []"
  by (rule rdv_server_run_safe [OF demo_fresh(2)]) (auto simp: demo_events_def demo_event_def demo_fresh)

theorem rdv_server_consistent_witness:
  "n_clients demo_server = 2 \<and> int (card {p. cl_heap demo_server p \<noteq> None}) = 2"
proof -
  have "n_clients demo_server = 2" by (simp add: demo_server_def)
  then show ?thesis using rdv_server_consistent [OF demo_reachable demo_fresh(2)] by metis
qed

section \<open>What each message does\<close>

lemma reachable_lookup:
  assumes "rdv_reachable cfg sockfd (t, s)" "max_clients cfg \<ge> 0"
    and "cl_heap s p = Some c" "cl_clientaddr c = a"
  shows "get_client_real a s = Some (Some p)"
proof -
  obtain ps ss where "tables_ok ps ss s" by (rule reachable_ok [OF assms(1,2)])
  from get_client_real_spec [OF tables_okD(1) [OF this], of a] assms(3,4) show ?thesis
    by (metis cl_endpoint_def field_at_Some)
qed

lemma reachable_unknown:
  assumes "rdv_reachable cfg sockfd (t, s)" "max_clients cfg \<ge> 0"
    and "\<forall>p c. cl_heap s p = Some c \<longrightarrow> cl_clientaddr c \<noteq> a"
  shows "get_client_real a s = Some None" "field_at cl_endpoint (cl_heap s) q \<noteq> Some (sin_addr a, sin_port a)"
proof -
  obtain ps ss where ok: "tables_ok ps ss s" by (rule reachable_ok [OF assms(1,2)])
  have n: "field_at cl_endpoint (cl_heap s) q \<noteq> Some (sin_addr a, sin_port a)" for q
  proof
    assume "field_at cl_endpoint (cl_heap s) q = Some (sin_addr a, sin_port a)"
    then obtain v where "cl_heap s q = Some v" "cl_clientaddr v = a"
      by (auto simp: cl_endpoint_def elim!: field_at_SomeE intro: sockaddr_in_eqI)
    with assms(3) show False by blast
  qed
  then show "field_at cl_endpoint (cl_heap s) q \<noteq> Some (sin_addr a, sin_port a)" .
  show "get_client_real a s = Some None"
    using get_client_real_spec [OF tables_okD(1) [OF ok], of a] n by (metis not_None_eq)
qed

lemma hello_registered:
  assumes reach: "rdv_reachable cfg sockfd (t, s)" and cfg: "max_clients cfg \<ge> 0"
    and fr: "malloc_fresh (rm_malloc mem)" and hello: "m_type rmsg = HELLO"
    and ep: "\<forall>p c. cl_heap s p = Some c \<longrightarrow> cl_clientaddr c \<noteq> a"
    and vpn: "\<forall>p c. cl_heap s p = Some c \<longrightarrow> cl_vpnIP c \<noteq> m_ip1 rmsg"
    and room: "\<not> registration_fails cfg mem s"
  shows "\<exists>s' p. handle_packet cfg mem now rmsg a sockfd s = Some s' \<and> cl_heap s p = None \<and>
    cl_view s' = (cl_view s)(p \<mapsto> hello_client sockfd now rmsg a) \<and> se_heap s' = se_heap s \<and>
    sent s' = sent s @ [(a, \<lparr>m_type = OK, m_port = 0, m_ip1 = 0, m_ip2 = 0\<rparr>)] \<and>
    get_client_real a s' = Some (Some p) \<and> get_client_VPN (m_ip1 rmsg) s' = Some (Some p)"
proof -
  obtain ps ss where ok: "tables_ok ps ss s" by (rule reachable_ok [OF reach cfg])
  have e: "\<And>q. field_at cl_endpoint (cl_heap s) q \<noteq> Some (sin_addr a, sin_port a)"
    and ge: "get_client_real a s = Some None"
    using reachable_unknown [OF reach cfg ep] by blast+
  have nv: "field_at cl_vpnIP (cl_heap s) q \<noteq> Some (m_ip1 rmsg)" for q
    using vpn by (metis field_at_SomeE)
  then have gv: "get_client_VPN (m_ip1 rmsg) s = Some None"
    using get_client_VPN_spec [OF tables_okD(1) [OF ok], of "m_ip1 rmsg"] by (metis not_None_eq)
  have hp: "handle_packet cfg mem now rmsg a sockfd s = hello_add cfg mem sockfd now rmsg a s"
    using room by (auto simp: handle_packet_def ge hello handle_HELLO_new_def gv registration_fails_def)
  show ?thesis
  proof (rule hello_add_spec [OF ok fr e, where cfg = cfg and rmsg = rmsg and sockfd = sockfd and now = now], goal_cases)
    case 1
    with room show ?case by simp
  next
    case (2 p s')
    let ?c = "hello_client sockfd now rmsg a"
    have wf: "peers_wf (p # ps) (send_OK a s')"
      using tables_okD(1) [of "p # ps" ss "send_OK a s'"] 2(3) by (simp add: send_defs del: dlseg.simps)
    have "cl_view s' p = Some ?c" by (simp add: 2(4))
    then obtain c' where c': "cl_heap s' p = Some c'" "cl_payload c' = ?c" by (auto elim: field_at_SomeE)
    have "cl_endpoint c' = cl_endpoint ?c" "cl_vpnIP c' = cl_vpnIP ?c" by (simp_all flip: c'(2))
    then have "cl_endpoint c' = (sin_addr a, sin_port a)" "cl_vpnIP c' = m_ip1 rmsg"
      by (simp_all add: hello_client_def new_client_def cl_endpoint_def)
    moreover have "p \<in> set (clients_vpn_root s')" using nv by (simp add: 2(7))
    ultimately have "field_at cl_endpoint (cl_heap (send_OK a s')) p = Some (sin_addr a, sin_port a)"
      "field_at cl_vpnIP (cl_heap (send_OK a s')) p = Some (m_ip1 rmsg)"
      "p \<in> set (clients_vpn_root (send_OK a s'))"
      using c'(1) by (simp_all add: send_defs field_at_Some)
    then have look: "get_client_real a (send_OK a s') = Some (Some p)"
      "get_client_VPN (m_ip1 rmsg) (send_OK a s') = Some (Some p)"
      using get_client_real_spec [OF wf, of a] get_client_VPN_spec [OF wf, of "m_ip1 rmsg"] by metis+
    have "sent s' = sent s" "se_heap s' = se_heap s"
      using 2(8) by (cases s; cases s'; simp)+
    then show ?case
      using 2 look by (intro exI [of _ "send_OK a s'"] exI [of _ p]) (simp add: hp send_defs)
  qed
qed

text \<open>C20. A \<^verbatim>\<open>HELLO\<close> from an endpoint and with a VPN address that are both not registered, while
  there is room and memory, registers the client with the announced local endpoint (dropped
  when its port is zero) and the time of arrival, answers \<^verbatim>\<open>OK\<close>, and leaves every other client
  and every session as they were; afterwards both lookups find the new client.\<close>

theorem hello_registers:
  assumes reach: "rdv_reachable cfg sockfd (t, s)" and cfg: "max_clients cfg \<ge> 0"
    and fr: "malloc_fresh (rm_malloc mem)" and hello: "m_type rmsg = HELLO"
    and ep: "\<forall>p c. cl_heap s p = Some c \<longrightarrow> cl_clientaddr c \<noteq> a"
    and vpn: "\<forall>p c. cl_heap s p = Some c \<longrightarrow> cl_vpnIP c \<noteq> m_ip1 rmsg"
    and room: "\<not> registration_fails cfg mem s"
  shows "\<exists>s' p. handle_packet cfg mem now rmsg a sockfd s = Some s' \<and> cl_heap s p = None \<and>
    cl_view s' = (cl_view s)(p \<mapsto> hello_client sockfd now rmsg a) \<and> se_heap s' = se_heap s \<and>
    sent s' = sent s @ [(a, \<lparr>m_type = OK, m_port = 0, m_ip1 = 0, m_ip2 = 0\<rparr>)] \<and>
    get_client_real a s' = Some (Some p) \<and> get_client_VPN (m_ip1 rmsg) s' = Some (Some p)"
  by (rule hello_registered [OF assms])

theorem hello_registers_witness:
  "\<exists>s' p. handle_packet demo_cfg demo_mem 2 (demo_msg HELLO 250) demo_a3 3 demo_server = Some s' \<and>
    get_client_VPN 250 s' = Some (Some p)"
proof -
  have "\<forall>p c. cl_heap demo_server p = Some c \<longrightarrow> cl_clientaddr c \<noteq> demo_a3"
    "\<forall>p c. cl_heap demo_server p = Some c \<longrightarrow> cl_vpnIP c \<noteq> m_ip1 (demo_msg HELLO 250)"
    "\<not> registration_fails demo_cfg demo_mem demo_server" "m_type (demo_msg HELLO 250) = HELLO"
    by (auto simp: demo_defs new_client_def registration_fails_def malloc3_def)
  from hello_registers [OF demo_reachable demo_fresh(2,1) this(4,1,2,3), of 2] show ?thesis
    by (auto simp: demo_msg_def)
qed

text \<open>A \<^verbatim>\<open>HELLO\<close> from an unregistered endpoint for a VPN address whose client, found in the
  index, was heard of in the last \<^verbatim>\<open>PEER_TIMEOUT\<close> seconds is refused: the server answers \<^verbatim>\<open>NOK\<close>
  and neither table changes.\<close>

theorem hello_refuses_taken_address:
  assumes reach: "rdv_reachable cfg sockfd (t, s)" and cfg: "max_clients cfg \<ge> 0"
    and hello: "m_type rmsg = HELLO"
    and ep: "\<forall>p c. cl_heap s p = Some c \<longrightarrow> cl_clientaddr c \<noteq> a"
    and d: "get_client_VPN (m_ip1 rmsg) s = Some (Some q)" "cl_heap s q = Some d"
    and live: "now \<le> cl_time d + PEER_TIMEOUT"
  shows "handle_packet cfg mem now rmsg a sockfd s =
    Some (s\<lparr>sent := sent s @ [(a, \<lparr>m_type = NOK, m_port = 0, m_ip1 = 0, m_ip2 = 0\<rparr>)]\<rparr>)"
  using reachable_unknown(1) [OF reach cfg ep] d live
  by (simp add: handle_packet_def hello handle_HELLO_new_def client_is_timeout_alloc send_defs)

theorem hello_refuses_taken_address_witness:
  "handle_packet demo_cfg demo_mem 6 (demo_msg HELLO 100) demo_a3 3 demo_server =
    Some (demo_server\<lparr>sent := sent demo_server @ [(demo_a3, \<lparr>m_type = NOK, m_port = 0, m_ip1 = 0, m_ip2 = 0\<rparr>)]\<rparr>)"
  by (rule hello_refuses_taken_address [OF demo_reachable demo_fresh(2), of _ _ 1 demo_c1])
    (auto simp: demo_defs new_client_def get_client_VPN_def compare_clients_vpn_def)

lemma ask_answered:
  assumes reach: "rdv_reachable cfg sockfd (t, s)" and cfg: "max_clients cfg \<ge> 0"
    and fr: "malloc_fresh (rm_malloc mem)" and ask: "m_type rmsg = ASK_CONNECTION"
    and c: "cl_heap s p = Some c" "cl_clientaddr c = a"
    and d: "get_client_VPN (m_ip1 rmsg) s = Some (Some q)" "cl_heap s q = Some d"
    and live: "now \<le> cl_time d + PEER_TIMEOUT"
    and mem: "session_memory mem s"
  shows "\<exists>s'. handle_packet cfg mem now rmsg a sockfd s = Some s' \<and>
    sent s' = sent s @ [peer_answer ANS_CONNECTION (same_network c d) c d,
                        peer_answer FWD_CONNECTION (same_network c d) d c] \<and>
    session_pairs s' = insert (p, q) (session_pairs s - {(q, p)}) \<and>
    cl_heap s' = cl_heap s \<and> clients s' = clients s \<and> n_clients s' = n_clients s"
proof -
  obtain ps ss where ok: "tables_ok ps ss s" by (rule reachable_ok [OF reach cfg])
  have fresh: "\<not> now - cl_time d > PEER_TIMEOUT" using live by simp
  have hp: "handle_packet cfg mem now rmsg a sockfd s = handle_ASK mem now rmsg a p s"
    by (simp add: handle_packet_def reachable_lookup [OF reach cfg c] ask)
  show ?thesis
  proof (rule handle_ASK_found [OF ok fr c(1) d(2,1) fresh, where a = a], goal_cases)
    case (1 s')
    with mem show ?case by auto
  next
    case (2 s')
    show ?case
      unfolding hp 2(1) by (intro exI conjI, rule refl) (simp_all add: same_peersD [OF 2(3)] 2(4))
  qed
qed

text \<open>C21. An \<^verbatim>\<open>ASK_CONNECTION\<close> of a registered client for a VPN address whose client is registered
  and not timed out makes the server send, in this order, \<^verbatim>\<open>ANS_CONNECTION\<close> to the asking client
  with the endpoint of the other one and \<^verbatim>\<open>FWD_CONNECTION\<close> to the other client with the endpoint
  of the asking one. The local endpoints are sent when both clients announced one and share
  their public address, the public endpoints otherwise. Afterwards there is a session from the
  asking client to the other one, none in the opposite direction, all other sessions are kept
  and the client table is unchanged.\<close>

theorem ask_connection_answers:
  assumes reach: "rdv_reachable cfg sockfd (t, s)" and cfg: "max_clients cfg \<ge> 0"
    and fr: "malloc_fresh (rm_malloc mem)" and ask: "m_type rmsg = ASK_CONNECTION"
    and c: "cl_heap s p = Some c" "cl_clientaddr c = a"
    and d: "get_client_VPN (m_ip1 rmsg) s = Some (Some q)" "cl_heap s q = Some d"
    and live: "now \<le> cl_time d + PEER_TIMEOUT"
    and mem: "session_memory mem s"
  shows "\<exists>s'. handle_packet cfg mem now rmsg a sockfd s = Some s' \<and>
    sent s' = sent s @ [peer_answer ANS_CONNECTION (same_network c d) c d,
                        peer_answer FWD_CONNECTION (same_network c d) d c] \<and>
    session_pairs s' = insert (p, q) (session_pairs s - {(q, p)}) \<and>
    cl_heap s' = cl_heap s \<and> clients s' = clients s \<and> n_clients s' = n_clients s"
  by (rule ask_answered [OF assms])

lemma demo_session_memory: "session_memory demo_mem demo_server"
  by (auto simp: session_memory_def demo_mem_def demo_server_def malloc3_def)

lemma demo_lookup: "get_client_VPN 200 demo_server = Some (Some 2)" "get_client_VPN 100 demo_server = Some (Some 1)"
  "cl_heap demo_server 1 = Some demo_c1" "cl_heap demo_server 2 = Some demo_c2"
  "cl_clientaddr demo_c1 = demo_a1" "cl_time demo_c1 = 1" "cl_time demo_c2 = 1"
  by (simp_all add: get_client_VPN_def compare_clients_vpn_def demo_defs new_client_def)

theorem ask_connection_answers_witness:
  "\<exists>s'. handle_packet demo_cfg demo_mem 6 (demo_msg ASK_CONNECTION 200) demo_a1 3 demo_server = Some s' \<and>
    sent s' = sent demo_server @
      [(demo_a1, \<lparr>m_type = ANS_CONNECTION, m_port = 7, m_ip1 = 77, m_ip2 = 200\<rparr>),
       (demo_a2, \<lparr>m_type = FWD_CONNECTION, m_port = 7, m_ip1 = 77, m_ip2 = 100\<rparr>)]"
proof -
  have t: "m_type (demo_msg ASK_CONNECTION 200) = ASK_CONNECTION"
    and v: "get_client_VPN (m_ip1 (demo_msg ASK_CONNECTION 200)) demo_server = Some (Some 2)"
    by (simp_all add: demo_msg_def demo_lookup)
  show ?thesis
    using ask_connection_answers [OF demo_reachable demo_fresh(2,1) t demo_lookup(3,5) v demo_lookup(4) _ demo_session_memory, of 6]
    by (auto simp: demo_lookup peer_answer_def same_network_def demo_defs new_client_def)
qed

text \<open>C22. An \<^verbatim>\<open>ASK_CONNECTION\<close> for a VPN address that no indexed client has, or whose client timed
  out, is answered by exactly one \<^verbatim>\<open>REJ_CONNECTION\<close> that names the address; in the second case the
  timed out client and exactly its sessions are removed, in the first the tables are unchanged.\<close>

theorem ask_connection_rejects:
  assumes reach: "rdv_reachable cfg sockfd (t, s)" and cfg: "max_clients cfg \<ge> 0"
    and ask: "m_type rmsg = ASK_CONNECTION"
    and c: "cl_heap s p = Some c" "cl_clientaddr c = a"
    and look: "get_client_VPN (m_ip1 rmsg) s = Some r"
    and out: "\<forall>q d. r = Some q \<longrightarrow> cl_heap s q = Some d \<longrightarrow> now > cl_time d + PEER_TIMEOUT"
  shows "\<exists>s'. handle_packet cfg mem now rmsg a sockfd s = Some s' \<and>
    sent s' = sent s @ [(a, \<lparr>m_type = REJ_CONNECTION, m_port = 0, m_ip1 = m_ip1 rmsg, m_ip2 = 0\<rparr>)] \<and>
    (case r of
       None \<Rightarrow> cl_heap s' = cl_heap s \<and> se_heap s' = se_heap s
     | Some q \<Rightarrow> cl_view s' = (cl_view s)(q := None) \<and>
         (\<forall>x. se_view s' x = (if involves q s x then None else se_view s x)))"
proof -
  obtain ps ss where ok: "tables_ok ps ss s" by (rule reachable_ok [OF reach cfg])
  have hp: "handle_packet cfg mem now rmsg a sockfd s = handle_ASK mem now rmsg a p s"
    by (simp add: handle_packet_def reachable_lookup [OF reach cfg c] ask)
  show ?thesis
  proof (cases r)
    case None
    then show ?thesis by (simp add: hp handle_ASK_def look send_defs)
  next
    case (Some q)
    with look obtain d where d: "cl_heap s q = Some d"
      using get_client_VPN_cell [OF ok, of "m_ip1 rmsg"] by (metis option.inject option.distinct(1))
    let ?s1 = "send_REJECT (m_ip1 rmsg) a s"
    have h: "tables_ok ps ss ?s1" "cl_heap ?s1 q \<noteq> None" using ok d by (simp_all add: send_defs)
    obtain s' ss' where s': "drop_client q ?s1 = Some s'" "cl_view s' = (cl_view ?s1)(q := None)"
      "\<And>x. se_view s' x = (if involves q ?s1 x then None else se_view ?s1 x)"
      "rdv_tables.more s' = rdv_tables.more ?s1"
      using drop_client_spec [OF h] by metis
    have "handle_packet cfg mem now rmsg a sockfd s = Some s'"
      using out Some d s'(1) by (simp add: hp handle_ASK_def look client_is_timeout_alloc)
    moreover have "sent s' = sent ?s1" using s'(4) by (cases s'; cases ?s1) simp
    moreover have "involves q ?s1 x = involves q s x" for x by (simp add: involves_def send_defs)
    ultimately show ?thesis using s'(2,3) Some by (simp add: send_defs)
  qed
qed

theorem ask_connection_rejects_witness:
  "\<exists>s'. handle_packet demo_cfg demo_mem 9 (demo_msg ASK_CONNECTION 200) demo_a1 3 demo_server = Some s' \<and>
    cl_view s' = (cl_view demo_server)(2 := None)"
proof -
  have t: "m_type (demo_msg ASK_CONNECTION 200) = ASK_CONNECTION"
    and v: "get_client_VPN (m_ip1 (demo_msg ASK_CONNECTION 200)) demo_server = Some (Some 2)"
    by (simp_all add: demo_msg_def demo_lookup)
  show ?thesis
    using ask_connection_rejects [OF demo_reachable demo_fresh(2) t demo_lookup(3,5) v, of 9 demo_mem]
    by (auto simp: demo_lookup)
qed

text \<open>C23. A \<^verbatim>\<open>BYE\<close> of a registered client removes this client and exactly the sessions it takes part
  in, decrements the counter and sends nothing.\<close>

theorem bye_removes_client:
  assumes reach: "rdv_reachable cfg sockfd (t, s)" and cfg: "max_clients cfg \<ge> 0"
    and bye: "m_type rmsg = BYE" and c: "cl_heap s p = Some c" "cl_clientaddr c = a"
  shows "\<exists>s'. handle_packet cfg mem now rmsg a sockfd s = Some s' \<and>
    cl_view s' = (cl_view s)(p := None) \<and> n_clients s' = n_clients s - 1 \<and>
    (\<forall>x. se_view s' x = (if involves p s x then None else se_view s x)) \<and> sent s' = sent s \<and>
    get_client_real a s' = Some None"
proof -
  obtain ps ss where ok: "tables_ok ps ss s" by (rule reachable_ok [OF reach cfg])
  obtain s' ss' where s': "drop_client p s = Some s'" "cl_view s' = (cl_view s)(p := None)"
    "tables_ok (remove1 p ps) ss' s'" "n_clients s' = n_clients s - 1"
    "\<And>x. se_view s' x = (if involves p s x then None else se_view s x)"
    "rdv_tables.more s' = rdv_tables.more s"
    using drop_client_spec [OF ok, of p] c(1) by (metis option.distinct(1))
  have "get_client_real a s' = Some None"
  proof (rule get_client_real_cell [OF s'(3), of a])
    fix q d assume d: "cl_heap s' q = Some d" "cl_endpoint d = (sin_addr a, sin_port a)"
    then have q: "cl_view s' q = Some (cl_payload d)" by (simp add: field_at_Some)
    then have "q \<noteq> p" "cl_view s q = Some (cl_payload d)" by (auto simp: s'(2) split: if_splits)
    then obtain e where e: "cl_heap s q = Some e" "cl_payload e = cl_payload d" by (auto elim!: field_at_SomeE)
    then have "cl_endpoint e = cl_endpoint d" by (metis cl_payload_fields(1))
    with d(2) have "cl_clientaddr e = a" by (simp add: cl_endpoint_def sockaddr_in_eqI)
    with reachable_lookup [OF reach cfg e(1)] reachable_lookup [OF reach cfg c] \<open>q \<noteq> p\<close> show ?thesis by simp
  qed
  moreover have "sent s' = sent s" using s'(6) by (cases s'; cases s) simp
  ultimately show ?thesis
    using s' by (simp add: handle_packet_def reachable_lookup [OF reach cfg c] bye)
qed

theorem bye_removes_client_witness:
  "\<exists>s'. handle_packet demo_cfg demo_mem 9 (demo_msg BYE 0) demo_a1 3 demo_server = Some s' \<and>
    n_clients s' = 1 \<and> get_client_real demo_a1 s' = Some None"
  using bye_removes_client [OF demo_reachable demo_fresh(2) _ demo_lookup(3,5), of "demo_msg BYE 0" demo_mem 9]
  by (auto simp: demo_msg_def demo_server_def)

text \<open>A \<^verbatim>\<open>CLOSE_CONNECTION\<close> of a registered client removes the sessions between it and the client
  with the given VPN address, in both directions, and nothing else.\<close>

theorem close_connection_removes_sessions:
  assumes reach: "rdv_reachable cfg sockfd (t, s)" and cfg: "max_clients cfg \<ge> 0"
    and cls: "m_type rmsg = CLOSE_CONNECTION" and c: "cl_heap s p = Some c" "cl_clientaddr c = a"
    and look: "get_client_VPN (m_ip1 rmsg) s = Some (Some q)"
  shows "\<exists>s'. handle_packet cfg mem now rmsg a sockfd s = Some s' \<and>
    session_pairs s' = session_pairs s - {(p, q), (q, p)} \<and>
    cl_heap s' = cl_heap s \<and> n_clients s' = n_clients s \<and> sent s' = sent s"
proof -
  obtain ps ss where ok: "tables_ok ps ss s" by (rule reachable_ok [OF reach cfg])
  have hp: "handle_packet cfg mem now rmsg a sockfd s = handle_CLOSE rmsg p s"
    by (simp add: handle_packet_def reachable_lookup [OF reach cfg c] cls)
  show ?thesis
  proof (rule handle_CLOSE_spec [OF ok, of rmsg p], goal_cases)
    case (2 tmp s' ss')
    have "sent s' = sent s" using same_peersD(6) [OF 2(4)] by (cases s'; cases s) simp
    with 2 look show ?case by (auto simp: hp same_peersD [OF 2(4)])
  qed (use look in simp)
qed

text \<open>The concrete server after client 1 has asked for client 2: session 1 is open.\<close>

definition demo_session_server :: rdv_server where
  "demo_session_server = demo_server\<lparr>se_heap := [1 \<mapsto> new_session 1 2 2], sessions := Some 1, sessions_root := [1],
     sent := sent demo_server @
       [(demo_a1, \<lparr>m_type = ANS_CONNECTION, m_port = 7, m_ip1 = 77, m_ip2 = 200\<rparr>),
        (demo_a2, \<lparr>m_type = FWD_CONNECTION, m_port = 7, m_ip1 = 77, m_ip2 = 100\<rparr>)]\<rparr>"

lemma demo_session_step:
  "rdv_server_step demo_cfg 3 (demo_event 2 (demo_msg ASK_CONNECTION 200) demo_a1) (0, demo_server) =
     Some (0, demo_session_server)"
  by (simp add: rdv_eval demo_defs demo_session_server_def handle_ASK_def client_is_timeout_def get_session_def
      add_session_def new_session_def send_ANS_def send_FWD_def)

lemma demo_session_reachable: "rdv_reachable demo_cfg 3 (0, demo_session_server)"
  by (rule rdv_reachable.step [OF demo_reachable _ demo_session_step]) (simp add: demo_event_def demo_fresh)

lemma demo_session_lookup:
  "get_client_VPN 200 demo_session_server = Some (Some 2)" "cl_heap demo_session_server = cl_heap demo_server"
  "session_pairs demo_session_server = {(1, 2)}"
  using demo_lookup(1)
  by (auto simp: get_client_VPN_def demo_session_server_def session_pairs_def new_session_def se_pair_def
      ran_def field_at_def)

theorem close_connection_removes_sessions_witness:
  "\<exists>s'. handle_packet demo_cfg demo_mem 3 (demo_msg CLOSE_CONNECTION 200) demo_a1 3 demo_session_server = Some s' \<and>
    session_pairs demo_session_server = {(1, 2)} \<and> session_pairs s' = {}"
  using close_connection_removes_sessions [OF demo_session_reachable demo_fresh(2) _ _ demo_lookup(5),
      of "demo_msg CLOSE_CONNECTION 200" 1 2 demo_mem 3]
  by (auto simp: demo_msg_def demo_lookup demo_session_lookup simp del: One_nat_def)

text \<open>C24. The periodic cleaning removes exactly the clients that have been silent for more than
  twice \<^verbatim>\<open>PEER_TIMEOUT\<close>; every other client keeps its data.\<close>

theorem clean_dead_clients_exact:
  assumes reach: "rdv_reachable cfg sockfd (t, s)" and cfg: "max_clients cfg \<ge> 0"
  shows "\<exists>s'. clean_dead_clients now s = Some s' \<and> sent s' = sent s \<and>
    (\<forall>p. cl_view s' p =
       (case cl_view s p of
          None \<Rightarrow> None
        | Some c \<Rightarrow> if now - cl_time c > 2 * PEER_TIMEOUT then None else Some c))"
proof -
  obtain ps ss where ok: "tables_ok ps ss s" by (rule reachable_ok [OF reach cfg])
  obtain s' where s': "clean_dead_clients now s = Some s'" "shrinks s s'"
    "\<And>p. cl_view s' p = (if dead_at now s p then None else cl_view s p)"
    using clean_dead_clients_spec [OF ok, of now] by metis
  have "sent s' = sent s" using s'(2) unfolding shrinks_def by (cases s'; cases s) simp
  moreover have "cl_view s' p = (case cl_view s p of None \<Rightarrow> None
      | Some c \<Rightarrow> if now - cl_time c > 2 * PEER_TIMEOUT then None else Some c)" for p
    unfolding s'(3) dead_at_def by (cases "cl_heap s p") (simp_all add: field_at_def)
  ultimately show ?thesis using s'(1) by blast
qed

theorem clean_dead_clients_exact_witness:
  "\<exists>s'. clean_dead_clients 12 demo_server = Some s' \<and> cl_view s' 1 = None \<and> cl_view s' 2 = None"
proof -
  from clean_dead_clients_exact [OF demo_reachable demo_fresh(2), of 12] obtain s' where
    s': "clean_dead_clients 12 demo_server = Some s'" and v: "\<forall>p. cl_view s' p =
       (case cl_view demo_server p of None \<Rightarrow> None
        | Some c \<Rightarrow> if 12 - cl_time c > 2 * PEER_TIMEOUT then None else Some c)" by blast
  have "cl_view s' 1 = None" "cl_view s' 2 = None"
    unfolding v [rule_format, of 1] v [rule_format, of 2]
    by (simp_all add: field_at_Some demo_lookup del: One_nat_def)
  with s' show ?thesis by blast
qed

text \<open>A datagram of a type other than \<^verbatim>\<open>HELLO\<close> from an endpoint that is not registered only
  makes the server send \<^verbatim>\<open>RECONNECT\<close> to it; a \<^verbatim>\<open>PING\<close> of a registered client is answered by \<^verbatim>\<open>PONG\<close>
  and refreshes exactly its time stamp.\<close>

theorem keep_alive:
  assumes reach: "rdv_reachable cfg sockfd (t, s)" and cfg: "max_clients cfg \<ge> 0"
  shows "((\<forall>p c. cl_heap s p = Some c \<longrightarrow> cl_clientaddr c \<noteq> a) \<and> m_type rmsg \<noteq> HELLO \<longrightarrow>
      handle_packet cfg mem now rmsg a sockfd s =
        Some (s\<lparr>sent := sent s @ [(a, \<lparr>m_type = RECONNECT, m_port = 0, m_ip1 = 0, m_ip2 = 0\<rparr>)]\<rparr>)) \<and>
    (cl_heap s p = Some c \<and> cl_clientaddr c = a \<and> m_type rmsg = PING \<longrightarrow>
      handle_packet cfg mem now rmsg a sockfd s =
        Some (s\<lparr>sent := sent s @ [(a, \<lparr>m_type = PONG, m_port = 0, m_ip1 = 0, m_ip2 = 0\<rparr>)],
                cl_heap := (cl_heap s)(p \<mapsto> c\<lparr>cl_time := now\<rparr>)\<rparr>))"
proof (intro conjI impI)
  assume "(\<forall>p c. cl_heap s p = Some c \<longrightarrow> cl_clientaddr c \<noteq> a) \<and> m_type rmsg \<noteq> HELLO"
  then show "handle_packet cfg mem now rmsg a sockfd s =
      Some (s\<lparr>sent := sent s @ [(a, \<lparr>m_type = RECONNECT, m_port = 0, m_ip1 = 0, m_ip2 = 0\<rparr>)]\<rparr>)"
    using reachable_unknown(1) [OF reach cfg, of a] by (simp add: handle_packet_def send_defs)
next
  assume "cl_heap s p = Some c \<and> cl_clientaddr c = a \<and> m_type rmsg = PING"
  then show "handle_packet cfg mem now rmsg a sockfd s =
      Some (s\<lparr>sent := sent s @ [(a, \<lparr>m_type = PONG, m_port = 0, m_ip1 = 0, m_ip2 = 0\<rparr>)],
              cl_heap := (cl_heap s)(p \<mapsto> c\<lparr>cl_time := now\<rparr>)\<rparr>)"
    using reachable_lookup [OF reach cfg, of p c a]
    by (simp add: handle_packet_def send_defs client_update_time_def)
qed

theorem keep_alive_witness:
  "\<exists>s'. handle_packet demo_cfg demo_mem 4 (demo_msg PING 0) demo_a1 3 demo_server = Some s' \<and>
    cl_heap s' 1 = Some (demo_c1\<lparr>cl_time := 4\<rparr>)"
  using keep_alive [OF demo_reachable demo_fresh(2), of demo_a1 "demo_msg PING 0" demo_mem 4 1 demo_c1]
  by (simp add: demo_msg_def demo_lookup del: One_nat_def)

section \<open>Uniqueness of VPN addresses\<close>

text \<open>The \<^verbatim>\<open>HELLO\<close> branch that registers a client without looking its VPN address up: the sender is
  a registered client that timed out and announces another VPN address, one that is in use.\<close>

definition takes_over_address :: "int \<Rightarrow> message_t \<Rightarrow> sockaddr_in \<Rightarrow> rdv_server \<Rightarrow> bool" where
  "takes_over_address now rmsg a s \<longleftrightarrow> m_type rmsg = HELLO \<and>
     (\<exists>p q c d. cl_heap s p = Some c \<and> cl_clientaddr c = a \<and> now - cl_time c > PEER_TIMEOUT \<and>
        cl_vpnIP c \<noteq> m_ip1 rmsg \<and> cl_heap s q = Some d \<and> cl_vpnIP d = m_ip1 rmsg)"

lemma vpn_complete_sent [simp]: "vpn_complete (s\<lparr>sent := x\<rparr>) = vpn_complete s"
  by (simp add: vpn_complete_def)

lemma vpn_complete_same:
  "same_peers s s' \<Longrightarrow> vpn_complete s' \<longleftrightarrow> vpn_complete s"
  by (simp add: vpn_complete_def same_peersD)

lemma shrinks_vpn: "shrinks s s' \<Longrightarrow> vpn_complete s \<Longrightarrow> vpn_complete s'"
  by (simp add: shrinks_def)

lemma shrinks_no_vpn:
  assumes "shrinks s s'" and "\<And>q. field_at cl_vpnIP (cl_heap s) q \<noteq> Some ip"
  shows "field_at cl_vpnIP (cl_heap s') q \<noteq> Some ip"
proof
  assume f: "field_at cl_vpnIP (cl_heap s') q = Some ip"
  then have "cl_view s' q \<noteq> None" by (auto elim: field_at_SomeE)
  with assms(1) have "cl_view s' q = cl_view s q" by (metis shrinks_def)
  from payload_key(2) [OF this] f assms(2) show False by metis
qed

lemma hello_add_vpn_complete:
  assumes ok: "tables_ok ps ss s" and fr: "malloc_fresh (rm_malloc mem)"
    and new: "\<And>q. field_at cl_endpoint (cl_heap s) q \<noteq> Some (sin_addr a, sin_port a)"
    and v: "vpn_complete s" and free: "\<And>q. field_at cl_vpnIP (cl_heap s) q \<noteq> Some (m_ip1 rmsg)"
    and h: "hello_add cfg mem sockfd now rmsg a s = Some s'"
  shows "vpn_complete s'"
proof (rule hello_add_spec [OF ok fr new, where cfg = cfg and rmsg = rmsg and sockfd = sockfd and now = now], goal_cases)
  case 1
  with h v show ?case by simp
next
  case (2 p s1)
  have "p \<in> set (clients_vpn_root s1)" "set (clients_vpn_root s) \<subseteq> set (clients_vpn_root s1)"
    using 2(7) free by auto
  moreover have "cl_heap s1 q \<noteq> None \<Longrightarrow> q = p \<or> cl_heap s q \<noteq> None" for q
    using fun_cong [OF 2(4), of q] by (metis fun_upd_other field_at_None)
  ultimately have "vpn_complete s1" using v unfolding vpn_complete_def by blast
  then show ?case using h 2(1) by (auto simp: send_defs)
qed

lemma vpn_complete_unique:
  assumes ok: "tables_ok ps ss s" and v: "vpn_complete s"
    and "cl_heap s p = Some c" "cl_heap s q = Some d" "cl_vpnIP c = cl_vpnIP d"
  shows "p = q"
proof (rule inj_onD [of "field_at cl_vpnIP (cl_heap s)" "set (clients_vpn_root s)"])
  show "field_at cl_vpnIP (cl_heap s) p = field_at cl_vpnIP (cl_heap s) q"
    using assms(3-5) by (simp add: field_at_Some)
qed (use tables_okD(1) [OF ok] v assms(3,4) in \<open>auto simp: peers_wf_def vpn_complete_def\<close>)

lemma drop_client_frees_vpn:
  assumes ok: "tables_ok ps ss s" and v: "vpn_complete s" and c: "cl_heap s p = Some c"
    and s': "cl_view s' = (cl_view s)(p := None)"
  shows "field_at cl_vpnIP (cl_heap s') q \<noteq> Some (cl_vpnIP c)"
proof
  assume f: "field_at cl_vpnIP (cl_heap s') q = Some (cl_vpnIP c)"
  then have "cl_view s' q \<noteq> None" by (auto elim: field_at_SomeE)
  with s' have e: "cl_view s' q = cl_view s q" and q: "q \<noteq> p" by (auto split: if_splits)
  from payload_key(2) [OF e] f have "field_at cl_vpnIP (cl_heap s) q = Some (cl_vpnIP c)" by simp
  then obtain d where "cl_heap s q = Some d" "cl_vpnIP d = cl_vpnIP c" by (metis field_at_SomeE)
  with vpn_complete_unique [OF ok v _ c] q show False by blast
qed

lemma hello_finish_vpn:
  assumes ok: "tables_ok ps ss s" and fr: "malloc_fresh (rm_malloc mem)"
    and new: "\<And>q. field_at cl_endpoint (cl_heap s) q \<noteq> Some (sin_addr a, sin_port a)"
    and v: "vpn_complete s" and free: "\<And>q. field_at cl_vpnIP (cl_heap s) q \<noteq> Some (m_ip1 rmsg)"
    and h: "do { (full, s2) \<leftarrow>
            (if max_clients cfg \<noteq> 0 \<and> n_clients s = max_clients cfg
             then do { s' \<leftarrow> clean_dead_clients now s; Some (n_clients s' = max_clients cfg, s') }
             else Some (False, s));
          (if full then Some (send_NOK a s2) else hello_add cfg mem sockfd now rmsg a s2) } = Some s'"
  shows "vpn_complete s'"
proof -
  obtain s2 ps2 ss2 where s2: "clean_dead_clients now s = Some s2" "tables_ok ps2 ss2 s2" "shrinks s s2"
    using clean_dead_clients_spec [OF ok] by metis
  have "hello_add cfg mem sockfd now rmsg a s2 = Some s' \<Longrightarrow> vpn_complete s'"
    using hello_add_vpn_complete [OF s2(2) fr] shrinks_endpoint [OF s2(3) new] shrinks_no_vpn [OF s2(3) free]
      shrinks_vpn [OF s2(3) v] by metis
  moreover have "hello_add cfg mem sockfd now rmsg a s = Some s' \<Longrightarrow> vpn_complete s'"
    using hello_add_vpn_complete [OF ok fr new v free] .
  ultimately show ?thesis
    using h shrinks_vpn [OF s2(3) v] by (auto simp: s2(1) send_defs split: if_splits)
qed

lemma handle_HELLO_new_vpn:
  assumes ok: "tables_ok ps ss s" and fr: "malloc_fresh (rm_malloc mem)"
    and new: "\<And>q. field_at cl_endpoint (cl_heap s) q \<noteq> Some (sin_addr a, sin_port a)"
    and v: "vpn_complete s" and h: "handle_HELLO_new cfg mem sockfd now rmsg a s = Some s'"
  shows "vpn_complete s'"
proof (rule get_client_VPN_cell [OF ok, of "m_ip1 rmsg"], goal_cases)
  case 1
  have "field_at cl_vpnIP (cl_heap s) q \<noteq> Some (m_ip1 rmsg)" for q
    using 1(2) v unfolding vpn_complete_def by (metis field_at_None option.distinct(1))
  with h 1(1) show ?case
    by (intro hello_finish_vpn [OF ok fr new v]) (simp_all add: handle_HELLO_new_def)
next
  case (2 tmp d)
  obtain s1 ss1 where s1: "drop_client tmp s = Some s1" "tables_ok (remove1 tmp ps) ss1 s1"
    "cl_view s1 = (cl_view s)(tmp := None)" "shrinks s s1"
    using drop_client_shrinks [OF ok, of tmp] 2(2) by blast
  show ?case
  proof (cases "now - cl_time d > PEER_TIMEOUT")
    case True
    show ?thesis
      by (rule hello_finish_vpn [OF s1(2) fr shrinks_endpoint [OF s1(4) new] shrinks_vpn [OF s1(4) v]
            drop_client_frees_vpn [OF ok v 2(2) s1(3), unfolded 2(3)]])
        (use h True in \<open>simp add: handle_HELLO_new_def 2(1) client_is_timeout_alloc [OF 2(2)] s1(1)\<close>)
  next
    case False
    with h v show ?thesis
      by (auto simp: handle_HELLO_new_def 2(1) client_is_timeout_alloc [OF 2(2)] send_defs)
  qed
qed

lemma client_update_time_vpn: "client_update_time now p s = Some s' \<Longrightarrow> vpn_complete s' \<longleftrightarrow> vpn_complete s"
  by (auto simp: client_update_time_def vpn_complete_def split: Option.bind_splits if_splits)

lemma drop_client_vpn:
  assumes "tables_ok ps ss s" "vpn_complete s" "cl_heap s p = Some c" "drop_client p s = Some s'"
  shows "vpn_complete s'"
  using drop_client_vpn_complete [OF assms(1,2) _ assms(4)] assms(3) by simp

lemma handle_HELLO_known_vpn:
  assumes ok: "tables_ok ps ss s" and fr: "malloc_fresh (rm_malloc mem)"
    and c: "cl_heap s p = Some c" "cl_clientaddr c = a" and hello: "m_type rmsg = HELLO"
    and ok_vpn: "\<not> takes_over_address now rmsg a s"
    and v: "vpn_complete s" and h: "handle_HELLO_known cfg mem sockfd now rmsg a p s = Some s'"
  shows "vpn_complete s'"
proof -
  obtain s1 ss1 where s1: "drop_client p s = Some s1" "tables_ok (remove1 p ps) ss1 s1"
    "cl_view s1 = (cl_view s)(p := None)" "shrinks s s1"
    using drop_client_shrinks [OF ok, of p] c(1) by blast
  have ep: "field_at cl_endpoint (cl_heap s1) q \<noteq> Some (sin_addr a, sin_port a)" for q
    using drop_client_frees_endpoint [OF ok c(1) s1(3), of q] c(2) by (simp add: cl_endpoint_def)
  show ?thesis
  proof (cases "now - cl_time c > PEER_TIMEOUT \<and> cl_vpnIP c \<noteq> m_ip1 rmsg")
    case True
    have "field_at cl_vpnIP (cl_heap s) q \<noteq> Some (m_ip1 rmsg)" for q
    proof
      assume "field_at cl_vpnIP (cl_heap s) q = Some (m_ip1 rmsg)"
      then obtain d where "cl_heap s q = Some d" "cl_vpnIP d = m_ip1 rmsg" by (metis field_at_SomeE)
      with ok_vpn True c hello show False unfolding takes_over_address_def by blast
    qed
    from hello_add_vpn_complete [OF s1(2) fr ep shrinks_vpn [OF s1(4) v] shrinks_no_vpn [OF s1(4) this]]
    show ?thesis using h True
      by (auto simp: handle_HELLO_known_def client_is_timeout_alloc [OF c(1)] c(1) s1(1))
  next
    case False
    then show ?thesis
      using h v c(1) by (auto simp: handle_HELLO_known_def client_is_timeout_alloc [OF c(1)]
        client_update_time_def vpn_complete_def send_defs split: if_splits)
  qed
qed

lemma handle_ASK_vpn:
  assumes ok: "tables_ok ps ss s" and fr: "malloc_fresh (rm_malloc mem)"
    and c: "cl_heap s peer = Some c" and v: "vpn_complete s"
    and h: "handle_ASK mem now rmsg a peer s = Some s'"
  shows "vpn_complete s'"
proof (rule get_client_VPN_cell [OF ok, of "m_ip1 rmsg"], goal_cases)
  case 1
  with h v show ?case by (auto simp: handle_ASK_def send_defs)
next
  case (2 tmp d)
  show ?case
  proof (cases "now - cl_time d > PEER_TIMEOUT")
    case True
    have "drop_client tmp (send_REJECT (m_ip1 rmsg) a s) = Some s'"
      using h 2 True by (simp add: handle_ASK_def client_is_timeout_alloc [OF 2(2)])
    then show ?thesis
      by (rule drop_client_vpn [where c = d and ps = ps and ss = ss, rotated 3]) (use ok v 2(2) in \<open>simp_all add: send_defs\<close>)
  next
    case False
    show ?thesis
      by (rule handle_ASK_found [OF ok fr c 2(2,1) False, where a = a])
        (use h v in \<open>auto simp: send_defs dest: vpn_complete_same\<close>)
  qed
qed

lemma vpn_complete_iff_found:
  assumes "tables_ok ps ss s"
  shows "vpn_complete s \<longleftrightarrow> (\<forall>p c. cl_heap s p = Some c \<longrightarrow> get_client_VPN (cl_vpnIP c) s = Some (Some p))"
proof -
  have "get_client_VPN (cl_vpnIP c) s = Some (Some p) \<longleftrightarrow> p \<in> set (clients_vpn_root s)"
    if "cl_heap s p = Some c" for p c
  proof -
    obtain r where "get_client_VPN (cl_vpnIP c) s = Some r"
      and "r = Some p \<longleftrightarrow> p \<in> set (clients_vpn_root s) \<and> field_at cl_vpnIP (cl_heap s) p = Some (cl_vpnIP c)"
      using get_client_VPN_spec [OF tables_okD(1) [OF assms], of "cl_vpnIP c"] by metis
    with that show ?thesis by (simp add: field_at_Some)
  qed
  then show ?thesis unfolding vpn_complete_def by (metis not_None_eq)
qed

text \<open>As long as no timed out client re-registers under a VPN address that another client
  uses, handling a datagram keeps the VPN index exact: every client is found under its own VPN
  address, so no two clients have the same one.\<close>

theorem vpn_index_exact:
  assumes reach: "rdv_reachable cfg sockfd (t, s)" and cfg: "max_clients cfg \<ge> 0"
    and fr: "malloc_fresh (rm_malloc mem)"
    and h: "handle_packet cfg mem now rmsg a sockfd s = Some s'"
    and no: "\<not> takes_over_address now rmsg a s"
    and v: "\<forall>p c. cl_heap s p = Some c \<longrightarrow> get_client_VPN (cl_vpnIP c) s = Some (Some p)"
  shows "\<forall>p c. cl_heap s' p = Some c \<longrightarrow> get_client_VPN (cl_vpnIP c) s' = Some (Some p)"
proof -
  obtain ps ss where ok: "tables_ok ps ss s" by (rule reachable_ok [OF reach cfg])
  have vs: "vpn_complete s" using vpn_complete_iff_found [OF ok] v by blast
  obtain ps' ss' where ok': "tables_ok ps' ss' s'"
    using handle_packet_safe [OF reachable_tables_inv [OF reach cfg] fr, of now rmsg a sockfd] h
    by (auto simp: tables_inv_def)
  have "vpn_complete s'"
  proof (rule get_client_real_cell [OF ok, of a], goal_cases)
    case 1
    with h vs handle_HELLO_new_vpn [OF ok fr 1(2) vs] show ?case
      by (auto simp: handle_packet_def send_defs split: if_splits)
  next
    case (2 p c)
    have a: "cl_clientaddr c = a" using 2(3) by (simp add: cl_endpoint_def sockaddr_in_eqI)
    have close: "handle_CLOSE rmsg p s = Some s' \<Longrightarrow> vpn_complete s'"
      by (rule handle_CLOSE_spec [OF ok, of rmsg p]) (use vs vpn_complete_same in auto)
    have pong: "client_update_time now p (send_PONG a s) = Some s' \<Longrightarrow> vpn_complete s'"
      using client_update_time_vpn [of now p "send_PONG a s" s'] vs by (simp add: send_defs)
    show ?case
      using h 2(1) vs close pong handle_HELLO_known_vpn [OF ok fr 2(2) a _ no vs]
        drop_client_vpn [OF ok vs 2(2)] handle_ASK_vpn [OF ok fr 2(2) vs]
      by (auto simp: handle_packet_def split: if_splits)
  qed
  with vpn_complete_iff_found [OF ok'] show ?thesis by blast
qed

theorem vpn_index_exact_witness:
  "\<exists>s'. handle_packet demo_cfg demo_mem 4 (demo_msg PING 0) demo_a1 3 demo_server = Some s' \<and>
    cl_heap s' 1 = Some (demo_c1\<lparr>cl_time := 4\<rparr>) \<and> get_client_VPN (cl_vpnIP demo_c1) s' = Some (Some 1)"
proof -
  let ?s' = "demo_server\<lparr>sent := sent demo_server @ [(demo_a1, \<lparr>m_type = PONG, m_port = 0, m_ip1 = 0, m_ip2 = 0\<rparr>)],
    cl_heap := (cl_heap demo_server)(1 \<mapsto> demo_c1\<lparr>cl_time := 4\<rparr>)\<rparr>"
  have h: "handle_packet demo_cfg demo_mem 4 (demo_msg PING 0) demo_a1 3 demo_server = Some ?s'"
    by (simp add: handle_packet_def reachable_lookup [OF demo_reachable demo_fresh(2) demo_lookup(3,5)]
        demo_msg_def client_update_time_def send_defs demo_lookup del: One_nat_def)
  have no: "\<not> takes_over_address 4 (demo_msg PING 0) demo_a1 demo_server"
    by (simp add: takes_over_address_def demo_msg_def)
  have v: "\<forall>p c. cl_heap demo_server p = Some c \<longrightarrow> get_client_VPN (cl_vpnIP c) demo_server = Some (Some p)"
    by (auto simp: get_client_VPN_def compare_clients_vpn_def demo_defs new_client_def)
  have "get_client_VPN (cl_vpnIP (demo_c1\<lparr>cl_time := 4\<rparr>)) ?s' = Some (Some 1)"
    by (rule vpn_index_exact [OF demo_reachable demo_fresh(2,1) h no v, rule_format]) simp
  with h show ?thesis by simp
qed

text \<open>C25. The exception is real: when a registered client that timed out announces with \<^verbatim>\<open>HELLO\<close> the
  VPN address of another registered client, however recently that one was heard of, and there is
  memory, the server accepts it. Afterwards two clients have the same VPN address, and the new one
  is not the one the VPN lookup finds.\<close>

theorem hello_takes_over_address:
  assumes reach: "rdv_reachable cfg sockfd (t, s)" and cfg: "max_clients cfg \<ge> 0"
    and fr: "malloc_fresh (rm_malloc mem)" and hello: "m_type rmsg = HELLO"
    and c: "cl_heap s p = Some c" "cl_clientaddr c = a" "now - cl_time c > PEER_TIMEOUT"
    and diff: "cl_vpnIP c \<noteq> m_ip1 rmsg"
    and d: "get_client_VPN (m_ip1 rmsg) s = Some (Some q)"
    and mem: "rm_tsearch_addr mem" "rm_tsearch_vpn mem"
      "\<forall>used. (\<forall>x. used x \<longrightarrow> cl_heap s x \<noteq> None) \<longrightarrow> rm_malloc mem used \<noteq> None"
  shows "\<exists>s' r c' d'. handle_packet cfg mem now rmsg a sockfd s = Some s' \<and>
    sent s' = sent s @ [(a, \<lparr>m_type = OK, m_port = 0, m_ip1 = 0, m_ip2 = 0\<rparr>)] \<and> r \<noteq> q \<and>
    cl_heap s' r = Some c' \<and> cl_heap s' q = Some d' \<and>
    cl_vpnIP c' = m_ip1 rmsg \<and> cl_vpnIP d' = m_ip1 rmsg"
proof -
  obtain ps ss where ok: "tables_ok ps ss s" by (rule reachable_ok [OF reach cfg])
  obtain d0 where d0: "cl_heap s q = Some d0" "cl_vpnIP d0 = m_ip1 rmsg"
    using get_client_VPN_cell [OF ok, of "m_ip1 rmsg"] d by (metis option.inject option.distinct(1))
  have qp: "q \<noteq> p" using d0 c(1) diff by auto
  obtain s1 ss1 where s1: "drop_client p s = Some s1" "tables_ok (remove1 p ps) ss1 s1"
    "cl_view s1 = (cl_view s)(p := None)" "n_clients s1 = n_clients s - 1" "rdv_tables.more s1 = rdv_tables.more s"
    using drop_client_spec [OF ok, of p] c(1) by (metis option.distinct(1))
  have ep: "field_at cl_endpoint (cl_heap s1) x \<noteq> Some (sin_addr a, sin_port a)" for x
    using drop_client_frees_endpoint [OF ok c(1) s1(3), of x] c(2) by (simp add: cl_endpoint_def)
  have sub: "\<forall>x. cl_heap s1 x \<noteq> None \<longrightarrow> cl_heap s x \<noteq> None"
    using fun_cong [OF s1(3)] by (metis field_at_None fun_upd_apply)
  then have room: "\<not> registration_fails cfg mem s1"
    using mem reachable_tables_inv [OF reach cfg] s1(4)
    by (auto simp: registration_fails_def tables_inv_def dest: spec [of _ "allocated (cl_heap s1)"])
  have hp: "handle_packet cfg mem now rmsg a sockfd s = hello_add cfg mem sockfd now rmsg a s1"
    using c diff by (simp add: handle_packet_def reachable_lookup [OF reach cfg c(1,2)] hello
      handle_HELLO_known_def client_is_timeout_alloc s1(1))
  show ?thesis
  proof (rule hello_add_spec [OF s1(2) fr ep, where cfg = cfg and rmsg = rmsg and sockfd = sockfd and now = now], goal_cases)
    case 1
    with room show ?case by simp
  next
    case (2 r s2)
    have vq: "cl_view s1 q = Some (cl_payload d0)" using qp d0 by (simp add: s1(3) field_at_Some)
    have rq: "r \<noteq> q" using 2(6) vq by (auto simp: field_at_def)
    obtain c' where c': "cl_heap s2 r = Some c'" "cl_payload c' = hello_client sockfd now rmsg a"
      using 2(4) by (metis field_at_SomeE fun_upd_same)
    obtain d' where d': "cl_heap s2 q = Some d'" "cl_payload d' = cl_payload d0"
      using 2(4) vq rq by (metis field_at_SomeE fun_upd_other)
    have "cl_vpnIP c' = cl_vpnIP (hello_client sockfd now rmsg a)" "cl_vpnIP d' = cl_vpnIP d0"
      using c'(2) d'(2) by (metis cl_payload_fields(2))+
    moreover have "sent s2 = sent s"
      using s1(5) peers_moreD(4) [OF 2(8)] by (cases s; cases s1; cases s2) simp
    ultimately show ?case
      using c'(1) d'(1) rq d0(2)
      by (intro exI [of _ "send_OK a s2"] exI [of _ r] exI [of _ c'] exI [of _ d'])
        (simp add: hp 2(1) send_defs hello_client_def new_client_def)
  qed
qed

theorem hello_takes_over_address_witness:
  "\<exists>s' r c' d'. handle_packet demo_cfg demo_mem 7 (demo_msg HELLO 200) demo_a1 3 demo_server = Some s' \<and>
    r \<noteq> 2 \<and> cl_heap s' r = Some c' \<and> cl_heap s' 2 = Some d' \<and> cl_vpnIP c' = 200 \<and> cl_vpnIP d' = 200"
proof -
  have m: "\<forall>used. (\<forall>x. used x \<longrightarrow> cl_heap demo_server x \<noteq> None) \<longrightarrow> rm_malloc demo_mem used \<noteq> None"
  proof (intro allI impI)
    fix used assume "\<forall>x. used x \<longrightarrow> cl_heap demo_server x \<noteq> None"
    then have "\<not> used 3" by (auto simp: demo_server_def)
    then show "rm_malloc demo_mem used \<noteq> None" by (simp add: demo_mem_def malloc3_def)
  qed
  show ?thesis
    using hello_takes_over_address [OF demo_reachable demo_fresh(2,1) _ demo_lookup(3,5) _ _ _ _ _ m, of "demo_msg HELLO 200" 7 2]
    by (auto simp: demo_msg_def demo_lookup demo_mem_def demo_c1_def new_client_def)
qed

end
