(* ===== verification/C_Float.thy ===== *)
theory C_Float
  imports Complex_Main
begin

text \<open>
  The numbers of the C types \<^verbatim>\<open>float\<close> and \<^verbatim>\<open>double\<close> as far as the client uses them: a finite value,
  an infinity, or no number. \<^verbatim>\<open>strtof\<close> returns all of them without an error, so the configuration can
  contain them. Comparison, product and the cast to \<^verbatim>\<open>size_t\<close> are written out; the rounding of a
  finite result to the type, which may overflow to an infinity, is a parameter.
\<close>

datatype c_float = Finite real | Pos_inf | Neg_inf | NaN

text \<open>Every comparison with no number is false.\<close>

fun float_less :: "c_float \<Rightarrow> c_float \<Rightarrow> bool" where
  "float_less (Finite x) (Finite y) = (x < y)"
| "float_less (Finite x) Pos_inf = True"
| "float_less Neg_inf (Finite y) = True"
| "float_less Neg_inf Pos_inf = True"
| "float_less _ _ = False"

fun float_sign :: "c_float \<Rightarrow> real" where
  "float_sign (Finite x) = sgn x"
| "float_sign Pos_inf = 1"
| "float_sign Neg_inf = -1"
| "float_sign NaN = 0"

fun float_mult :: "(real \<Rightarrow> c_float) \<Rightarrow> c_float \<Rightarrow> c_float \<Rightarrow> c_float" where
  "float_mult rnd (Finite x) (Finite y) = rnd (x * y)"
| "float_mult rnd a b =
     (let s = float_sign a * float_sign b in if s > 0 then Pos_inf else if s < 0 then Neg_inf else NaN)"

text \<open>The function \<^verbatim>\<open>round\<close> rounds to the nearest integer, halfway cases away from zero.\<close>

definition c_round :: "real \<Rightarrow> int" where
  "c_round x = (if 0 \<le> x then \<lfloor>x + 1 / 2\<rfloor> else \<lceil>x - 1 / 2\<rceil>)"

fun float_round :: "c_float \<Rightarrow> c_float" where
  "float_round (Finite x) = Finite (real_of_int (c_round x))"
| "float_round f = f"

text \<open>The cast to \<^verbatim>\<open>size_t\<close> cuts the fraction off; it is undefined when the rest is not a value of the
  type.\<close>

fun to_size_t :: "c_float \<Rightarrow> nat option" where
  "to_size_t (Finite x) = (if -1 < x \<and> x < 2 ^ 64 then Some (nat \<lfloor>x\<rfloor>) else None)"
| "to_size_t _ = None"

lemma to_size_t_bound: "to_size_t f = Some n \<Longrightarrow> n < 2 ^ 64"
proof (induction f rule: to_size_t.induct)
  case (1 x)
  then have "\<lfloor>x\<rfloor> < 2 ^ 64" and n: "n = nat \<lfloor>x\<rfloor>" by (auto simp: floor_less_iff split: if_splits)
  then have "nat \<lfloor>x\<rfloor> < nat (2 ^ 64)" by (simp only: nat_mono_iff zero_less_power zero_less_numeral)
  then show ?case by (simp add: n)
qed simp_all

lemma to_size_t_int: "0 \<le> k \<Longrightarrow> k < 2 ^ 64 \<Longrightarrow> to_size_t (Finite (real_of_int k)) = Some (nat k)"
proof -
  assume k: "0 \<le> k" "k < 2 ^ 64"
  have "real_of_int k < real_of_int (2 ^ 64)" using k(2) by (simp only: of_int_less_iff)
  then show ?thesis using k(1) by simp
qed

lemma to_size_t_intD: "to_size_t (Finite (real_of_int k)) = Some n \<Longrightarrow> 0 \<le> k \<and> n = nat k"
  by (auto split: if_splits)

text \<open>A positive number whose product with a positive constant can be cast is finite.\<close>

lemma castable_product:
  assumes "to_size_t (float_mult rnd (Finite k) f) = Some n" "0 < k" "float_less (Finite 0) f"
  obtains x where "f = Finite x" "0 < x"
  using assms by (cases f) (auto simp: Let_def)

end
