(* ===== verification/Strlib.thy ===== *)
theory Strlib
  imports Campagnol_Prelude
begin

text \<open>
  The growing string buffers (\<^verbatim>\<open>common/strlib.c\<close>). The memory of a buffer is a list of bytes of
  which \<open>None\<close> is one that was never written, as \<^verbatim>\<open>realloc\<close> leaves it; the null pointer is the empty
  block. An operation returns \<open>None\<close> when it would write or read outside its block or branch on an
  unwritten byte. A failing \<^verbatim>\<open>realloc\<close> or \<^verbatim>\<open>vsnprintf\<close> ends the program and is not modelled, and
  sizes are natural numbers, far below the range of \<^verbatim>\<open>size_t\<close>.

  The second half gives the abstract buffer, a string with a mark, which the configuration
  reader uses, and shows that the operations of the C code implement it.
\<close>

section \<open>Blocks of memory\<close>

type_synonym block = "char option list"

definition put_bytes :: "nat \<Rightarrow> block \<Rightarrow> block \<Rightarrow> block option" where
  "put_bytes i bs m =
     (if i + length bs \<le> length m then Some (take i m @ bs @ drop (i + length bs) m) else None)"

definition put_byte :: "nat \<Rightarrow> char \<Rightarrow> block \<Rightarrow> block option" where
  "put_byte i c m = (if i < length m then Some (m[i := Some c]) else None)"

definition get_byte :: "nat \<Rightarrow> block \<Rightarrow> char option" where
  "get_byte i m = (if i < length m then m ! i else None)"

section \<open>The buffers\<close>

record strlib_buf =
  buflen :: nat
  len :: nat
  mark :: nat
  buf_s :: block

definition strlib_grow :: "nat \<Rightarrow> strlib_buf \<Rightarrow> strlib_buf" where
  "strlib_grow n sb =
     (let buflen_new = len sb + n + 1 in
      if buflen_new > buflen sb then
        (let buflen_grow = (buflen sb + 16) * 3 div 2;
             bl = (if buflen_grow < buflen_new then buflen_new else buflen_grow)
         in sb\<lparr>buflen := bl, buf_s := take bl (buf_s sb) @ replicate (bl - length (buf_s sb)) None\<rparr>)
      else sb)"

definition strlib_init :: "strlib_buf option" where
  "strlib_init =
     (let sb = strlib_grow 1 \<lparr>buflen = 0, len = 0, mark = 0, buf_s = []\<rparr> in
      do { m \<leftarrow> put_byte 0 NUL (buf_s sb); Some (sb\<lparr>buf_s := m\<rparr>) })"

definition strlib_free :: "strlib_buf \<Rightarrow> strlib_buf" where
  "strlib_free sb = sb\<lparr>buf_s := [], len := 0, buflen := 0\<rparr>"

definition strlib_reset :: "strlib_buf \<Rightarrow> strlib_buf option" where
  "strlib_reset sb = do { m \<leftarrow> put_byte 0 NUL (buf_s sb); Some (sb\<lparr>len := 0, mark := 0, buf_s := m\<rparr>) }"

definition strlib_setmark :: "nat \<Rightarrow> strlib_buf \<Rightarrow> strlib_buf" where
  "strlib_setmark k sb = sb\<lparr>mark := k\<rparr>"

definition strlib_push :: "char \<Rightarrow> strlib_buf \<Rightarrow> strlib_buf option" where
  "strlib_push c sb =
     (let sb = strlib_grow 1 sb in
      do {
        m1 \<leftarrow> put_byte (len sb) c (buf_s sb);
        m2 \<leftarrow> put_byte (len sb + 1) NUL m1;
        Some (sb\<lparr>len := len sb + 1, buf_s := m2\<rparr>)
      })"

definition strlib_append :: "block \<Rightarrow> nat \<Rightarrow> strlib_buf \<Rightarrow> strlib_buf option" where
  "strlib_append s l sb =
     (if l > length s then None
      else let sb = strlib_grow l sb in
      do {
        m1 \<leftarrow> put_bytes (len sb) (take l s) (buf_s sb);
        m2 \<leftarrow> put_byte (len sb + l) NUL m1;
        Some (sb\<lparr>len := len sb + l, buf_s := m2\<rparr>)
      })"

fun rstrip_len :: "nat \<Rightarrow> nat \<Rightarrow> block \<Rightarrow> nat option" where
  "rstrip_len 0 k m = Some 0"
| "rstrip_len (Suc l) k m =
     (if Suc l > k then do { c \<leftarrow> get_byte l m; if isblank c then rstrip_len l k m else Some (Suc l) }
      else Some (Suc l))"

definition strlib_rstrip :: "strlib_buf \<Rightarrow> strlib_buf option" where
  "strlib_rstrip sb =
     do {
       l \<leftarrow> rstrip_len (len sb) (mark sb) (buf_s sb);
       m \<leftarrow> put_byte l NUL (buf_s sb);
       Some (sb\<lparr>len := l, buf_s := m\<rparr>)
     }"

definition strlib_appendbuf :: "strlib_buf \<Rightarrow> strlib_buf \<Rightarrow> strlib_buf option" where
  "strlib_appendbuf dest src = strlib_append (buf_s src) (len src) dest"

text \<open>\<^verbatim>\<open>vsnprintf(s + i, n, ...)\<close> when the formatted text is \<open>out\<close>: at most \<open>n - 1\<close> characters and a
  terminator are written, the length of the whole text is returned.\<close>

definition vsnprintf :: "nat \<Rightarrow> nat \<Rightarrow> string \<Rightarrow> block \<Rightarrow> (nat \<times> block) option" where
  "vsnprintf i n out m =
     (if n = 0 then Some (length out, m)
      else do { m' \<leftarrow> put_bytes i (map Some (take (n - 1) out @ [NUL])) m; Some (length out, m') })"

definition strlib_vappendf :: "string \<Rightarrow> strlib_buf \<Rightarrow> strlib_buf option" where
  "strlib_vappendf out sb =
     do {
       (l, m) \<leftarrow> vsnprintf (len sb) (buflen sb - len sb) out (buf_s sb);
       let sb1 = sb\<lparr>buf_s := m\<rparr>;
       (if l \<ge> buflen sb1 - len sb1 then
          let sb2 = strlib_grow l sb1 in
          do {
            (l', m') \<leftarrow> vsnprintf (len sb2) (buflen sb2 - len sb2) out (buf_s sb2);
            Some (sb2\<lparr>buf_s := m', len := len sb2 + l'\<rparr>)
          }
        else Some (sb1\<lparr>len := len sb1 + l\<rparr>))
     }"

definition strlib_appendf :: "string \<Rightarrow> strlib_buf \<Rightarrow> strlib_buf option" where
  "strlib_appendf out sb = strlib_vappendf out sb"

section \<open>Abstract buffers\<close>

record strbuf =
  sb_str :: string
  sb_mark :: nat

definition sb_empty :: strbuf where
  "sb_empty = \<lparr>sb_str = [], sb_mark = 0\<rparr>"

definition sb_setmark :: "nat \<Rightarrow> strbuf \<Rightarrow> strbuf" where
  "sb_setmark k b = b\<lparr>sb_mark := k\<rparr>"

definition sb_append :: "string \<Rightarrow> strbuf \<Rightarrow> strbuf" where
  "sb_append cs b = b\<lparr>sb_str := sb_str b @ cs\<rparr>"

definition sb_push :: "char \<Rightarrow> strbuf \<Rightarrow> strbuf" where
  "sb_push c b = sb_append [c] b"

text \<open>Trailing blanks behind the mark are dropped.\<close>

definition strip_right :: "string \<Rightarrow> string" where
  "strip_right cs = rev (dropWhile isblank (rev cs))"

definition sb_rstrip :: "strbuf \<Rightarrow> strbuf" where
  "sb_rstrip b = b\<lparr>sb_str := take (sb_mark b) (sb_str b) @ strip_right (drop (sb_mark b) (sb_str b))\<rparr>"

section \<open>The invariant and the contents\<close>

text \<open>\<open>holds sb cs\<close>: the buffer holds the string \<open>cs\<close>, terminated, inside its block.\<close>

definition holds :: "strlib_buf \<Rightarrow> string \<Rightarrow> bool" where
  "holds sb cs \<longleftrightarrow> length (buf_s sb) = buflen sb \<and> len sb = length cs \<and>
     (\<exists>rest. buf_s sb = map Some cs @ Some NUL # rest)"

definition represents :: "strlib_buf \<Rightarrow> strbuf \<Rightarrow> bool" where
  "represents sb b \<longleftrightarrow> holds sb (sb_str b) \<and> mark sb = sb_mark b"

lemma holdsE:
  assumes "holds sb cs"
  obtains rest where "buf_s sb = map Some cs @ Some NUL # rest" "len sb = length cs"
    "buflen sb = length cs + 1 + length rest"
  using assms by (auto simp: holds_def)

lemma grow_prefix:
  assumes s: "buf_s sb = map Some cs @ r" "len sb = length cs" "buflen sb = length (buf_s sb)" "r \<noteq> []"
  obtains r' where "buf_s (strlib_grow n sb) = map Some cs @ r'" "n < length r'"
    "buflen (strlib_grow n sb) = length (buf_s (strlib_grow n sb))"
    "len (strlib_grow n sb) = length cs" "mark (strlib_grow n sb) = mark sb"
proof (cases "len sb + n + 1 > buflen sb")
  case False
  with s show thesis by (intro that [of r]) (simp_all add: strlib_grow_def)
next
  case True
  define bl where "bl = max (len sb + n + 1) ((buflen sb + 16) * 3 div 2)"
  have bl: "bl \<ge> length cs + n + 1" "bl \<ge> length (buf_s sb)"
    using True s by (auto simp: bl_def)
  have g: "strlib_grow n sb = sb\<lparr>buflen := bl, buf_s := buf_s sb @ replicate (bl - length (buf_s sb)) None\<rparr>"
    using True bl(2) by (auto simp: strlib_grow_def Let_def bl_def max_def)
  show thesis
    using s bl by (intro that [of "r @ replicate (bl - length (buf_s sb)) None"]) (auto simp: g)
qed

lemma put_byte_end:
  "put_byte (length xs) c (xs @ y # zs) = Some (xs @ Some c # zs)"
  by (simp add: put_byte_def)

lemma init_holds: obtains sb where "strlib_init = Some sb" "represents sb sb_empty"
proof -
  have "strlib_init = Some \<lparr>buflen = 24, len = 0, mark = 0, buf_s = Some NUL # replicate 23 None\<rparr>"
    by (simp add: strlib_init_def strlib_grow_def put_byte_def Let_def) (simp add: numeral_eq_Suc)
  then show thesis by (rule that) (simp add: represents_def holds_def sb_empty_def)
qed

lemma reset_represents:
  assumes "holds sb cs"
  obtains sb' where "strlib_reset sb = Some sb'" "represents sb' sb_empty"
proof -
  from assms obtain rest where r: "buf_s sb = map Some cs @ Some NUL # rest"
    "buflen sb = length cs + 1 + length rest" by (rule holdsE)
  then obtain y zs where "buf_s sb = y # zs" by (cases cs) auto
  with r show thesis
    by (intro that [of "sb\<lparr>len := 0, mark := 0, buf_s := Some NUL # zs\<rparr>"])
      (auto simp: strlib_reset_def put_byte_def represents_def holds_def sb_empty_def Cons_eq_append_conv)
qed

lemma append_holds:
  assumes h: "holds sb cs" and l: "l \<le> length s" and s: "take l s = map Some ds"
  obtains sb' where "strlib_append s l sb = Some sb'" "holds sb' (cs @ ds)" "mark sb' = mark sb"
proof -
  obtain r where g: "buf_s (strlib_grow l sb) = map Some cs @ r" "l < length r"
    "buflen (strlib_grow l sb) = length (buf_s (strlib_grow l sb))"
    "len (strlib_grow l sb) = length cs" "mark (strlib_grow l sb) = mark sb"
  proof -
    from h obtain rest where "buf_s sb = map Some cs @ Some NUL # rest" "len sb = length cs"
      "buflen sb = length (buf_s sb)" by (auto simp: holds_def)
    then show ?thesis by (rule grow_prefix [where n = l]) (use that in auto)
  qed
  have len: "length ds = l" using s l by (metis length_map length_take min.absorb2)
  have p: "put_bytes (length cs) (map Some ds) (map Some cs @ r) = Some (map Some cs @ map Some ds @ drop l r)"
    using g(2) len by (simp add: put_bytes_def)
  obtain y zs where d: "drop l r = y # zs" using g(2) by (cases "drop l r") auto
  have q: "put_byte (length cs + l) NUL (map Some cs @ map Some ds @ y # zs) =
    Some (map Some (cs @ ds) @ Some NUL # zs)"
    using put_byte_end [of "map Some (cs @ ds)" NUL y zs] len by simp
  have "length (y # zs) = length r - l" unfolding d [symmetric] by simp
  then have "length (map Some (cs @ ds) @ Some NUL # zs) = buflen (strlib_grow l sb)"
    using g(1-3) len by simp
  with g len p q d s l show thesis
    by (intro that [of "(strlib_grow l sb)\<lparr>len := length (cs @ ds), buf_s := map Some (cs @ ds) @ Some NUL # zs\<rparr>"])
      (auto simp: strlib_append_def Let_def holds_def)
qed

lemma push_eq_append: "strlib_push c sb = strlib_append [Some c] 1 sb"
proof -
  have "put_bytes i [Some c] m = put_byte i c m" for i m
    by (auto simp: put_bytes_def put_byte_def upd_conv_take_nth_drop)
  then show ?thesis by (simp add: strlib_push_def strlib_append_def Let_def)
qed

lemma rstrip_len_holds:
  "rstrip_len (length cs) k (map Some cs @ rest) =
     Some (length (take k cs @ strip_right (drop k cs)))"
proof (induction cs arbitrary: rest rule: rev_induct)
  case (snoc c cs)
  have g: "get_byte (length cs) (map Some (cs @ [c]) @ rest) = Some c"
    by (simp add: get_byte_def nth_append)
  show ?case
  proof (cases "k \<le> length cs")
    case True
    then have "strip_right (drop k (cs @ [c])) = (if isblank c then strip_right (drop k cs) else drop k cs @ [c])"
      by (simp add: strip_right_def)
    with True g snoc.IH [of "Some c # rest"] show ?thesis by simp
  next
    case False
    then show ?thesis using g by (simp add: strip_right_def not_le Suc_le_eq)
  qed
qed (simp add: strip_right_def)

lemma strip_right_prefix: "\<exists>n. strip_right cs = take n cs \<and> n \<le> length cs"
proof -
  have "strip_right cs = take (length cs - length (takeWhile isblank (rev cs))) cs"
    unfolding strip_right_def dropWhile_eq_drop rev_drop by simp
  then show ?thesis by (metis diff_le_self)
qed

lemma rstrip_take:
  obtains n where "take k cs @ strip_right (drop k cs) = take n cs" "n \<le> length cs"
proof -
  obtain j where j: "strip_right (drop k cs) = take j (drop k cs)" "j \<le> length (drop k cs)"
    using strip_right_prefix by blast
  show thesis
  proof (cases "k \<le> length cs")
    case True
    then have "take (k + j) cs = take k cs @ take j (drop k cs)" by (simp add: take_add)
    with j True show thesis by (intro that [of "k + j"]) simp_all
  next
    case False
    then show thesis by (intro that [of "length cs"]) (simp_all add: strip_right_def)
  qed
qed

lemma rstrip_represents:
  assumes "represents sb b"
  obtains sb' where "strlib_rstrip sb = Some sb'" "represents sb' (sb_rstrip b)"
proof -
  let ?cs = "sb_str b" and ?k = "sb_mark b"
  from assms obtain rest where r: "buf_s sb = map Some ?cs @ Some NUL # rest" "len sb = length ?cs"
    "buflen sb = length ?cs + 1 + length rest" and m: "mark sb = ?k"
    by (auto simp: represents_def elim: holdsE)
  obtain n where n: "take ?k ?cs @ strip_right (drop ?k ?cs) = take n ?cs" "n \<le> length ?cs" by (rule rstrip_take)
  have d: "map Some ?cs @ Some NUL # rest = map Some (take n ?cs) @ drop n (map Some ?cs @ Some NUL # rest)"
    using append_take_drop_id [of n "map Some ?cs @ Some NUL # rest"] n(2) by (simp add: take_map)
  obtain y zs where e: "drop n (map Some ?cs @ Some NUL # rest) = y # zs"
    using n(2) by (cases "drop n (map Some ?cs @ Some NUL # rest)") auto
  have d2: "map Some ?cs @ Some NUL # rest = map Some (take n ?cs) @ y # zs"
    using d unfolding e .
  have l: "rstrip_len (len sb) (mark sb) (buf_s sb) = Some n"
    using rstrip_len_holds [of ?cs ?k "Some NUL # rest"] n by (simp add: r m)
  have p: "put_byte n NUL (buf_s sb) = Some (map Some (take n ?cs) @ Some NUL # zs)"
    using put_byte_end [of "map Some (take n ?cs)" NUL y zs] n(2) by (simp add: r(1) d2)
  have "length (map Some (take n ?cs) @ Some NUL # zs) = buflen sb"
    using arg_cong [OF d2, of length] r(3) by simp
  with l p n m show thesis
    by (intro that [of "sb\<lparr>len := n, buf_s := map Some (take n ?cs) @ Some NUL # zs\<rparr>"])
      (simp_all add: strlib_rstrip_def represents_def holds_def sb_rstrip_def)
qed

lemma vsnprintf_prefix:
  assumes "r \<noteq> []"
  shows "vsnprintf (length cs) (length r) out (map Some cs @ r) =
    Some (length out, map Some cs @ map Some (take (length r - 1) out) @ Some NUL # drop (Suc (length out)) r)"
  using assms by (cases r) (auto simp: vsnprintf_def put_bytes_def min_def)

lemma vappendf_holds:
  assumes h: "holds sb cs"
  obtains sb' where "strlib_vappendf out sb = Some sb'" "holds sb' (cs @ out)" "mark sb' = mark sb"
proof -
  from h obtain rest where r: "buf_s sb = map Some cs @ Some NUL # rest" "len sb = length cs"
    "buflen sb = length cs + 1 + length rest" by (rule holdsE)
  define r1 where "r1 = map Some (take (length rest) out) @ Some NUL # drop (length out) rest"
  define sb1 where "sb1 = sb\<lparr>buf_s := map Some cs @ r1\<rparr>"
  have v: "vsnprintf (len sb) (buflen sb - len sb) out (buf_s sb) = Some (length out, buf_s sb1)"
    using vsnprintf_prefix [of "Some NUL # rest" cs out] r by (simp add: sb1_def r1_def)
  have l1: "length r1 = Suc (length rest)" by (simp add: r1_def min_def)
  have s1: "buf_s sb1 = map Some cs @ r1" "len sb1 = length cs" "buflen sb1 = length (buf_s sb1)" "r1 \<noteq> []"
    "buflen sb1 = buflen sb" "mark sb1 = mark sb"
    using r l1 by (auto simp: sb1_def)
  show thesis
  proof (cases "length out \<ge> buflen sb - len sb")
    case False
    then have "length out \<le> length rest" using r by simp
    then have "holds (sb1\<lparr>len := len sb1 + length out\<rparr>) (cs @ out)"
      using s1 r l1 by (simp add: holds_def r1_def)
    with False v s1 show thesis
      by (intro that [of "sb1\<lparr>len := len sb1 + length out\<rparr>"])
        (simp_all add: strlib_vappendf_def Let_def sb1_def)
  next
    case True
    obtain r2 where g: "buf_s (strlib_grow (length out) sb1) = map Some cs @ r2" "length out < length r2"
      "buflen (strlib_grow (length out) sb1) = length (buf_s (strlib_grow (length out) sb1))"
      "len (strlib_grow (length out) sb1) = length cs" "mark (strlib_grow (length out) sb1) = mark sb1"
      by (rule grow_prefix [OF s1(1-4)])
    let ?sb2 = "strlib_grow (length out) sb1"
    let ?m = "map Some cs @ map Some out @ Some NUL # drop (Suc (length out)) r2"
    have "vsnprintf (len ?sb2) (buflen ?sb2 - len ?sb2) out (buf_s ?sb2) = Some (length out, ?m)"
      using vsnprintf_prefix [of r2 cs out] g by (cases r2) auto
    moreover have "holds (?sb2\<lparr>buf_s := ?m, len := len ?sb2 + length out\<rparr>) (cs @ out)"
      using g by (simp add: holds_def)
    moreover have e: "sb\<lparr>buf_s := buf_s sb1\<rparr> = sb1" by (simp add: sb1_def)
    have "strlib_vappendf out sb = do { (l', m') \<leftarrow> vsnprintf (len ?sb2) (buflen ?sb2 - len ?sb2) out (buf_s ?sb2);
            Some (?sb2\<lparr>buf_s := m', len := len ?sb2 + l'\<rparr>) }"
      unfolding strlib_vappendf_def v using True s1(2,5) r(2) by (simp add: Let_def e)
    ultimately show thesis
      using g(5) s1(6) by (intro that [of "?sb2\<lparr>buf_s := ?m, len := len ?sb2 + length out\<rparr>"]) simp_all
  qed
qed

lemma append_represents:
  assumes "represents sb b" and "l \<le> length s" and "take l s = map Some ds"
  shows "\<exists>sb'. strlib_append s l sb = Some sb' \<and> represents sb' (sb_append ds b)"
  using append_holds [of sb "sb_str b" l s ds] assms by (auto simp: represents_def sb_append_def)

section \<open>The interface\<close>

text \<open>The calls the clients make on a buffer, and what each means on the abstract buffer.\<close>

datatype sb_op = Reset | Setmark nat | Push char | Append string | Appendf string | Rstrip

fun sb_apply :: "sb_op \<Rightarrow> strbuf \<Rightarrow> strbuf" where
  "sb_apply Reset b = sb_empty"
| "sb_apply (Setmark k) b = sb_setmark k b"
| "sb_apply (Push c) b = sb_push c b"
| "sb_apply (Append cs) b = sb_append cs b"
| "sb_apply (Appendf out) b = sb_append out b"
| "sb_apply Rstrip b = sb_rstrip b"

fun run_ops :: "(sb_op \<Rightarrow> 's \<Rightarrow> 's option) \<Rightarrow> sb_op list \<Rightarrow> 's \<Rightarrow> 's option" where
  "run_ops exec [] s = Some s"
| "run_ops exec (x # xs) s = do { s' \<leftarrow> exec x s; run_ops exec xs s' }"

locale string_buffer =
  fixes rep :: "'s \<Rightarrow> strbuf \<Rightarrow> bool"
    and create :: "'s option"
    and exec :: "sb_op \<Rightarrow> 's \<Rightarrow> 's option"
  assumes create_rep: "\<exists>s. create = Some s \<and> rep s sb_empty"
    and exec_rep: "rep s b \<Longrightarrow> \<exists>s'. exec x s = Some s' \<and> rep s' (sb_apply x b)"
begin

lemma run_ops_rep: "rep s b \<Longrightarrow> \<exists>s'. run_ops exec xs s = Some s' \<and> rep s' (fold sb_apply xs b)"
proof (induction xs arbitrary: s b)
  case (Cons x xs)
  then obtain s1 where "exec x s = Some s1" "rep s1 (sb_apply x b)" using exec_rep by blast
  with Cons.IH [of s1 "sb_apply x b"] show ?case by simp
qed simp

lemma program_rep: "\<exists>s s'. create = Some s \<and> run_ops exec xs s = Some s' \<and> rep s' (fold sb_apply xs sb_empty)"
  using create_rep run_ops_rep by blast

end

text \<open>A string argument is a terminated array of characters.\<close>

fun strlib_exec :: "sb_op \<Rightarrow> strlib_buf \<Rightarrow> strlib_buf option" where
  "strlib_exec Reset sb = strlib_reset sb"
| "strlib_exec (Setmark k) sb = Some (strlib_setmark k sb)"
| "strlib_exec (Push c) sb = strlib_push c sb"
| "strlib_exec (Append cs) sb = strlib_append (map Some cs @ [Some NUL]) (length cs) sb"
| "strlib_exec (Appendf out) sb = strlib_appendf out sb"
| "strlib_exec Rstrip sb = strlib_rstrip sb"

lemma strlib_exec_represents:
  assumes r: "represents sb b"
  shows "\<exists>sb'. strlib_exec x sb = Some sb' \<and> represents sb' (sb_apply x b)"
proof (cases x)
  case Reset
  moreover have "holds sb (sb_str b)" using r by (simp add: represents_def)
  ultimately show ?thesis using reset_represents by (metis sb_apply.simps(1) strlib_exec.simps(1))
next
  case (Setmark k)
  then show ?thesis using r by (simp add: represents_def holds_def strlib_setmark_def sb_setmark_def)
next
  case (Push c)
  then show ?thesis
    using append_represents [OF r, of 1 "[Some c]" "[c]"] by (simp add: push_eq_append sb_push_def)
next
  case (Append cs)
  then show ?thesis
    using append_represents [OF r, of "length cs" "map Some cs @ [Some NUL]" cs] by simp
next
  case (Appendf out)
  obtain sb' where "strlib_vappendf out sb = Some sb'" "holds sb' (sb_str b @ out)" "mark sb' = mark sb"
    using vappendf_holds r unfolding represents_def by blast
  with Appendf r show ?thesis by (simp add: strlib_appendf_def represents_def sb_append_def)
next
  case Rstrip
  then show ?thesis using rstrip_represents [OF r] by auto
qed

interpretation strlib: string_buffer represents strlib_init strlib_exec
proof unfold_locales
  show "\<exists>s. strlib_init = Some s \<and> represents s sb_empty" using init_holds by blast
qed (rule strlib_exec_represents)

section \<open>Properties\<close>

text \<open>C17. Any sequence of buffer operations on a new buffer stays inside the allocated block and
  reads no unwritten byte; afterwards the buffer holds, terminated by a null character, exactly
  the string that the same operations build on an unbounded string with a mark.\<close>

theorem strlib_refines_strings:
  "\<exists>sb sb'. strlib_init = Some sb \<and> run_ops strlib_exec xs sb = Some sb' \<and>
    (let cs = sb_str (fold sb_apply xs sb_empty) in
     length (buf_s sb') = buflen sb' \<and> len sb' = length cs \<and> len sb' < buflen sb' \<and>
     take (len sb') (buf_s sb') = map Some cs \<and> get_byte (len sb') (buf_s sb') = Some NUL)"
proof -
  obtain sb sb' where s: "strlib_init = Some sb" "run_ops strlib_exec xs sb = Some sb'"
    and r: "represents sb' (fold sb_apply xs sb_empty)"
    using strlib.program_rep by blast
  from r have "holds sb' (sb_str (fold sb_apply xs sb_empty))" by (simp add: represents_def)
  then obtain rest where "buf_s sb' = map Some (sb_str (fold sb_apply xs sb_empty)) @ Some NUL # rest"
    "len sb' = length (sb_str (fold sb_apply xs sb_empty))"
    "buflen sb' = length (sb_str (fold sb_apply xs sb_empty)) + 1 + length rest" by (rule holdsE)
  with s show ?thesis
    by (intro exI [of _ sb] exI [of _ sb']) (simp add: Let_def get_byte_def nth_append)
qed

text \<open>Appending one buffer to another gives the concatenation, and leaves the mark.\<close>

theorem strlib_appendbuf_concatenates:
  assumes "represents dest b" and "represents src c"
  shows "\<exists>sb'. strlib_appendbuf dest src = Some sb' \<and> represents sb' (sb_append (sb_str c) b)"
proof -
  from assms(2) obtain rest where "buf_s src = map Some (sb_str c) @ Some NUL # rest" "len src = length (sb_str c)"
    unfolding represents_def by (auto elim: holdsE)
  then show ?thesis unfolding strlib_appendbuf_def by (intro append_represents [OF assms(1)]) simp_all
qed

theorem strlib_appendbuf_concatenates_witness:
  "\<exists>a b sb'. strlib_appendbuf a b = Some sb' \<and> represents sb' (sb_append ''cd'' (sb_append ''ab'' sb_empty))"
proof -
  obtain e where e: "represents e sb_empty" using init_holds by blast
  obtain a b where a: "represents a (sb_append ''ab'' sb_empty)" and b: "represents b (sb_append ''cd'' sb_empty)"
    using append_represents [OF e, of 2 "map Some ''ab''" "''ab''"] append_represents [OF e, of 2 "map Some ''cd''" "''cd''"] by auto
  from strlib_appendbuf_concatenates [OF a b] show ?thesis by (auto simp: sb_append_def sb_empty_def)
qed

end
