(* ===== verification/Config_Parser.thy ===== *)
theory Config_Parser
  imports Strlib "HOL-Library.Char_ord"
begin

text \<open>
  The store of the configuration (\<^verbatim>\<open>common/config_parser.c\<close>): sections with keys, keys with values, the
  expansion of \<^verbatim>\<open>${...}\<close> references and the conversions to numbers and booleans.

  The C code keeps the sections, and the keys of a section, both in a tail queue and in a search tree
  with \<^verbatim>\<open>parser_compare\<close>; an item is put into and taken out of both together. The model keeps the
  queue, and a lookup searches it with the same comparison. A pointer to a value is its key and its
  position in the queue of the key. Strings are null terminated in C, so they contain no null
  character here. A failing allocation ends the program and is not modelled.
\<close>

section \<open>Data\<close>

record item_value =
  v_s :: string
  v_nline :: nat
  v_expanded :: strbuf
  v_expanding :: bool

record item_key =
  k_name :: string
  n_values :: int
  values_list :: "item_value list"

record item_section =
  s_name :: string
  keys_list :: "item_key list"

record parser_context =
  allow_default :: bool
  allow_empty_value :: bool
  sections_list :: "item_section list"

abbreviation SECTION_DEFAULT :: string where
  "SECTION_DEFAULT \<equiv> ''DEFAULT''"

section \<open>Comparison of names\<close>

fun strcmp :: "string \<Rightarrow> string \<Rightarrow> int" where
  "strcmp [] [] = 0"
| "strcmp [] (b # bs) = -1"
| "strcmp (a # as) [] = 1"
| "strcmp (a # as) (b # bs) =
     (if a = b then strcmp as bs
      else if (of_char a :: int) < of_char b then -1 else 1)"

definition parser_compare :: "string \<Rightarrow> string \<Rightarrow> int" where
  "parser_compare itema itemb = strcmp itema itemb"

lemma strcmp_zero [simp]: "strcmp a b = 0 \<longleftrightarrow> a = b"
  by (induction a b rule: strcmp.induct) auto

lemma parser_compare_zero [simp]: "parser_compare a b = 0 \<longleftrightarrow> a = b"
  by (simp add: parser_compare_def)

section \<open>Lists of named items\<close>

text \<open>Searching, adding and changing an item of a queue by its name. The sections of a context and the
  keys of a section are such lists.\<close>

definition item_find :: "('a \<Rightarrow> string) \<Rightarrow> string \<Rightarrow> 'a list \<Rightarrow> 'a option" where
  "item_find nm k xs = find (\<lambda>x. parser_compare k (nm x) = 0) xs"

definition item_add :: "('a \<Rightarrow> string) \<Rightarrow> (string \<Rightarrow> 'a) \<Rightarrow> string \<Rightarrow> 'a list \<Rightarrow> 'a list" where
  "item_add nm new k xs = (case item_find nm k xs of None \<Rightarrow> xs @ [new k] | Some _ \<Rightarrow> xs)"

fun item_update :: "('a \<Rightarrow> string) \<Rightarrow> string \<Rightarrow> ('a \<Rightarrow> 'a) \<Rightarrow> 'a list \<Rightarrow> 'a list" where
  "item_update nm k f [] = []"
| "item_update nm k f (x # xs) =
     (if parser_compare k (nm x) = 0 then f x # xs else x # item_update nm k f xs)"

fun item_remove :: "('a \<Rightarrow> string) \<Rightarrow> string \<Rightarrow> 'a list \<Rightarrow> 'a list" where
  "item_remove nm k [] = []"
| "item_remove nm k (x # xs) = (if parser_compare k (nm x) = 0 then xs else x # item_remove nm k xs)"

locale named_items =
  fixes nm :: "'a \<Rightarrow> string" and new :: "string \<Rightarrow> 'a"
  assumes nm_new [simp]: "nm (new k) = k"
begin

lemma find_Cons: "item_find nm k (x # xs) = (if nm x = k then Some x else item_find nm k xs)"
  by (auto simp: item_find_def)

lemma find_Nil [simp]: "item_find nm k [] = None"
  by (simp add: item_find_def)

lemma find_name: "item_find nm k xs = Some x \<Longrightarrow> nm x = k \<and> x \<in> set xs"
  by (induction xs) (auto simp: find_Cons split: if_splits)

lemma find_None_iff: "item_find nm k xs = None \<longleftrightarrow> k \<notin> nm ` set xs"
  by (induction xs) (auto simp: find_Cons)

lemma find_append: "item_find nm k (xs @ ys) = (case item_find nm k xs of None \<Rightarrow> item_find nm k ys | Some x \<Rightarrow> Some x)"
  by (induction xs) (auto simp: find_Cons)

lemma find_add:
  "item_find nm j (item_add nm new k xs) =
     (if j = k \<and> item_find nm k xs = None then Some (new k) else item_find nm j xs)"
  by (auto simp: item_add_def find_append find_Cons split: option.splits)

lemma names_add: "map nm (item_add nm new k xs) = (if k \<in> nm ` set xs then map nm xs else map nm xs @ [k])"
  by (auto simp: item_add_def find_None_iff split: option.splits dest: find_name)

lemma find_update:
  assumes "\<And>x. nm (f x) = nm x"
  shows "item_find nm j (item_update nm k f xs) =
    (if j = k then map_option f (item_find nm k xs) else item_find nm j xs)"
  by (induction xs) (auto simp: find_Cons assms)

lemma names_update: "(\<And>x. nm (f x) = nm x) \<Longrightarrow> map nm (item_update nm k f xs) = map nm xs"
  by (induction xs) auto

lemma find_remove:
  "distinct (map nm xs) \<Longrightarrow> item_find nm j (item_remove nm k xs) = (if j = k then None else item_find nm j xs)"
  by (induction xs) (auto simp: find_Cons find_None_iff)

lemma names_remove: "distinct (map nm xs) \<Longrightarrow> map nm (item_remove nm k xs) = filter (\<lambda>n. n \<noteq> k) (map nm xs)"
proof (induction xs)
  case (Cons x xs)
  then show ?case by (cases "nm x = k") (auto intro!: filter_True [symmetric])
qed simp

lemma distinct_add: "distinct (map nm xs) \<Longrightarrow> distinct (map nm (item_add nm new k xs))"
  by (simp add: names_add)

end

section \<open>Operations\<close>

definition parser_init :: "bool \<Rightarrow> bool \<Rightarrow> parser_context" where
  "parser_init ad ae = \<lparr>allow_default = ad, allow_empty_value = ae, sections_list = []\<rparr>"

definition parser_free :: "parser_context \<Rightarrow> parser_context" where
  "parser_free parser = parser\<lparr>sections_list := []\<rparr>"

definition new_section :: "string \<Rightarrow> item_section" where
  "new_section n = \<lparr>s_name = n, keys_list = []\<rparr>"

definition new_key :: "string \<Rightarrow> item_key" where
  "new_key n = \<lparr>k_name = n, n_values = 0, values_list = []\<rparr>"

definition parser_section_add :: "string \<Rightarrow> parser_context \<Rightarrow> parser_context" where
  "parser_section_add sec parser =
     parser\<lparr>sections_list := item_add s_name new_section sec (sections_list parser)\<rparr>"

definition parser_section_get :: "string \<Rightarrow> parser_context \<Rightarrow> item_section option" where
  "parser_section_get sec parser = item_find s_name sec (sections_list parser)"

definition parser_section_remove :: "string \<Rightarrow> parser_context \<Rightarrow> parser_context" where
  "parser_section_remove sec parser =
     parser\<lparr>sections_list := item_remove s_name sec (sections_list parser)\<rparr>"

definition parser_key_add :: "string \<Rightarrow> item_section \<Rightarrow> item_section" where
  "parser_key_add key sec = sec\<lparr>keys_list := item_add k_name new_key key (keys_list sec)\<rparr>"

definition parser_key_get :: "string \<Rightarrow> item_section \<Rightarrow> item_key option" where
  "parser_key_get key sec = item_find k_name key (keys_list sec)"

definition parser_key_remove :: "string \<Rightarrow> item_section \<Rightarrow> item_section" where
  "parser_key_remove key sec = sec\<lparr>keys_list := item_remove k_name key (keys_list sec)\<rparr>"

definition parser_key_get_nvalues :: "item_key \<Rightarrow> int" where
  "parser_key_get_nvalues key = n_values key"

definition parser_value_add :: "string \<Rightarrow> nat \<Rightarrow> item_key \<Rightarrow> item_key" where
  "parser_value_add val nline key =
     key\<lparr>values_list := values_list key @ [\<lparr>v_s = val, v_nline = nline, v_expanded = sb_empty, v_expanding = False\<rparr>],
         n_values := n_values key + 1\<rparr>"

text \<open>The position of the value number \<open>n\<close>, or of the last one for \<open>-1\<close>.\<close>

definition parser_value_get :: "int \<Rightarrow> item_key option \<Rightarrow> nat option" where
  "parser_value_get n key =
     (case key of
        None \<Rightarrow> None
      | Some k \<Rightarrow>
          if n_values k = 0 \<or> n > n_values k then None
          else if n = -1 then
            (if values_list k = [] then None else Some (length (values_list k) - 1))
          else if 0 \<le> n \<and> n < int (length (values_list k)) then Some (nat n)
          else None)"

definition parser_value_remove :: "nat \<Rightarrow> item_key \<Rightarrow> item_key" where
  "parser_value_remove i key =
     key\<lparr>values_list := take i (values_list key) @ drop (Suc i) (values_list key)\<rparr>"

definition update_key :: "string \<Rightarrow> (item_key \<Rightarrow> item_key) \<Rightarrow> item_section \<Rightarrow> item_section" where
  "update_key key f sec = sec\<lparr>keys_list := item_update k_name key f (keys_list sec)\<rparr>"

definition update_section :: "string \<Rightarrow> (item_section \<Rightarrow> item_section) \<Rightarrow> parser_context \<Rightarrow> parser_context" where
  "update_section sec f parser = parser\<lparr>sections_list := item_update s_name sec f (sections_list parser)\<rparr>"

definition parser_set :: "string \<Rightarrow> string \<Rightarrow> string \<Rightarrow> nat \<Rightarrow> parser_context \<Rightarrow> parser_context" where
  "parser_set sec key val nline parser =
     (let parser = parser_section_add sec parser;
          parser = update_section sec (parser_key_add key) parser
      in update_section sec (update_key key (parser_value_add val nline)) parser)"

interpretation sections: named_items s_name new_section
  by unfold_locales (simp add: new_section_def)

interpretation keys: named_items k_name new_key
  by unfold_locales (simp add: new_key_def)

section \<open>Expansion\<close>

text \<open>A value of a section by its key and its position.\<close>

type_synonym value_ref = "string \<times> nat"

definition section_value :: "value_ref \<Rightarrow> item_section \<Rightarrow> item_value option" where
  "section_value r sec =
     (case parser_key_get (fst r) sec of
        None \<Rightarrow> None
      | Some k \<Rightarrow> if snd r < length (values_list k) then Some (values_list k ! snd r) else None)"

definition update_value :: "value_ref \<Rightarrow> (item_value \<Rightarrow> item_value) \<Rightarrow> item_section \<Rightarrow> item_section" where
  "update_value r f sec =
     update_key (fst r) (\<lambda>k. k\<lparr>values_list := (values_list k)[snd r := f (values_list k ! snd r)]\<rparr>) sec"

definition RECURSION_ERROR :: string where
  "RECURSION_ERROR = ''[RECURSION ERROR]''"

text \<open>The part of the string from \<^verbatim>\<open>src + 2\<close> on: reading it is a fault when \<^verbatim>\<open>src + 1\<close> is already the
  terminator. \<open>Some None\<close> when there is no \<^verbatim>\<open>}\<close> behind it, otherwise the name between the braces and
  the characters after them.\<close>

definition brace_name :: "string \<Rightarrow> (string \<times> string) option option" where
  "brace_name rest =
     (case rest of
        [] \<Rightarrow> None
      | c # cs \<Rightarrow>
          (if CHR ''}'' \<in> set cs
           then Some (Some (c # takeWhile (\<lambda>d. d \<noteq> CHR ''}'') cs, tl (dropWhile (\<lambda>d. d \<noteq> CHR ''}'') cs)))
           else Some None))"

lemma brace_name_length: "brace_name rest = Some (Some (n, rest')) \<Longrightarrow> length rest' < length rest"
  by (auto simp: brace_name_def split: list.splits if_splits)
    (metis length_dropWhile_le le_imp_less_Suc length_tl diff_le_self order.strict_trans1 order.trans)

text \<open>The loop over the characters of the value \<open>r\<close>; \<open>expand\<close> stands for the recursive calls.\<close>

function expand_loop :: "(value_ref \<Rightarrow> item_section \<Rightarrow> (string option \<times> item_section) option) \<Rightarrow>
  value_ref \<Rightarrow> bool \<Rightarrow> string \<Rightarrow> item_section \<Rightarrow> item_section option" where
  "expand_loop expand r escaped [] sec = Some sec"
| "expand_loop expand r escaped (c # rest) sec =
     (let out = (\<lambda>cs. update_value r (\<lambda>v. v\<lparr>v_expanded := sb_append cs (v_expanded v)\<rparr>)) in
      if \<not> escaped then
        (if c = CHR ''$'' then expand_loop expand r True rest sec
         else expand_loop expand r False rest (out [c] sec))
      else if c = CHR ''{'' then do {
        b \<leftarrow> brace_name rest;
        (case b of
           Some (name, rest') \<Rightarrow>
             (let rplc_key = parser_key_get name sec in
              case parser_value_get (-1) rplc_key of
                Some i \<Rightarrow> do {
                  (rplc, sec1) \<leftarrow> expand (name, i) sec;
                  (case rplc of
                     Some s \<Rightarrow> expand_loop expand r False rest' (out s sec1)
                   | None \<Rightarrow> expand_loop expand r False rest' (out RECURSION_ERROR sec1))
                }
              | None \<Rightarrow>
                  expand_loop expand r False rest' (out [CHR ''}''] (out (''${'' @ name) sec)))
         | None \<Rightarrow> expand_loop expand r False rest (out [c] (out [CHR ''$''] sec)))
      }
      else if c = CHR ''$'' then expand_loop expand r False rest (out [c] sec)
      else expand_loop expand r False rest (out [c] (out [CHR ''$''] sec)))"
  by pat_completeness auto
termination
  by (relation "measure (\<lambda>(_, _, _, cs, _). length cs)") (auto dest: brace_name_length)

text \<open>The depth of the recursion is bounded by the number of values, since a value that is being
  expanded is not expanded again; \<open>fuel\<close> is that bound. The result is the expanded string, or
  \<open>None\<close> for the null pointer.\<close>

fun parser_value_expand :: "nat \<Rightarrow> value_ref \<Rightarrow> item_section \<Rightarrow> (string option \<times> item_section) option" where
  "parser_value_expand 0 r sec = None"
| "parser_value_expand (Suc fuel) r sec =
     do {
       v \<leftarrow> section_value r sec;
       (if v_expanding v then Some (None, sec)
        else do {
          let sec1 = update_value r (\<lambda>v. v\<lparr>v_expanded := sb_empty, v_expanding := True\<rparr>) sec;
          sec2 \<leftarrow> expand_loop (parser_value_expand fuel) r False (v_s v) sec1;
          let sec3 = update_value r (\<lambda>v. v\<lparr>v_expanding := False\<rparr>) sec2;
          v' \<leftarrow> section_value r sec3;
          Some (Some (sb_str (v_expanded v')), sec3)
        })
     }"

text \<open>One more than the number of values of the section is enough fuel.\<close>

definition count_values :: "item_section \<Rightarrow> nat" where
  "count_values sec = sum_list (map (\<lambda>k. length (values_list k)) (keys_list sec))"

definition expand_value :: "value_ref \<Rightarrow> item_section \<Rightarrow> (string option \<times> item_section) option" where
  "expand_value r sec = parser_value_expand (Suc (count_values sec)) r sec"

definition parser_get :: "string \<Rightarrow> string \<Rightarrow> int \<Rightarrow> bool \<Rightarrow> parser_context \<Rightarrow>
  (item_value option \<times> parser_context) option" where
  "parser_get section key n expand parser =
     (case parser_section_get section parser of
        None \<Rightarrow> Some (None, parser)
      | Some sec \<Rightarrow>
          (case parser_value_get n (parser_key_get key sec) of
             None \<Rightarrow> Some (None, parser)
           | Some i \<Rightarrow>
               (if expand then do {
                  (_, sec') \<leftarrow> expand_value (key, i) sec;
                  Some (section_value (key, i) sec', update_section section (\<lambda>_. sec') parser)
                }
                else Some (section_value (key, i) sec, parser))))"

section \<open>Conversions\<close>

definition is_digit :: "char \<Rightarrow> bool" where
  "is_digit c \<longleftrightarrow> CHR ''0'' \<le> c \<and> c \<le> CHR ''9''"

definition is_space :: "char \<Rightarrow> bool" where
  "is_space c \<longleftrightarrow> c = CHR '' '' \<or> CHR 0x09 \<le> c \<and> c \<le> CHR 0x0D"

definition digit_value :: "char \<Rightarrow> nat" where
  "digit_value c = of_char c - of_char (CHR ''0'')"

definition decimal :: "string \<Rightarrow> nat" where
  "decimal ds = foldl (\<lambda>n d. 10 * n + digit_value d) 0 ds"

text \<open>The subject sequence of \<^verbatim>\<open>strtol\<close> and \<^verbatim>\<open>strtoul\<close> in base 10: blanks, an optional sign and
  digits. The result is the sign and the magnitude, \<open>None\<close> when there is no digit (the end pointer
  is the start of the string then).\<close>

definition subject_sequence :: "string \<Rightarrow> (bool \<times> nat) option" where
  "subject_sequence s =
     (let s1 = dropWhile is_space s;
          (neg, s2) = (case s1 of
                         [] \<Rightarrow> (False, s1)
                       | c # r \<Rightarrow> if c = CHR ''-'' then (True, r) else if c = CHR ''+'' then (False, r) else (False, s1));
          ds = takeWhile is_digit s2
      in if ds = [] then None else Some (neg, decimal ds))"

text \<open>\<open>None\<close> is a failed conversion: no digits, or \<^verbatim>\<open>ERANGE\<close>. An \<^verbatim>\<open>unsigned long\<close> has 64 bits; a minus
  sign negates the value in it.\<close>

definition strtoul :: "string \<Rightarrow> 64 word option" where
  "strtoul s =
     (case subject_sequence s of
        None \<Rightarrow> None
      | Some (neg, m) \<Rightarrow> if m \<ge> 2 ^ 64 then None else Some (if neg then - of_nat m else of_nat m))"

definition strtol :: "string \<Rightarrow> int option" where
  "strtol s =
     (case subject_sequence s of
        None \<Rightarrow> None
      | Some (neg, m) \<Rightarrow>
          (let i = (if neg then - int m else int m)
           in if - (2 ^ 63) \<le> i \<and> i < 2 ^ 63 then Some i else None))"

text \<open>The getters return the code, the number written to \<^verbatim>\<open>*value\<close> if any, the item written to
  \<^verbatim>\<open>*item\<close> if any, and the context with the expanded value.\<close>

type_synonym 'v get_result = "int \<times> 'v option \<times> item_value option \<times> parser_context"

definition get_converted :: "(string \<Rightarrow> 'v option) \<Rightarrow> string \<Rightarrow> string \<Rightarrow> int \<Rightarrow> parser_context \<Rightarrow> 'v get_result option" where
  "get_converted conv section key n parser =
     do {
       (item, parser') \<leftarrow> parser_get section key n True parser;
       (case item of
          None \<Rightarrow> Some (-1, None, None, parser')
        | Some v \<Rightarrow>
            (case conv (sb_str (v_expanded v)) of
               None \<Rightarrow> Some (0, None, Some v, parser')
             | Some i \<Rightarrow> Some (1, Some i, Some v, parser')))
     }"

definition parser_get_ulong :: "string \<Rightarrow> string \<Rightarrow> int \<Rightarrow> parser_context \<Rightarrow> 64 word get_result option" where
  "parser_get_ulong section key n parser = get_converted strtoul section key n parser"

definition parser_get_long :: "string \<Rightarrow> string \<Rightarrow> int \<Rightarrow> parser_context \<Rightarrow> int get_result option" where
  "parser_get_long section key n parser = get_converted strtol section key n parser"

definition parser_get_uint :: "string \<Rightarrow> string \<Rightarrow> int \<Rightarrow> parser_context \<Rightarrow> u32 get_result option" where
  "parser_get_uint section key n parser =
     do {
       (r, tmp, item, parser') \<leftarrow> parser_get_ulong section key n parser;
       (case tmp of
          Some i \<Rightarrow> if i \<le> 0xFFFFFFFF then Some (r, Some (ucast i), item, parser') else Some (0, None, item, parser')
        | None \<Rightarrow> Some (r, None, item, parser'))
     }"

definition parser_get_int :: "string \<Rightarrow> string \<Rightarrow> int \<Rightarrow> parser_context \<Rightarrow> int get_result option" where
  "parser_get_int section key n parser =
     do {
       (r, tmp, item, parser') \<leftarrow> parser_get_long section key n parser;
       (case tmp of
          Some i \<Rightarrow> if i \<le> 2 ^ 31 - 1 \<and> i \<ge> - (2 ^ 31) then Some (r, Some i, item, parser') else Some (0, None, item, parser')
        | None \<Rightarrow> Some (r, None, item, parser'))
     }"

definition parser_get_ushort :: "string \<Rightarrow> string \<Rightarrow> int \<Rightarrow> parser_context \<Rightarrow> u16 get_result option" where
  "parser_get_ushort section key n parser =
     do {
       (r, tmp, item, parser') \<leftarrow> parser_get_ulong section key n parser;
       (case tmp of
          Some i \<Rightarrow> if i \<le> 0xFFFF then Some (r, Some (ucast i), item, parser') else Some (0, None, item, parser')
        | None \<Rightarrow> Some (r, None, item, parser'))
     }"

definition parser_get_short :: "string \<Rightarrow> string \<Rightarrow> int \<Rightarrow> parser_context \<Rightarrow> int get_result option" where
  "parser_get_short section key n parser =
     do {
       (r, tmp, item, parser') \<leftarrow> parser_get_long section key n parser;
       (case tmp of
          Some i \<Rightarrow> if i \<le> 2 ^ 15 - 1 \<and> i \<ge> - (2 ^ 15) then Some (r, Some i, item, parser') else Some (0, None, item, parser')
        | None \<Rightarrow> Some (r, None, item, parser'))
     }"

text \<open>\<^verbatim>\<open>strtof\<close> is a parameter: the code only passes its result on.\<close>

definition parser_get_float :: "(string \<Rightarrow> 'f option) \<Rightarrow> string \<Rightarrow> string \<Rightarrow> int \<Rightarrow> parser_context \<Rightarrow> 'f get_result option" where
  "parser_get_float strtof section key n parser = get_converted strtof section key n parser"

definition tolower :: "char \<Rightarrow> char" where
  "tolower c = (if CHR ''A'' \<le> c \<and> c \<le> CHR ''Z'' then char_of (of_char c + 32 :: nat) else c)"

definition strcasecmp :: "string \<Rightarrow> string \<Rightarrow> int" where
  "strcasecmp a b = strcmp (map tolower a) (map tolower b)"

definition bool_value :: "string \<Rightarrow> int option" where
  "bool_value v =
     (if strcasecmp v ''yes'' = 0 \<or> strcasecmp v ''1'' = 0 \<or> strcasecmp v ''true'' = 0 \<or> strcasecmp v ''on'' = 0
      then Some 1
      else if strcasecmp v ''no'' = 0 \<or> strcasecmp v ''0'' = 0 \<or> strcasecmp v ''false'' = 0 \<or> strcasecmp v ''off'' = 0
      then Some 0
      else None)"

definition parser_get_bool :: "string \<Rightarrow> string \<Rightarrow> int \<Rightarrow> parser_context \<Rightarrow> int get_result option" where
  "parser_get_bool section key n parser = get_converted bool_value section key n parser"

section \<open>The invariant and the contents\<close>

definition key_ok :: "item_key \<Rightarrow> bool" where
  "key_ok k \<longleftrightarrow> n_values k = int (length (values_list k)) \<and> values_list k \<noteq> [] \<and>
     (\<forall>v \<in> set (values_list k). \<not> v_expanding v)"

definition section_ok :: "item_section \<Rightarrow> bool" where
  "section_ok sec \<longleftrightarrow> distinct (map k_name (keys_list sec)) \<and> keys_list sec \<noteq> [] \<and> (\<forall>k \<in> set (keys_list sec). key_ok k)"

definition parser_ok :: "parser_context \<Rightarrow> bool" where
  "parser_ok parser \<longleftrightarrow> distinct (map s_name (sections_list parser)) \<and> (\<forall>sec \<in> set (sections_list parser). section_ok sec)"

text \<open>The values stored under a section and a key, oldest first.\<close>

definition stored :: "parser_context \<Rightarrow> string \<Rightarrow> string \<Rightarrow> string list" where
  "stored parser sec key =
     (case parser_section_get sec parser of
        None \<Rightarrow> []
      | Some s \<Rightarrow> (case parser_key_get key s of None \<Rightarrow> [] | Some k \<Rightarrow> map v_s (values_list k)))"

lemma key_name_simps [simp]:
  "s_name (parser_key_add key sec) = s_name sec" "s_name (update_key key f sec) = s_name sec"
  "k_name (parser_value_add val l k) = k_name k"
  by (simp_all add: parser_key_add_def update_key_def parser_value_add_def)

lemma section_get_set:
  "parser_section_get s' (parser_set s key val l p) =
     (if s' = s then
        Some (update_key key (parser_value_add val l)
          (parser_key_add key (case parser_section_get s p of None \<Rightarrow> new_section s | Some x \<Rightarrow> x)))
      else parser_section_get s' p)"
  by (auto simp: parser_set_def Let_def update_section_def parser_section_add_def parser_section_get_def
      sections.find_update sections.find_add split: option.splits)

lemma key_get_set:
  "parser_key_get key' (update_key key (parser_value_add val l) (parser_key_add key sec)) =
     (if key' = key then
        Some (parser_value_add val l (case parser_key_get key sec of None \<Rightarrow> new_key key | Some k \<Rightarrow> k))
      else parser_key_get key' sec)"
  by (auto simp: update_key_def parser_key_add_def parser_key_get_def keys.find_update keys.find_add split: option.splits)

lemma key_get_new [simp]: "parser_key_get key (new_section sec) = None"
  by (simp add: parser_key_get_def new_section_def)

lemma item_update_mem: "x \<in> set (item_update nm k f xs) \<Longrightarrow> x \<in> set xs \<or> (\<exists>y \<in> set xs. x = f y \<and> nm y = k)"
  by (induction xs) (auto split: if_splits)

section \<open>Storing\<close>

lemma item_update_others:
  "distinct (map nm xs) \<Longrightarrow> y \<in> set (item_update nm k f xs) \<Longrightarrow>
   (\<exists>x \<in> set xs. y = f x) \<or> y \<in> set xs \<and> nm y \<noteq> k"
  by (induction xs) (auto split: if_splits, metis image_eqI)

lemma item_update_twice:
  "(\<And>x. nm (f x) = nm x) \<Longrightarrow> item_update nm k g (item_update nm k f xs) = item_update nm k (\<lambda>x. g (f x)) xs"
  by (induction xs) auto

lemma parser_set_ok:
  assumes "parser_ok p"
  shows "parser_ok (parser_set s key val l p)"
proof -
  let ?g = "\<lambda>x. update_key key (parser_value_add val l) (parser_key_add key x)"
  have sec: "section_ok (?g x)" if x: "section_ok x \<or> x = new_section s" for x
  proof -
    have d: "distinct (map k_name (keys_list x))" and ok: "\<forall>k \<in> set (keys_list x). key_ok k"
      using x by (auto simp: section_ok_def new_section_def)
    have names: "map k_name (keys_list (?g x)) = map k_name (item_add k_name new_key key (keys_list x))"
      by (simp add: update_key_def parser_key_add_def keys.names_update)
    have "key_ok k" if "k \<in> set (keys_list (?g x))" for k
    proof -
      have d': "distinct (map k_name (item_add k_name new_key key (keys_list x)))"
        by (rule keys.distinct_add [OF d])
      have "k \<in> set (item_update k_name key (parser_value_add val l) (item_add k_name new_key key (keys_list x)))"
        using that by (simp add: update_key_def parser_key_add_def)
      then consider y where "y \<in> set (item_add k_name new_key key (keys_list x))" "k = parser_value_add val l y"
        | "k \<in> set (item_add k_name new_key key (keys_list x))" "k_name k \<noteq> key"
        using item_update_others [OF d'] by blast
      then show ?thesis
      proof cases
        case (1 y)
        then have "y \<in> set (keys_list x) \<or> y = new_key key"
          by (auto simp: item_add_def split: option.splits)
        with ok 1(2) show ?thesis by (auto simp: key_ok_def parser_value_add_def new_key_def)
      next
        case 2
        then have "k \<in> set (keys_list x)"
          by (auto simp: item_add_def new_key_def split: option.splits)
        with ok show ?thesis by blast
      qed
    qed
    moreover have "keys_list (?g x) \<noteq> []"
      using arg_cong [OF names, of length] by (auto simp: item_add_def split: option.splits)
    ultimately show ?thesis
      unfolding section_ok_def names using keys.distinct_add [OF d] by blast
  qed
  let ?xs = "item_add s_name new_section s (sections_list p)"
  have sl: "sections_list (parser_set s key val l p) = item_update s_name s ?g ?xs"
    by (simp add: parser_set_def Let_def update_section_def parser_section_add_def item_update_twice)
  have d: "distinct (map s_name ?xs)" using assms sections.distinct_add by (simp add: parser_ok_def)
  have "section_ok y" if "y \<in> set (item_update s_name s ?g ?xs)" for y
  proof -
    from item_update_others [OF d that] consider x where "x \<in> set ?xs" "y = ?g x"
      | "y \<in> set ?xs" "s_name y \<noteq> s" by blast
    then show ?thesis
    proof cases
      case (1 x)
      then have "section_ok x \<or> x = new_section s"
        using assms by (auto simp: item_add_def parser_ok_def split: option.splits)
      with sec 1(2) show ?thesis by blast
    next
      case 2
      then show ?thesis
        using assms by (auto simp: item_add_def parser_ok_def new_section_def split: option.splits)
    qed
  qed
  with d show ?thesis by (simp add: parser_ok_def sl sections.names_update)
qed

section \<open>The expansion terminates and changes only expanded strings\<close>

definition erase_value :: "item_value \<Rightarrow> item_value" where
  "erase_value v = v\<lparr>v_expanded := sb_empty\<rparr>"

definition erase_key :: "item_key \<Rightarrow> item_key" where
  "erase_key k = k\<lparr>values_list := map erase_value (values_list k)\<rparr>"

definition erase :: "item_section \<Rightarrow> item_section" where
  "erase sec = sec\<lparr>keys_list := map erase_key (keys_list sec)\<rparr>"

lemma erase_key_name [simp]: "k_name (erase_key k) = k_name k"
  by (simp add: erase_key_def)

lemma key_get_erase: "parser_key_get name (erase sec) = map_option erase_key (parser_key_get name sec)"
proof -
  have "item_find k_name name (map erase_key ks) = map_option erase_key (item_find k_name name ks)" for ks
    by (induction ks) (simp_all add: keys.find_Cons)
  then show ?thesis by (simp add: parser_key_get_def erase_def)
qed

lemma value_get_erase: "parser_value_get n (parser_key_get name (erase sec)) = parser_value_get n (parser_key_get name sec)"
  by (cases "parser_key_get name sec") (simp_all add: key_get_erase parser_value_get_def erase_key_def)

lemma section_value_erase: "section_value r (erase sec) = map_option erase_value (section_value r sec)"
  by (cases "parser_key_get (fst r) sec") (auto simp: section_value_def key_get_erase erase_key_def)

lemma erase_section_value_None: "erase s = erase s' \<Longrightarrow> section_value r s = None \<longleftrightarrow> section_value r s' = None"
  using section_value_erase [of r s] section_value_erase [of r s'] by (metis option.map_disc_iff)

lemma update_nth_map: "(\<And>v. e (f v) = g (e v)) \<Longrightarrow>
  map e (xs[i := f (xs ! i)]) = (map e xs)[i := g (map e xs ! i)]"
  by (cases "i < length xs") (simp_all add: map_update list_update_beyond)

lemma map_item_update:
  "(\<And>k. nm' (e k) = nm k) \<Longrightarrow> (\<And>k. e (h k) = h' (e k)) \<Longrightarrow>
   map e (item_update nm n h ks) = item_update nm' n h' (map e ks)"
  by (induction ks) simp_all

lemma erase_update:
  assumes "\<And>v. erase_value (f v) = g (erase_value v)"
  shows "erase (update_value r f sec) = update_value r g (erase sec)"
proof -
  have k: "erase_key (k\<lparr>values_list := (values_list k)[i := f (values_list k ! i)]\<rparr>) =
      (erase_key k)\<lparr>values_list := (values_list (erase_key k))[i := g (values_list (erase_key k) ! i)]\<rparr>" for k i
    by (simp add: erase_key_def update_nth_map [of erase_value f g, OF assms])
  have "map erase_key (item_update k_name (fst r) (\<lambda>k. k\<lparr>values_list := (values_list k)[snd r := f (values_list k ! snd r)]\<rparr>) ks) =
      item_update k_name (fst r) (\<lambda>k. k\<lparr>values_list := (values_list k)[snd r := g (values_list k ! snd r)]\<rparr>) (map erase_key ks)" for ks
    by (rule map_item_update) (simp_all add: k)
  then show ?thesis by (simp add: update_value_def update_key_def erase_def)
qed

lemma update_value_neutral:
  assumes "\<And>v. section_value r sec = Some v \<Longrightarrow> f v = v"
  shows "update_value r f sec = sec"
proof -
  have "item_update k_name n h ks = ks" if "\<And>k. item_find k_name n ks = Some k \<Longrightarrow> h k = k"
    for n and h :: "item_key \<Rightarrow> item_key" and ks
    using that
  proof (induction ks)
    case (Cons a ks)
    show ?case
    proof (cases "k_name a = n")
      case True
      have "h a = a" by (rule Cons.prems) (simp add: keys.find_Cons True)
      with True show ?thesis by simp
    next
      case False
      then have "\<And>k. item_find k_name n ks = Some k \<Longrightarrow> h k = k"
        using Cons.prems by (simp add: keys.find_Cons)
      from Cons.IH [OF this] False show ?thesis by simp
    qed
  qed simp
  moreover have "k\<lparr>values_list := (values_list k)[snd r := f (values_list k ! snd r)]\<rparr> = k"
    if "item_find k_name (fst r) (keys_list sec) = Some k" for k
  proof (cases "snd r < length (values_list k)")
    case True
    with that assms [of "values_list k ! snd r"] show ?thesis
      by (simp add: section_value_def parser_key_get_def)
  qed (simp add: list_update_beyond)
  ultimately show ?thesis by (simp add: update_value_def update_key_def)
qed

lemma update_value_twice: "update_value r g (update_value r f sec) = update_value r (\<lambda>v. g (f v)) sec"
proof -
  have nth: "xs[i := g (xs[i := f (xs ! i)] ! i)] = xs[i := g (f (xs ! i))]" for xs i
    by (cases "i < length xs") (simp_all add: list_update_beyond)
  show ?thesis by (simp add: update_value_def update_key_def item_update_twice nth)
qed

lemma section_value_update:
  "section_value r' (update_value r f sec) =
     (if r' = r then map_option f (section_value r sec) else section_value r' sec)"
proof (cases r; cases r')
  fix k i k' i' assume r: "r = (k, i)" "r' = (k', i')"
  show ?thesis
    by (cases "item_find k_name k (keys_list sec)")
      (auto simp: r section_value_def update_value_def update_key_def parser_key_get_def keys.find_update)
qed

definition idle_refs :: "item_section \<Rightarrow> value_ref set" where
  "idle_refs sec = {r. \<exists>v. section_value r sec = Some v \<and> \<not> v_expanding v}"

lemma card_UN_list: "(\<And>x. finite (S x)) \<Longrightarrow> card (\<Union>x \<in> set xs. S x) \<le> sum_list (map (\<lambda>x. card (S x)) xs)"
proof (induction xs)
  case (Cons x xs)
  have "card (\<Union>y \<in> set (x # xs). S y) \<le> card (S x) + card (\<Union>y \<in> set xs. S y)"
    by (simp add: card_Un_le)
  with Cons show ?case by fastforce
qed simp

lemma idle_refs_finite: "finite (idle_refs sec)" and idle_refs_bound: "card (idle_refs sec) \<le> count_values sec"
proof -
  let ?S = "\<lambda>k. {k_name k} \<times> {..<length (values_list k)}"
  have sub: "idle_refs sec \<subseteq> (\<Union>k \<in> set (keys_list sec). ?S k)"
  proof
    fix r assume "r \<in> idle_refs sec"
    then obtain k where "item_find k_name (fst r) (keys_list sec) = Some k" "snd r < length (values_list k)"
      by (auto simp: idle_refs_def section_value_def parser_key_get_def split: option.splits if_splits)
    with keys.find_name [OF this(1)] show "r \<in> (\<Union>k \<in> set (keys_list sec). ?S k)"
      by (cases r) auto
  qed
  have fin: "finite (\<Union>k \<in> set (keys_list sec). ?S k)" by simp
  show "finite (idle_refs sec)" using finite_subset [OF sub fin] .
  have "card (idle_refs sec) \<le> card (\<Union>k \<in> set (keys_list sec). ?S k)" by (rule card_mono [OF fin sub])
  also have "\<dots> \<le> count_values sec" using card_UN_list [of ?S "keys_list sec"] by (simp add: count_values_def)
  finally show "card (idle_refs sec) \<le> count_values sec" .
qed

lemma idle_refs_erase: "idle_refs (erase sec) = idle_refs sec"
  by (auto simp: idle_refs_def section_value_erase erase_value_def)


text \<open>The only fault of the expansion: a value that ends in \<^verbatim>\<open>${\<close>.\<close>

definition dangling :: "string \<Rightarrow> bool" where
  "dangling s \<longleftrightarrow> (\<exists>u. s = u @ ''${'')"

definition no_dangling :: "item_section \<Rightarrow> bool" where
  "no_dangling sec \<longleftrightarrow> (\<forall>r. pred_option (\<lambda>v. \<not> dangling (v_s v)) (section_value r sec))"

lemma dangling_Cons: "dangling cs \<Longrightarrow> dangling (c # cs)"
  unfolding dangling_def by (metis append_Cons)

lemma dangling_append: "dangling cs \<Longrightarrow> dangling (ds @ cs)"
  unfolding dangling_def by (metis append_assoc)

lemma brace_name_split:
  assumes "brace_name rest = Some (Some (n, rest'))"
  shows "rest = n @ CHR ''}'' # rest'"
proof -
  from assms obtain c cs where r: "rest = c # cs" and m: "CHR ''}'' \<in> set cs"
    and n: "n = c # takeWhile (\<lambda>d. d \<noteq> CHR ''}'') cs" and r': "rest' = tl (dropWhile (\<lambda>d. d \<noteq> CHR ''}'') cs)"
    by (auto simp: brace_name_def split: list.splits if_splits)
  obtain ys zs where cs: "cs = ys @ CHR ''}'' # zs" and ys: "CHR ''}'' \<notin> set ys"
    using split_list_first [OF m] by blast
  have "takeWhile (\<lambda>d. d \<noteq> CHR ''}'') cs = ys" "dropWhile (\<lambda>d. d \<noteq> CHR ''}'') cs = CHR ''}'' # zs"
    using ys by (auto simp: cs takeWhile_append dropWhile_append)
  then show ?thesis using r n r' cs by simp
qed

lemma brace_name_None: "brace_name rest = None \<longleftrightarrow> rest = []"
  by (auto simp: brace_name_def split: list.splits)

lemma section_value_get:
  "parser_value_get (-1) (parser_key_get name sec) = Some i \<Longrightarrow> section_value (name, i) sec \<noteq> None"
  by (auto simp: parser_value_get_def section_value_def split: option.splits if_splits)

lemma erase_no_dangling: "no_dangling (erase s) = no_dangling s"
  by (simp add: no_dangling_def section_value_erase option.pred_map comp_def erase_value_def)

lemma out_erase: "erase (update_value r (\<lambda>v. v\<lparr>v_expanded := h v\<rparr>) sec) = erase sec"
proof -
  have "erase (update_value r (\<lambda>v. v\<lparr>v_expanded := h v\<rparr>) sec) = update_value r (\<lambda>v. v) (erase sec)"
    by (rule erase_update) (simp add: erase_value_def)
  then show ?thesis by (simp add: update_value_neutral)
qed

lemma expand_loop_returns:
  assumes rec: "\<And>r' s. erase s = K \<Longrightarrow> section_value r' s \<noteq> None \<Longrightarrow>
      \<exists>x s'. expand r' s = Some (x, s') \<and> erase s' = K"
    and "\<not> dangling cs" and "escaped \<Longrightarrow> cs \<noteq> ''{''" and "erase sec = K"
  shows "\<exists>sec'. expand_loop expand r escaped cs sec = Some sec' \<and> erase sec' = K"
  using assms(2-)
proof (induction "length cs" arbitrary: escaped cs sec rule: less_induct)
  case less
  show ?case
  proof (cases cs)
    case Nil
    with less.prems show ?thesis by simp
  next
    case (Cons c rest)
    let ?out = "\<lambda>cs. update_value r (\<lambda>v. v\<lparr>v_expanded := sb_append cs (v_expanded v)\<rparr>)"
    have dr: "\<not> dangling rest" using less.prems(1) dangling_Cons Cons by blast
    have next1: "\<exists>sec'. expand_loop expand r False rest s = Some sec' \<and> erase sec' = K" if "erase s = K" for s
      using less.hyps [of rest False s] dr that Cons by simp
    show ?thesis
    proof (cases "\<not> escaped \<or> c \<noteq> CHR ''{''")
      case True
      have "\<exists>sec'. expand_loop expand r True rest sec = Some sec' \<and> erase sec' = K" if "\<not> escaped" "c = CHR ''$''"
      proof (rule less.hyps)
        show "True \<Longrightarrow> rest \<noteq> ''{''" using less.prems(1) that Cons by (auto simp: dangling_def)
      qed (use dr less.prems(3) Cons in auto)
      with True next1 less.prems(3) show ?thesis by (simp add: Cons out_erase Let_def)
    next
      case False
      with less.prems(2) Cons have "rest \<noteq> []" by auto
      then obtain b where b: "brace_name rest = Some b" using brace_name_None by blast
      show ?thesis
      proof (cases b)
        case None
        with False b next1 less.prems(3) show ?thesis by (simp add: Cons out_erase Let_def)
      next
        case (Some nr)
        then obtain name rest' where nr: "b = Some (name, rest')" by (cases nr) auto
        with b have sp: "rest = name @ CHR ''}'' # rest'" using brace_name_split by simp
        then have "\<not> dangling rest'" using dr dangling_append dangling_Cons by blast
        then have next2: "\<exists>sec'. expand_loop expand r False rest' s = Some sec' \<and> erase sec' = K" if "erase s = K" for s
          using less.hyps [of rest' False s] that Cons sp by simp
        show ?thesis
        proof (cases "parser_value_get (-1) (parser_key_get name sec)")
          case None
          with False b nr next2 less.prems(3) show ?thesis by (simp add: Cons out_erase Let_def)
        next
          case (Some i)
          obtain x s' where x: "expand (name, i) sec = Some (x, s')" "erase s' = K"
            using rec [OF less.prems(3) section_value_get [OF Some]] by blast
          with False b nr Some next2 show ?thesis
            by (cases x) (simp_all add: Cons out_erase Let_def)
        qed
      qed
    qed
  qed
qed

lemma not_expanding: "\<not> v_expanding v \<Longrightarrow> v\<lparr>v_expanding := False\<rparr> = (v :: item_value)"
  by (cases v) simp

lemma parser_value_expand_returns:
  assumes "section_value r sec \<noteq> None" and "no_dangling sec" and "card (idle_refs sec) < fuel"
  shows "\<exists>x sec'. parser_value_expand fuel r sec = Some (x, sec') \<and> erase sec' = erase sec"
  using assms
proof (induction fuel arbitrary: r sec)
  case (Suc fuel)
  from Suc.prems(1) obtain v where v: "section_value r sec = Some v" by blast
  show ?case
  proof (cases "v_expanding v")
    case True
    with v show ?thesis by simp
  next
    case False
    define sec1 where "sec1 = update_value r (\<lambda>v. v\<lparr>v_expanded := sb_empty, v_expanding := True\<rparr>) sec"
    have e1: "erase sec1 = update_value r (\<lambda>v. v\<lparr>v_expanding := True\<rparr>) (erase sec)"
      unfolding sec1_def by (rule erase_update) (simp add: erase_value_def)
    have idle: "idle_refs sec1 = idle_refs sec - {r}" and r: "r \<in> idle_refs sec"
      using v False by (auto simp: idle_refs_def sec1_def section_value_update)
    have fuel: "card (idle_refs sec1) < fuel"
      using card_Diff1_less [OF idle_refs_finite r] Suc.prems(3) by (simp add: idle)
    have nd: "no_dangling sec1"
      using Suc.prems(2) by (cases r) (simp add: no_dangling_def sec1_def section_value_update option.pred_map comp_def)
    have rec: "\<exists>x s'. parser_value_expand fuel r' s = Some (x, s') \<and> erase s' = erase sec1"
      if s: "erase s = erase sec1" and r': "section_value r' s \<noteq> None" for r' s
    proof -
      have "no_dangling s"
        using nd erase_no_dangling [of s] erase_no_dangling [of sec1] s by simp
      moreover have "card (idle_refs s) < fuel" using fuel s by (metis idle_refs_erase)
      ultimately show ?thesis using Suc.IH [OF r'] s by simp
    qed
    have "\<not> dangling (v_s v)" using Suc.prems(2) [unfolded no_dangling_def, rule_format, of r] v by simp
    then obtain sec2 where s2: "expand_loop (parser_value_expand fuel) r False (v_s v) sec1 = Some sec2"
      and e2: "erase sec2 = erase sec1"
      using expand_loop_returns [of "erase sec1" "parser_value_expand fuel", OF rec] by blast
    let ?sec3 = "update_value r (\<lambda>v. v\<lparr>v_expanding := False\<rparr>) sec2"
    have "erase ?sec3 = update_value r (\<lambda>v. v\<lparr>v_expanding := False\<rparr>) (erase sec2)"
      by (rule erase_update) (simp add: erase_value_def)
    also have "\<dots> = update_value r (\<lambda>v. v\<lparr>v_expanding := False\<rparr>) (erase sec)"
      unfolding e2 e1 by (simp add: update_value_twice)
    also have "\<dots> = erase sec"
      using v False by (intro update_value_neutral) (auto simp: section_value_erase erase_value_def not_expanding)
    finally have e3: "erase ?sec3 = erase sec" .
    have "section_value r sec2 \<noteq> None"
      using v erase_section_value_None [OF e2, of r] by (simp add: sec1_def section_value_update)
    then obtain v2 where "section_value r ?sec3 = Some v2" by (auto simp: section_value_update)
    then have "parser_value_expand (Suc fuel) r sec = Some (Some (sb_str (v_expanded v2)), ?sec3)"
      using False by (simp add: v s2 [unfolded sec1_def])
    with e3 show ?thesis by blast
  qed
qed simp

lemma expand_value_returns:
  assumes "section_value r sec \<noteq> None" and "no_dangling sec"
  shows "\<exists>x sec'. expand_value r sec = Some (x, sec') \<and> erase sec' = erase sec"
  unfolding expand_value_def
  using parser_value_expand_returns [OF assms] idle_refs_bound [of sec]
  by (simp add: less_Suc_eq_le del: parser_value_expand.simps)

text \<open>A value without a dollar sign.\<close>

lemma expand_loop_plain:
  assumes "CHR ''$'' \<notin> set cs" and "section_value r sec = Some v"
  shows "\<exists>sec'. expand_loop expand r False cs sec = Some sec' \<and>
    section_value r sec' = Some (v\<lparr>v_expanded := sb_append cs (v_expanded v)\<rparr>)"
  using assms
proof (induction cs arbitrary: sec v)
  case Nil
  then show ?case by (simp add: sb_append_def)
next
  case (Cons c cs)
  then have "section_value r (update_value r (\<lambda>v. v\<lparr>v_expanded := sb_append [c] (v_expanded v)\<rparr>) sec) =
      Some (v\<lparr>v_expanded := sb_append [c] (v_expanded v)\<rparr>)"
    by (simp add: section_value_update)
  from Cons.IH [OF _ this] Cons.prems show ?case by (auto simp: Let_def sb_append_def)
qed

lemma expand_value_plain:
  assumes v: "section_value r sec = Some v" "\<not> v_expanding v" and plain: "CHR ''$'' \<notin> set (v_s v)"
  obtains sec' v' where "expand_value r sec = Some (Some (v_s v), sec')" "section_value r sec' = Some v'"
    "sb_str (v_expanded v') = v_s v"
proof -
  let ?w = "v\<lparr>v_expanded := sb_empty, v_expanding := True\<rparr>"
  have "section_value r (update_value r (\<lambda>v. v\<lparr>v_expanded := sb_empty, v_expanding := True\<rparr>) sec) = Some ?w"
    by (simp add: section_value_update v)
  from expand_loop_plain [OF plain this, of "parser_value_expand (count_values sec)"] obtain sec2 where
    s2: "expand_loop (parser_value_expand (count_values sec)) r False (v_s v)
      (update_value r (\<lambda>v. v\<lparr>v_expanded := sb_empty, v_expanding := True\<rparr>) sec) = Some sec2"
    "section_value r sec2 = Some (?w\<lparr>v_expanded := sb_append (v_s v) sb_empty\<rparr>)" by auto
  show thesis
    by (rule that [of "update_value r (\<lambda>v. v\<lparr>v_expanding := False\<rparr>) sec2"
          "?w\<lparr>v_expanded := sb_append (v_s v) sb_empty, v_expanding := False\<rparr>"])
      (use v s2 in \<open>simp_all add: expand_value_def section_value_update sb_append_def sb_empty_def\<close>)
qed

lemma expand_loop_dangling:
  assumes "CHR ''$'' \<notin> set u"
  shows "expand_loop expand r False (u @ ''${'') sec = None"
  using assms by (induction u arbitrary: sec) (auto simp: brace_name_def Let_def)

section \<open>Decimal numbers\<close>

definition digit_char :: "nat \<Rightarrow> char" where
  "digit_char d = char_of (of_char (CHR ''0'') + d)"

fun show_nat :: "nat \<Rightarrow> string" where
  "show_nat n = (if n < 10 then [digit_char n] else show_nat (n div 10) @ [digit_char (n mod 10)])"

declare show_nat.simps [simp del]

lemma of_char_digit_char: "d < 10 \<Longrightarrow> of_char (digit_char d) = (48 + d :: nat)"
  by (simp add: digit_char_def)

lemma digit_char_facts:
  assumes "d < 10"
  shows "is_digit (digit_char d)" "digit_value (digit_char d) = d" "digit_char d \<noteq> CHR ''$''"
    "\<not> is_space (digit_char d)" "digit_char d \<noteq> CHR ''-''" "digit_char d \<noteq> CHR ''+''"
proof -
  note o = of_char_digit_char [OF assms]
  have ne: "digit_char d \<noteq> c" if "of_char c < (48 :: nat)" for c using that o by auto
  show "is_digit (digit_char d)" "digit_value (digit_char d) = d"
    using assms by (simp_all add: is_digit_def less_eq_char_def digit_value_def o)
  show "digit_char d \<noteq> CHR ''$''" "digit_char d \<noteq> CHR ''-''" "digit_char d \<noteq> CHR ''+''"
    by (rule ne, simp)+
  have "digit_char d \<noteq> CHR '' ''" by (rule ne) simp
  then show "\<not> is_space (digit_char d)"
    by (simp add: is_space_def less_eq_char_def o)
qed

lemma show_nat_digits: "set (show_nat n) \<subseteq> digit_char ` {..<10}"
  by (induction n rule: show_nat.induct) (subst show_nat.simps, auto)

lemma show_nat_nonempty: "show_nat n \<noteq> []"
  by (subst show_nat.simps) simp

lemma decimal_append: "decimal (ds @ [d]) = 10 * decimal ds + digit_value d"
  by (simp add: decimal_def)

lemma decimal_show_nat: "decimal (show_nat n) = n"
proof (induction n rule: show_nat.induct)
  case (1 n)
  show ?case
  proof (cases "n < 10")
    case True
    then show ?thesis by (subst show_nat.simps) (simp add: decimal_def digit_char_facts)
  next
    case False
    then have "decimal (show_nat n) = 10 * decimal (show_nat (n div 10)) + digit_value (digit_char (n mod 10))"
      by (subst show_nat.simps) (simp add: decimal_append)
    also have "\<dots> = n" using 1 False by (simp add: digit_char_facts)
    finally show ?thesis .
  qed
qed

lemma subject_show_nat: "subject_sequence (show_nat n) = Some (False, n)"
proof -
  obtain c cs where c: "show_nat n = c # cs" using show_nat_nonempty by (cases "show_nat n") auto
  with show_nat_digits [of n] have "c \<in> digit_char ` {..<10}" by auto
  then have cf: "\<not> is_space c" "c \<noteq> CHR ''-''" "c \<noteq> CHR ''+''" by (auto simp: digit_char_facts)
  have "takeWhile is_digit (c # cs) = c # cs"
    unfolding takeWhile_eq_all_conv using show_nat_digits [of n] c by (auto simp: digit_char_facts)
  with cf decimal_show_nat [of n] show ?thesis
    by (simp add: subject_sequence_def c Let_def split: if_splits)
qed

lemma strtoul_show_nat: "strtoul (show_nat n) = (if n < 2 ^ 64 then Some (of_nat n) else None)"
  by (simp add: strtoul_def subject_show_nat)

section \<open>Properties\<close>

text \<open>Storing a value appends it to the values of its section and key, creating them if needed,
  and leaves the values of every other section and key alone; the structure stays well formed:
  names are unique, counters are right, no key and no section is empty, no value is marked as
  being expanded.\<close>

theorem parser_set_appends:
  "stored (parser_set sec key val l p) sec' key' =
     (if sec' = sec \<and> key' = key then stored p sec key @ [val] else stored p sec' key') \<and>
   (parser_ok p \<longrightarrow> parser_ok (parser_set sec key val l p))"
  by (auto simp: stored_def section_get_set key_get_set parser_set_ok parser_value_add_def new_key_def
      split: option.splits)

theorem parser_set_appends_witness:
  "parser_ok (parser_set ''NETWORK'' ''mtu'' ''1400'' 3 (parser_init True False)) \<and>
   stored (parser_set ''NETWORK'' ''mtu'' ''1400'' 3 (parser_init True False)) ''NETWORK'' ''mtu'' = [''1400'']"
  using parser_set_appends [of "''NETWORK''" "''mtu''" "''1400''" 3 "parser_init True False" "''NETWORK''" "''mtu''"]
  by (simp add: stored_def parser_ok_def parser_init_def parser_section_get_def)

text \<open>Reading back: in a well formed context a lookup without expansion returns the value number
  \<open>n\<close> of the section and key as it was stored, the last one for \<open>n = -1\<close>, and nothing when there is
  no such value; the context does not change.\<close>

theorem parser_get_reads_stored:
  assumes "parser_ok p"
  shows "\<exists>x. parser_get sec key n False p = Some (x, p) \<and>
    map_option v_s x =
      (let vs = stored p sec key in
       if vs \<noteq> [] \<and> n = -1 then Some (last vs)
       else if 0 \<le> n \<and> n < int (length vs) then Some (vs ! nat n) else None)"
proof (cases "parser_section_get sec p")
  case None
  then show ?thesis by (simp add: parser_get_def stored_def)
next
  case (Some s)
  show ?thesis
  proof (cases "parser_key_get key s")
    case None
    with Some show ?thesis by (simp add: parser_get_def stored_def parser_value_get_def)
  next
    case k: (Some k)
    have "section_ok s" using assms Some sections.find_name
      unfolding parser_ok_def parser_section_get_def by blast
    then have "key_ok k" using k keys.find_name unfolding section_ok_def parser_key_get_def by blast
    then have "n_values k = int (length (values_list k))" "values_list k \<noteq> []" by (auto simp: key_ok_def)
    with Some k show ?thesis
      by (auto simp: parser_get_def stored_def parser_value_get_def section_value_def last_conv_nth Let_def)
  qed
qed

theorem parser_get_reads_stored_witness:
  "\<exists>x. parser_get ''A'' ''k'' (-1) False (parser_set ''A'' ''k'' ''w'' 2 (parser_set ''A'' ''k'' ''v'' 1 (parser_init True True))) =
     Some (x, parser_set ''A'' ''k'' ''w'' 2 (parser_set ''A'' ''k'' ''v'' 1 (parser_init True True))) \<and>
     map_option v_s x = Some ''w''"
proof -
  let ?p = "parser_set ''A'' ''k'' ''w'' 2 (parser_set ''A'' ''k'' ''v'' 1 (parser_init True True))"
  have ok: "parser_ok ?p" by (intro parser_set_ok) (simp add: parser_ok_def parser_init_def)
  have "stored ?p ''A'' ''k'' = [''v'', ''w'']" by code_simp
  with parser_get_reads_stored [OF ok, of "''A''" "''k''" "-1"] show ?thesis by simp
qed

text \<open>C26. The expansion of \<^verbatim>\<open>${...}\<close> references always returns: in a section none of whose values ends
  in a dangling \<^verbatim>\<open>${\<close>, whatever the references and however cyclic they are, expanding a value
  terminates without a fault and changes nothing in the section but expanded strings (no raw
  string, name, counter or line, and no value is left marked as being expanded).\<close>

theorem parser_value_expand_total:
  assumes "section_value r sec \<noteq> None" and "no_dangling sec"
  shows "\<exists>x sec'. parser_value_expand (Suc (count_values sec)) r sec = Some (x, sec') \<and> erase sec' = erase sec"
  using expand_value_returns [OF assms] by (simp add: expand_value_def)

definition demo_section :: item_section where
  "demo_section = update_key ''b'' (parser_value_add ''<${a}>'' 2) (parser_key_add ''b''
     (update_key ''a'' (parser_value_add ''x${b}$${c}${d}'' 1) (parser_key_add ''a'' (new_section ''S''))))"

text \<open>Two values that refer to each other: the cycle is cut by the error text.\<close>

theorem parser_value_expand_total_witness:
  "\<exists>x sec'. parser_value_expand (Suc (count_values demo_section)) (''a'', 0) demo_section = Some (x, sec') \<and>
    erase sec' = erase demo_section \<and> x = Some ''x<[RECURSION ERROR]>${c}${d}''"
proof -
  have "section_value (''a'', 0) demo_section \<noteq> None" by code_simp
  moreover have "no_dangling demo_section"
    by (auto simp: no_dangling_def section_value_def demo_section_def parser_key_get_def update_key_def
        parser_key_add_def parser_value_add_def new_section_def new_key_def item_add_def item_find_def dangling_def
        split: option.splits)
  moreover have "map_option fst (parser_value_expand (Suc (count_values demo_section)) (''a'', 0) demo_section) =
      Some (Some ''x<[RECURSION ERROR]>${c}${d}'')" by code_simp
  ultimately show ?thesis using parser_value_expand_total by fastforce
qed

text \<open>A value without a dollar sign is its own expansion.\<close>

theorem expand_plain_value:
  assumes "section_value r sec = Some v" "\<not> v_expanding v" "CHR ''$'' \<notin> set (v_s v)"
  shows "\<exists>sec'. expand_value r sec = Some (Some (v_s v), sec')"
  using expand_value_plain [OF assms] by metis

theorem expand_plain_value_witness:
  "\<exists>sec'. expand_value (''k'', 0) (update_key ''k'' (parser_value_add ''abc'' 1) (parser_key_add ''k'' (new_section ''S''))) =
    Some (Some ''abc'', sec')"
proof -
  let ?sec = "update_key ''k'' (parser_value_add ''abc'' 1) (parser_key_add ''k'' (new_section ''S''))"
  have "section_value (''k'', 0) ?sec = Some \<lparr>v_s = ''abc'', v_nline = 1, v_expanded = sb_empty, v_expanding = False\<rparr>"
    by code_simp
  from expand_plain_value [OF this] show ?thesis by simp
qed

text \<open>A value that ends in \<^verbatim>\<open>${\<close> makes the expansion read behind the terminator of the string: the
  search for the closing brace starts two characters after the dollar sign.\<close>

theorem expand_dangling_reference_faults:
  assumes "section_value r sec = Some v" "\<not> v_expanding v" "v_s v = u @ ''${''" "CHR ''$'' \<notin> set u"
  shows "expand_value r sec = None"
  using assms by (simp add: expand_value_def expand_loop_dangling)

theorem expand_dangling_reference_faults_witness:
  "expand_value (''k'', 0) (update_key ''k'' (parser_value_add ''ab${'' 1) (parser_key_add ''k'' (new_section ''S''))) = None"
proof -
  let ?sec = "update_key ''k'' (parser_value_add ''ab${'' 1) (parser_key_add ''k'' (new_section ''S''))"
  have "section_value (''k'', 0) ?sec = Some \<lparr>v_s = ''ab${'', v_nline = 1, v_expanded = sb_empty, v_expanding = False\<rparr>"
    by code_simp
  from expand_dangling_reference_faults [OF this, of "''ab''"] show ?thesis by simp
qed

text \<open>The conversion to a 16 bit port number: a value that is the decimal numeral of \<open>m\<close> is read as \<open>m\<close>
  when it fits, and is an error otherwise, never a truncated number; a missing value is reported as
  missing. The 32 bit conversion behaves likewise.\<close>

theorem parser_get_unsigned_decimal:
  assumes s: "parser_section_get sec p = Some s" and i: "parser_value_get n (parser_key_get key s) = Some i"
    and v: "section_value (key, i) s = Some v" "\<not> v_expanding v" "v_s v = show_nat m"
  shows "(\<exists>item p'. parser_get_ushort sec key n p =
      Some (if m < 2 ^ 16 then (1, Some (of_nat m), item, p') else (0, None, item, p'))) \<and>
    (\<exists>item p'. parser_get_uint sec key n p =
      Some (if m < 2 ^ 32 then (1, Some (of_nat m), item, p') else (0, None, item, p')))"
proof -
  have plain: "CHR ''$'' \<notin> set (v_s v)"
  proof
    assume "CHR ''$'' \<in> set (v_s v)"
    then obtain d where "d < 10" "digit_char d = CHR ''$''" using show_nat_digits [of m] by (auto simp: v(3))
    with digit_char_facts(3) show False by blast
  qed
  obtain sec' v' where e: "expand_value (key, i) s = Some (Some (v_s v), sec')"
    "section_value (key, i) sec' = Some v'" "sb_str (v_expanded v') = show_nat m"
    using expand_value_plain [OF v(1,2) plain] v(3) by metis
  have g: "parser_get_ulong sec key n p =
    Some (if m < 2 ^ 64 then (1, Some (of_nat m), Some v', update_section sec (\<lambda>_. sec') p)
          else (0, None, Some v', update_section sec (\<lambda>_. sec') p))"
    by (simp add: parser_get_ulong_def get_converted_def parser_get_def s i e strtoul_show_nat)
  have cmp: "m < 2 ^ 64 \<Longrightarrow> (of_nat m :: 64 word) \<le> 0xFFFF \<longleftrightarrow> m < 2 ^ 16"
    "m < 2 ^ 64 \<Longrightarrow> (of_nat m :: 64 word) \<le> 0xFFFFFFFF \<longleftrightarrow> m < 2 ^ 32"
    by (simp_all add: word_le_nat_alt unat_of_nat take_bit_nat_eq_self) linarith+
  show ?thesis
    using cmp by (auto simp: parser_get_ushort_def parser_get_uint_def g unsigned_of_nat take_bit_nat_eq_self)
qed

definition demo_port_parser :: "string \<Rightarrow> parser_context" where
  "demo_port_parser s = parser_set ''NETWORK'' ''port'' s 7 (parser_init True False)"

theorem parser_get_unsigned_decimal_witness:
  "(\<exists>item p'. parser_get_ushort ''NETWORK'' ''port'' (-1) (demo_port_parser ''57888'') = Some (1, Some 57888, item, p')) \<and>
   (\<exists>item p'. parser_get_ushort ''NETWORK'' ''port'' (-1) (demo_port_parser ''65536'') = Some (0, None, item, p'))"
proof -
  have n: "show_nat 57888 = ''57888''" "show_nat 65536 = ''65536''"
    by (simp_all add: show_nat.simps digit_char_def char_of_def bit_0)
  obtain s where s: "parser_section_get ''NETWORK'' (demo_port_parser x) = Some (s x)"
    "parser_value_get (-1) (parser_key_get ''port'' (s x)) = Some 0"
    "section_value (''port'', 0) (s x) = Some \<lparr>v_s = x, v_nline = 7, v_expanded = sb_empty, v_expanding = False\<rparr>" for x
    by (simp add: demo_port_parser_def parser_section_get_def parser_set_def parser_init_def Let_def update_section_def
        parser_section_add_def item_add_def item_find_def new_section_def parser_key_add_def new_key_def update_key_def
        parser_value_add_def parser_value_get_def parser_key_get_def section_value_def)
  from parser_get_unsigned_decimal [OF s, of "''57888''" 57888] parser_get_unsigned_decimal [OF s, of "''65536''" 65536]
  show ?thesis by (simp add: n)
qed

text \<open>The boolean conversion accepts exactly the eight documented words in any case.\<close>

theorem bool_value_words:
  "(bool_value v = Some 1 \<longleftrightarrow> map tolower v \<in> {''yes'', ''on'', ''1'', ''true''}) \<and>
   (bool_value v = Some 0 \<longleftrightarrow> map tolower v \<in> {''no'', ''off'', ''0'', ''false''}) \<and>
   bool_value v \<in> {None, Some 0, Some 1}"
proof -
  have l: "map tolower ''yes'' = ''yes''" "map tolower ''on'' = ''on''" "map tolower ''1'' = ''1''"
    "map tolower ''true'' = ''true''" "map tolower ''no'' = ''no''" "map tolower ''off'' = ''off''"
    "map tolower ''0'' = ''0''" "map tolower ''false'' = ''false''"
    by code_simp+
  show ?thesis unfolding bool_value_def strcasecmp_def strcmp_zero l by auto
qed

end
