(* ===== verification/Config_IO.thy ===== *)
theory Config_IO
  imports Config_Parser
begin

text \<open>
  Reading and writing configuration files (\<^verbatim>\<open>common/config_io.c\<close>): the input with one character of
  lookahead, the two automata for identifiers and for values with one definition per state, the reader
  and the writer. A file is the list of its characters. Log messages and the debug output are not
  modelled; the strings are the abstract buffers of \<open>Strlib\<close>.
\<close>

section \<open>Input\<close>

abbreviation LF :: char where "LF \<equiv> CHR 0x0A"
abbreviation CR :: char where "CR \<equiv> CHR 0x0D"

record position =
  pos_line :: nat
  pos_c :: nat

record read_buf =
  rb_next :: "char option"
  rb_pos :: position
  rb_f :: string

fun fgetc :: "string \<Rightarrow> char option \<times> string" where
  "fgetc [] = (None, [])"
| "fgetc (c # cs) = (Some c, cs)"

definition position_init :: position where
  "position_init = \<lparr>pos_line = 1, pos_c = 1\<rparr>"

definition position_inc_line :: "position \<Rightarrow> position" where
  "position_inc_line p = p\<lparr>pos_line := pos_line p + 1, pos_c := 1\<rparr>"

definition position_inc_char :: "position \<Rightarrow> position" where
  "position_inc_char p = p\<lparr>pos_c := pos_c p + 1\<rparr>"

definition read_buf_init :: "string \<Rightarrow> read_buf" where
  "read_buf_init file = (let (c, f) = fgetc file in \<lparr>rb_next = c, rb_pos = position_init, rb_f = f\<rparr>)"

definition read_buf_next :: "read_buf \<Rightarrow> char option \<times> read_buf" where
  "read_buf_next rb =
     (case rb_next rb of
        None \<Rightarrow> (None, rb)
      | Some c \<Rightarrow>
          (let (n1, f1) = fgetc (rb_f rb);
               (c', n, f) = (if c = CR \<and> n1 = Some LF
                             then let (n2, f2) = fgetc f1 in (LF, n2, f2)
                             else (c, n1, f1));
               pos = (if c' = LF then position_inc_line (rb_pos rb) else position_inc_char (rb_pos rb))
           in (Some c', \<lparr>rb_next = n, rb_pos = pos, rb_f = f\<rparr>)))"

definition read_buf_peek :: "read_buf \<Rightarrow> char option" where
  "read_buf_peek rb = rb_next rb"

section \<open>Escape sequences\<close>

definition isxdigit :: "char \<Rightarrow> bool" where
  "isxdigit c \<longleftrightarrow> is_digit c \<or> CHR ''a'' \<le> c \<and> c \<le> CHR ''f'' \<or> CHR ''A'' \<le> c \<and> c \<le> CHR ''F''"

definition hextoint :: "char \<Rightarrow> nat" where
  "hextoint c =
     (if is_digit c then of_char c - of_char (CHR ''0'')
      else if CHR ''a'' \<le> c \<and> c \<le> CHR ''z'' then of_char c - of_char (CHR ''a'') + 10
      else of_char c - of_char (CHR ''A'') + 10)"

definition isoctdigit :: "char \<Rightarrow> bool" where
  "isoctdigit c \<longleftrightarrow> CHR ''0'' \<le> c \<and> c \<le> CHR ''7''"

definition octtoint :: "char \<Rightarrow> nat" where
  "octtoint c = of_char c - of_char (CHR ''0'')"

definition peek_is :: "(char \<Rightarrow> bool) \<Rightarrow> read_buf \<Rightarrow> bool" where
  "peek_is P rb \<longleftrightarrow> (case read_buf_peek rb of None \<Rightarrow> False | Some c \<Rightarrow> P c)"

definition skip_char :: "read_buf \<Rightarrow> read_buf" where
  "skip_char rb = snd (read_buf_next rb)"

text \<open>The conversion \<^verbatim>\<open>(char) v\<close> keeps the low eight bits.\<close>

definition unescape_hex :: "strbuf \<Rightarrow> read_buf \<Rightarrow> strbuf \<times> read_buf" where
  "unescape_hex sb rb =
     (if peek_is isxdigit rb then
        (let v = hextoint (the (read_buf_peek rb)); rb1 = skip_char rb in
         if peek_is isxdigit rb1
         then (sb_push (char_of (16 * v + hextoint (the (read_buf_peek rb1)))) sb, skip_char rb1)
         else (sb_push (char_of v) sb, rb1))
      else (sb_push (CHR ''x'') (sb_push CHR 0x5C sb), rb))"

definition unescape_oct :: "strbuf \<Rightarrow> char \<Rightarrow> read_buf \<Rightarrow> strbuf \<times> read_buf" where
  "unescape_oct sb c rb =
     (let v = octtoint c in
      if peek_is isoctdigit rb then
        (let v1 = 8 * v + octtoint (the (read_buf_peek rb)); rb1 = skip_char rb in
         if peek_is isoctdigit rb1
         then (sb_push (char_of (8 * v1 + octtoint (the (read_buf_peek rb1)))) sb, skip_char rb1)
         else (sb_push (char_of v1) sb, rb1))
      else (sb_push (char_of v) sb, rb))"

definition char_unescape :: "strbuf \<Rightarrow> char \<Rightarrow> read_buf \<Rightarrow> strbuf \<times> read_buf" where
  "char_unescape sb c rb =
     (if c \<in> {CHR 0x5C, CHR 0x22, CHR 0x27, CHR ''?''} then (sb_push c sb, rb)
      else if c = CHR ''n'' then (sb_push LF sb, rb)
      else if c = CHR ''r'' then (sb_push CR sb, rb)
      else if c = CHR ''b'' then (sb_push CHR 0x08 sb, rb)
      else if c = CHR ''t'' then (sb_push CHR 0x09 sb, rb)
      else if c = CHR ''f'' then (sb_push CHR 0x0C sb, rb)
      else if c = CHR ''a'' then (sb_push CHR 0x07 sb, rb)
      else if c = CHR ''v'' then (sb_push CHR 0x0B sb, rb)
      else if c = CHR ''x'' then unescape_hex sb rb
      else if c \<in> {CHR ''#'', CHR '';'', CHR ''['', CHR '']'', CHR ''=''} then (sb_push c sb, rb)
      else if isoctdigit c then unescape_oct sb c rb
      else (sb_push c (sb_push CHR 0x5C sb), rb))"

definition char_escape :: "strbuf \<Rightarrow> char \<Rightarrow> strbuf" where
  "char_escape sb c =
     (if c \<in> {CHR 0x5C, CHR 0x22} then sb_append [CHR 0x5C, c] sb
      else if c = LF then sb_append [CHR 0x5C, CHR ''n''] sb
      else if c = CR then sb_append [CHR 0x5C, CHR ''r''] sb
      else if c = CHR 0x08 then sb_append [CHR 0x5C, CHR ''b''] sb
      else if c = CHR 0x09 then sb_append [CHR 0x5C, CHR ''t''] sb
      else if c = CHR 0x0C then sb_append [CHR 0x5C, CHR ''f''] sb
      else if c = CHR 0x07 then sb_append [CHR 0x5C, CHR ''a''] sb
      else if c = CHR 0x0B then sb_append [CHR 0x5C, CHR ''v''] sb
      else if c \<in> {CHR ''#'', CHR '';'', CHR ''['', CHR '']'', CHR ''=''} then sb_append [CHR 0x5C, c] sb
      else sb_push c sb)"

section \<open>Identifiers\<close>

datatype idt_state =
    ST_IDT_START | ST_IDT_BEGIN_SECTION | ST_IDT_READ_SECTION | ST_IDT_READ_SECTION_ESC
  | ST_IDT_AFTER_SECTION | ST_IDT_READ_NAME | ST_IDT_READ_NAME_ESC | ST_IDT_COMMENT
  | ST_IDT_AFTER_COMMENT | ST_IDT_SKIP | ST_IDT_END

definition is_comment :: "char \<Rightarrow> bool" where
  "is_comment c \<longleftrightarrow> c = CHR ''#'' \<or> c = CHR '';''"

text \<open>One case of the \<^verbatim>\<open>switch\<close> each. The argument is the character read, \<open>None\<close> at the end of the file;
  \<open>r\<close> is the code to return.\<close>

type_synonym idt_conf = "idt_state \<times> int \<times> strbuf \<times> read_buf"

definition idt_START :: "char option \<Rightarrow> int \<Rightarrow> strbuf \<Rightarrow> read_buf \<Rightarrow> idt_conf" where
  "idt_START ch r sb rb =
     (case ch of
        None \<Rightarrow> (ST_IDT_END, r, sb, rb)
      | Some c \<Rightarrow>
          if c = CHR ''['' then (ST_IDT_BEGIN_SECTION, r, sb, rb)
          else if is_comment c then (ST_IDT_COMMENT, r, sb, rb)
          else if c = CHR '']'' then (ST_IDT_SKIP, -1, sb, rb)
          else if c = CHR ''='' then (ST_IDT_SKIP, -1, sb, rb)
          else if \<not> isblank c \<and> c \<noteq> LF then (ST_IDT_READ_NAME, r, sb_push c sb, rb)
          else (ST_IDT_START, r, sb, rb))"

definition idt_BEGIN_SECTION :: "char option \<Rightarrow> int \<Rightarrow> strbuf \<Rightarrow> read_buf \<Rightarrow> idt_conf" where
  "idt_BEGIN_SECTION ch r sb rb =
     (case ch of
        None \<Rightarrow> (ST_IDT_END, -1, sb, rb)
      | Some c \<Rightarrow>
          if c = LF then (ST_IDT_END, -1, sb, rb)
          else if is_comment c then (ST_IDT_SKIP, -1, sb, rb)
          else if c = CHR '']'' then (ST_IDT_SKIP, -1, sb, rb)
          else if \<not> isblank c then (ST_IDT_READ_SECTION, r, sb_push c sb, rb)
          else (ST_IDT_BEGIN_SECTION, r, sb, rb))"

definition idt_READ_SECTION :: "char option \<Rightarrow> int \<Rightarrow> strbuf \<Rightarrow> read_buf \<Rightarrow> idt_conf" where
  "idt_READ_SECTION ch r sb rb =
     (case ch of
        None \<Rightarrow> (ST_IDT_END, -1, sb, rb)
      | Some c \<Rightarrow>
          if c = LF then (ST_IDT_END, -1, sb, rb)
          else if c = CHR 0x5C then (ST_IDT_READ_SECTION_ESC, r, sb, rb)
          else if is_comment c then (ST_IDT_SKIP, -1, sb, rb)
          else if c = CHR '']'' then (ST_IDT_AFTER_SECTION, 1, sb, rb)
          else (ST_IDT_READ_SECTION, r, sb_push c sb, rb))"

definition idt_ESC :: "idt_state \<Rightarrow> char option \<Rightarrow> int \<Rightarrow> strbuf \<Rightarrow> read_buf \<Rightarrow> idt_conf" where
  "idt_ESC back ch r sb rb =
     (case ch of
        None \<Rightarrow> (ST_IDT_END, -1, sb, rb)
      | Some c \<Rightarrow>
          if c = LF then (ST_IDT_END, -1, sb, rb)
          else let (sb', rb') = char_unescape sb c rb in (back, r, sb', rb'))"

definition idt_READ_SECTION_ESC :: "char option \<Rightarrow> int \<Rightarrow> strbuf \<Rightarrow> read_buf \<Rightarrow> idt_conf" where
  "idt_READ_SECTION_ESC = idt_ESC ST_IDT_READ_SECTION"

definition idt_AFTER_SECTION :: "char option \<Rightarrow> int \<Rightarrow> strbuf \<Rightarrow> read_buf \<Rightarrow> idt_conf" where
  "idt_AFTER_SECTION ch r sb rb =
     (case ch of
        None \<Rightarrow> (ST_IDT_END, r, sb, rb)
      | Some c \<Rightarrow>
          if c = LF then (ST_IDT_END, r, sb, rb)
          else if is_comment c then (ST_IDT_AFTER_COMMENT, r, sb, rb)
          else if \<not> isblank c then (ST_IDT_SKIP, r, sb, rb)
          else (ST_IDT_AFTER_SECTION, r, sb, rb))"

definition idt_READ_NAME :: "char option \<Rightarrow> int \<Rightarrow> strbuf \<Rightarrow> read_buf \<Rightarrow> idt_conf" where
  "idt_READ_NAME ch r sb rb =
     (case ch of
        None \<Rightarrow> (ST_IDT_END, -1, sb, rb)
      | Some c \<Rightarrow>
          if c = LF then (ST_IDT_END, -1, sb, rb)
          else if c = CHR 0x5C then (ST_IDT_READ_NAME_ESC, r, sb, rb)
          else if is_comment c then (ST_IDT_SKIP, -1, sb, rb)
          else if c = CHR ''='' then (ST_IDT_END, 2, sb, rb)
          else (ST_IDT_READ_NAME, r, sb_push c sb, rb))"

definition idt_READ_NAME_ESC :: "char option \<Rightarrow> int \<Rightarrow> strbuf \<Rightarrow> read_buf \<Rightarrow> idt_conf" where
  "idt_READ_NAME_ESC = idt_ESC ST_IDT_READ_NAME"

definition idt_COMMENT :: "char option \<Rightarrow> int \<Rightarrow> strbuf \<Rightarrow> read_buf \<Rightarrow> idt_conf" where
  "idt_COMMENT ch r sb rb =
     (case ch of
        None \<Rightarrow> (ST_IDT_END, r, sb, rb)
      | Some c \<Rightarrow> if c = LF then (ST_IDT_START, r, sb, rb) else (ST_IDT_COMMENT, r, sb, rb))"

text \<open>The states \<^verbatim>\<open>ST_IDT_AFTER_COMMENT\<close> and \<^verbatim>\<open>ST_IDT_SKIP\<close> differ in nothing but their name.\<close>

definition idt_to_EOL :: "idt_state \<Rightarrow> char option \<Rightarrow> int \<Rightarrow> strbuf \<Rightarrow> read_buf \<Rightarrow> idt_conf" where
  "idt_to_EOL st ch r sb rb =
     (case ch of
        None \<Rightarrow> (ST_IDT_END, r, sb, rb)
      | Some c \<Rightarrow> if c = LF then (ST_IDT_END, r, sb, rb) else (st, r, sb, rb))"

fun idt_step :: "idt_state \<Rightarrow> char option \<Rightarrow> int \<Rightarrow> strbuf \<Rightarrow> read_buf \<Rightarrow> idt_conf" where
  "idt_step ST_IDT_START = idt_START"
| "idt_step ST_IDT_BEGIN_SECTION = idt_BEGIN_SECTION"
| "idt_step ST_IDT_READ_SECTION = idt_READ_SECTION"
| "idt_step ST_IDT_READ_SECTION_ESC = idt_READ_SECTION_ESC"
| "idt_step ST_IDT_AFTER_SECTION = idt_AFTER_SECTION"
| "idt_step ST_IDT_READ_NAME = idt_READ_NAME"
| "idt_step ST_IDT_READ_NAME_ESC = idt_READ_NAME_ESC"
| "idt_step ST_IDT_COMMENT = idt_COMMENT"
| "idt_step ST_IDT_AFTER_COMMENT = idt_to_EOL ST_IDT_AFTER_COMMENT"
| "idt_step ST_IDT_SKIP = idt_to_EOL ST_IDT_SKIP"
| "idt_step ST_IDT_END = (\<lambda>_ r sb rb. (ST_IDT_END, r, sb, rb))"

section \<open>Values\<close>

datatype val_state =
    ST_VAL_START | ST_VAL_IN_QUOTE | ST_VAL_IN_QUOTE_ESC | ST_VAL_IN_UNQUOTED
  | ST_VAL_IN_UNQUOTED_ESC | ST_VAL_COMMENT | ST_VAL_END

type_synonym val_conf = "val_state \<times> int \<times> strbuf \<times> read_buf"

definition val_START :: "char option \<Rightarrow> int \<Rightarrow> strbuf \<Rightarrow> read_buf \<Rightarrow> val_conf" where
  "val_START ch r sb rb =
     (case ch of
        None \<Rightarrow> (ST_VAL_END, r, sb, rb)
      | Some c \<Rightarrow>
          if c = LF then (ST_VAL_END, r, sb, rb)
          else if is_comment c then (ST_VAL_COMMENT, r, sb, rb)
          else if isblank c then (ST_VAL_START, r, sb, rb)
          else if c = CHR 0x22 then (ST_VAL_IN_QUOTE, r, sb, rb)
          else if c = CHR 0x5C then (ST_VAL_IN_UNQUOTED_ESC, r, sb, rb)
          else (ST_VAL_IN_UNQUOTED, r, sb_push c sb, rb))"

definition val_IN_QUOTE :: "char option \<Rightarrow> int \<Rightarrow> strbuf \<Rightarrow> read_buf \<Rightarrow> val_conf" where
  "val_IN_QUOTE ch r sb rb =
     (case ch of
        None \<Rightarrow> (ST_VAL_END, -1, sb, rb)
      | Some c \<Rightarrow>
          if c = LF then (ST_VAL_IN_QUOTE, r, sb_push LF sb, rb)
          else if c = CHR 0x22 then (ST_VAL_START, r, sb_setmark (length (sb_str sb)) sb, rb)
          else if c = CHR 0x5C then (ST_VAL_IN_QUOTE_ESC, r, sb, rb)
          else (ST_VAL_IN_QUOTE, r, sb_push c sb, rb))"

definition val_IN_QUOTE_ESC :: "char option \<Rightarrow> int \<Rightarrow> strbuf \<Rightarrow> read_buf \<Rightarrow> val_conf" where
  "val_IN_QUOTE_ESC ch r sb rb =
     (case ch of
        None \<Rightarrow> (ST_VAL_END, -1, sb, rb)
      | Some c \<Rightarrow>
          (let (sb', rb') = (if c \<noteq> LF then char_unescape sb c rb else (sb, rb))
           in (ST_VAL_IN_QUOTE, r, sb', rb')))"

definition val_IN_UNQUOTED :: "char option \<Rightarrow> int \<Rightarrow> strbuf \<Rightarrow> read_buf \<Rightarrow> val_conf" where
  "val_IN_UNQUOTED ch r sb rb =
     (case ch of
        None \<Rightarrow> (ST_VAL_END, r, sb_rstrip sb, rb)
      | Some c \<Rightarrow>
          if c = LF then (ST_VAL_END, r, sb_rstrip sb, rb)
          else if c = CHR 0x5C then (ST_VAL_IN_UNQUOTED_ESC, r, sb, rb)
          else if c = CHR 0x22 then (ST_VAL_IN_QUOTE, r, sb_rstrip sb, rb)
          else (ST_VAL_IN_UNQUOTED, r, sb_push c sb, rb))"

definition val_IN_UNQUOTED_ESC :: "char option \<Rightarrow> int \<Rightarrow> strbuf \<Rightarrow> read_buf \<Rightarrow> val_conf" where
  "val_IN_UNQUOTED_ESC ch r sb rb =
     (case ch of
        None \<Rightarrow> (ST_VAL_END, -1, sb, rb)
      | Some c \<Rightarrow>
          if c = LF then (ST_VAL_START, r, sb_rstrip sb, rb)
          else let (sb', rb') = char_unescape sb c rb in (ST_VAL_IN_UNQUOTED, r, sb', rb'))"

definition val_COMMENT :: "char option \<Rightarrow> int \<Rightarrow> strbuf \<Rightarrow> read_buf \<Rightarrow> val_conf" where
  "val_COMMENT ch r sb rb =
     (case ch of
        None \<Rightarrow> (ST_VAL_END, r, sb, rb)
      | Some c \<Rightarrow> if c = LF then (ST_VAL_END, r, sb, rb) else (ST_VAL_COMMENT, r, sb, rb))"

fun val_step :: "val_state \<Rightarrow> char option \<Rightarrow> int \<Rightarrow> strbuf \<Rightarrow> read_buf \<Rightarrow> val_conf" where
  "val_step ST_VAL_START = val_START"
| "val_step ST_VAL_IN_QUOTE = val_IN_QUOTE"
| "val_step ST_VAL_IN_QUOTE_ESC = val_IN_QUOTE_ESC"
| "val_step ST_VAL_IN_UNQUOTED = val_IN_UNQUOTED"
| "val_step ST_VAL_IN_UNQUOTED_ESC = val_IN_UNQUOTED_ESC"
| "val_step ST_VAL_COMMENT = val_COMMENT"
| "val_step ST_VAL_END = (\<lambda>_ r sb rb. (ST_VAL_END, r, sb, rb))"

section \<open>The input that is left\<close>

definition pending :: "read_buf \<Rightarrow> string" where
  "pending rb = (case rb_next rb of None \<Rightarrow> [] | Some c \<Rightarrow> c # rb_f rb)"

text \<open>The next character of a text, with \<^verbatim>\<open>\r\n\<close> read as \<^verbatim>\<open>\n\<close>.\<close>

fun next_char :: "string \<Rightarrow> (char \<times> string) option" where
  "next_char [] = None"
| "next_char (c # cs) = (if c = CR \<and> cs \<noteq> [] \<and> hd cs = LF then Some (LF, tl cs) else Some (c, cs))"

lemma pending_init [simp]: "pending (read_buf_init cs) = cs"
  by (cases cs) (simp_all add: pending_def read_buf_init_def)

lemma read_buf_next_end: "pending rb = [] \<Longrightarrow> read_buf_next rb = (None, rb)"
  by (auto simp: pending_def read_buf_next_def split: option.splits)

lemma pending_fgetc: "fgetc f = (n, f') \<Longrightarrow> (case n of None \<Rightarrow> [] | Some c \<Rightarrow> c # f') = f"
  by (cases f) auto

lemma read_buf_next_char:
  assumes "next_char (pending rb) = Some (c, cs)"
  obtains rb' where "read_buf_next rb = (Some c, rb')" "pending rb' = cs"
proof (cases "rb_next rb")
  case None
  with assms show thesis by (simp add: pending_def)
next
  case (Some d)
  obtain n1 f1 where f1: "fgetc (rb_f rb) = (n1, f1)" by fastforce
  obtain n2 f2 where f2: "fgetc f1 = (n2, f2)" by fastforce
  show thesis
    using assms Some f1 f2 pending_fgetc [OF f1] pending_fgetc [OF f2]
    by (intro that [of "snd (read_buf_next rb)"])
      (cases "rb_f rb"; auto simp: read_buf_next_def pending_def split: if_splits option.splits)+
qed

lemma next_char_length: "next_char s = Some (c, cs) \<Longrightarrow> length cs < length s"
  by (cases s) (auto split: if_splits)

lemma read_buf_next_cases:
  obtains "pending rb = []" "read_buf_next rb = (None, rb)"
  | c rb' where "read_buf_next rb = (Some c, rb')" "length (pending rb') < length (pending rb)"
    "next_char (pending rb) = Some (c, pending rb')"
proof (cases "next_char (pending rb)")
  case None
  then have "pending rb = []" by (cases "pending rb") (auto split: if_splits)
  with read_buf_next_end that(1) show thesis by blast
next
  case (Some p)
  then obtain c cs where "next_char (pending rb) = Some (c, cs)" by (cases p) auto
  with read_buf_next_char next_char_length that(2) show thesis by metis
qed

lemma skip_char_le: "length (pending (skip_char rb)) \<le> length (pending rb)"
  by (rule read_buf_next_cases [of rb]) (auto simp: skip_char_def)

lemma char_unescape_le: "char_unescape sb c rb = (sb', rb') \<Longrightarrow> length (pending rb') \<le> length (pending rb)"
  using skip_char_le [of rb] skip_char_le [of "skip_char rb"]
  by (auto simp: char_unescape_def unescape_hex_def unescape_oct_def Let_def split: if_splits)

section \<open>The loops\<close>

lemma idt_step_le:
  assumes "idt_step st ch r sb rb = (st', r', sb', rb')"
  shows "length (pending rb') \<le> length (pending rb)"
  using assms char_unescape_le
  by (cases st)
    (auto simp: idt_START_def idt_BEGIN_SECTION_def idt_READ_SECTION_def idt_READ_SECTION_ESC_def idt_ESC_def
      idt_AFTER_SECTION_def idt_READ_NAME_def idt_READ_NAME_ESC_def idt_COMMENT_def idt_to_EOL_def
      split: option.splits if_splits prod.splits)

lemma idt_step_EOF: "idt_step st None r sb rb = (st', r', sb', rb') \<Longrightarrow> st' = ST_IDT_END \<and> sb' = sb \<and> rb' = rb"
  by (cases st)
    (auto simp: idt_START_def idt_BEGIN_SECTION_def idt_READ_SECTION_def idt_READ_SECTION_ESC_def idt_ESC_def
      idt_AFTER_SECTION_def idt_READ_NAME_def idt_READ_NAME_ESC_def idt_COMMENT_def idt_to_EOL_def)

lemma val_step_le:
  assumes "val_step st ch r sb rb = (st', r', sb', rb')"
  shows "length (pending rb') \<le> length (pending rb)"
  using assms char_unescape_le
  by (cases st)
    (auto simp: val_START_def val_IN_QUOTE_def val_IN_QUOTE_ESC_def val_IN_UNQUOTED_def val_IN_UNQUOTED_ESC_def
      val_COMMENT_def Let_def split: option.splits if_splits prod.splits)

lemma val_step_EOF: "val_step st None r sb rb = (st', r', sb', rb') \<Longrightarrow> st' = ST_VAL_END \<and> rb' = rb"
  by (cases st)
    (auto simp: val_START_def val_IN_QUOTE_def val_IN_QUOTE_ESC_def val_IN_UNQUOTED_def val_IN_UNQUOTED_ESC_def
      val_COMMENT_def)

text \<open>Every turn consumes a character or meets the end of the file, which ends the loop.\<close>

function idt_loop :: "idt_state \<Rightarrow> int \<Rightarrow> strbuf \<Rightarrow> read_buf \<Rightarrow> int \<times> strbuf \<times> read_buf" where
  "idt_loop st r sb rb =
     (if st = ST_IDT_END then (r, sb, rb)
      else let (ch, rb1) = read_buf_next rb; (st', r', sb', rb') = idt_step st ch r sb rb1
           in idt_loop st' r' sb' rb')"
  by pat_completeness auto

lemma idt_loop_decreases:
  assumes "st \<noteq> ST_IDT_END" "read_buf_next rb = (ch, rb1)" "idt_step st ch r sb rb1 = (st', r', sb', rb')"
  shows "length (pending rb') + of_bool (st' \<noteq> ST_IDT_END) < length (pending rb) + of_bool (st \<noteq> ST_IDT_END)"
proof (rule read_buf_next_cases [of rb])
  assume "pending rb = []" "read_buf_next rb = (None, rb)"
  with assms idt_step_EOF show ?thesis by fastforce
next
  fix c rb2 assume "read_buf_next rb = (Some c, rb2)" "length (pending rb2) < length (pending rb)"
  with assms idt_step_le [OF assms(3)] show ?thesis by auto
qed

termination idt_loop
proof (relation "measure (\<lambda>(st, _, _, rb). length (pending rb) + of_bool (st \<noteq> ST_IDT_END))", goal_cases)
  case (2 st r sb rb x ch rb1 y st' z r' w sb' rb')
  then have "st \<noteq> ST_IDT_END" "read_buf_next rb = (ch, rb1)" "idt_step st ch r sb rb1 = (st', r', sb', rb')"
    by simp_all
  from idt_loop_decreases [OF this] show ?case by (simp only: in_measure case_prod_conv)
qed simp

function val_loop :: "val_state \<Rightarrow> int \<Rightarrow> strbuf \<Rightarrow> read_buf \<Rightarrow> int \<times> strbuf \<times> read_buf" where
  "val_loop st r sb rb =
     (if st = ST_VAL_END then (r, sb, rb)
      else let (ch, rb1) = read_buf_next rb; (st', r', sb', rb') = val_step st ch r sb rb1
           in val_loop st' r' sb' rb')"
  by pat_completeness auto

lemma val_loop_decreases:
  assumes "st \<noteq> ST_VAL_END" "read_buf_next rb = (ch, rb1)" "val_step st ch r sb rb1 = (st', r', sb', rb')"
  shows "length (pending rb') + of_bool (st' \<noteq> ST_VAL_END) < length (pending rb) + of_bool (st \<noteq> ST_VAL_END)"
proof (rule read_buf_next_cases [of rb])
  assume "pending rb = []" "read_buf_next rb = (None, rb)"
  with assms val_step_EOF show ?thesis by fastforce
next
  fix c rb2 assume "read_buf_next rb = (Some c, rb2)" "length (pending rb2) < length (pending rb)"
  with assms val_step_le [OF assms(3)] show ?thesis by auto
qed

termination val_loop
proof (relation "measure (\<lambda>(st, _, _, rb). length (pending rb) + of_bool (st \<noteq> ST_VAL_END))", goal_cases)
  case (2 st r sb rb x ch rb1 y st' z r' w sb' rb')
  then have "st \<noteq> ST_VAL_END" "read_buf_next rb = (ch, rb1)" "val_step st ch r sb rb1 = (st', r', sb', rb')"
    by simp_all
  from val_loop_decreases [OF this] show ?case by (simp only: in_measure case_prod_conv)
qed simp

declare idt_loop.simps [simp del] val_loop.simps [simp del]

definition nparser_get_next_idt :: "read_buf \<Rightarrow> int \<times> strbuf \<times> read_buf" where
  "nparser_get_next_idt rb =
     (let (r, sb, rb') = idt_loop ST_IDT_START 0 sb_empty rb
      in (r, if r = 1 \<or> r = 2 then sb_rstrip sb else sb, rb'))"

definition nparser_get_next_value :: "read_buf \<Rightarrow> int \<times> strbuf \<times> read_buf" where
  "nparser_get_next_value rb = val_loop ST_VAL_START 0 sb_empty rb"

lemma idt_loop_le: "idt_loop st r sb rb = (r', sb', rb') \<Longrightarrow> length (pending rb') \<le> length (pending rb)"
proof (induction st r sb rb arbitrary: r' sb' rb' rule: idt_loop.induct)
  case (1 st r sb rb)
  show ?case
  proof (cases "st = ST_IDT_END")
    case True
    with "1.prems" show ?thesis by (simp add: idt_loop.simps)
  next
    case False
    obtain ch rb1 where n: "read_buf_next rb = (ch, rb1)" by fastforce
    obtain st2 r2 sb2 rb2 where s: "idt_step st ch r sb rb1 = (st2, r2, sb2, rb2)" by (metis prod_cases4)
    have "idt_loop st2 r2 sb2 rb2 = (r', sb', rb')"
      using "1.prems" False n s by (simp add: idt_loop.simps [of st r sb rb])
    from "1.IH" [OF False n [symmetric] refl s [symmetric] refl refl refl this]
      idt_step_le [OF s] read_buf_next_cases [of rb] n
    show ?thesis by (metis dual_order.trans less_imp_le prod.inject)
  qed
qed

lemma val_loop_le: "val_loop st r sb rb = (r', sb', rb') \<Longrightarrow> length (pending rb') \<le> length (pending rb)"
proof (induction st r sb rb arbitrary: r' sb' rb' rule: val_loop.induct)
  case (1 st r sb rb)
  show ?case
  proof (cases "st = ST_VAL_END")
    case True
    with "1.prems" show ?thesis by (simp add: val_loop.simps)
  next
    case False
    obtain ch rb1 where n: "read_buf_next rb = (ch, rb1)" by fastforce
    obtain st2 r2 sb2 rb2 where s: "val_step st ch r sb rb1 = (st2, r2, sb2, rb2)" by (metis prod_cases4)
    have "val_loop st2 r2 sb2 rb2 = (r', sb', rb')"
      using "1.prems" False n s by (simp add: val_loop.simps [of st r sb rb])
    from "1.IH" [OF False n [symmetric] refl s [symmetric] refl refl refl this]
      val_step_le [OF s] read_buf_next_cases [of rb] n
    show ?thesis by (metis dual_order.trans less_imp_le prod.inject)
  qed
qed

lemma get_next_idt_consumes:
  assumes "nparser_get_next_idt rb = (r, sb, rb')" and "r \<noteq> 0"
  shows "length (pending rb') < length (pending rb)"
proof -
  obtain sb0 where l: "idt_loop ST_IDT_START 0 sb_empty rb = (r, sb0, rb')"
    using assms(1) by (auto simp: nparser_get_next_idt_def split: prod.splits)
  show ?thesis
  proof (rule read_buf_next_cases [of rb])
    assume "read_buf_next rb = (None, rb)"
    with l assms(2) show ?thesis by (simp add: idt_loop.simps [of ST_IDT_START] idt_START_def) (simp add: idt_loop.simps)
  next
    fix c rb1 assume n: "read_buf_next rb = (Some c, rb1)" and lt: "length (pending rb1) < length (pending rb)"
    obtain st2 r2 sb2 rb2 where s: "idt_step ST_IDT_START (Some c) 0 sb_empty rb1 = (st2, r2, sb2, rb2)"
      by (metis prod_cases4)
    have "idt_loop st2 r2 sb2 rb2 = (r, sb0, rb')" using l n s by (simp add: idt_loop.simps [of ST_IDT_START])
    from idt_loop_le [OF this] idt_step_le [OF s] lt show ?thesis by simp
  qed
qed

lemma get_next_value_le:
  "nparser_get_next_value rb = (r, sb, rb') \<Longrightarrow> length (pending rb') \<le> length (pending rb)"
  unfolding nparser_get_next_value_def by (rule val_loop_le)

section \<open>Reading a file\<close>

text \<open>A buffer as the C string functions see it: up to the first null character.\<close>

definition cstr :: "strbuf \<Rightarrow> string" where
  "cstr sb = takeWhile (\<lambda>c. c \<noteq> NUL) (sb_str sb)"

text \<open>What a key does with its value once that has been read with code \<open>r_val\<close>.\<close>

definition store_value :: "int \<Rightarrow> nat \<Rightarrow> strbuf \<Rightarrow> strbuf \<Rightarrow> strbuf \<Rightarrow> parser_context \<Rightarrow> strbuf \<times> parser_context" where
  "store_value r_val line sb_section sb_idt sb_val parser =
     (if r_val = 0 then
        (if \<not> allow_empty_value parser \<and> length (cstr sb_val) = 0 then (sb_section, parser)
         else if \<not> allow_default parser \<and> length (sb_str sb_section) = 0 then (sb_section, parser)
         else let sb_section = (if allow_default parser \<and> length (sb_str sb_section) = 0
                                then sb_append SECTION_DEFAULT sb_section else sb_section)
              in (sb_section, parser_set (cstr sb_section) (cstr sb_idt) (cstr sb_val) line parser))
      else (sb_section, parser))"

function parser_read_loop :: "read_buf \<Rightarrow> strbuf \<Rightarrow> parser_context \<Rightarrow> parser_context" where
  "parser_read_loop rb sb_section parser =
     (let (r_idt, sb_idt, rb1) = nparser_get_next_idt rb in
      if r_idt = 0 then parser
      else if r_idt = 1 then parser_read_loop rb1 (sb_append (sb_str sb_idt) sb_empty) parser
      else if r_idt = 2 then
        (let line = pos_line (rb_pos rb1);
             (r_val, sb_val, rb2) = nparser_get_next_value rb1;
             (sb_section', parser') = store_value r_val line sb_section sb_idt sb_val parser
         in parser_read_loop rb2 sb_section' parser')
      else parser_read_loop rb1 sb_section parser)"
  by pat_completeness auto

termination
proof (relation "measure (\<lambda>(rb, _, _). length (pending rb))", goal_cases)
  case 1
  then show ?case by simp
next
  case (2 rb sec p x r y idt rb1)
  then show ?case using get_next_idt_consumes [of rb r idt rb1] by simp
next
  case (3 rb sec p x r y idt rb1 line z r_val w sb_val rb2 v sec' p')
  then show ?case
    using get_next_idt_consumes [of rb r idt rb1] get_next_value_le [of rb1 r_val sb_val rb2] by simp
next
  case (4 rb sec p x r y idt rb1)
  then show ?case using get_next_idt_consumes [of rb r idt rb1] by simp
qed

declare parser_read_loop.simps [simp del]

definition parser_read :: "string \<Rightarrow> parser_context \<Rightarrow> parser_context" where
  "parser_read conf parser = parser_read_loop (read_buf_init conf) sb_empty parser"

section \<open>Writing a file\<close>

definition escape_into :: "string \<Rightarrow> strbuf \<Rightarrow> strbuf" where
  "escape_into s sb = foldl char_escape sb s"

definition section_line :: "string \<Rightarrow> string" where
  "section_line name =
     sb_str (sb_append ('' ]'' @ [LF]) (escape_into name (sb_append ''[ '' sb_empty)))"

definition value_line :: "string \<Rightarrow> string \<Rightarrow> string" where
  "value_line key c =
     sb_str (sb_append [CHR 0x22, LF] (escape_into c
       (sb_append ('' = '' @ [CHR 0x22]) (escape_into key (sb_append ''  '' sb_empty)))))"

text \<open>The values number \<open>i\<close> and following of a key; expanding a value changes the section.\<close>

fun write_values :: "bool \<Rightarrow> string \<Rightarrow> nat \<Rightarrow> nat \<Rightarrow> item_section \<Rightarrow> (string \<times> item_section) option" where
  "write_values expanded key i 0 sec = Some ([], sec)"
| "write_values expanded key i (Suc n) sec =
     do {
       v \<leftarrow> section_value (key, i) sec;
       (c, sec1) \<leftarrow> (if expanded then expand_value (key, i) sec else Some (Some (v_s v), sec));
       c' \<leftarrow> c;
       (out, sec2) \<leftarrow> write_values expanded key (Suc i) n sec1;
       Some (value_line key c' @ out, sec2)
     }"

fun write_keys :: "bool \<Rightarrow> item_key list \<Rightarrow> item_section \<Rightarrow> (string \<times> item_section) option" where
  "write_keys expanded [] sec = Some ([], sec)"
| "write_keys expanded (k # ks) sec =
     do {
       (out, sec1) \<leftarrow> write_values expanded (k_name k) 0 (length (values_list k)) sec;
       (out', sec2) \<leftarrow> write_keys expanded ks sec1;
       Some (out @ out', sec2)
     }"

fun write_sections :: "bool \<Rightarrow> item_section list \<Rightarrow> (string \<times> item_section list) option" where
  "write_sections expanded [] = Some ([], [])"
| "write_sections expanded (s # ss) =
     do {
       (out, s') \<leftarrow> write_keys expanded (keys_list s) s;
       (out', ss') \<leftarrow> write_sections expanded ss;
       Some (section_line (s_name s) @ out @ [LF] @ out', s' # ss')
     }"

text \<open>The text written to the file and the context afterwards; \<open>None\<close> is a fault of the expansion. A
  failing \<^verbatim>\<open>fputs\<close> ends the writing early and is not modelled.\<close>

definition parser_write :: "parser_context \<Rightarrow> bool \<Rightarrow> (string \<times> parser_context) option" where
  "parser_write parser expanded =
     do {
       (out, ss) \<leftarrow> write_sections expanded (sections_list parser);
       Some (out, parser\<lparr>sections_list := ss\<rparr>)
     }"

section \<open>Reading back what was written\<close>

text \<open>What is written for one character.\<close>

definition esc_char :: "char \<Rightarrow> string" where
  "esc_char c = sb_str (char_escape sb_empty c)"

definition esc :: "string \<Rightarrow> string" where
  "esc s = concat (map esc_char s)"

lemma char_escape_append: "char_escape sb c = sb_append (esc_char c) sb"
  by (auto simp: char_escape_def esc_char_def sb_append_def sb_push_def sb_empty_def)

lemma sb_append_append: "sb_append ds (sb_append cs sb) = sb_append (cs @ ds) sb"
  by (simp add: sb_append_def)

lemma sb_append_Nil: "sb_append [] sb = sb"
  by (simp add: sb_append_def)

lemma sb_str_append [simp]: "sb_str (sb_append cs sb) = sb_str sb @ cs"
  by (simp add: sb_append_def)

lemma sb_str_empty [simp]: "sb_str sb_empty = []"
  by (simp add: sb_empty_def)

lemma escape_into_append: "escape_into s sb = sb_append (esc s) sb"
  unfolding escape_into_def
  by (induction s arbitrary: sb) (simp_all add: esc_def sb_append_Nil char_escape_append sb_append_append)

lemma section_line_eq: "section_line name = ''[ '' @ esc name @ '' ]'' @ [LF]"
  by (simp add: section_line_def escape_into_append)

lemma value_line_eq: "value_line key v = ''  '' @ esc key @ '' = '' @ [CHR 0x22] @ esc v @ [CHR 0x22, LF]"
  by (simp add: value_line_def escape_into_append)

text \<open>Either the character itself, which is then an ordinary one, or a backslash and a letter that
  stands for it.\<close>

lemma esc_char_cases:
  obtains (plain) "esc_char c = [c]" "c \<notin> {CHR 0x5C, CHR 0x22, LF, CR, CHR ''#'', CHR '';'', CHR ''['', CHR '']'', CHR ''=''}"
  | (escaped) d where "esc_char c = [CHR 0x5C, d]" "d \<noteq> LF" "d \<noteq> CR" "\<And>sb rb. char_unescape sb d rb = (sb_push c sb, rb)"
proof (cases "c \<in> {CHR 0x5C, CHR 0x22, LF, CR, CHR 0x08, CHR 0x09, CHR 0x0C, CHR 0x07, CHR 0x0B,
    CHR ''#'', CHR '';'', CHR ''['', CHR '']'', CHR ''=''}")
  case True
  then show thesis
    by (elim insertE emptyE; intro escaped [of "hd (tl (esc_char c))"])
      (simp_all add: esc_char_def char_escape_def char_unescape_def)
next
  case False
  then show thesis by (intro plain) (auto simp: esc_char_def char_escape_def sb_push_def)
qed

lemma next_char_plain: "c \<noteq> CR \<Longrightarrow> next_char (c # cs) = Some (c, cs)"
  by simp

lemma val_loop_step:
  assumes "st \<noteq> ST_VAL_END" and "pending rb = c # cs" and "c \<noteq> CR"
  obtains rb1 where "pending rb1 = cs"
    "val_loop st r sb rb = (case val_step st (Some c) r sb rb1 of (st', r', sb', rb') \<Rightarrow> val_loop st' r' sb' rb')"
proof -
  from assms have "next_char (pending rb) = Some (c, cs)" by simp
  then obtain rb1 where "read_buf_next rb = (Some c, rb1)" "pending rb1 = cs" by (rule read_buf_next_char)
  with assms(1) show thesis by (intro that [of rb1]) (simp_all add: val_loop.simps [of st])
qed

lemma idt_loop_step:
  assumes "st \<noteq> ST_IDT_END" and "pending rb = c # cs" and "c \<noteq> CR"
  obtains rb1 where "pending rb1 = cs"
    "idt_loop st r sb rb = (case idt_step st (Some c) r sb rb1 of (st', r', sb', rb') \<Rightarrow> idt_loop st' r' sb' rb')"
proof -
  from assms have "next_char (pending rb) = Some (c, cs)" by simp
  then obtain rb1 where "read_buf_next rb = (Some c, rb1)" "pending rb1 = cs" by (rule read_buf_next_char)
  with assms(1) show thesis by (intro that [of rb1]) (simp_all add: idt_loop.simps [of st])
qed

lemma val_quote_char:
  assumes "pending rb = esc_char c @ cs"
  obtains rb' where "pending rb' = cs" "val_loop ST_VAL_IN_QUOTE r sb rb = val_loop ST_VAL_IN_QUOTE r (sb_push c sb) rb'"
proof (rule esc_char_cases [of c])
  assume e: "esc_char c = [c]" "c \<notin> {CHR 0x5C, CHR 0x22, LF, CR, CHR ''#'', CHR '';'', CHR ''['', CHR '']'', CHR ''=''}"
  with assms obtain rb1 where "pending rb1 = cs"
    "val_loop ST_VAL_IN_QUOTE r sb rb = (case val_step ST_VAL_IN_QUOTE (Some c) r sb rb1 of (st', r', sb', rb') \<Rightarrow> val_loop st' r' sb' rb')"
    using val_loop_step [of ST_VAL_IN_QUOTE rb c cs r sb thesis] by simp
  with e(2) show thesis by (intro that [of rb1]) (simp_all add: val_IN_QUOTE_def)
next
  fix d assume e: "esc_char c = [CHR 0x5C, d]" "d \<noteq> LF" "d \<noteq> CR" "\<And>sb rb. char_unescape sb d rb = (sb_push c sb, rb)"
  have "pending rb = CHR 0x5C # d # cs" using assms e(1) by simp
  then obtain rb1 where r1: "pending rb1 = d # cs"
    "val_loop ST_VAL_IN_QUOTE r sb rb = (case val_step ST_VAL_IN_QUOTE (Some CHR 0x5C) r sb rb1 of (st', r', sb', rb') \<Rightarrow> val_loop st' r' sb' rb')"
    using val_loop_step [of ST_VAL_IN_QUOTE rb "CHR 0x5C" "d # cs" r sb thesis] by simp
  from r1(1) e(3) obtain rb2 where r2: "pending rb2 = cs"
    "val_loop ST_VAL_IN_QUOTE_ESC r sb rb1 = (case val_step ST_VAL_IN_QUOTE_ESC (Some d) r sb rb2 of (st', r', sb', rb') \<Rightarrow> val_loop st' r' sb' rb')"
    using val_loop_step [of ST_VAL_IN_QUOTE_ESC rb1 d cs r sb thesis] by simp
  have "val_loop ST_VAL_IN_QUOTE r sb rb = val_loop ST_VAL_IN_QUOTE_ESC r sb rb1"
    using r1(2) by (simp add: val_IN_QUOTE_def)
  also have "\<dots> = val_loop ST_VAL_IN_QUOTE r (sb_push c sb) rb2"
    using r2(2) e by (simp add: val_IN_QUOTE_ESC_def)
  finally show thesis using r2(1) by (intro that [of rb2])
qed

lemma esc_Cons: "esc (c # s) = esc_char c @ esc s" and esc_Nil [simp]: "esc [] = []"
  by (simp_all add: esc_def)

lemma val_quote_string:
  assumes "pending rb = esc s @ cs"
  obtains rb' where "pending rb' = cs" "val_loop ST_VAL_IN_QUOTE r sb rb = val_loop ST_VAL_IN_QUOTE r (sb_append s sb) rb'"
  using assms
proof (induction s arbitrary: rb sb thesis)
  case Nil
  then show ?case by (simp add: sb_append_Nil)
next
  case (Cons c s)
  obtain rb1 where r1: "pending rb1 = esc s @ cs"
    "val_loop ST_VAL_IN_QUOTE r sb rb = val_loop ST_VAL_IN_QUOTE r (sb_push c sb) rb1"
    using val_quote_char [of rb c "esc s @ cs" r sb thesis] Cons.prems(2) by (simp add: esc_Cons)
  obtain rb2 where "pending rb2 = cs"
    "val_loop ST_VAL_IN_QUOTE r (sb_push c sb) rb1 = val_loop ST_VAL_IN_QUOTE r (sb_append s (sb_push c sb)) rb2"
    using Cons.IH [OF _ r1(1)] by blast
  with r1(2) show ?case by (intro Cons.prems(1) [of rb2]) (simp_all add: sb_push_def sb_append_append)
qed

text \<open>A quoted value up to the end of its line.\<close>

lemma read_quoted_value:
  assumes "pending rb = CHR '' '' # CHR 0x22 # esc s @ CHR 0x22 # LF # cs"
  obtains rb' sb where "nparser_get_next_value rb = (0, sb, rb')" "sb_str sb = s" "pending rb' = cs"
proof -
  obtain rb1 where r1: "pending rb1 = CHR 0x22 # esc s @ CHR 0x22 # LF # cs"
    "val_loop ST_VAL_START 0 sb_empty rb = val_loop ST_VAL_START 0 sb_empty rb1"
    using val_loop_step [of ST_VAL_START rb "CHR '' ''" "CHR 0x22 # esc s @ CHR 0x22 # LF # cs" 0 sb_empty thesis] assms
    by (simp add: val_START_def is_comment_def isblank_def)
  obtain rb2 where r2: "pending rb2 = esc s @ CHR 0x22 # LF # cs"
    "val_loop ST_VAL_START 0 sb_empty rb1 = val_loop ST_VAL_IN_QUOTE 0 sb_empty rb2"
    using val_loop_step [of ST_VAL_START rb1 "CHR 0x22" "esc s @ CHR 0x22 # LF # cs" 0 sb_empty thesis] r1(1)
    by (simp add: val_START_def is_comment_def isblank_def)
  let ?sb = "sb_append s sb_empty"
  obtain rb3 where r3: "pending rb3 = CHR 0x22 # LF # cs"
    "val_loop ST_VAL_IN_QUOTE 0 sb_empty rb2 = val_loop ST_VAL_IN_QUOTE 0 ?sb rb3"
    by (rule val_quote_string [OF r2(1)])
  let ?sb' = "sb_setmark (length s) ?sb"
  obtain rb4 where r4: "pending rb4 = LF # cs"
    "val_loop ST_VAL_IN_QUOTE 0 ?sb rb3 = val_loop ST_VAL_START 0 ?sb' rb4"
    using val_loop_step [of ST_VAL_IN_QUOTE rb3 "CHR 0x22" "LF # cs" 0 ?sb thesis] r3(1)
    by (simp add: val_IN_QUOTE_def)
  obtain rb5 where r5: "pending rb5 = cs" "val_loop ST_VAL_START 0 ?sb' rb4 = (0, ?sb', rb5)"
    using val_loop_step [of ST_VAL_START rb4 LF cs 0 ?sb' thesis] r4(1)
    by (simp add: val_START_def val_loop.simps [of ST_VAL_END])
  show thesis
    by (rule that [of ?sb' rb5]) (use r1 r2 r3 r4 r5 in \<open>simp_all add: nparser_get_next_value_def sb_setmark_def\<close>)
qed

text \<open>The characters of a name behind the first one; the two kinds of names differ in their states.\<close>

lemma idt_name_char:
  assumes "pending rb = esc_char c @ cs"
    and st: "st = ST_IDT_READ_NAME \<and> esc_st = ST_IDT_READ_NAME_ESC \<or> st = ST_IDT_READ_SECTION \<and> esc_st = ST_IDT_READ_SECTION_ESC"
  obtains rb' where "pending rb' = cs" "idt_loop st r sb rb = idt_loop st r (sb_push c sb) rb'"
proof (rule esc_char_cases [of c])
  assume e: "esc_char c = [c]" "c \<notin> {CHR 0x5C, CHR 0x22, LF, CR, CHR ''#'', CHR '';'', CHR ''['', CHR '']'', CHR ''=''}"
  have "st \<noteq> ST_IDT_END" using st by auto
  with assms e obtain rb1 where "pending rb1 = cs"
    "idt_loop st r sb rb = (case idt_step st (Some c) r sb rb1 of (st', r', sb', rb') \<Rightarrow> idt_loop st' r' sb' rb')"
    using idt_loop_step [of st rb c cs r sb thesis] by simp
  with e(2) st show thesis
    by (intro that [of rb1]) (auto simp: idt_READ_NAME_def idt_READ_SECTION_def is_comment_def)
next
  fix d assume e: "esc_char c = [CHR 0x5C, d]" "d \<noteq> LF" "d \<noteq> CR" "\<And>sb rb. char_unescape sb d rb = (sb_push c sb, rb)"
  have n: "st \<noteq> ST_IDT_END" "esc_st \<noteq> ST_IDT_END" using st by auto
  have "pending rb = CHR 0x5C # d # cs" using assms e(1) by simp
  with n obtain rb1 where r1: "pending rb1 = d # cs"
    "idt_loop st r sb rb = (case idt_step st (Some CHR 0x5C) r sb rb1 of (st', r', sb', rb') \<Rightarrow> idt_loop st' r' sb' rb')"
    using idt_loop_step [of st rb "CHR 0x5C" "d # cs" r sb thesis] by simp
  from r1(1) e(3) n obtain rb2 where r2: "pending rb2 = cs"
    "idt_loop esc_st r sb rb1 = (case idt_step esc_st (Some d) r sb rb2 of (st', r', sb', rb') \<Rightarrow> idt_loop st' r' sb' rb')"
    using idt_loop_step [of esc_st rb1 d cs r sb thesis] by simp
  have "idt_loop st r sb rb = idt_loop esc_st r sb rb1"
    using r1(2) st by (auto simp: idt_READ_NAME_def idt_READ_SECTION_def)
  also have "\<dots> = idt_loop st r (sb_push c sb) rb2"
    using r2(2) e st by (auto simp: idt_READ_NAME_ESC_def idt_READ_SECTION_ESC_def idt_ESC_def)
  finally show thesis using r2(1) by (intro that [of rb2])
qed

lemma idt_name_string:
  assumes "pending rb = esc s @ cs"
    and st: "st = ST_IDT_READ_NAME \<and> esc_st = ST_IDT_READ_NAME_ESC \<or> st = ST_IDT_READ_SECTION \<and> esc_st = ST_IDT_READ_SECTION_ESC"
  obtains rb' where "pending rb' = cs" "idt_loop st r sb rb = idt_loop st r (sb_append s sb) rb'"
  using assms(1)
proof (induction s arbitrary: rb sb thesis)
  case Nil
  then show ?case by (simp add: sb_append_Nil)
next
  case (Cons c s)
  have p: "pending rb = esc_char c @ esc s @ cs" using Cons.prems(2) by (simp add: esc_Cons)
  obtain rb1 where r1: "pending rb1 = esc s @ cs" "idt_loop st r sb rb = idt_loop st r (sb_push c sb) rb1"
    by (rule idt_name_char [OF p st])
  obtain rb2 where "pending rb2 = cs"
    "idt_loop st r (sb_push c sb) rb1 = idt_loop st r (sb_append s (sb_push c sb)) rb2"
    using Cons.IH [OF _ r1(1)] by blast
  with r1(2) show ?case by (intro Cons.prems(1) [of rb2]) (simp_all add: sb_push_def sb_append_append)
qed

text \<open>The names that survive: not empty, without null characters, with no blank at either end, and
  with a first character that is written as it is.\<close>

definition name_ok :: "string \<Rightarrow> bool" where
  "name_ok n \<longleftrightarrow> n \<noteq> [] \<and> NUL \<notin> set n \<and> \<not> isblank (hd n) \<and> \<not> isblank (last n) \<and> esc_char (hd n) = [hd n]"

lemma rstrip_name:
  assumes "name_ok n"
  shows "sb_str (sb_rstrip (sb_append [CHR '' ''] (sb_append n sb_empty))) = n"
proof -
  have "\<not> isblank (last n)" "n \<noteq> []" using assms by (auto simp: name_ok_def)
  then have "strip_right (n @ '' '') = n"
    by (cases n rule: rev_cases) (auto simp: strip_right_def isblank_def)
  then show ?thesis by (simp add: sb_rstrip_def sb_append_def sb_empty_def)
qed

lemma name_ok_first:
  assumes "name_ok n"
  obtains c s where "n = c # s" "esc n = c # esc s" "\<not> isblank c"
    "c \<notin> {CHR 0x5C, CHR 0x22, LF, CR, CHR ''#'', CHR '';'', CHR ''['', CHR '']'', CHR ''=''}"
proof -
  obtain c s where n: "n = c # s" using assms by (cases n) (auto simp: name_ok_def)
  with assms have e: "esc_char c = [c]" "\<not> isblank c" by (auto simp: name_ok_def)
  show thesis
    by (rule esc_char_cases [of c]) (use n e that in \<open>auto simp: esc_Cons\<close>)
qed

lemma idt_blank:
  assumes "pending rb = c # cs" "isblank c \<or> c = LF"
  obtains rb' where "pending rb' = cs" "idt_loop ST_IDT_START 0 sb_empty rb = idt_loop ST_IDT_START 0 sb_empty rb'"
proof -
  have "c \<noteq> CR" "\<not> is_comment c" "c \<noteq> CHR ''[''" "c \<noteq> CHR '']''" "c \<noteq> CHR ''=''"
    using assms(2) by (auto simp: isblank_def is_comment_def)
  note c = this
  obtain rb1 where "pending rb1 = cs"
    "idt_loop ST_IDT_START 0 sb_empty rb = (case idt_step ST_IDT_START (Some c) 0 sb_empty rb1 of (st', r', sb', rb') \<Rightarrow> idt_loop st' r' sb' rb')"
    using idt_loop_step [of ST_IDT_START rb c cs 0 sb_empty thesis] assms(1) c(1) by simp
  moreover have "idt_step ST_IDT_START (Some c) 0 sb_empty rb1 = (ST_IDT_START, 0, sb_empty, rb1)"
    using c assms(2) by (simp add: idt_START_def)
  ultimately show thesis by (intro that [of rb1]) simp_all
qed

lemma read_key:
  assumes "name_ok n" and p: "pending rb = ''  '' @ esc n @ '' ='' @ cs"
  obtains rb' sb where "nparser_get_next_idt rb = (2, sb, rb')" "sb_str sb = n" "pending rb' = cs"
proof -
  obtain c s where n: "n = c # s" "esc n = c # esc s" "\<not> isblank c"
    "c \<notin> {CHR 0x5C, CHR 0x22, LF, CR, CHR ''#'', CHR '';'', CHR ''['', CHR '']'', CHR ''=''}"
    by (rule name_ok_first [OF assms(1)])
  obtain rb1 where r1: "pending rb1 = '' '' @ c # esc s @ '' ='' @ cs"
    "idt_loop ST_IDT_START 0 sb_empty rb = idt_loop ST_IDT_START 0 sb_empty rb1"
    using idt_blank [of rb "CHR '' ''" "'' '' @ c # esc s @ '' ='' @ cs" thesis] p n(2) by (simp add: isblank_def)
  obtain rb2 where r2: "pending rb2 = c # esc s @ '' ='' @ cs"
    "idt_loop ST_IDT_START 0 sb_empty rb1 = idt_loop ST_IDT_START 0 sb_empty rb2"
    using idt_blank [of rb1 "CHR '' ''" "c # esc s @ '' ='' @ cs" thesis] r1(1) by (simp add: isblank_def)
  obtain rb3 where r3: "pending rb3 = esc s @ '' ='' @ cs"
    "idt_loop ST_IDT_START 0 sb_empty rb2 = idt_loop ST_IDT_READ_NAME 0 (sb_push c sb_empty) rb3"
    using idt_loop_step [of ST_IDT_START rb2 c "esc s @ '' ='' @ cs" 0 sb_empty thesis] r2(1) n
    by (simp add: idt_START_def is_comment_def)
  obtain rb4 where r4: "pending rb4 = '' ='' @ cs"
    "idt_loop ST_IDT_READ_NAME 0 (sb_push c sb_empty) rb3 = idt_loop ST_IDT_READ_NAME 0 (sb_append s (sb_push c sb_empty)) rb4"
    by (rule idt_name_string [OF r3(1), of ST_IDT_READ_NAME ST_IDT_READ_NAME_ESC]) auto
  let ?sb = "sb_append n sb_empty"
  have e: "sb_append s (sb_push c sb_empty) = ?sb" by (simp add: sb_push_def sb_append_append n(1))
  obtain rb5 where r5: "pending rb5 = ''='' @ cs"
    "idt_loop ST_IDT_READ_NAME 0 ?sb rb4 = idt_loop ST_IDT_READ_NAME 0 (sb_append [CHR '' ''] ?sb) rb5"
    using idt_loop_step [of ST_IDT_READ_NAME rb4 "CHR '' ''" "''='' @ cs" 0 ?sb thesis] r4(1)
    by (simp add: idt_READ_NAME_def is_comment_def sb_push_def)
  obtain rb6 where r6: "pending rb6 = cs"
    "idt_loop ST_IDT_READ_NAME 0 (sb_append [CHR '' ''] ?sb) rb5 = (2, sb_append [CHR '' ''] ?sb, rb6)"
    using idt_loop_step [of ST_IDT_READ_NAME rb5 "CHR ''=''" cs 0 "sb_append [CHR '' ''] ?sb" thesis] r5(1)
    by (simp add: idt_READ_NAME_def is_comment_def idt_loop.simps [of ST_IDT_END])
  have "nparser_get_next_idt rb = (2, sb_rstrip (sb_append [CHR '' ''] ?sb), rb6)"
    by (simp add: nparser_get_next_idt_def r1(2) r2(2) r3(2) r4(2) e r5(2) r6(2))
  then show thesis by (rule that [OF _ rstrip_name [OF assms(1)] r6(1)])
qed

lemma read_section:
  assumes "name_ok n" and p: "pending rb = section_line n @ cs"
  obtains rb' sb where "nparser_get_next_idt rb = (1, sb, rb')" "sb_str sb = n" "pending rb' = cs"
proof -
  obtain c s where n: "n = c # s" "esc n = c # esc s" "\<not> isblank c"
    "c \<notin> {CHR 0x5C, CHR 0x22, LF, CR, CHR ''#'', CHR '';'', CHR ''['', CHR '']'', CHR ''=''}"
    by (rule name_ok_first [OF assms(1)])
  let ?rest = "'' ]'' @ LF # cs"
  obtain rb1 where r1: "pending rb1 = '' '' @ c # esc s @ ?rest"
    "idt_loop ST_IDT_START 0 sb_empty rb = idt_loop ST_IDT_BEGIN_SECTION 0 sb_empty rb1"
    using idt_loop_step [of ST_IDT_START rb "CHR ''[''" "'' '' @ c # esc s @ ?rest" 0 sb_empty thesis] p n(2)
    by (simp add: section_line_eq idt_START_def)
  obtain rb2 where r2: "pending rb2 = c # esc s @ ?rest"
    "idt_loop ST_IDT_BEGIN_SECTION 0 sb_empty rb1 = idt_loop ST_IDT_BEGIN_SECTION 0 sb_empty rb2"
    using idt_loop_step [of ST_IDT_BEGIN_SECTION rb1 "CHR '' ''" "c # esc s @ ?rest" 0 sb_empty thesis] r1(1)
    by (simp add: idt_BEGIN_SECTION_def isblank_def is_comment_def)
  obtain rb3 where r3: "pending rb3 = esc s @ ?rest"
    "idt_loop ST_IDT_BEGIN_SECTION 0 sb_empty rb2 = idt_loop ST_IDT_READ_SECTION 0 (sb_push c sb_empty) rb3"
    using idt_loop_step [of ST_IDT_BEGIN_SECTION rb2 c "esc s @ ?rest" 0 sb_empty thesis] r2(1) n
    by (simp add: idt_BEGIN_SECTION_def is_comment_def)
  obtain rb4 where r4: "pending rb4 = ?rest"
    "idt_loop ST_IDT_READ_SECTION 0 (sb_push c sb_empty) rb3 = idt_loop ST_IDT_READ_SECTION 0 (sb_append s (sb_push c sb_empty)) rb4"
    by (rule idt_name_string [OF r3(1), of ST_IDT_READ_SECTION ST_IDT_READ_SECTION_ESC]) auto
  let ?sb = "sb_append n sb_empty"
  have e: "sb_append s (sb_push c sb_empty) = ?sb" by (simp add: sb_push_def sb_append_append n(1))
  let ?sb' = "sb_append [CHR '' ''] ?sb"
  obtain rb5 where r5: "pending rb5 = '']'' @ LF # cs"
    "idt_loop ST_IDT_READ_SECTION 0 ?sb rb4 = idt_loop ST_IDT_READ_SECTION 0 ?sb' rb5"
    using idt_loop_step [of ST_IDT_READ_SECTION rb4 "CHR '' ''" "'']'' @ LF # cs" 0 ?sb thesis] r4(1)
    by (simp add: idt_READ_SECTION_def is_comment_def sb_push_def)
  obtain rb6 where r6: "pending rb6 = LF # cs"
    "idt_loop ST_IDT_READ_SECTION 0 ?sb' rb5 = idt_loop ST_IDT_AFTER_SECTION 1 ?sb' rb6"
    using idt_loop_step [of ST_IDT_READ_SECTION rb5 "CHR '']''" "LF # cs" 0 ?sb' thesis] r5(1)
    by (simp add: idt_READ_SECTION_def is_comment_def)
  obtain rb7 where r7: "pending rb7 = cs" "idt_loop ST_IDT_AFTER_SECTION 1 ?sb' rb6 = (1, ?sb', rb7)"
    using idt_loop_step [of ST_IDT_AFTER_SECTION rb6 LF cs 1 ?sb' thesis] r6(1)
    by (simp add: idt_AFTER_SECTION_def idt_loop.simps [of ST_IDT_END])
  have "nparser_get_next_idt rb = (1, sb_rstrip ?sb', rb7)"
    by (simp add: nparser_get_next_idt_def r1(2) r2(2) r3(2) r4(2) e r5(2) r6(2) r7(2))
  then show thesis by (rule that [OF _ rstrip_name [OF assms(1)] r7(1)])
qed

text \<open>The three kinds of lines of a written file, as the reader sees them.\<close>

lemma cstr_id: "NUL \<notin> set (sb_str sb) \<Longrightarrow> cstr sb = sb_str sb"
  unfolding cstr_def takeWhile_eq_all_conv by metis

lemma read_loop_section:
  assumes "name_ok n" and "pending rb = section_line n @ cs"
  obtains rb' where "pending rb' = cs"
    "parser_read_loop rb sec p = parser_read_loop rb' (sb_append n sb_empty) p"
proof -
  obtain rb' sb where r: "nparser_get_next_idt rb = (1, sb, rb')" "sb_str sb = n" "pending rb' = cs"
    by (rule read_section [OF assms])
  then show thesis by (intro that [of rb']) (simp_all add: parser_read_loop.simps [of rb])
qed

lemma read_loop_value:
  assumes "name_ok n" and "NUL \<notin> set v" and "pending rb = value_line n v @ cs"
    and "name_ok (sb_str sec)" and "allow_empty_value p \<or> v \<noteq> []"
  obtains rb' l where "pending rb' = cs"
    "parser_read_loop rb sec p = parser_read_loop rb' sec (parser_set (sb_str sec) n v l p)"
proof -
  have p: "pending rb = ''  '' @ esc n @ '' ='' @ (CHR '' '' # CHR 0x22 # esc v @ CHR 0x22 # LF # cs)"
    using assms(3) by (simp add: value_line_eq)
  obtain rb1 sb where r1: "nparser_get_next_idt rb = (2, sb, rb1)" "sb_str sb = n"
    "pending rb1 = CHR '' '' # CHR 0x22 # esc v @ CHR 0x22 # LF # cs"
    by (rule read_key [OF assms(1) p])
  obtain rb2 sbv where r2: "nparser_get_next_value rb1 = (0, sbv, rb2)" "sb_str sbv = v" "pending rb2 = cs"
    by (rule read_quoted_value [OF r1(3)])
  have c: "cstr sb = n" "cstr sbv = v" "cstr sec = sb_str sec" "sb_str sec \<noteq> []"
    using assms(1,2,4) r1(2) r2(2) by (auto simp: cstr_id name_ok_def)
  have "store_value 0 (pos_line (rb_pos rb1)) sec sb sbv p = (sec, parser_set (sb_str sec) n v (pos_line (rb_pos rb1)) p)"
    using assms(5) c by (auto simp: store_value_def)
  with r1 r2 show thesis
    by (intro that [of rb2 "pos_line (rb_pos rb1)"]) (simp_all add: parser_read_loop.simps [of rb])
qed

lemma read_loop_blank:
  assumes "pending rb = LF # cs"
  obtains rb' where "pending rb' = cs" "parser_read_loop rb sec p = parser_read_loop rb' sec p"
proof -
  obtain rb' where r: "pending rb' = cs" "idt_loop ST_IDT_START 0 sb_empty rb = idt_loop ST_IDT_START 0 sb_empty rb'"
    by (rule idt_blank [OF assms]) simp
  then have "nparser_get_next_idt rb = nparser_get_next_idt rb'" by (simp add: nparser_get_next_idt_def)
  with r(1) show thesis
    by (intro that [of rb']) (simp_all add: parser_read_loop.simps [of rb] parser_read_loop.simps [of rb'])
qed

lemma read_loop_end: "pending rb = [] \<Longrightarrow> parser_read_loop rb sec p = p"
  using read_buf_next_end [of rb]
  by (simp add: parser_read_loop.simps [of rb] nparser_get_next_idt_def idt_loop.simps [of ST_IDT_START]
      idt_START_def idt_loop.simps [of ST_IDT_END])

section \<open>Contents\<close>

type_synonym conf_contents = "(string \<times> (string \<times> string list) list) list"

definition key_contents :: "item_key \<Rightarrow> string \<times> string list" where
  "key_contents k = (k_name k, map v_s (values_list k))"

definition section_contents :: "item_section \<Rightarrow> string \<times> (string \<times> string list) list" where
  "section_contents s = (s_name s, map key_contents (keys_list s))"

definition contents :: "parser_context \<Rightarrow> conf_contents" where
  "contents p = map section_contents (sections_list p)"

text \<open>The effect of \<^verbatim>\<open>parser_set\<close> on the contents.\<close>

definition key_set :: "string \<Rightarrow> string \<Rightarrow> (string \<times> string list) list \<Rightarrow> (string \<times> string list) list" where
  "key_set k v ks = item_update fst k (\<lambda>x. (fst x, snd x @ [v])) (item_add fst (\<lambda>k. (k, [])) k ks)"

definition contents_set :: "string \<Rightarrow> string \<Rightarrow> string \<Rightarrow> conf_contents \<Rightarrow> conf_contents" where
  "contents_set s k v xs =
     item_update fst s (\<lambda>x. (fst x, key_set k v (snd x))) (item_add fst (\<lambda>s. (s, [])) s xs)"

lemma map_item_add:
  assumes "\<And>x. nm' (e x) = nm x" and "\<And>k. e (new k) = new' k"
  shows "map e (item_add nm new k xs) = item_add nm' new' k (map e xs)"
proof -
  have "item_find nm' k (map e xs) = map_option e (item_find nm k xs)"
    by (induction xs) (simp_all add: item_find_def assms)
  then show ?thesis by (simp add: item_add_def assms split: option.split)
qed

lemma section_contents_fst [simp]: "fst (section_contents s) = s_name s" "fst (key_contents k) = k_name k"
  by (simp_all add: section_contents_def key_contents_def)

lemma contents_parser_set: "contents (parser_set s k v l p) = contents_set s k v (contents p)"
proof -
  let ?g = "\<lambda>x. update_key k (parser_value_add v l) (parser_key_add k x)"
  have ks: "map key_contents (keys_list (?g x)) = key_set k v (map key_contents (keys_list x))" for x
  proof -
    have "map key_contents (item_update k_name k (parser_value_add v l) ys) =
        item_update fst k (\<lambda>x. (fst x, snd x @ [v])) (map key_contents ys)" for ys
      by (rule map_item_update) (simp_all add: key_contents_def parser_value_add_def)
    moreover have "map key_contents (item_add k_name new_key k ys) = item_add fst (\<lambda>k. (k, [])) k (map key_contents ys)" for ys
      by (rule map_item_add) (simp_all add: key_contents_def new_key_def)
    ultimately show ?thesis by (simp add: key_set_def update_key_def parser_key_add_def)
  qed
  have "map section_contents (item_update s_name s ?g ys) =
      item_update fst s (\<lambda>x. (fst x, key_set k v (snd x))) (map section_contents ys)" for ys
    by (rule map_item_update) (simp_all add: section_contents_def ks)
  moreover have "map section_contents (item_add s_name new_section s ys) = item_add fst (\<lambda>s. (s, [])) s (map section_contents ys)" for ys
    by (rule map_item_add) (simp_all add: section_contents_def new_section_def)
  ultimately show ?thesis
    by (simp add: contents_def contents_set_def parser_set_def Let_def update_section_def parser_section_add_def
        item_update_twice)
qed

lemma parser_set_flags [simp]:
  "allow_empty_value (parser_set s k v l p) = allow_empty_value p" "allow_default (parser_set s k v l p) = allow_default p"
  by (simp_all add: parser_set_def Let_def update_section_def parser_section_add_def)

lemma item_update_last: "k \<notin> nm ` set xs \<Longrightarrow> nm x = k \<Longrightarrow> item_update nm k f (xs @ [x]) = xs @ [f x]"
  by (induction xs) auto

lemma item_add_new: "k \<notin> nm ` set xs \<Longrightarrow> item_add nm new k xs = xs @ [new k]"
  by (induction xs) (auto simp: item_add_def item_find_def split: option.splits)

lemma item_add_old: "nm x = k \<Longrightarrow> x \<in> set xs \<Longrightarrow> item_add nm new k xs = xs"
  by (induction xs) (auto simp: item_add_def item_find_def split: option.splits if_splits)

lemma contents_set_first:
  assumes "s \<notin> fst ` set xs" and "k \<notin> fst ` set acc"
  shows "contents_set s k v (if acc = [] then xs else xs @ [(s, acc)]) = xs @ [(s, acc @ [(k, [v])])]"
proof -
  have k: "key_set k v acc = acc @ [(k, [v])]"
    using assms(2) by (simp add: key_set_def item_add_new item_update_last)
  show ?thesis
    using assms(1) k item_add_old [of fst "(s, acc)" s "xs @ [(s, acc)]"]
    by (cases "acc = []") (simp_all add: contents_set_def item_add_new item_update_last)
qed

lemma contents_set_more:
  assumes "s \<notin> fst ` set xs" and "k \<notin> fst ` set acc"
  shows "contents_set s k v (xs @ [(s, acc @ [(k, vs)])]) = xs @ [(s, acc @ [(k, vs @ [v])])]"
proof -
  have "key_set k v (acc @ [(k, vs)]) = acc @ [(k, vs @ [v])]"
    using assms(2) item_add_old [of fst "(k, vs)" k "acc @ [(k, vs)]"] by (simp add: key_set_def item_update_last)
  then show ?thesis
    using assms(1) item_add_old [of fst "(s, acc @ [(k, vs)])" s "xs @ [(s, acc @ [(k, vs)])]"]
    by (simp add: contents_set_def item_update_last)
qed

lemma contents_set_values:
  assumes "s \<notin> fst ` set xs" and "k \<notin> fst ` set acc" and "vs \<noteq> []"
  shows "fold (contents_set s k) vs (if acc = [] then xs else xs @ [(s, acc)]) = xs @ [(s, acc @ [(k, vs)])]"
proof -
  have more: "fold (contents_set s k) ws (xs @ [(s, acc @ [(k, us)])]) = xs @ [(s, acc @ [(k, us @ ws)])]" for us ws
    by (induction ws arbitrary: us) (simp_all add: contents_set_more [OF assms(1,2)])
  obtain v ws where "vs = v # ws" using assms(3) by (cases vs) auto
  then show ?thesis using contents_set_first [OF assms(1,2)] more [of ws "[v]"] by simp
qed

text \<open>The text of a configuration.\<close>

definition key_text :: "string \<times> string list \<Rightarrow> string" where
  "key_text x = concat (map (value_line (fst x)) (snd x))"

definition section_text :: "string \<times> (string \<times> string list) list \<Rightarrow> string" where
  "section_text x = section_line (fst x) @ concat (map key_text (snd x)) @ [LF]"

lemma write_values_plain:
  assumes "parser_key_get key sec = Some k" and "i + n \<le> length (values_list k)"
  shows "write_values False key i n sec = Some (concat (map (value_line key) (map v_s (take n (drop i (values_list k))))), sec)"
  using assms(2)
proof (induction n arbitrary: i)
  case (Suc n)
  have "take (Suc n) (drop i (values_list k)) = values_list k ! i # take n (drop (Suc i) (values_list k))"
    using Suc.prems by (simp add: Cons_nth_drop_Suc [symmetric])
  moreover have "section_value (key, i) sec = Some (values_list k ! i)"
    using assms(1) Suc.prems by (simp add: section_value_def)
  ultimately show ?case using Suc by simp
qed simp

lemma find_distinct:
  "distinct (map nm xs) \<Longrightarrow> x \<in> set xs \<Longrightarrow> item_find nm (nm x) xs = Some x"
  by (induction xs) (auto simp: item_find_def, metis image_eqI)

lemma write_keys_plain:
  assumes "distinct (map k_name (keys_list sec))" and "set ks \<subseteq> set (keys_list sec)"
  shows "write_keys False ks sec = Some (concat (map key_text (map key_contents ks)), sec)"
  using assms(2)
proof (induction ks)
  case (Cons k ks)
  then have "parser_key_get (k_name k) sec = Some k"
    using find_distinct [OF assms(1), of k] by (simp add: parser_key_get_def)
  from write_values_plain [OF this, of 0 "length (values_list k)"] Cons show ?case
    by (simp add: key_text_def key_contents_def)
qed simp

lemma write_sections_plain:
  "(\<And>s. s \<in> set ss \<Longrightarrow> section_ok s) \<Longrightarrow>
   write_sections False ss = Some (concat (map section_text (map section_contents ss)), ss)"
proof (induction ss)
  case (Cons s ss)
  then have "distinct (map k_name (keys_list s))" by (simp add: section_ok_def)
  from write_keys_plain [OF this, of "keys_list s"] Cons show ?case
    by (simp add: section_text_def section_contents_def)
qed simp

lemma parser_write_plain:
  assumes "parser_ok p"
  shows "parser_write p False = Some (concat (map section_text (contents p)), p)"
  using write_sections_plain [of "sections_list p"] assms
  by (simp add: parser_write_def parser_ok_def contents_def)

text \<open>What can be stored in a file and read back.\<close>

definition conf_ok :: "bool \<Rightarrow> conf_contents \<Rightarrow> bool" where
  "conf_ok empty_ok c \<longleftrightarrow> distinct (map fst c) \<and>
     (\<forall>(s, ks) \<in> set c. name_ok s \<and> ks \<noteq> [] \<and> distinct (map fst ks) \<and>
        (\<forall>(k, vs) \<in> set ks. name_ok k \<and> vs \<noteq> [] \<and> (\<forall>v \<in> set vs. NUL \<notin> set v \<and> (empty_ok \<or> v \<noteq> []))))"

text \<open>Reading the lines of one key, of the keys of one section, and of all sections.\<close>

lemma read_values:
  assumes "name_ok k" and "\<And>v. v \<in> set vs \<Longrightarrow> NUL \<notin> set v \<and> (allow_empty_value p \<or> v \<noteq> [])"
    and "name_ok (sb_str sec)" and "pending rb = concat (map (value_line k) vs) @ cs"
  obtains rb' p' where "pending rb' = cs" "parser_read_loop rb sec p = parser_read_loop rb' sec p'"
    "contents p' = fold (contents_set (sb_str sec) k) vs (contents p)" "allow_empty_value p' = allow_empty_value p"
  using assms(2,4)
proof (induction vs arbitrary: rb p thesis)
  case Nil
  then show ?case by simp
next
  case (Cons v vs)
  have pe: "pending rb = value_line k v @ concat (map (value_line k) vs) @ cs" using Cons.prems(3) by simp
  have v: "NUL \<notin> set v" "allow_empty_value p \<or> v \<noteq> []" using Cons.prems(2) by auto
  obtain rb1 l where r1: "pending rb1 = concat (map (value_line k) vs) @ cs"
    "parser_read_loop rb sec p = parser_read_loop rb1 sec (parser_set (sb_str sec) k v l p)"
    by (rule read_loop_value [OF assms(1) v(1) pe assms(3) v(2)])
  show ?case
  proof (rule Cons.IH [where p = "parser_set (sb_str sec) k v l p" and rb = rb1], goal_cases)
    case (1 rb' p')
    with r1(2) show ?case by (intro Cons.prems(1) [of rb' p']) (simp_all add: contents_parser_set)
  qed (use Cons.prems(2) r1(1) in auto)
qed

lemma read_keys:
  assumes "distinct (map fst (acc @ ks))"
    and "\<forall>(k, vs) \<in> set ks. name_ok k \<and> vs \<noteq> [] \<and> (\<forall>v \<in> set vs. NUL \<notin> set v \<and> (e \<or> v \<noteq> []))"
    and "s \<notin> fst ` set xs" and "name_ok s" and "sb_str sec = s" and "allow_empty_value p = e"
    and "contents p = (if acc = [] then xs else xs @ [(s, acc)])"
    and "pending rb = concat (map key_text ks) @ cs"
  obtains rb' p' where "pending rb' = cs" "parser_read_loop rb sec p = parser_read_loop rb' sec p'"
    "contents p' = (if acc @ ks = [] then xs else xs @ [(s, acc @ ks)])" "allow_empty_value p' = e"
  using assms(1,2,6-8)
proof (induction ks arbitrary: acc rb p thesis)
  case Nil
  then show ?case by simp
next
  case (Cons x ks)
  obtain k vs where x: "x = (k, vs)" by (cases x) auto
  have k: "name_ok k" "vs \<noteq> []" "\<And>v. v \<in> set vs \<Longrightarrow> NUL \<notin> set v \<and> (allow_empty_value p \<or> v \<noteq> [])"
    using Cons.prems(3,4) by (auto simp: x)
  have pe: "pending rb = concat (map (value_line k) vs) @ concat (map key_text ks) @ cs"
    using Cons.prems(6) by (simp add: x key_text_def [of "(k, vs)"])
  have ns: "name_ok (sb_str sec)" using assms(4,5) by simp
  obtain rb1 p1 where r1: "pending rb1 = concat (map key_text ks) @ cs"
    "parser_read_loop rb sec p = parser_read_loop rb1 sec p1"
    "contents p1 = fold (contents_set (sb_str sec) k) vs (contents p)" "allow_empty_value p1 = allow_empty_value p"
    by (rule read_values [OF k(1,3) ns pe])
  have "k \<notin> fst ` set acc" using Cons.prems(2) by (auto simp: x)
  from contents_set_values [OF assms(3) this k(2)]
  have c1: "contents p1 = xs @ [(s, acc @ [x])]" by (simp add: r1(3) assms(5) Cons.prems(5) x)
  show ?case
  proof (rule Cons.IH [where acc = "acc @ [x]" and p = p1 and rb = rb1], goal_cases)
    case (1 rb' p')
    with r1(2) show ?case by (intro Cons.prems(1) [of rb' p']) simp_all
  qed (use Cons.prems(2-4) r1 c1 in auto)
qed

lemma read_sections:
  assumes "conf_ok e (pre @ c)" and "allow_empty_value p = e" and "contents p = pre"
    and "pending rb = concat (map section_text c)"
  shows "contents (parser_read_loop rb sec p) = pre @ c"
  using assms
proof (induction c arbitrary: pre rb p sec)
  case Nil
  then show ?case by (simp add: read_loop_end)
next
  case (Cons x c)
  obtain s ks where x: "x = (s, ks)" by (cases x) auto
  have s: "name_ok s" "ks \<noteq> []" "distinct (map fst ks)"
    "\<forall>(k, vs) \<in> set ks. name_ok k \<and> vs \<noteq> [] \<and> (\<forall>v \<in> set vs. NUL \<notin> set v \<and> (e \<or> v \<noteq> []))"
    and sn: "s \<notin> fst ` set pre"
    using Cons.prems(1) by (auto simp: conf_ok_def x)
  have pe: "pending rb = section_line s @ (concat (map key_text ks) @ (LF # concat (map section_text c)))"
    using Cons.prems(4) by (simp add: x section_text_def [of "(s, ks)"])
  obtain rb1 where r1: "pending rb1 = concat (map key_text ks) @ (LF # concat (map section_text c))"
    "parser_read_loop rb sec p = parser_read_loop rb1 (sb_append s sb_empty) p"
    by (rule read_loop_section [OF s(1) pe])
  obtain rb2 p2 where r2: "pending rb2 = LF # concat (map section_text c)"
    "parser_read_loop rb1 (sb_append s sb_empty) p = parser_read_loop rb2 (sb_append s sb_empty) p2"
    "contents p2 = (if [] @ ks = [] then pre else pre @ [(s, [] @ ks)])" "allow_empty_value p2 = e"
    by (rule read_keys [of "[]" ks e s pre "sb_append s sb_empty" p rb1])
      (use s sn Cons.prems(2,3) r1(1) in auto)
  obtain rb3 where r3: "pending rb3 = concat (map section_text c)"
    "parser_read_loop rb2 (sb_append s sb_empty) p2 = parser_read_loop rb3 (sb_append s sb_empty) p2"
    by (rule read_loop_blank [OF r2(1)])
  have "contents (parser_read_loop rb3 (sb_append s sb_empty) p2) = (pre @ [x]) @ c"
    by (rule Cons.IH) (use Cons.prems(1) r2(3,4) r3(1) s(2) in \<open>auto simp: x\<close>)
  then show ?case by (simp add: r1(2) r2(2) r3(2))
qed

lemma val_unquoted_string:
  assumes "pending rb = s @ LF # cs" and "set s \<inter> {LF, CR, CHR 0x5C, CHR 0x22} = {}"
  obtains rb' where "pending rb' = cs" "val_loop ST_VAL_IN_UNQUOTED r sb rb = (r, sb_rstrip (sb_append s sb), rb')"
  using assms
proof (induction s arbitrary: rb sb thesis)
  case Nil
  then obtain rb1 where "pending rb1 = cs" "val_loop ST_VAL_IN_UNQUOTED r sb rb = (r, sb_rstrip sb, rb1)"
    using val_loop_step [of ST_VAL_IN_UNQUOTED rb LF cs r sb thesis]
    by (simp add: val_IN_UNQUOTED_def val_loop.simps [of ST_VAL_END])
  then show ?case by (intro Nil.prems(1) [of rb1]) (simp_all add: sb_append_Nil)
next
  case (Cons c s)
  have ne: "c \<noteq> LF" "c \<noteq> CR" "c \<noteq> CHR 0x5C" "c \<noteq> CHR 0x22" using Cons.prems(3) by auto
  then obtain rb1 where r1: "pending rb1 = s @ LF # cs"
    "val_loop ST_VAL_IN_UNQUOTED r sb rb = val_loop ST_VAL_IN_UNQUOTED r (sb_push c sb) rb1"
    using val_loop_step [of ST_VAL_IN_UNQUOTED rb c "s @ LF # cs" r sb thesis] Cons.prems(2)
    by (simp add: val_IN_UNQUOTED_def)
  have "set s \<inter> {LF, CR, CHR 0x5C, CHR 0x22} = {}" using Cons.prems(3) by auto
  then obtain rb2 where "pending rb2 = cs"
    "val_loop ST_VAL_IN_UNQUOTED r (sb_push c sb) rb1 = (r, sb_rstrip (sb_append s (sb_push c sb)), rb2)"
    using Cons.IH [OF _ r1(1)] by blast
  with r1(2) show ?case by (intro Cons.prems(1) [of rb2]) (simp_all add: sb_push_def sb_append_append)
qed

section \<open>The result codes\<close>

text \<open>In the states that lead to an identifier or to an error the code to return is already decided or
  is decided on leaving them; only before the first character of an identifier is it still \<open>0\<close>.\<close>

definition idt_code_ok :: "idt_state \<Rightarrow> int \<Rightarrow> bool" where
  "idt_code_ok st r \<longleftrightarrow>
     (case st of
        ST_IDT_AFTER_SECTION \<Rightarrow> r = 1 | ST_IDT_AFTER_COMMENT \<Rightarrow> r = 1
      | ST_IDT_SKIP \<Rightarrow> r = -1 \<or> r = 1 | ST_IDT_END \<Rightarrow> r \<in> {-1, 1, 2} | _ \<Rightarrow> r = 0)"

lemma idt_step_code:
  assumes "idt_step st (Some c) r sb rb = (st', r', sb', rb')" "idt_code_ok st r"
  shows "idt_code_ok st' r'"
  using assms
  by (cases st)
    (auto simp: idt_code_ok_def idt_START_def idt_BEGIN_SECTION_def idt_READ_SECTION_def idt_READ_SECTION_ESC_def idt_ESC_def
      idt_AFTER_SECTION_def idt_READ_NAME_def idt_READ_NAME_ESC_def idt_COMMENT_def idt_to_EOL_def
      split: if_splits prod.splits)

lemma idt_step_code_EOF:
  assumes "idt_step st None r sb rb = (st', r', sb', rb')" "idt_code_ok st r"
  shows "r' \<in> {-1, 0, 1, 2}"
  using assms
  by (cases st)
    (auto simp: idt_code_ok_def idt_START_def idt_BEGIN_SECTION_def idt_READ_SECTION_def idt_READ_SECTION_ESC_def idt_ESC_def
      idt_AFTER_SECTION_def idt_READ_NAME_def idt_READ_NAME_ESC_def idt_COMMENT_def idt_to_EOL_def)

lemma idt_loop_code:
  assumes "idt_loop st r sb rb = (r', sb', rb')" "idt_code_ok st r"
  shows "r' \<in> {-1, 0, 1, 2} \<and> (r' = 0 \<longrightarrow> pending rb' = [])"
  using assms
proof (induction st r sb rb arbitrary: r' sb' rb' rule: idt_loop.induct)
  case (1 st r sb rb)
  show ?case
  proof (cases "st = ST_IDT_END")
    case True
    with "1.prems" show ?thesis by (auto simp: idt_loop.simps idt_code_ok_def)
  next
    case False
    show ?thesis
    proof (rule read_buf_next_cases [of rb])
      assume e: "pending rb = []" "read_buf_next rb = (None, rb)"
      obtain st2 r2 sb2 rb2 where s: "idt_step st None r sb rb = (st2, r2, sb2, rb2)" by (metis prod_cases4)
      with idt_step_EOF [OF s] "1.prems"(1) False e have "r' = r2" "rb' = rb"
        by (simp_all add: idt_loop.simps [of st] idt_loop.simps [of ST_IDT_END])
      with idt_step_code_EOF [OF s "1.prems"(2)] e show ?thesis by simp
    next
      fix c rb1 assume n: "read_buf_next rb = (Some c, rb1)"
      obtain st2 r2 sb2 rb2 where s: "idt_step st (Some c) r sb rb1 = (st2, r2, sb2, rb2)" by (metis prod_cases4)
      have "idt_loop st2 r2 sb2 rb2 = (r', sb', rb')"
        using "1.prems" False n s by (simp add: idt_loop.simps [of st r sb rb])
      from "1.IH" [OF False n [symmetric] refl s [symmetric] refl refl refl this idt_step_code [OF s "1.prems"(2)]]
      show ?thesis .
    qed
  qed
qed

lemma idt_skip_code: "st \<in> {ST_IDT_SKIP, ST_IDT_END} \<Longrightarrow> fst (idt_loop st r sb rb) = r"
proof (induction st r sb rb rule: idt_loop.induct)
  case (1 st r sb rb)
  show ?case
  proof (cases "st = ST_IDT_END")
    case True
    then show ?thesis by (simp add: idt_loop.simps)
  next
    case False
    with "1.prems" have st: "st = ST_IDT_SKIP" by simp
    obtain ch rb1 where n: "read_buf_next rb = (ch, rb1)" by fastforce
    obtain st2 r2 sb2 rb2 where s: "idt_step st ch r sb rb1 = (st2, r2, sb2, rb2)" by (metis prod_cases4)
    then have "st2 \<in> {ST_IDT_SKIP, ST_IDT_END}" "r2 = r"
      by (auto simp: st idt_to_EOL_def split: option.splits if_splits)
    with "1.IH" [OF False n [symmetric] refl s [symmetric] refl refl refl] n s False show ?thesis
      by (simp add: idt_loop.simps [of st r sb rb])
  qed
qed

section \<open>Properties\<close>

text \<open>C8. A configuration that is written to a file and read back is the same configuration: the same
  sections, keys and values in the same order. This needs that names are not empty, have no blanks
  at their ends and start with a character that is written unescaped, that no string contains a null
  character, that no key or section is empty, and that values are not empty unless the context
  allows it. Values may contain any other character.\<close>

theorem config_write_read:
  assumes "parser_ok p" and "conf_ok (allow_empty_value p) (contents p)"
  shows "\<exists>text. parser_write p False = Some (text, p) \<and>
    contents (parser_read text (parser_init (allow_default p) (allow_empty_value p))) = contents p"
proof -
  let ?p0 = "parser_init (allow_default p) (allow_empty_value p)"
  have "contents (parser_read_loop (read_buf_init (concat (map section_text (contents p)))) sb_empty ?p0) = [] @ contents p"
    by (rule read_sections) (use assms(2) in \<open>simp_all add: parser_init_def contents_def [of "\<lparr>allow_default = _, allow_empty_value = _, sections_list = []\<rparr>"]\<close>)
  then show ?thesis using parser_write_plain [OF assms(1)] by (simp add: parser_read_def)
qed

definition demo_conf :: parser_context where
  "demo_conf = parser_set ''B'' ''dir'' [CHR ''a'', CHR 0x22, LF, CHR ''#'', CHR 0x5C, CHR '' ''] 3
     (parser_set ''A b'' ''key=x'' ''two'' 2 (parser_set ''A b'' ''key=x'' '' one '' 1 (parser_init True False)))"

theorem config_write_read_witness:
  "\<exists>text. parser_write demo_conf False = Some (text, demo_conf) \<and>
    contents (parser_read text (parser_init True False)) =
      [(''A b'', [(''key=x'', ['' one '', ''two''])]),
       (''B'', [(''dir'', [[CHR ''a'', CHR 0x22, LF, CHR ''#'', CHR 0x5C, CHR '' '']])])]"
proof -
  have ok: "parser_ok demo_conf"
    unfolding demo_conf_def by (intro parser_set_ok) (simp add: parser_ok_def parser_init_def)
  have c: "contents demo_conf = [(''A b'', [(''key=x'', ['' one '', ''two''])]),
       (''B'', [(''dir'', [[CHR ''a'', CHR 0x22, LF, CHR ''#'', CHR 0x5C, CHR '' '']])])]" by code_simp
  have e: "allow_empty_value demo_conf = False" "allow_default demo_conf = True"
    by (simp_all add: demo_conf_def parser_init_def)
  have "conf_ok False (contents demo_conf)"
    unfolding c by (simp add: conf_ok_def name_ok_def isblank_def esc_char_def char_escape_def sb_push_def)
  with config_write_read [OF ok] show ?thesis by (simp add: e c)
qed

text \<open>Syntax errors never end the reading of a file: the code \<open>0\<close> for the end is returned only when
  all of the input has been consumed, every other code (\<open>-1\<close> error, \<open>1\<close> section, \<open>2\<close> key) is returned
  after at least one character was consumed, and there are no further codes.\<close>

theorem identifiers_until_end_of_file:
  "case nparser_get_next_idt rb of (r, sb, rb') \<Rightarrow>
     r \<in> {-1, 0, 1, 2} \<and> (r = 0 \<longrightarrow> pending rb' = []) \<and>
     (r \<noteq> 0 \<longrightarrow> length (pending rb') < length (pending rb))"
proof -
  obtain r sb rb' where g: "nparser_get_next_idt rb = (r, sb, rb')" by (metis prod_cases3)
  then obtain sb0 where l: "idt_loop ST_IDT_START 0 sb_empty rb = (r, sb0, rb')"
    by (auto simp: nparser_get_next_idt_def split: prod.splits)
  have "idt_code_ok ST_IDT_START 0" by (simp add: idt_code_ok_def)
  from idt_loop_code [OF l this] get_next_idt_consumes [OF g] show ?thesis by (simp add: g)
qed

theorem identifiers_until_end_of_file_witness:
  "fst (nparser_get_next_idt (read_buf_init (''x'' @ [LF] @ ''k=v''))) = -1 \<and>
   fst (nparser_get_next_idt (read_buf_init [])) = 0 \<and>
   length (pending (snd (snd (nparser_get_next_idt (read_buf_init (''x'' @ [LF] @ ''k=v'')))))) < 5"
  using identifiers_until_end_of_file [of "read_buf_init (''x'' @ [LF] @ ''k=v'')"]
  by (simp add: nparser_get_next_idt_def read_buf_init_def idt_loop.simps read_buf_next_def idt_START_def
      idt_READ_NAME_def is_comment_def isblank_def pending_def split: prod.splits)

text \<open>An unquoted value is the rest of its line without trailing blanks, comment characters
  included: a \<^verbatim>\<open>#\<close> or \<^verbatim>\<open>;\<close> starts a comment only where a value could begin.\<close>

theorem unquoted_value_takes_line:
  assumes "pending rb = c # s @ LF # cs" and "set (c # s) \<inter> {LF, CR, CHR 0x5C, CHR 0x22} = {}"
    and "\<not> isblank c" and "\<not> is_comment c"
  shows "\<exists>sb rb'. nparser_get_next_value rb = (0, sb, rb') \<and> sb_str sb = strip_right (c # s) \<and> pending rb' = cs"
proof -
  have ne: "c \<noteq> LF" "c \<noteq> CR" "c \<noteq> CHR 0x5C" "c \<noteq> CHR 0x22" using assms(2) by auto
  then obtain rb1 where r1: "pending rb1 = s @ LF # cs"
    "val_loop ST_VAL_START 0 sb_empty rb = val_loop ST_VAL_IN_UNQUOTED 0 (sb_push c sb_empty) rb1"
    using val_loop_step [of ST_VAL_START rb c "s @ LF # cs" 0 sb_empty thesis] assms(1,3,4)
    by (simp add: val_START_def)
  have "set s \<inter> {LF, CR, CHR 0x5C, CHR 0x22} = {}" using assms(2) by auto
  with r1(1) obtain rb2 where "pending rb2 = cs"
    "val_loop ST_VAL_IN_UNQUOTED 0 (sb_push c sb_empty) rb1 = (0, sb_rstrip (sb_append s (sb_push c sb_empty)), rb2)"
    by (rule val_unquoted_string)
  with r1(2) show ?thesis
    by (simp add: nparser_get_next_value_def sb_rstrip_def sb_push_def sb_append_def sb_empty_def)
qed

theorem unquoted_value_takes_line_witness:
  "\<exists>sb rb'. nparser_get_next_value (read_buf_init (''value # note '' @ [LF])) = (0, sb, rb') \<and> sb_str sb = ''value # note''"
proof -
  have "strip_right ''value # note '' = ''value # note''" by code_simp
  with unquoted_value_takes_line [of "read_buf_init (''value # note '' @ [LF])" "CHR ''v''" "''alue # note ''" "[]"]
  show ?thesis by (auto simp: isblank_def is_comment_def)
qed

text \<open>The restriction of the round trip to names that start with an unescaped character is needed: the
  writer escapes a comment character at the start of a name, but the reader does not recognise an
  escape sequence there, so the key is lost.\<close>

theorem escaped_first_character_is_lost:
  assumes "is_comment c"
  shows "fst (nparser_get_next_idt (read_buf_init (value_line (c # s) v))) = -1"
proof -
  have e: "esc_char c = [CHR 0x5C, c]" using assms by (auto simp: is_comment_def esc_char_def char_escape_def)
  let ?rb = "read_buf_init (value_line (c # s) v)"
  let ?rest = "esc s @ '' = '' @ [CHR 0x22] @ esc v @ [CHR 0x22, LF]"
  have p: "pending ?rb = ''  '' @ CHR 0x5C # c # ?rest" by (simp add: value_line_eq esc_Cons e)
  obtain rb1 where r1: "pending rb1 = '' '' @ CHR 0x5C # c # ?rest"
    "idt_loop ST_IDT_START 0 sb_empty ?rb = idt_loop ST_IDT_START 0 sb_empty rb1"
    using idt_blank [of ?rb "CHR '' ''" "'' '' @ CHR 0x5C # c # ?rest" thesis] p by (simp add: isblank_def)
  obtain rb2 where r2: "pending rb2 = CHR 0x5C # c # ?rest"
    "idt_loop ST_IDT_START 0 sb_empty rb1 = idt_loop ST_IDT_START 0 sb_empty rb2"
    using idt_blank [of rb1 "CHR '' ''" "CHR 0x5C # c # ?rest" thesis] r1(1) by (simp add: isblank_def)
  obtain rb3 where r3: "pending rb3 = c # ?rest"
    "idt_loop ST_IDT_START 0 sb_empty rb2 = idt_loop ST_IDT_READ_NAME 0 (sb_push CHR 0x5C sb_empty) rb3"
    using idt_loop_step [of ST_IDT_START rb2 "CHR 0x5C" "c # ?rest" 0 sb_empty thesis] r2(1)
    by (simp add: idt_START_def is_comment_def isblank_def)
  obtain rb4 where r4: "idt_loop ST_IDT_READ_NAME 0 (sb_push CHR 0x5C sb_empty) rb3 = idt_loop ST_IDT_SKIP (-1) (sb_push CHR 0x5C sb_empty) rb4"
    using idt_loop_step [of ST_IDT_READ_NAME rb3 c ?rest 0 "sb_push CHR 0x5C sb_empty" thesis] r3(1) assms
    by (auto simp: idt_READ_NAME_def is_comment_def)
  have "fst (idt_loop ST_IDT_SKIP (-1) (sb_push CHR 0x5C sb_empty) rb4) = -1"
    using idt_skip_code [of ST_IDT_SKIP "-1"] by simp
  then show ?thesis
    using r1(2) r2(2) r3(2) r4 by (auto simp: nparser_get_next_idt_def split: prod.splits)
qed

theorem escaped_first_character_is_lost_witness:
  "fst (nparser_get_next_idt (read_buf_init (value_line ''#key'' ''v''))) = -1"
  by (rule escaped_first_character_is_lost) (simp add: is_comment_def)

end
