(* ===== verification/Client_Config.thy ===== *)
theory Client_Config
  imports C_Float Config_IO Messages
begin

unbundle bit_operations_syntax

text \<open>
  The configuration of the client (\<^verbatim>\<open>client/configuration.c\<close>, \<^verbatim>\<open>client/configuration.h\<close>): the default
  values, the computation of netmask and broadcast address, the search for a local address, and
  \<^verbatim>\<open>parseConfFile\<close>, which reads the options of a file one after the other into the structure
  \<^verbatim>\<open>config\<close> and gives up at the first one that is not valid.

  Every block of \<^verbatim>\<open>parseConfFile\<close> is a step on a state made of the structure, the parser context and
  the flag \<^verbatim>\<open>localIP_set\<close>; \<open>Go\<close> continues, \<open>Stop\<close> is the jump to \<^verbatim>\<open>config_end\<close>, \<open>Fault\<close> an out of bounds
  read in the expansion of a value or a cast of a number that has no value of type \<^verbatim>\<open>size_t\<close>. What the
  operating system provides (address parsing, host names, the list of interfaces, \<^verbatim>\<open>strtof\<close> and the
  rounding of a product of \<^verbatim>\<open>float\<close> numbers) is a parameter.
\<close>

section \<open>The structure\<close>

record configuration =
  verbose :: int
  debug :: int
  daemonize :: int
  localIP :: u32
  localport :: u16
  serverAddr :: sockaddr_in
  vpnIP :: u32
  vpnNetmask :: u32
  network :: "string option"
  send_local_addr :: int
  override_local_addr :: sockaddr_in
  tun_mtu :: int
  vpnBroadcastIP :: u32
  iface :: "string option"
  tun_device :: "string option"
  tap_id :: "string option"
  certificate_pem :: "string option"
  key_pem :: "string option"
  verif_pem :: "string option"
  verif_dir :: "string option"
  verify_depth :: int
  cipher_list :: "string option"
  crl :: "string option"
  FIFO_size :: int
  tb_client_rate :: c_float
  tb_connection_rate :: c_float
  tb_client_size :: nat
  tb_connection_size :: nat
  timeout :: int
  conf_max_clients :: int
  keepalive :: u32
  exec_up :: "string list option"
  exec_down :: "string list option"
  pidfile :: "string option"
  txqueue :: int
  tun_one_queue :: int

abbreviation SERVER_PORT_DEFAULT :: u16 where "SERVER_PORT_DEFAULT \<equiv> 57888"
abbreviation TUN_MTU_DEFAULT :: int where "TUN_MTU_DEFAULT \<equiv> 1419"

definition initConfig :: configuration where
  "initConfig =
     \<lparr>verbose = 0, debug = 0, daemonize = 0, localIP = 0, localport = 0,
      serverAddr = \<lparr>sin_addr = 0, sin_port = htons SERVER_PORT_DEFAULT\<rparr>,
      vpnIP = 0, vpnNetmask = 0, network = None, send_local_addr = 1,
      override_local_addr = \<lparr>sin_addr = 0, sin_port = 0\<rparr>, tun_mtu = TUN_MTU_DEFAULT,
      vpnBroadcastIP = 0, iface = None, tun_device = None, tap_id = None,
      certificate_pem = None, key_pem = None, verif_pem = None, verif_dir = None,
      verify_depth = 0, cipher_list = None, crl = None,
      FIFO_size = 20, tb_client_rate = Finite 0, tb_connection_rate = Finite 0, tb_client_size = 0,
      tb_connection_size = 0, timeout = 120, conf_max_clients = 100, keepalive = 10,
      exec_up = None, exec_down = None, pidfile = None, txqueue = 0, tun_one_queue = 0\<rparr>"

section \<open>Addresses\<close>

text \<open>One entry of the list that \<^verbatim>\<open>getifaddrs\<close> returns: name, flags, and the address if it has one, with
  whether it is of the family \<^verbatim>\<open>AF_INET\<close>.\<close>

record ifaddrs =
  ifa_name :: string
  ifa_loopback :: bool
  ifa_running :: bool
  ifa_is_up :: bool
  ifa_addr :: "(bool \<times> u32) option"

fun search_ifaddrs :: "string option \<Rightarrow> ifaddrs list \<Rightarrow> u32 option" where
  "search_ifaddrs ifn [] = None"
| "search_ifaddrs ifn (ifap # rest) =
     (if ifn = None \<and> (ifa_loopback ifap \<or> \<not> ifa_running ifap \<or> \<not> ifa_is_up ifap)
      then search_ifaddrs ifn rest
      else if ifn = None \<or> strcmp (ifa_name ifap) (the ifn) = 0 then
        (case ifa_addr ifap of
           Some (True, ip) \<Rightarrow> Some ip
         | _ \<Rightarrow> search_ifaddrs ifn rest)
      else search_ifaddrs ifn rest)"

text \<open>The result is \<open>None\<close> when \<^verbatim>\<open>getifaddrs\<close> fails, otherwise the address found, if any.\<close>

definition get_local_IP :: "ifaddrs list option \<Rightarrow> string option \<Rightarrow> u32 option option" where
  "get_local_IP ifs ifn = (case ifs of None \<Rightarrow> None | Some l \<Rightarrow> Some (search_ifaddrs ifn l))"

text \<open>Broadcast address and netmask, in network byte order.\<close>

definition get_ipv4_broadcast :: "u32 \<Rightarrow> int \<Rightarrow> (u32 \<times> u32) option" where
  "get_ipv4_broadcast vpnip mlen =
     (if mlen < 0 \<or> mlen > 32 then None
      else
        (let netmask = (if mlen = 32 then 0xffffffff else NOT (drop_bit (nat mlen) (0xffffffff :: u32)));
             netmask = htonl netmask
         in Some ((vpnip AND netmask) OR NOT netmask, netmask)))"

section \<open>The steps of \<open>parseConfFile\<close>\<close>

record conf_env =
  inet_aton :: "string \<Rightarrow> u32 option"
  gethostbyname :: "string \<Rightarrow> u32 option"
  getifaddrs :: "ifaddrs list option"
  strtof :: "string \<Rightarrow> c_float option"
  round_float :: "real \<Rightarrow> c_float"

record conf_state =
  cs_config :: configuration
  cs_parser :: parser_context
  cs_localIP_set :: bool

datatype conf_out = Go conf_state | Stop conf_state | Fault

type_synonym conf_step = "conf_state \<Rightarrow> conf_out"

definition set_config :: "(configuration \<Rightarrow> configuration) \<Rightarrow> conf_state \<Rightarrow> conf_state" where
  "set_config f s = s\<lparr>cs_config := f (cs_config s)\<rparr>"

text \<open>\<^verbatim>\<open>value = parser_get(section, key, -1, 1, &parser); if (value != NULL) ... else ...\<close>\<close>

definition with_value :: "string \<Rightarrow> string \<Rightarrow> (string \<Rightarrow> conf_step) \<Rightarrow> conf_step \<Rightarrow> conf_step" where
  "with_value section key present absent s =
     (case parser_get section key (-1) True (cs_parser s) of
        None \<Rightarrow> Fault
      | Some (item, parser') \<Rightarrow>
          (let s1 = s\<lparr>cs_parser := parser'\<rparr> in
           case item of Some v \<Rightarrow> present (sb_str (v_expanded v)) s1 | None \<Rightarrow> absent s1))"

text \<open>An optional string option.\<close>

definition opt_string :: "string \<Rightarrow> string \<Rightarrow> (string \<Rightarrow> configuration \<Rightarrow> configuration) \<Rightarrow> conf_step" where
  "opt_string section key store = with_value section key (\<lambda>v s. Go (set_config (store v) s)) Go"

text \<open>A number: the getter stores it into the structure; the result 1 leads to the check of its range,
  0 to an error, -1 leaves the default.\<close>

definition opt_number :: "(parser_context \<Rightarrow> 'v get_result option) \<Rightarrow> ('v \<Rightarrow> configuration \<Rightarrow> configuration)
  \<Rightarrow> (configuration \<Rightarrow> bool) \<Rightarrow> (string \<Rightarrow> bool) \<Rightarrow> conf_step" where
  "opt_number getter store valid bad s =
     (case getter (cs_parser s) of
        None \<Rightarrow> Fault
      | Some (res, n, item, parser') \<Rightarrow>
          (let s1 = s\<lparr>cs_parser := parser'\<rparr>;
               s2 = (case n of Some i \<Rightarrow> set_config (store i) s1 | None \<Rightarrow> s1) in
           if res = 1 then (if valid (cs_config s2) then Go s2 else Stop s2)
           else if res = 0 \<and> (case item of Some v \<Rightarrow> bad (sb_str (v_expanded v)) | None \<Rightarrow> True) then Stop s2
           else Go s2))"

text \<open>An address or a host name.\<close>

definition resolve :: "conf_env \<Rightarrow> string \<Rightarrow> u32 option" where
  "resolve env v = (case inet_aton env v of Some a \<Rightarrow> Some a | None \<Rightarrow> gethostbyname env v)"

definition conf_local_host :: "conf_env \<Rightarrow> conf_step" where
  "conf_local_host env =
     with_value ''NETWORK'' ''local_host''
       (\<lambda>v s. case resolve env v of
                Some a \<Rightarrow> Go ((set_config (localIP_update (\<lambda>_. a)) s)\<lparr>cs_localIP_set := True\<rparr>)
              | None \<Rightarrow> Stop s)
       Go"

definition conf_interface :: conf_step where
  "conf_interface = opt_string ''NETWORK'' ''interface'' (\<lambda>v. iface_update (\<lambda>_. Some v))"

definition conf_server_host :: "conf_env \<Rightarrow> conf_step" where
  "conf_server_host env =
     with_value ''NETWORK'' ''server_host''
       (\<lambda>v s. case resolve env v of
                Some a \<Rightarrow> Go (set_config (\<lambda>c. c\<lparr>serverAddr := (serverAddr c)\<lparr>sin_addr := a\<rparr>\<rparr>) s)
              | None \<Rightarrow> Stop s)
       Stop"

definition conf_server_port :: conf_step where
  "conf_server_port =
     opt_number (parser_get_ushort ''NETWORK'' ''server_port'' (-1))
       (\<lambda>p c. c\<lparr>serverAddr := (serverAddr c)\<lparr>sin_port := htons p\<rparr>\<rparr>) (\<lambda>_. True) (\<lambda>_. True)"

definition conf_local_port :: conf_step where
  "conf_local_port =
     opt_number (parser_get_ushort ''NETWORK'' ''local_port'' (-1)) (\<lambda>p. localport_update (\<lambda>_. p)) (\<lambda>_. True) (\<lambda>_. True)"

definition conf_tun_mtu :: conf_step where
  "conf_tun_mtu =
     opt_number (parser_get_int ''NETWORK'' ''tun_mtu'' (-1)) (\<lambda>i. tun_mtu_update (\<lambda>_. i)) (\<lambda>c. \<not> tun_mtu c < 150) (\<lambda>_. True)"

definition conf_send_local :: conf_step where
  "conf_send_local =
     opt_number (parser_get_bool ''NETWORK'' ''use_local_addr'' (-1)) (\<lambda>b. send_local_addr_update (\<lambda>_. b)) (\<lambda>_. True) (\<lambda>_. True)"

text \<open>\<^verbatim>\<open>sscanf(port, "%hu", ...)\<close>: blanks, an optional sign and digits; the C library keeps the low 16 bits.\<close>

definition sscanf_hu :: "string \<Rightarrow> u16 option" where
  "sscanf_hu s = map_option (\<lambda>(neg, m). if neg then - of_nat m else of_nat m) (subject_sequence s)"

definition conf_override_local :: "conf_env \<Rightarrow> conf_step" where
  "conf_override_local env s =
     (if send_local_addr (cs_config s) = 1 then
        with_value ''NETWORK'' ''override_local_addr''
          (\<lambda>v s. if CHR '' '' \<in> set v then
                   (let address = takeWhile (\<lambda>c. c \<noteq> CHR '' '') v; port = dropWhile (\<lambda>c. c \<noteq> CHR '' '') v in
                    case resolve env address of
                      None \<Rightarrow> Stop s
                    | Some a \<Rightarrow>
                        (let s1 = set_config (\<lambda>c. c\<lparr>override_local_addr := (override_local_addr c)\<lparr>sin_addr := a\<rparr>\<rparr>) s in
                         case sscanf_hu port of
                           None \<Rightarrow> Stop s1
                         | Some p \<Rightarrow>
                             Go (set_config (\<lambda>c. c\<lparr>override_local_addr := (override_local_addr c)\<lparr>sin_port := htons p\<rparr>,
                                                   send_local_addr := 2\<rparr>) s1)))
                 else Stop s)
          Go s
      else Go s)"

definition conf_tun_device :: conf_step where
  "conf_tun_device = opt_string ''NETWORK'' ''tun_device'' (\<lambda>v. tun_device_update (\<lambda>_. Some v))"

definition conf_tap_id :: conf_step where
  "conf_tap_id = opt_string ''NETWORK'' ''tap_id'' (\<lambda>v. tap_id_update (\<lambda>_. Some v))"

definition conf_vpn_ip :: "conf_env \<Rightarrow> conf_step" where
  "conf_vpn_ip env =
     with_value ''VPN'' ''vpn_ip''
       (\<lambda>v s. case inet_aton env v of
                Some a \<Rightarrow> Go (set_config (vpnIP_update (\<lambda>_. a)) s)
              | None \<Rightarrow> Stop s)
       Stop"

text \<open>The number after the slash: \<^verbatim>\<open>strtol\<close> must consume all of its one or two characters.\<close>

definition netmask_length :: "string \<Rightarrow> int option" where
  "netmask_length search =
     (if search = [] \<or> length search > 2 then None
      else
        (let s1 = dropWhile is_space search;
             s2 = (case s1 of c # r \<Rightarrow> if c = CHR ''-'' \<or> c = CHR ''+'' then r else s1 | [] \<Rightarrow> s1) in
         if s2 \<noteq> [] \<and> (\<forall>c \<in> set s2. is_digit c) then strtol search else None))"

definition conf_network :: conf_step where
  "conf_network =
     with_value ''VPN'' ''network''
       (\<lambda>v s. let s1 = set_config (network_update (\<lambda>_. Some v)) s in
              if CHR ''/'' \<notin> set v then Stop s1
              else case netmask_length (tl (dropWhile (\<lambda>c. c \<noteq> CHR ''/'') v)) of
                None \<Rightarrow> Stop s1
              | Some mlen \<Rightarrow>
                  (case get_ipv4_broadcast (vpnIP (cs_config s1)) mlen of
                     None \<Rightarrow> Stop s1
                   | Some (bcast, nmask) \<Rightarrow> Go (set_config (\<lambda>c. c\<lparr>vpnBroadcastIP := bcast, vpnNetmask := nmask\<rparr>) s1)))
       Stop"

definition conf_certificate :: conf_step where
  "conf_certificate =
     with_value ''SECURITY'' ''certificate'' (\<lambda>v s. Go (set_config (certificate_pem_update (\<lambda>_. Some v)) s)) Stop"

definition conf_key :: conf_step where
  "conf_key = with_value ''SECURITY'' ''key'' (\<lambda>v s. Go (set_config (key_pem_update (\<lambda>_. Some v)) s)) Stop"

definition conf_ca :: conf_step where
  "conf_ca = opt_string ''SECURITY'' ''ca_certificates'' (\<lambda>v. verif_pem_update (\<lambda>_. Some v))"

definition conf_ca_dir :: conf_step where
  "conf_ca_dir = opt_string ''SECURITY'' ''ca_certificates_dir'' (\<lambda>v. verif_dir_update (\<lambda>_. Some v))"

definition conf_ca_required :: conf_step where
  "conf_ca_required s =
     (if verif_pem (cs_config s) = None \<and> verif_dir (cs_config s) = None then Stop s else Go s)"

definition conf_depth :: conf_step where
  "conf_depth =
     opt_number (parser_get_int ''SECURITY'' ''verify_depth'' (-1)) (\<lambda>i. verify_depth_update (\<lambda>_. i))
       (\<lambda>c. \<not> verify_depth c \<le> 0) (\<lambda>_. True)"

definition conf_ciphers :: conf_step where
  "conf_ciphers = opt_string ''SECURITY'' ''cipher_list'' (\<lambda>v. cipher_list_update (\<lambda>_. Some v))"

definition conf_crl :: conf_step where
  "conf_crl = opt_string ''SECURITY'' ''crl_file'' (\<lambda>v. crl_update (\<lambda>_. Some v))"

definition conf_fifo :: conf_step where
  "conf_fifo =
     opt_number (parser_get_int ''CLIENT'' ''fifo_size'' (-1)) (\<lambda>i. FIFO_size_update (\<lambda>_. i))
       (\<lambda>c. \<not> FIFO_size c \<le> 0) (\<lambda>_. True)"

definition conf_txqueue :: conf_step where
  "conf_txqueue =
     opt_number (parser_get_int ''CLIENT'' ''txqueue'' (-1)) (\<lambda>i. txqueue_update (\<lambda>_. i))
       (\<lambda>c. \<not> txqueue c \<le> 0) (\<lambda>_. True)"

definition conf_tun_one_queue :: conf_step where
  "conf_tun_one_queue =
     opt_number (parser_get_bool ''CLIENT'' ''tun_one_queue'' (-1)) (\<lambda>b. tun_one_queue_update (\<lambda>_. b)) (\<lambda>_. True) (\<lambda>_. True)"

definition conf_client_rate :: "conf_env \<Rightarrow> conf_step" where
  "conf_client_rate env =
     opt_number (parser_get_float (strtof env) ''CLIENT'' ''client_max_rate'' (-1)) (\<lambda>x. tb_client_rate_update (\<lambda>_. x))
       (\<lambda>c. \<not> float_less (tb_client_rate c) (Finite 0)) (\<lambda>v. length v > 0)"

definition conf_connection_rate :: "conf_env \<Rightarrow> conf_step" where
  "conf_connection_rate env =
     opt_number (parser_get_float (strtof env) ''CLIENT'' ''connection_max_rate'' (-1))
       (\<lambda>x. tb_connection_rate_update (\<lambda>_. x)) (\<lambda>c. \<not> float_less (tb_connection_rate c) (Finite 0)) (\<lambda>v. length v > 0)"

definition conf_timeout :: conf_step where
  "conf_timeout =
     opt_number (parser_get_int ''CLIENT'' ''timeout'' (-1)) (\<lambda>i. timeout_update (\<lambda>_. i)) (\<lambda>c. \<not> timeout c < 5) (\<lambda>_. True)"

definition conf_clients_max :: conf_step where
  "conf_clients_max =
     opt_number (parser_get_int ''CLIENT'' ''max_clients'' (-1)) (\<lambda>i. conf_max_clients_update (\<lambda>_. i))
       (\<lambda>c. \<not> conf_max_clients c < 1) (\<lambda>_. True)"

definition conf_keepalive :: conf_step where
  "conf_keepalive =
     opt_number (parser_get_uint ''CLIENT'' ''keepalive'' (-1)) (\<lambda>i. keepalive_update (\<lambda>_. i))
       (\<lambda>c. \<not> keepalive c < 1) (\<lambda>_. True)"

definition conf_search_local :: "conf_env \<Rightarrow> conf_step" where
  "conf_search_local env s =
     (if \<not> cs_localIP_set s then
        (case get_local_IP (getifaddrs env) (iface (cs_config s)) of
           None \<Rightarrow> Stop s
         | Some None \<Rightarrow> Go s
         | Some (Some ip) \<Rightarrow> Go ((set_config (localIP_update (\<lambda>_. ip)) s)\<lparr>cs_localIP_set := True\<rparr>))
      else Go s)"

definition conf_check_local :: conf_step where
  "conf_check_local s =
     (if \<not> cs_localIP_set s then Stop s
      else if send_local_addr (cs_config s) = 1 \<and> localIP (cs_config s) = 0 then Stop s
      else Go s)"

text \<open>\<^verbatim>\<open>MESSAGE_MAX_LENGTH\<close> is an \<^verbatim>\<open>unsigned int\<close>; the bound is compared in 32 bits and stored in 64 bits.\<close>

definition MESSAGE_MAX_LENGTH :: "configuration \<Rightarrow> u32" where
  "MESSAGE_MAX_LENGTH c = word_of_int (tun_mtu c + 200)"

text \<open>The product with the constant is computed in type \<^verbatim>\<open>float\<close> and cast; \<open>None\<close> is a cast without a
  defined value.\<close>

definition bucket_size_for :: "conf_env \<Rightarrow> configuration \<Rightarrow> c_float \<Rightarrow> nat option" where
  "bucket_size_for env c rate =
     map_option (\<lambda>size. if size < unat (3 * MESSAGE_MAX_LENGTH c) then 3 * unat (MESSAGE_MAX_LENGTH c) else size)
       (to_size_t (float_mult (round_float env) (Finite 500) rate))"

definition conf_buckets :: "conf_env \<Rightarrow> conf_step" where
  "conf_buckets env s =
     (let c = cs_config s in
      case (if float_less (Finite 0) (tb_client_rate c)
            then map_option (\<lambda>n. c\<lparr>tb_client_size := n\<rparr>) (bucket_size_for env c (tb_client_rate c)) else Some c) of
        None \<Rightarrow> Fault
      | Some c1 \<Rightarrow>
          (case (if float_less (Finite 0) (tb_connection_rate c1)
                 then map_option (\<lambda>n. c1\<lparr>tb_connection_size := n\<rparr>) (bucket_size_for env c1 (tb_connection_rate c1)) else Some c1) of
             None \<Rightarrow> Fault
           | Some c2 \<Rightarrow> Go (s\<lparr>cs_config := c2\<rparr>)))"

text \<open>The commands of a key, each one expanded.\<close>

fun expand_all :: "string \<Rightarrow> nat list \<Rightarrow> item_section \<Rightarrow> (string list \<times> item_section) option" where
  "expand_all key [] sec = Some ([], sec)"
| "expand_all key (i # is) sec =
     do {
       (_, sec1) \<leftarrow> expand_value (key, i) sec;
       v \<leftarrow> section_value (key, i) sec1;
       (rest, sec2) \<leftarrow> expand_all key is sec1;
       Some (sb_str (v_expanded v) # rest, sec2)
     }"

definition key_commands :: "string \<Rightarrow> item_section \<Rightarrow> (string list \<times> item_section) option" where
  "key_commands key sec =
     (case parser_key_get key sec of
        None \<Rightarrow> Some ([], sec)
      | Some k \<Rightarrow> expand_all key [0..<length (values_list k)] sec)"

definition conf_commands :: "string \<Rightarrow> string \<Rightarrow> (string list \<Rightarrow> configuration \<Rightarrow> configuration) \<Rightarrow> conf_step" where
  "conf_commands default_key key store s =
     (case parser_section_get ''COMMANDS'' (cs_parser s) of
        None \<Rightarrow> Go s
      | Some _ \<Rightarrow>
          (case parser_get_bool ''COMMANDS'' default_key (-1) (cs_parser s) of
             None \<Rightarrow> Fault
           | Some (res, b, item, parser') \<Rightarrow>
               (let s1 = s\<lparr>cs_parser := parser'\<rparr> in
                if res = 1 \<and> b = Some 0 then
                  (case parser_section_get ''COMMANDS'' parser' of
                     None \<Rightarrow> Go s1
                   | Some sec \<Rightarrow>
                       (case key_commands key sec of
                          None \<Rightarrow> Fault
                        | Some (cmds, sec') \<Rightarrow>
                            Go (set_config (store cmds)
                                  (s1\<lparr>cs_parser := update_section ''COMMANDS'' (\<lambda>_. sec') parser'\<rparr>))))
                else Go s1)))"

definition conf_up :: conf_step where
  "conf_up = conf_commands ''default_up'' ''up'' (\<lambda>cmds. exec_up_update (\<lambda>_. Some cmds))"

definition conf_down :: conf_step where
  "conf_down = conf_commands ''default_down'' ''down'' (\<lambda>cmds. exec_down_update (\<lambda>_. Some cmds))"

fun run_steps :: "conf_step list \<Rightarrow> conf_step" where
  "run_steps [] s = Go s"
| "run_steps (f # fs) s = (case f s of Go s' \<Rightarrow> run_steps fs s' | Stop s' \<Rightarrow> Stop s' | Fault \<Rightarrow> Fault)"

definition network_steps :: "conf_env \<Rightarrow> conf_step list" where
  "network_steps env =
     [conf_local_host env, conf_interface, conf_server_host env, conf_server_port, conf_local_port,
      conf_tun_mtu, conf_send_local, conf_override_local env, conf_tun_device, conf_tap_id,
      conf_vpn_ip env, conf_network]"

definition security_steps :: "conf_step list" where
  "security_steps =
     [conf_certificate, conf_key, conf_ca, conf_ca_dir, conf_ca_required, conf_depth, conf_ciphers, conf_crl]"

definition client_steps :: "conf_env \<Rightarrow> conf_step list" where
  "client_steps env =
     [conf_fifo, conf_txqueue, conf_tun_one_queue, conf_client_rate env, conf_connection_rate env,
      conf_timeout, conf_clients_max, conf_keepalive]"

definition final_steps :: "conf_env \<Rightarrow> conf_step list" where
  "final_steps env = [conf_search_local env, conf_check_local, conf_buckets env, conf_up, conf_down]"

text \<open>The result is the return value and the structure as it is afterwards; the file has been opened.\<close>

definition parseConfFile :: "conf_env \<Rightarrow> string \<Rightarrow> configuration \<Rightarrow> (int \<times> configuration) option" where
  "parseConfFile env file c =
     (let parser = parser_read file (parser_init False False);
          s = \<lparr>cs_config = c, cs_parser = parser, cs_localIP_set = False\<rparr> in
      case run_steps (network_steps env @ security_steps @ client_steps env @ final_steps env) s of
        Go s' \<Rightarrow> Some (0, cs_config s')
      | Stop s' \<Rightarrow> Some (-1, cs_config s')
      | Fault \<Rightarrow> None)"

section \<open>What a step keeps\<close>

text \<open>\<open>keeps P f\<close>: a step that goes on preserves the property \<open>P\<close> of the structure; \<open>settles Q f\<close>: it
  goes on only with \<open>Q\<close>.\<close>

definition keeps :: "(configuration \<Rightarrow> bool) \<Rightarrow> conf_step \<Rightarrow> bool" where
  "keeps P f \<longleftrightarrow> (\<forall>s s'. P (cs_config s) \<longrightarrow> f s = Go s' \<longrightarrow> P (cs_config s'))"

definition settles :: "(configuration \<Rightarrow> bool) \<Rightarrow> conf_step \<Rightarrow> bool" where
  "settles Q f \<longleftrightarrow> (\<forall>s s'. f s = Go s' \<longrightarrow> Q (cs_config s'))"

lemma keepsI: "(\<And>s s'. P (cs_config s) \<Longrightarrow> f s = Go s' \<Longrightarrow> P (cs_config s')) \<Longrightarrow> keeps P f"
  unfolding keeps_def by blast

lemma keepsD: "keeps P f \<Longrightarrow> P (cs_config s) \<Longrightarrow> f s = Go s' \<Longrightarrow> P (cs_config s')"
  unfolding keeps_def by blast

lemma settlesI: "(\<And>s s'. f s = Go s' \<Longrightarrow> P (cs_config s')) \<Longrightarrow> settles P f"
  unfolding settles_def by blast

lemma settlesD: "settles P f \<Longrightarrow> f s = Go s' \<Longrightarrow> P (cs_config s')"
  unfolding settles_def by blast

lemma run_steps_append:
  "run_steps (fs @ gs) s = (case run_steps fs s of Go s' \<Rightarrow> run_steps gs s' | Stop s' \<Rightarrow> Stop s' | Fault \<Rightarrow> Fault)"
proof (induction fs arbitrary: s)
  case (Cons f fs)
  then show ?case by (cases "f s") simp_all
qed simp

lemma keeps_run_steps:
  assumes "\<And>f. f \<in> set fs \<Longrightarrow> keeps P f" shows "keeps P (run_steps fs)"
proof (rule keepsI)
  fix s s' assume "P (cs_config s)" "run_steps fs s = Go s'"
  with assms show "P (cs_config s')"
  proof (induction fs arbitrary: s)
    case (Cons f fs)
    then obtain s1 where "f s = Go s1" "run_steps fs s1 = Go s'" by (cases "f s") simp_all
    with Cons keepsD [of P f s s1] show ?case by simp
  qed simp
qed

lemma settles_run_steps:
  assumes "settles Q f" "\<And>g. g \<in> set gs \<Longrightarrow> keeps Q g"
  shows "settles Q (run_steps (fs @ f # gs))"
proof (rule settlesI)
  fix s s' assume r: "run_steps (fs @ f # gs) s = Go s'"
  then obtain s1 where s1: "run_steps (f # gs) s1 = Go s'"
    by (cases "run_steps fs s") (simp_all add: run_steps_append)
  then obtain s2 where "f s1 = Go s2" "run_steps gs s2 = Go s'" by (cases "f s1") simp_all
  with settlesD [OF assms(1)] keepsD [OF keeps_run_steps [OF assms(2)]] show "Q (cs_config s')" by blast
qed

named_theorems keeps_intros \<open>a step keeps or settles a property\<close>

lemma with_value_Go:
  assumes "with_value sec key present absent s = Go s'"
  obtains v p where "present v (s\<lparr>cs_parser := p\<rparr>) = Go s'"
  | p where "absent (s\<lparr>cs_parser := p\<rparr>) = Go s'"
  using assms by (auto simp: with_value_def Let_def split: option.splits)

lemma keeps_with_value [keeps_intros]:
  assumes "\<And>v. keeps P (present v)" "keeps P absent"
  shows "keeps P (with_value sec key present absent)"
proof (rule keepsI)
  fix s s' assume P: "P (cs_config s)" and "with_value sec key present absent s = Go s'"
  from this(2) show "P (cs_config s')"
  proof (cases rule: with_value_Go)
    case (1 v p)
    with assms(1) [of v] P show ?thesis by (intro keepsD [of P "present v" "s\<lparr>cs_parser := p\<rparr>" s']) simp_all
  next
    case (2 p)
    with assms(2) P show ?thesis by (intro keepsD [of P absent "s\<lparr>cs_parser := p\<rparr>" s']) simp_all
  qed
qed

lemma settles_with_value [keeps_intros]:
  assumes "\<And>v. settles P (present v)" "settles P absent"
  shows "settles P (with_value sec key present absent)"
proof (rule settlesI)
  fix s s' assume "with_value sec key present absent s = Go s'"
  then show "P (cs_config s')"
    by (cases rule: with_value_Go) (blast intro: settlesD assms)+
qed

lemma keeps_Go [keeps_intros]: "keeps P Go"
  by (rule keepsI) simp

lemma keeps_Stop [keeps_intros]: "keeps P Stop"
  by (rule keepsI) simp

lemma settles_Stop [keeps_intros]: "settles P Stop"
  by (rule settlesI) simp

lemma keeps_set_config [keeps_intros]: "(\<And>c. P c \<Longrightarrow> P (f c)) \<Longrightarrow> keeps P (\<lambda>s. Go (set_config f s))"
  by (rule keepsI) (auto simp: set_config_def)

lemma keeps_opt_string [keeps_intros]:
  "(\<And>v c. P c \<Longrightarrow> P (store v c)) \<Longrightarrow> keeps P (opt_string sec key store)"
  unfolding opt_string_def by (intro keeps_intros)

text \<open>The getters hand out a number exactly when they return 1, and it is in a range \<open>R\<close>.\<close>

definition getter_ok :: "('v \<Rightarrow> bool) \<Rightarrow> (parser_context \<Rightarrow> 'v get_result option) \<Rightarrow> bool" where
  "getter_ok R g \<longleftrightarrow>
     (\<forall>p r n i p'. g p = Some (r, n, i, p') \<longrightarrow> (case n of None \<Rightarrow> r \<noteq> 1 | Some x \<Rightarrow> r = 1 \<and> R x))"

lemma getter_okI:
  "(\<And>p r n i p'. g p = Some (r, n, i, p') \<Longrightarrow> case n of None \<Rightarrow> r \<noteq> 1 | Some x \<Rightarrow> r = 1 \<and> R x) \<Longrightarrow> getter_ok R g"
  unfolding getter_ok_def by blast

lemma getter_okD:
  "getter_ok R g \<Longrightarrow> g p = Some (r, n, i, p') \<Longrightarrow> case n of None \<Rightarrow> r \<noteq> 1 | Some x \<Rightarrow> r = 1 \<and> R x"
  unfolding getter_ok_def by blast

lemma getter_ok_converted: "(\<And>s x. conv s = Some x \<Longrightarrow> R x) \<Longrightarrow> getter_ok R (get_converted conv sec key n)"
  by (rule getter_okI) (auto simp: get_converted_def bind_eq_Some_conv split: option.splits)

lemma getter_ok_bool: "getter_ok (\<lambda>b. b = 0 \<or> b = 1) (parser_get_bool sec key n)"
  unfolding parser_get_bool_def [abs_def]
  by (rule getter_ok_converted) (auto simp: bool_value_def split: if_splits)

lemma getter_ok_float: "getter_ok (\<lambda>_. True) (parser_get_float conv sec key n)"
  unfolding parser_get_float_def [abs_def] by (rule getter_ok_converted) simp

lemma getter_ok_narrow:
  assumes "getter_ok Q g"
    and "\<And>p. h p = do { (r, tmp, item, p') \<leftarrow> g p;
             (case tmp of
                Some i \<Rightarrow> if inside i then Some (r, Some (conv i), item, p') else Some (0, None, item, p')
              | None \<Rightarrow> Some (r, None, item, p')) }"
    and "\<And>i. inside i \<Longrightarrow> R (conv i)"
  shows "getter_ok R h"
proof (rule getter_okI)
  fix p r n i p' assume h: "h p = Some (r, n, i, p')"
  then obtain r1 n1 i1 p1 where g: "g p = Some (r1, n1, i1, p1)"
    unfolding assms(2) by (cases "g p") auto
  from h g getter_okD [OF assms(1) g] assms(3) show "case n of None \<Rightarrow> r \<noteq> 1 | Some x \<Rightarrow> r = 1 \<and> R x"
    unfolding assms(2) by (cases n1) (auto split: if_splits)
qed

lemma getter_ok_ulong: "getter_ok (\<lambda>_. True) (parser_get_ulong sec key n)"
  unfolding parser_get_ulong_def [abs_def] by (rule getter_ok_converted) simp

lemma getter_ok_long: "getter_ok (\<lambda>_. True) (parser_get_long sec key n)"
  unfolding parser_get_long_def [abs_def] by (rule getter_ok_converted) simp

lemma getter_ok_ushort: "getter_ok (\<lambda>_. True) (parser_get_ushort sec key n)"
  by (rule getter_ok_narrow [OF getter_ok_ulong parser_get_ushort_def]) simp

lemma getter_ok_uint: "getter_ok (\<lambda>_. True) (parser_get_uint sec key n)"
  by (rule getter_ok_narrow [OF getter_ok_ulong parser_get_uint_def]) simp

lemma getter_ok_int: "getter_ok (\<lambda>i. i \<le> 2 ^ 31 - 1 \<and> i \<ge> - (2 ^ 31)) (parser_get_int sec key n)"
  by (rule getter_ok_narrow [OF getter_ok_long, where conv = "\<lambda>i. i"]) (rule parser_get_int_def, assumption)

lemma keeps_opt_number:
  assumes "getter_ok R g" "\<And>i c. P c \<Longrightarrow> R i \<Longrightarrow> valid (store i c) \<Longrightarrow> P (store i c)"
  shows "keeps P (opt_number g store valid bad)"
proof (rule keepsI)
  fix s s' assume P: "P (cs_config s)" and o: "opt_number g store valid bad s = Go s'"
  then obtain r n i p' where g: "g (cs_parser s) = Some (r, n, i, p')"
    by (cases "g (cs_parser s)") (auto simp: opt_number_def)
  from o g getter_okD [OF assms(1) g] P assms(2) [OF P] show "P (cs_config s')"
    by (cases n) (auto simp: opt_number_def Let_def set_config_def split: if_splits)
qed

lemmas keeps_numbers [keeps_intros] =
  keeps_opt_number [OF getter_ok_bool] keeps_opt_number [OF getter_ok_float]
  keeps_opt_number [OF getter_ok_ushort] keeps_opt_number [OF getter_ok_uint]
  keeps_opt_number [OF getter_ok_int]

lemma keeps_commands [keeps_intros]:
  assumes "\<And>l c. P c \<Longrightarrow> P (store l c)" shows "keeps P (conf_commands dk key store)"
  by (rule keepsI) (auto simp: conf_commands_def set_config_def Let_def assms split: option.splits if_splits)

lemmas conf_step_defs = conf_interface_def conf_server_port_def
  conf_local_port_def conf_tun_mtu_def conf_send_local_def conf_tun_device_def
  conf_tap_id_def conf_certificate_def conf_key_def conf_ca_def conf_ca_dir_def
  conf_depth_def conf_ciphers_def conf_crl_def conf_fifo_def conf_txqueue_def
  conf_tun_one_queue_def conf_client_rate_def conf_connection_rate_def conf_timeout_def conf_clients_max_def
  conf_keepalive_def conf_up_def conf_down_def

lemmas conf_list_defs = network_steps_def security_steps_def client_steps_def final_steps_def

text \<open>The steps that are not built from the two patterns.\<close>

lemma keeps_local_host [keeps_intros]:
  "(\<And>a c. P c \<Longrightarrow> P (c\<lparr>localIP := a\<rparr>)) \<Longrightarrow> keeps P (conf_local_host env)"
  unfolding conf_local_host_def
  by (intro keeps_with_value keepsI) (auto simp: set_config_def split: option.splits)

lemma keeps_server_host [keeps_intros]:
  "(\<And>a c. P c \<Longrightarrow> P (c\<lparr>serverAddr := a\<rparr>)) \<Longrightarrow> keeps P (conf_server_host env)"
  unfolding conf_server_host_def
  by (intro keeps_with_value keepsI) (auto simp: set_config_def split: option.splits)

lemma keeps_override_local [keeps_intros]:
  assumes "\<And>a x c. P c \<Longrightarrow> P (c\<lparr>override_local_addr := a, send_local_addr := 2\<rparr>)"
  shows "keeps P (conf_override_local env)"
proof -
  have "keeps P (with_value sec key
      (\<lambda>v s. if CHR '' '' \<in> set v then
               (let address = takeWhile (\<lambda>c. c \<noteq> CHR '' '') v; port = dropWhile (\<lambda>c. c \<noteq> CHR '' '') v in
                case resolve env address of
                  None \<Rightarrow> Stop s
                | Some a \<Rightarrow>
                    (let s1 = set_config (\<lambda>c. c\<lparr>override_local_addr := (override_local_addr c)\<lparr>sin_addr := a\<rparr>\<rparr>) s in
                     case sscanf_hu port of
                       None \<Rightarrow> Stop s1
                     | Some p \<Rightarrow>
                         Go (set_config (\<lambda>c. c\<lparr>override_local_addr := (override_local_addr c)\<lparr>sin_port := htons p\<rparr>,
                                               send_local_addr := 2\<rparr>) s1)))
             else Stop s) Go)" for sec key
    by (intro keeps_with_value keeps_Go keepsI)
      (auto simp: set_config_def Let_def assms split: option.splits if_splits)
  then show ?thesis
    by (intro keepsI) (auto simp: conf_override_local_def split: if_splits dest: keepsD)
qed

lemma keeps_vpn_ip [keeps_intros]:
  "(\<And>a c. P c \<Longrightarrow> P (c\<lparr>vpnIP := a\<rparr>)) \<Longrightarrow> keeps P (conf_vpn_ip env)"
  unfolding conf_vpn_ip_def
  by (intro keeps_with_value keepsI) (auto simp: set_config_def split: option.splits)

lemma keeps_network [keeps_intros]:
  "(\<And>a x y c. P c \<Longrightarrow> P (c\<lparr>network := a, vpnBroadcastIP := x, vpnNetmask := y\<rparr>)) \<Longrightarrow> keeps P conf_network"
  unfolding conf_network_def
  by (intro keeps_with_value keepsI) (auto simp: set_config_def Let_def split: option.splits if_splits)

lemma keeps_ca_required [keeps_intros]: "keeps P conf_ca_required"
  by (rule keepsI) (auto simp: conf_ca_required_def split: if_splits)

lemma keeps_search_local [keeps_intros]:
  "(\<And>a c. P c \<Longrightarrow> P (c\<lparr>localIP := a\<rparr>)) \<Longrightarrow> keeps P (conf_search_local env)"
  by (rule keepsI) (auto simp: conf_search_local_def set_config_def split: if_splits option.splits)

lemma keeps_check_local [keeps_intros]: "keeps P conf_check_local"
  by (rule keepsI) (auto simp: conf_check_local_def split: if_splits)

lemma keeps_buckets [keeps_intros]:
  assumes "\<And>a c. P c \<Longrightarrow> P (c\<lparr>tb_client_size := a\<rparr>)" "\<And>a c. P c \<Longrightarrow> P (c\<lparr>tb_connection_size := a\<rparr>)"
  shows "keeps P (conf_buckets env)"
  by (rule keepsI) (auto simp: conf_buckets_def Let_def assms split: if_splits option.splits)

section \<open>Accepted configurations\<close>

text \<open>The ranges that the checks of the file and the default values give.\<close>

definition config_ranges :: "configuration \<Rightarrow> bool" where
  "config_ranges c \<longleftrightarrow>
     150 \<le> tun_mtu c \<and> tun_mtu c < 2 ^ 31 \<and> 0 < FIFO_size c \<and> FIFO_size c < 2 ^ 31 \<and>
     5 \<le> timeout c \<and> 1 \<le> conf_max_clients c \<and> keepalive c \<noteq> 0 \<and> 0 \<le> verify_depth c \<and>
     \<not> float_less (tb_client_rate c) (Finite 0) \<and> \<not> float_less (tb_connection_rate c) (Finite 0) \<and> send_local_addr c \<in> {0, 1, 2}"

lemma config_ranges_init: "config_ranges initConfig"
  by (simp add: config_ranges_def initConfig_def)

definition all_steps :: "conf_env \<Rightarrow> conf_step list" where
  "all_steps env = network_steps env @ security_steps @ client_steps env @ final_steps env"

lemma ranges_kept: "list_all (keeps config_ranges) (all_steps env)"
  unfolding all_steps_def conf_list_defs list_all_append list.pred_inject conf_step_defs
  by (intro conjI keeps_intros; auto simp: config_ranges_def)

lemma keeps_all: "list_all (keeps P) fs \<Longrightarrow> f \<in> set fs \<Longrightarrow> keeps P f"
  by (simp add: list_all_iff)

text \<open>What single steps establish.\<close>

definition credentials_given :: "configuration \<Rightarrow> bool" where
  "credentials_given c \<longleftrightarrow>
     certificate_pem c \<noteq> None \<and> key_pem c \<noteq> None \<and> (verif_pem c \<noteq> None \<or> verif_dir c \<noteq> None)"

definition network_given :: "configuration \<Rightarrow> bool" where
  "network_given c \<longleftrightarrow> network c \<noteq> None \<and>
     (\<exists>n. get_ipv4_broadcast (vpnIP c) n = Some (vpnBroadcastIP c, vpnNetmask c))"

definition local_given :: "configuration \<Rightarrow> bool" where
  "local_given c \<longleftrightarrow> send_local_addr c = 1 \<longrightarrow> localIP c \<noteq> 0"

text \<open>A rate that is greater than zero is finite and has its bucket; any other rate, no number among
  them, has none.\<close>

definition bucket_given :: "conf_env \<Rightarrow> configuration \<Rightarrow> c_float \<Rightarrow> nat \<Rightarrow> bool" where
  "bucket_given env c rate sz \<longleftrightarrow>
     (if float_less (Finite 0) rate then bucket_size_for env c rate = Some sz else sz = 0)"

definition buckets_given :: "conf_env \<Rightarrow> configuration \<Rightarrow> bool" where
  "buckets_given env c \<longleftrightarrow>
     bucket_given env c (tb_client_rate c) (tb_client_size c) \<and>
     bucket_given env c (tb_connection_rate c) (tb_connection_size c)"

definition no_buckets :: "configuration \<Rightarrow> bool" where
  "no_buckets c \<longleftrightarrow> tb_client_size c = 0 \<and> tb_connection_size c = 0"

lemma bucket_size_for_cong: "tun_mtu c = tun_mtu c' \<Longrightarrow> bucket_size_for env c = bucket_size_for env c'"
proof -
  assume "tun_mtu c = tun_mtu c'"
  then have "MESSAGE_MAX_LENGTH c = MESSAGE_MAX_LENGTH c'" by (simp add: MESSAGE_MAX_LENGTH_def)
  then show ?thesis unfolding bucket_size_for_def by presburger
qed

lemma network_settled: "settles network_given (run_steps (all_steps env))"
proof -
  have "settles network_given conf_network"
    unfolding conf_network_def
    by (intro settles_with_value settles_Stop settlesI)
      (auto simp: network_given_def set_config_def Let_def split: option.splits if_splits)
  moreover have "list_all (keeps network_given) (security_steps @ client_steps env @ final_steps env)"
    unfolding conf_list_defs list_all_append list.pred_inject conf_step_defs
    by (intro conjI keeps_intros; simp add: network_given_def)
  ultimately have "settles network_given (run_steps (butlast (network_steps env) @ conf_network #
      (security_steps @ client_steps env @ final_steps env)))"
    using keeps_all by (intro settles_run_steps) blast+
  then show ?thesis by (simp add: all_steps_def network_steps_def)
qed

lemma credentials_settled: "settles credentials_given (run_steps (all_steps env))"
proof -
  let ?C = "\<lambda>c. certificate_pem c \<noteq> None" and ?K = "\<lambda>c. key_pem c \<noteq> None"
    and ?V = "\<lambda>c. verif_pem c \<noteq> None \<or> verif_dir c \<noteq> None"
  let ?rest = "client_steps env @ final_steps env"
  have c: "settles ?C conf_certificate" "settles ?K conf_key" "settles ?V conf_ca_required"
    unfolding conf_certificate_def conf_key_def
    by (intro settles_with_value settles_Stop settlesI; simp add: set_config_def)+
      (auto intro!: settlesI simp: conf_ca_required_def split: if_splits)
  have r: "list_all (keeps ?C) (tl security_steps @ ?rest)" "list_all (keeps ?K) (drop 2 security_steps @ ?rest)"
    "list_all (keeps ?V) (drop 5 security_steps @ ?rest)"
    unfolding conf_list_defs
    by (simp_all only: list.sel drop_Suc_Cons numeral_2_eq_2 numeral_eq_Suc pred_numeral_simps BitM.simps
        arith_simps drop_0 list_all_append list.pred_inject conf_step_defs)
      (intro conjI keeps_intros; simp)+
  have "settles ?C (run_steps (network_steps env @ conf_certificate # (tl security_steps @ ?rest)))"
    "settles ?K (run_steps ((network_steps env @ [conf_certificate]) @ conf_key # (drop 2 security_steps @ ?rest)))"
    "settles ?V (run_steps ((network_steps env @ take 4 security_steps) @ conf_ca_required # (drop 5 security_steps @ ?rest)))"
    using c r keeps_all by (blast intro: settles_run_steps)+
  then have "settles ?C (run_steps (all_steps env))" "settles ?K (run_steps (all_steps env))"
    "settles ?V (run_steps (all_steps env))"
    by (simp_all add: all_steps_def security_steps_def)
  then show ?thesis by (simp add: settles_def credentials_given_def)
qed

lemma local_settled: "settles local_given (run_steps (all_steps env))"
proof -
  have "settles local_given conf_check_local"
    by (rule settlesI) (auto simp: conf_check_local_def local_given_def split: if_splits)
  moreover have "list_all (keeps local_given) [conf_buckets env, conf_up, conf_down]"
    unfolding list.pred_inject conf_up_def conf_down_def
    by (intro conjI keeps_intros; simp add: local_given_def)
  ultimately have "settles local_given (run_steps ((network_steps env @ security_steps @ client_steps env @
      [conf_search_local env]) @ conf_check_local # [conf_buckets env, conf_up, conf_down]))"
    using keeps_all by (intro settles_run_steps) blast+
  then show ?thesis by (simp add: all_steps_def final_steps_def)
qed

lemma bucket_given_cong: "tun_mtu c = tun_mtu c' \<Longrightarrow> bucket_given env c = bucket_given env c'"
  using bucket_size_for_cong [of c c' env] by (simp add: bucket_given_def fun_eq_iff)

lemma conf_buckets_gives:
  assumes "no_buckets (cs_config s)" "conf_buckets env s = Go s'"
  shows "buckets_given env (cs_config s')"
proof -
  let ?c = "cs_config s"
  have e: "bucket_size_for env (?c\<lparr>tb_client_size := n\<rparr>) = bucket_size_for env ?c"
    "bucket_size_for env (?c\<lparr>tb_connection_size := m\<rparr>) = bucket_size_for env ?c"
    "bucket_size_for env (?c\<lparr>tb_client_size := n, tb_connection_size := m\<rparr>) = bucket_size_for env ?c" for n m
    by (rule bucket_size_for_cong, simp)+
  show ?thesis using assms unfolding buckets_given_def
    by (auto simp: conf_buckets_def e no_buckets_def Let_def bucket_given_def split: if_splits option.splits)
qed

lemma buckets_settled:
  assumes "run_steps (all_steps env) s = Go s'" "no_buckets (cs_config s)"
  shows "buckets_given env (cs_config s')"
proof -
  let ?pre = "network_steps env @ security_steps @ client_steps env @ [conf_search_local env, conf_check_local]"
  have "list_all (keeps no_buckets) ?pre"
    unfolding conf_list_defs list_all_append list.pred_inject conf_step_defs
    by (intro conjI keeps_intros; simp add: no_buckets_def)
  then have pre: "keeps no_buckets (run_steps ?pre)" using keeps_all by (intro keeps_run_steps) blast
  have post: "list_all (keeps (buckets_given env)) [conf_up, conf_down]"
    unfolding list.pred_inject conf_up_def conf_down_def
  proof (intro conjI keeps_intros)
    fix l c assume b: "buckets_given env c"
    have e: "bucket_given env (c\<lparr>exec_up := Some l\<rparr>) = bucket_given env c"
      "bucket_given env (c\<lparr>exec_down := Some l\<rparr>) = bucket_given env c"
      by (rule bucket_given_cong, simp)+
    from b e show "buckets_given env (c\<lparr>exec_up := Some l\<rparr>)" "buckets_given env (c\<lparr>exec_down := Some l\<rparr>)"
      by (simp_all add: buckets_given_def)
  qed simp
  have "all_steps env = ?pre @ conf_buckets env # [conf_up, conf_down]" by (simp add: all_steps_def final_steps_def)
  with assms(1) obtain s1 s2 where s1: "run_steps ?pre s = Go s1" and s2: "conf_buckets env s1 = Go s2"
    and s': "run_steps [conf_up, conf_down] s2 = Go s'"
    by (simp only: run_steps_append run_steps.simps(2) [of "conf_buckets env"]) (auto split: conf_out.splits)
  have "keeps (buckets_given env) (run_steps [conf_up, conf_down])"
    using post keeps_all by (intro keeps_run_steps) blast
  moreover have "buckets_given env (cs_config s2)"
    by (rule conf_buckets_gives [OF keepsD [OF pre assms(2) s1] s2])
  ultimately show ?thesis using s' by (rule keepsD)
qed

text \<open>A bucket holds at least three packets of the maximal length.\<close>

lemma bucket_size_for_bound:
  assumes "0 \<le> tun_mtu c" "tun_mtu c < 2 ^ 30" "bucket_size_for env c rate = Some sz"
  shows "sz \<ge> 3 * nat (tun_mtu c + 200)"
proof -
  let ?n = "tun_mtu c + 200"
  have "uint (word_of_int ?n :: u32) = ?n mod 2 ^ LENGTH(32)" by (rule uint_word_of_int)
  then have ui: "uint (MESSAGE_MAX_LENGTH c) = ?n"
    using assms by (simp only: MESSAGE_MAX_LENGTH_def) simp
  then have u: "unat (MESSAGE_MAX_LENGTH c) = nat ?n" by (metis unat_eq_nat_uint)
  have "uint (3 * MESSAGE_MAX_LENGTH c) = (uint (3 :: u32) * ?n) mod 2 ^ LENGTH(32)"
    unfolding uint_word_arith_bintrs(3) ui take_bit_eq_mod ..
  then have "uint (3 * MESSAGE_MAX_LENGTH c) = 3 * ?n" using assms by simp
  then have "unat (3 * MESSAGE_MAX_LENGTH c) = 3 * nat ?n"
    using assms by (metis unat_eq_nat_uint nat_mult_distrib nat_numeral zero_le_numeral)
  with u assms(3) show ?thesis by (auto simp: bucket_size_for_def split: if_splits)
qed

lemma bucket_given_use:
  assumes "bucket_given env c rate sz" "0 \<le> tun_mtu c"
  shows "if float_less (Finite 0) rate
    then (\<exists>r > 0. rate = Finite r) \<and> (tun_mtu c < 2 ^ 30 \<longrightarrow> sz \<ge> 3 * nat (tun_mtu c + 200)) else sz = 0"
proof (cases "float_less (Finite 0) rate")
  case True
  with assms(1) obtain k where k: "to_size_t (float_mult (round_float env) (Finite 500) rate) = Some k"
    and sz: "bucket_size_for env c rate = Some sz" by (auto simp: bucket_given_def bucket_size_for_def)
  obtain r where "rate = Finite r" "0 < r" by (rule castable_product [OF k _ True]) simp_all
  with True bucket_size_for_bound [OF assms(2) _ sz] show ?thesis by auto
qed (use assms(1) in \<open>simp add: bucket_given_def\<close>)

text \<open>C12. A configuration file that is accepted yields a sane configuration, whatever the file contains:
  all integers are in their ranges, a certificate, a key and a way to verify certificates are given,
  the broadcast address and the netmask belong to the VPN address, and a local address is known when
  it is to be published. A rate is not below zero, but it may be no number at all, which the test
  for negative rates does not notice: a rate that is greater than zero is finite and its rate
  limiter has room for at least three packets of maximal length (for an MTU below \<open>2 ^ 30\<close>), and any
  other rate, zero or no number, leaves its limiter without a bucket, that is switched off.\<close>

theorem accepted_configuration:
  assumes "parseConfFile env file initConfig = Some (0, c)"
  shows "config_ranges c \<and> credentials_given c \<and> network_given c \<and> local_given c \<and>
    (\<forall>(rate, sz) \<in> {(tb_client_rate c, tb_client_size c), (tb_connection_rate c, tb_connection_size c)}.
       if float_less (Finite 0) rate
       then (\<exists>r > 0. rate = Finite r) \<and> (tun_mtu c < 2 ^ 30 \<longrightarrow> sz \<ge> 3 * nat (tun_mtu c + 200))
       else sz = 0)"
proof -
  let ?s = "\<lparr>cs_config = initConfig, cs_parser = parser_read file (parser_init False False), cs_localIP_set = False\<rparr>"
  from assms obtain s' where r: "run_steps (all_steps env) ?s = Go s'" and c: "c = cs_config s'"
    by (auto simp: parseConfFile_def Let_def all_steps_def split: conf_out.splits)
  have "keeps config_ranges (run_steps (all_steps env))"
    by (rule keeps_run_steps) (rule keeps_all [OF ranges_kept])
  with r have ranges: "config_ranges c" unfolding c by (rule keepsD [rotated 2]) (simp add: config_ranges_init)
  moreover have "credentials_given c" "network_given c" "local_given c"
    unfolding c using r settlesD [OF credentials_settled] settlesD [OF network_settled]
      settlesD [OF local_settled] by blast+
  moreover have "buckets_given env c"
    unfolding c by (rule buckets_settled [OF r]) (simp add: no_buckets_def initConfig_def)
  then have b: "bucket_given env c (tb_client_rate c) (tb_client_size c)"
    "bucket_given env c (tb_connection_rate c) (tb_connection_size c)" by (simp_all add: buckets_given_def)
  have "0 \<le> tun_mtu c" using ranges by (simp add: config_ranges_def)
  with bucket_given_use [OF b(1)] bucket_given_use [OF b(2)] have
    "\<forall>(rate, sz) \<in> {(tb_client_rate c, tb_client_size c), (tb_connection_rate c, tb_connection_size c)}.
       if float_less (Finite 0) rate
       then (\<exists>r > 0. rate = Finite r) \<and> (tun_mtu c < 2 ^ 30 \<longrightarrow> sz \<ge> 3 * nat (tun_mtu c + 200)) else sz = 0"
    by auto
  ultimately show ?thesis by blast
qed

text \<open>The file sets the rate of the client to no number.\<close>

definition demo_env :: conf_env where
  "demo_env = \<lparr>inet_aton = (\<lambda>v. if v = ''10.0.0.1'' then Some 0x0100000A else None), gethostbyname = (\<lambda>_. None),
     getifaddrs = Some [], strtof = (\<lambda>v. if v = ''nan'' then Some NaN else None), round_float = Finite\<rparr>"

definition demo_file :: string where
  "demo_file = ''[NETWORK]'' @ [LF] @ ''local_host = 10.0.0.1'' @ [LF] @ ''server_host = 10.0.0.1'' @ [LF] @
     ''tun_mtu=1400'' @ [LF] @ ''[VPN]'' @ [LF] @ ''vpn_ip = 10.0.0.1'' @ [LF] @ ''network = 10.0.0.0/24'' @ [LF] @
     ''[SECURITY]'' @ [LF] @ ''certificate = c'' @ [LF] @ ''key = k'' @ [LF] @ ''ca_certificates = a'' @ [LF] @
     ''[CLIENT]'' @ [LF] @ ''client_max_rate = nan'' @ [LF]"

lemma demo_parse: "map_option (\<lambda>(r, c). (r, tb_client_rate c)) (parseConfFile demo_env demo_file initConfig) = Some (0, NaN)"
  by code_simp

lemma demo_iface: "map_option (\<lambda>(r, c). iface c) (parseConfFile demo_env demo_file initConfig) = Some None"
  by code_simp

theorem accepted_configuration_witness:
  "\<exists>c. parseConfFile demo_env demo_file initConfig = Some (0, c) \<and> config_ranges c \<and> credentials_given c \<and>
     network_given c \<and> local_given c \<and> tb_client_rate c = NaN \<and> tb_client_size c = 0"
proof -
  from demo_parse obtain c where c: "parseConfFile demo_env demo_file initConfig = Some (0, c)" and n: "tb_client_rate c = NaN" by auto
  from accepted_configuration [OF c] c n show ?thesis by simp
qed

section \<open>Netmask and broadcast address\<close>

text \<open>The netmask of a prefix length \<open>n\<close> has, in host byte order, exactly the \<open>n\<close> highest bits set, and
  the broadcast address has the network bits of the VPN address and all host bits set, for every
  \<open>n\<close> from 0 to 32; any other length is an error.\<close>

theorem get_ipv4_broadcast_bits:
  "(n < 0 \<or> n > 32 \<longrightarrow> get_ipv4_broadcast ip n = None) \<and>
   (0 \<le> n \<and> n \<le> 32 \<longrightarrow>
     (\<exists>bcast netmask. get_ipv4_broadcast ip n = Some (bcast, netmask) \<and>
        (\<forall>i < 32. (bit (ntohl netmask) i \<longleftrightarrow> 32 - nat n \<le> i) \<and>
                  (bit (ntohl bcast) i \<longleftrightarrow> bit (ntohl ip) i \<or> i < 32 - nat n))))"
proof (intro conjI impI)
  assume n: "0 \<le> n \<and> n \<le> 32"
  let ?h = "if n = 32 then 0xffffffff else NOT (drop_bit (nat n) (0xffffffff :: u32))"
  have m: "(0xffffffff :: u32) = mask 32" by (simp add: mask_eq_exp_minus_1)
  have h: "bit ?h i \<longleftrightarrow> 32 - nat n \<le> i" if "i < 32" for i
    using that n unfolding m by (auto simp: bit_simps nat_le_iff)
  have "get_ipv4_broadcast ip n = Some ((ip AND htonl ?h) OR NOT (htonl ?h), htonl ?h)"
    using n by (simp add: get_ipv4_broadcast_def Let_def)
  moreover have "bit (ntohl ((ip AND htonl ?h) OR NOT (htonl ?h))) i \<longleftrightarrow> bit (ntohl ip) i \<or> i < 32 - nat n"
    if "i < 32" for i
    unfolding ntohl_or ntohl_and ntohl_not ntohl_ntohl using that h [OF that] by (auto simp: bit_simps)
  ultimately show "\<exists>bcast netmask. get_ipv4_broadcast ip n = Some (bcast, netmask) \<and>
      (\<forall>i < 32. (bit (ntohl netmask) i \<longleftrightarrow> 32 - nat n \<le> i) \<and>
                (bit (ntohl bcast) i \<longleftrightarrow> bit (ntohl ip) i \<or> i < 32 - nat n))"
    using h by (auto simp: ntohl_ntohl)
qed (simp add: get_ipv4_broadcast_def)

theorem get_ipv4_broadcast_bits_witness:
  "get_ipv4_broadcast 0x0100000A 33 = None \<and>
   (\<exists>bcast netmask. get_ipv4_broadcast 0x0100000A 24 = Some (bcast, netmask) \<and> bit (ntohl netmask) 8 \<and> \<not> bit (ntohl netmask) 7)"
  using get_ipv4_broadcast_bits [of 33 "0x0100000A"] get_ipv4_broadcast_bits [of 24 "0x0100000A"] by fastforce

end
