(* ===== verification/Dtls_Context.thy ===== *)
theory Dtls_Context
  imports Client_Config
begin

text \<open>
  The DTLS contexts of the client (\<^verbatim>\<open>client/dtls_utils.c\<close>): \<^verbatim>\<open>createContext\<close> with all its
  failure paths, the creation, replacement and destruction of the pair of contexts, and the
  decision of the certificate callback. OpenSSL is not part of the program: the outcome of
  each of its calls is a parameter, and a context is the record of the settings the program
  makes on it. The heap holds the contexts on which the program owns a reference;
  \<^verbatim>\<open>SSL_CTX_free\<close> gives that reference up, and giving it up twice is a fault.
\<close>

section \<open>Data\<close>

record ssl_ctx =
  cx_is_client :: bool
  cx_verify_peer :: bool
  cx_fail_if_no_cert :: bool
  cx_verify_depth :: "int option"
  cx_crl_file :: "string option"
  cx_crl_check :: bool
  cx_info_callback :: bool
  cx_read_ahead :: bool
  cx_no_compression :: bool
  cx_ciphers :: "string option"
  cx_client_CA :: "string option"

text \<open>What the calls of one \<^verbatim>\<open>createContext\<close> return. The code does not look at the results of the last
  three: whether \<^verbatim>\<open>X509_STORE_add_lookup\<close> gives a lookup, whether \<^verbatim>\<open>X509_load_crl_file\<close> loads the
  revocation list, and whether \<^verbatim>\<open>SSL_load_client_CA_file\<close> gives a list of names.\<close>

record ctx_calls =
  cc_new :: allocator
  cc_certificate :: bool
  cc_private_key :: bool
  cc_verify_locations :: bool
  cc_check_private_key :: bool
  cc_cipher_list :: bool
  cc_add_lookup :: bool
  cc_load_crl :: bool
  cc_client_CA_file :: bool

record dtls_state =
  ctx_heap :: "ssl_ctx heap"
  campagnol_ctx_client :: "ptr option"
  campagnol_ctx_server :: "ptr option"

section \<open>Operations\<close>

datatype x509_error = X509_V_ERR_UNABLE_TO_GET_ISSUER_CERT | X509_V_ERR_CRL_HAS_EXPIRED | X509_V_OTHER

definition verify_callback :: "bool \<Rightarrow> x509_error \<Rightarrow> bool" where
  "verify_callback ok err =
     (if \<not> ok then
        (case err of
           X509_V_ERR_UNABLE_TO_GET_ISSUER_CERT \<Rightarrow> ok
         | X509_V_ERR_CRL_HAS_EXPIRED \<Rightarrow> True
         | X509_V_OTHER \<Rightarrow> ok)
      else ok)"

definition SSL_CTX_free :: "ptr \<Rightarrow> dtls_state \<Rightarrow> dtls_state option" where
  "SSL_CTX_free p s = do { _ \<leftarrow> ctx_heap s p; Some (s\<lparr>ctx_heap := (ctx_heap s)(p := None)\<rparr>) }"

text \<open>The error exits: free the context and return the null pointer.\<close>

definition ctx_fail :: "ptr \<Rightarrow> dtls_state \<Rightarrow> (ptr option \<times> dtls_state) option" where
  "ctx_fail p s = do { s' \<leftarrow> SSL_CTX_free p s; Some (None, s') }"

definition set_ctx :: "ptr \<Rightarrow> (ssl_ctx \<Rightarrow> ssl_ctx) \<Rightarrow> dtls_state \<Rightarrow> dtls_state option" where
  "set_ctx p f s = do { c \<leftarrow> ctx_heap s p; Some (s\<lparr>ctx_heap := (ctx_heap s)(p \<mapsto> f c)\<rparr>) }"

definition fresh_ctx :: "bool \<Rightarrow> ssl_ctx" where
  "fresh_ctx is_client =
     \<lparr>cx_is_client = is_client, cx_verify_peer = False, cx_fail_if_no_cert = False,
      cx_verify_depth = None, cx_crl_file = None, cx_crl_check = False, cx_info_callback = False,
      cx_read_ahead = False, cx_no_compression = False, cx_ciphers = None, cx_client_CA = None\<rparr>"

text \<open>A lookup that is the null pointer is passed on to \<^verbatim>\<open>X509_load_crl_file\<close>, which follows it: a fault.
  The check of revocation lists is switched on whether or not the list was loaded.\<close>

definition createContext :: "configuration \<Rightarrow> ctx_calls \<Rightarrow> bool \<Rightarrow> dtls_state \<Rightarrow> (ptr option \<times> dtls_state) option" where
  "createContext config calls is_client s =
     (case cc_new calls (allocated (ctx_heap s)) of
        None \<Rightarrow> Some (None, s)
      | Some ctx \<Rightarrow>
          (let s1 = s\<lparr>ctx_heap := (ctx_heap s)(ctx \<mapsto> fresh_ctx is_client)\<rparr> in
           if \<not> cc_certificate calls then ctx_fail ctx s1
           else if \<not> cc_private_key calls then ctx_fail ctx s1
           else do {
             s2 \<leftarrow> set_ctx ctx (\<lambda>c. c\<lparr>cx_verify_peer := True, cx_fail_if_no_cert := True\<rparr>) s1;
             s3 \<leftarrow> (if verify_depth config > 0
                    then set_ctx ctx (\<lambda>c. c\<lparr>cx_verify_depth := Some (verify_depth config)\<rparr>) s2
                    else Some s2);
             if \<not> cc_verify_locations calls then ctx_fail ctx s3
             else do {
               s4 \<leftarrow> (case crl config of
                        Some f \<Rightarrow>
                          (if \<not> cc_add_lookup calls then None
                           else set_ctx ctx (\<lambda>c. c\<lparr>cx_crl_file := (if cc_load_crl calls then Some f else None),
                                                  cx_crl_check := True\<rparr>) s3)
                      | None \<Rightarrow> Some s3);
               if \<not> cc_check_private_key calls then ctx_fail ctx s4
               else do {
                 s5 \<leftarrow> (if debug config \<noteq> 0 then set_ctx ctx (\<lambda>c. c\<lparr>cx_info_callback := True\<rparr>) s4 else Some s4);
                 s6 \<leftarrow> set_ctx ctx (\<lambda>c. c\<lparr>cx_read_ahead := True, cx_no_compression := True\<rparr>) s5;
                 if cipher_list config \<noteq> None \<and> \<not> cc_cipher_list calls then ctx_fail ctx s6
                 else do {
                   s7 \<leftarrow> (if cipher_list config \<noteq> None
                          then set_ctx ctx (\<lambda>c. c\<lparr>cx_ciphers := cipher_list config\<rparr>) s6 else Some s6);
                   s8 \<leftarrow> (if \<not> is_client then set_ctx ctx (\<lambda>c. c\<lparr>cx_client_CA := (if cc_client_CA_file calls then verif_pem config else None)\<rparr>) s7
                          else Some s7);
                   Some (Some ctx, s8)
                 }
               }
             }
           }))"

definition initDTLS :: "configuration \<Rightarrow> ctx_calls \<Rightarrow> ctx_calls \<Rightarrow> dtls_state \<Rightarrow> (int \<times> dtls_state) option" where
  "initDTLS config calls1 calls2 s =
     do {
       (c, s1) \<leftarrow> createContext config calls1 True s;
       let s2 = s1\<lparr>campagnol_ctx_client := c\<rparr>;
       (case c of
          None \<Rightarrow> Some (-1, s2)
        | Some cp \<Rightarrow> do {
            (v, s3) \<leftarrow> createContext config calls2 False s2;
            let s4 = s3\<lparr>campagnol_ctx_server := v\<rparr>;
            (case v of
               None \<Rightarrow> do { s5 \<leftarrow> SSL_CTX_free cp s4; Some (-1, s5) }
             | Some _ \<Rightarrow> Some (0, s4))
          })
     }"

definition clearDTLS :: "dtls_state \<Rightarrow> dtls_state option" where
  "clearDTLS s = do {
     c \<leftarrow> campagnol_ctx_client s; s1 \<leftarrow> SSL_CTX_free c s;
     v \<leftarrow> campagnol_ctx_server s1; SSL_CTX_free v s1 }"

text \<open>Both halves of \<^verbatim>\<open>rebuildDTLS\<close>: a new context replaces the old one, or nothing changes.\<close>

definition rebuild_client :: "configuration \<Rightarrow> ctx_calls \<Rightarrow> dtls_state \<Rightarrow> (bool \<times> dtls_state) option" where
  "rebuild_client config calls s =
     do {
       (tmp, s1) \<leftarrow> createContext config calls True s;
       (case tmp of
          None \<Rightarrow> Some (False, s1)
        | Some _ \<Rightarrow> do { old \<leftarrow> campagnol_ctx_client s1; s2 \<leftarrow> SSL_CTX_free old s1;
                        Some (True, s2\<lparr>campagnol_ctx_client := tmp\<rparr>) })
     }"

definition rebuild_server :: "configuration \<Rightarrow> ctx_calls \<Rightarrow> dtls_state \<Rightarrow> (bool \<times> dtls_state) option" where
  "rebuild_server config calls s =
     do {
       (tmp, s1) \<leftarrow> createContext config calls False s;
       (case tmp of
          None \<Rightarrow> Some (False, s1)
        | Some _ \<Rightarrow> do { old \<leftarrow> campagnol_ctx_server s1; s2 \<leftarrow> SSL_CTX_free old s1;
                        Some (True, s2\<lparr>campagnol_ctx_server := tmp\<rparr>) })
     }"

definition rebuildDTLS :: "configuration \<Rightarrow> ctx_calls \<Rightarrow> ctx_calls \<Rightarrow> dtls_state \<Rightarrow> (int \<times> dtls_state) option" where
  "rebuildDTLS config calls1 calls2 s =
     do {
       (ok, s1) \<leftarrow> rebuild_client config calls1 s;
       if \<not> ok then Some (-1, s1)
       else do {
         (ok2, s2) \<leftarrow> rebuild_server config calls2 s1;
         if \<not> ok2 then Some (-1, s2) else Some (0, s2)
       }
     }"

section \<open>A context that is handed out\<close>

text \<open>The settings that the program makes. Those that rest on a file whose loading the code does not
  check are only certain when they were loaded, which is what \<open>loaded\<close> says.\<close>

definition ctx_secure :: "configuration \<Rightarrow> bool \<Rightarrow> bool \<Rightarrow> ssl_ctx \<Rightarrow> bool" where
  "ctx_secure config loaded is_client c \<longleftrightarrow>
     cx_is_client c = is_client \<and> cx_verify_peer c \<and> cx_fail_if_no_cert c \<and>
     cx_verify_depth c = (if verify_depth config > 0 then Some (verify_depth config) else None) \<and>
     cx_crl_check c = (crl config \<noteq> None) \<and>
     cx_read_ahead c \<and> cx_no_compression c \<and> cx_ciphers c = cipher_list config \<and>
     cx_crl_file c \<in> {None, crl config} \<and> cx_client_CA c \<in> {None, verif_pem config} \<and>
     (loaded \<longrightarrow> cx_crl_file c = crl config \<and> cx_client_CA c = (if is_client then None else verif_pem config))"

text \<open>What the calls must not do: the allocator hands out no context twice, and the lookup for a
  revocation list is not the null pointer; and what they do when everything is loaded.\<close>

definition calls_sound :: "configuration \<Rightarrow> bool \<Rightarrow> ctx_calls \<Rightarrow> bool" where
  "calls_sound config loaded calls \<longleftrightarrow> malloc_fresh (cc_new calls) \<and> (crl config \<noteq> None \<longrightarrow> cc_add_lookup calls) \<and>
     (loaded \<longrightarrow> cc_load_crl calls \<and> cc_client_CA_file calls)"

definition calls_succeed :: "configuration \<Rightarrow> ctx_calls \<Rightarrow> bool" where
  "calls_succeed config calls \<longleftrightarrow> cc_certificate calls \<and> cc_private_key calls \<and>
     cc_verify_locations calls \<and> cc_check_private_key calls \<and>
     (cipher_list config \<noteq> None \<longrightarrow> cc_cipher_list calls)"

lemma set_ctx_at:
  "ctx_heap s p = Some c \<Longrightarrow> set_ctx p f s = Some (s\<lparr>ctx_heap := (ctx_heap s)(p \<mapsto> f c)\<rparr>)"
  by (simp add: set_ctx_def)

lemma ctx_fail_at:
  "ctx_heap s p \<noteq> None \<Longrightarrow> ctx_fail p s = Some (None, s\<lparr>ctx_heap := (ctx_heap s)(p := None)\<rparr>)"
  by (auto simp: ctx_fail_def SSL_CTX_free_def)

text \<open>With such calls \<^verbatim>\<open>createContext\<close> does not fault; it returns a new context with every setting made, or no
  context and no change at all.\<close>

lemma createContext_cases:
  assumes sound: "calls_sound config loaded calls"
  obtains
    (created) p c where "createContext config calls is_client s =
        Some (Some p, s\<lparr>ctx_heap := (ctx_heap s)(p \<mapsto> c)\<rparr>)"
      "ctx_heap s p = None" "ctx_secure config loaded is_client c" "calls_succeed config calls"
  | (failed) "createContext config calls is_client s = Some (None, s)"
      "cc_new calls (allocated (ctx_heap s)) = None \<or> \<not> calls_succeed config calls"
proof (cases "cc_new calls (allocated (ctx_heap s))")
  case None
  then show thesis by (intro failed) (simp_all add: createContext_def)
next
  case (Some p)
  then have p: "ctx_heap s p = None" using malloc_freshD [of "cc_new calls"] sound by (fastforce simp: calls_sound_def)
  then have id: "s\<lparr>ctx_heap := (ctx_heap s)(p := None)\<rparr> = s"
    by (metis fun_upd_triv dtls_state.surjective dtls_state.update_convs(1))
  show thesis
  proof (cases "calls_succeed config calls")
    case True
    then have "\<exists>c. createContext config calls is_client s = Some (Some p, s\<lparr>ctx_heap := (ctx_heap s)(p \<mapsto> c)\<rparr>) \<and>
      ctx_secure config loaded is_client c"
      using Some sound by (cases "crl config"; cases "cipher_list config"; cases is_client)
        (auto simp: createContext_def calls_succeed_def calls_sound_def ctx_secure_def set_ctx_at fresh_ctx_def Let_def)
    then show thesis using created p True by blast
  next
    case False
    then have "createContext config calls is_client s = Some (None, s)"
      using Some id sound by (cases "crl config") (auto simp: createContext_def calls_succeed_def calls_sound_def set_ctx_at ctx_fail_at Let_def)
    then show thesis using failed False by blast
  qed
qed

section \<open>The pair of contexts\<close>

text \<open>The program holds exactly two contexts, one per role, both secure.\<close>

definition contexts_ok :: "configuration \<Rightarrow> bool \<Rightarrow> dtls_state \<Rightarrow> bool" where
  "contexts_ok config loaded s \<longleftrightarrow>
     (case (campagnol_ctx_client s, campagnol_ctx_server s) of
        (Some p, Some q) \<Rightarrow>
          p \<noteq> q \<and> dom (ctx_heap s) = {p, q} \<and>
          (case (ctx_heap s p, ctx_heap s q) of
             (Some c, Some v) \<Rightarrow> ctx_secure config loaded True c \<and> ctx_secure config loaded False v
           | _ \<Rightarrow> False)
      | _ \<Rightarrow> False)"

lemma contexts_okE:
  assumes "contexts_ok config loaded s"
  obtains p q c v where "campagnol_ctx_client s = Some p" "campagnol_ctx_server s = Some q" "p \<noteq> q"
    "dom (ctx_heap s) = {p, q}" "ctx_heap s p = Some c" "ctx_heap s q = Some v"
    "ctx_secure config loaded True c" "ctx_secure config loaded False v"
  using assms by (auto simp: contexts_ok_def split: option.splits)

lemma dom_NoneD: "dom m = {p, q} \<Longrightarrow> m r = None \<Longrightarrow> r \<noteq> p \<and> r \<noteq> q"
  by blast

lemma rebuild_client_ok:
  assumes ok: "contexts_ok config loaded s" and fresh: "calls_sound config loaded calls"
  obtains b s' where "rebuild_client config calls s = Some (b, s')" "contexts_ok config loaded s'" "\<not> b \<Longrightarrow> s' = s"
    "b \<Longrightarrow> calls_succeed config calls" "campagnol_ctx_server s' = campagnol_ctx_server s"
proof -
  from ok obtain p q c v where e: "campagnol_ctx_client s = Some p" "campagnol_ctx_server s = Some q" "p \<noteq> q"
    "dom (ctx_heap s) = {p, q}" "ctx_heap s p = Some c" "ctx_heap s q = Some v"
    "ctx_secure config loaded True c" "ctx_secure config loaded False v" by (rule contexts_okE)
  show thesis
  proof (cases rule: createContext_cases [OF fresh, of True s, case_names created failed])
    case (created r k)
    then have "r \<noteq> p" "r \<noteq> q" using dom_NoneD [OF e(4)] by blast+
    with created e show thesis
      by (intro that [of True "s\<lparr>ctx_heap := (ctx_heap s)(r \<mapsto> k, p := None), campagnol_ctx_client := Some r\<rparr>"])
        (auto simp: rebuild_client_def SSL_CTX_free_def contexts_ok_def)
  next
    case failed
    with ok show thesis by (intro that [of False s]) (simp_all add: rebuild_client_def)
  qed
qed

lemma rebuild_server_ok:
  assumes ok: "contexts_ok config loaded s" and fresh: "calls_sound config loaded calls"
  obtains b s' where "rebuild_server config calls s = Some (b, s')" "contexts_ok config loaded s'" "\<not> b \<Longrightarrow> s' = s"
    "b \<Longrightarrow> calls_succeed config calls"
proof -
  from ok obtain p q c v where e: "campagnol_ctx_client s = Some p" "campagnol_ctx_server s = Some q" "p \<noteq> q"
    "dom (ctx_heap s) = {p, q}" "ctx_heap s p = Some c" "ctx_heap s q = Some v"
    "ctx_secure config loaded True c" "ctx_secure config loaded False v" by (rule contexts_okE)
  show thesis
  proof (cases rule: createContext_cases [OF fresh, of False s, case_names created failed])
    case (created r k)
    then have "r \<noteq> p" "r \<noteq> q" using dom_NoneD [OF e(4)] by blast+
    with created e show thesis
      by (intro that [of True "s\<lparr>ctx_heap := (ctx_heap s)(r \<mapsto> k, q := None), campagnol_ctx_server := Some r\<rparr>"])
        (auto simp: rebuild_server_def SSL_CTX_free_def contexts_ok_def)
  next
    case failed
    with ok show thesis by (intro that [of False s]) (simp_all add: rebuild_server_def)
  qed
qed

lemma rebuildDTLS_ok:
  assumes ok: "contexts_ok config loaded s" and fresh: "calls_sound config loaded a" "calls_sound config loaded b"
  shows "\<exists>r s'. rebuildDTLS config a b s = Some (r, s') \<and> contexts_ok config loaded s' \<and>
    (r = 0 \<longrightarrow> calls_succeed config a \<and> calls_succeed config b)"
proof -
  obtain b1 s1 where 1: "rebuild_client config a s = Some (b1, s1)" "contexts_ok config loaded s1"
    "b1 \<Longrightarrow> calls_succeed config a" by (rule rebuild_client_ok [OF ok fresh(1)]) blast
  obtain b2 s2 where 2: "rebuild_server config b s1 = Some (b2, s2)" "contexts_ok config loaded s2"
    "b2 \<Longrightarrow> calls_succeed config b" by (rule rebuild_server_ok [OF 1(2) fresh(2)]) blast
  show ?thesis using 1 2 by (cases b1; cases b2) (simp_all add: rebuildDTLS_def)
qed

lemma clearDTLS_ok: "contexts_ok config loaded s \<Longrightarrow> \<exists>s'. clearDTLS s = Some s' \<and> ctx_heap s' = Map.empty"
  by (erule contexts_okE) (auto simp: clearDTLS_def SSL_CTX_free_def fun_eq_iff dom_def)

definition no_contexts :: dtls_state where
  "no_contexts = \<lparr>ctx_heap = Map.empty, campagnol_ctx_client = None, campagnol_ctx_server = None\<rparr>"

lemma initDTLS_ok:
  assumes fresh: "calls_sound config loaded a" "calls_sound config loaded b"
  obtains (ready) s where "initDTLS config a b no_contexts = Some (0, s)" "contexts_ok config loaded s"
  | (failed) s where "initDTLS config a b no_contexts = Some (-1, s)" "ctx_heap s = Map.empty"
proof (cases rule: createContext_cases [OF fresh(1), of True no_contexts, case_names created failed])
  case c: (created p c)
  let ?s = "no_contexts\<lparr>ctx_heap := (ctx_heap no_contexts)(p \<mapsto> c), campagnol_ctx_client := Some p\<rparr>"
  show thesis
  proof (cases rule: createContext_cases [OF fresh(2), of False ?s, case_names created failed])
    case (created q v)
    with c show thesis
      by (intro ready [of "?s\<lparr>ctx_heap := (ctx_heap ?s)(q \<mapsto> v), campagnol_ctx_server := Some q\<rparr>"])
        (auto simp: initDTLS_def contexts_ok_def no_contexts_def split: if_splits)
  next
    case failed: failed
    with c show thesis
      by (intro that(2)) (auto simp: initDTLS_def SSL_CTX_free_def no_contexts_def)
  qed
qed (auto intro!: failed simp: initDTLS_def no_contexts_def)

text \<open>The life of the contexts: creation at startup, a rebuild on each request to reload the
  certificates, destruction at the end.\<close>

fun rebuilds :: "configuration \<Rightarrow> (ctx_calls \<times> ctx_calls) list \<Rightarrow> dtls_state \<Rightarrow> dtls_state option" where
  "rebuilds config [] s = Some s"
| "rebuilds config ((a, b) # cs) s = do { (_, s') \<leftarrow> rebuildDTLS config a b s; rebuilds config cs s' }"

lemma rebuilds_ok:
  assumes "contexts_ok config loaded s" and "\<forall>(a, b) \<in> set cs. calls_sound config loaded a \<and> calls_sound config loaded b"
  shows "\<exists>s'. rebuilds config cs s = Some s' \<and> contexts_ok config loaded s'"
  using assms
proof (induction cs arbitrary: s)
  case (Cons ab cs)
  obtain a b where ab: "ab = (a, b)" by (cases ab)
  with Cons.prems obtain r s1 where "rebuildDTLS config a b s = Some (r, s1)" "contexts_ok config loaded s1"
    using rebuildDTLS_ok [of config loaded s a b] by auto
  with Cons ab show ?case by auto
qed simp

text \<open>C13. Life cycle of the DTLS contexts, whatever call fails whose result the code checks: if startup
  succeeds, then after any number of rebuilds, each of which may fail at any of these calls, the
  program still owns exactly two different contexts, one per role; both demand and verify the
  certificate of the other side, with the configured depth and ciphers, and check revocation lists
  if one is configured; a failed rebuild never leaves the program without a context, and the final
  cleanup releases both without a double free. If startup fails, no context is left behind. Three
  results are not checked by the code. That \<^verbatim>\<open>X509_STORE_add_lookup\<close> returns a lookup is assumed when
  a revocation list is configured. The loading of that list and of the names for the clients may
  fail without notice; only when they always succeed (\<open>loaded\<close>) are they in the contexts.\<close>

theorem dtls_context_lifecycle:
  assumes "calls_sound config loaded a" "calls_sound config loaded b"
    and "\<forall>(a, b) \<in> set cs. calls_sound config loaded a \<and> calls_sound config loaded b"
  shows "(\<exists>s s1 s2. initDTLS config a b no_contexts = Some (0, s) \<and> contexts_ok config loaded s \<and>
            rebuilds config cs s = Some s1 \<and> contexts_ok config loaded s1 \<and>
            clearDTLS s1 = Some s2 \<and> ctx_heap s2 = Map.empty) \<or>
         (\<exists>s. initDTLS config a b no_contexts = Some (-1, s) \<and> ctx_heap s = Map.empty)"
proof (cases rule: initDTLS_ok [OF assms(1,2), case_names ready failed])
  case (ready s)
  then obtain s1 where "rebuilds config cs s = Some s1" "contexts_ok config loaded s1"
    using rebuilds_ok assms(3) by blast
  with ready show ?thesis using clearDTLS_ok by blast
qed blast+

definition demo_ctx_calls :: ctx_calls where
  "demo_ctx_calls = \<lparr>cc_new = malloc3, cc_certificate = True, cc_private_key = True,
     cc_verify_locations = True, cc_check_private_key = True, cc_cipher_list = True,
     cc_add_lookup = True, cc_load_crl = True, cc_client_CA_file = True\<rparr>"

definition demo_crl_config :: configuration where
  "demo_crl_config = initConfig\<lparr>crl := Some ''crl.pem'', verif_pem := Some ''ca.pem''\<rparr>"

text \<open>A startup, one rebuild that succeeds and one that fails in its second half.\<close>

theorem dtls_context_lifecycle_witness:
  "\<exists>s s1 s2. initDTLS demo_crl_config demo_ctx_calls demo_ctx_calls no_contexts = Some (0, s) \<and> contexts_ok demo_crl_config True s \<and>
     rebuilds demo_crl_config [(demo_ctx_calls, demo_ctx_calls), (demo_ctx_calls, demo_ctx_calls\<lparr>cc_private_key := False\<rparr>)] s = Some s1 \<and>
     contexts_ok demo_crl_config True s1 \<and> clearDTLS s1 = Some s2 \<and> ctx_heap s2 = Map.empty"
proof -
  have "initDTLS demo_crl_config demo_ctx_calls demo_ctx_calls no_contexts \<noteq> Some (-1, s)" for s
    by (auto simp: initDTLS_def createContext_def demo_ctx_calls_def malloc3_def no_contexts_def demo_crl_config_def initConfig_def set_ctx_def)
  moreover have "\<forall>(a, b) \<in> set [(demo_ctx_calls, demo_ctx_calls), (demo_ctx_calls, demo_ctx_calls\<lparr>cc_private_key := False\<rparr>)].
      calls_sound demo_crl_config True a \<and> calls_sound demo_crl_config True b"
    by (simp add: calls_sound_def demo_ctx_calls_def malloc3_fresh)
  ultimately show ?thesis
    using dtls_context_lifecycle [of demo_crl_config True demo_ctx_calls demo_ctx_calls
        "[(demo_ctx_calls, demo_ctx_calls), (demo_ctx_calls, demo_ctx_calls\<lparr>cc_private_key := False\<rparr>)]"]
    by (simp add: calls_sound_def demo_ctx_calls_def malloc3_fresh)
qed

end
