(* ===== verification/Token_Bucket.thy ===== *)
theory Token_Bucket
  imports C_Float Campagnol_Prelude
begin

text \<open>
  The rate limiters: the token bucket of \<^verbatim>\<open>client/rate_limiter.c\<close> and the OpenSSL filter of
  \<^verbatim>\<open>client/bf_rate_limiter.c\<close> that counts every outgoing packet in up to two buckets.

  Finite numbers of type \<^verbatim>\<open>double\<close> are taken as real numbers, without rounding errors; the casts,
  the function \<^verbatim>\<open>round\<close> and the arithmetic on \<^verbatim>\<open>size_t\<close>, of 64 bits, are written out. The clock
  readings and the results of \<^verbatim>\<open>nanosleep\<close> are inputs. \<open>None\<close> is a failed assertion or a cast of a
  value that the type does not have.
\<close>

section \<open>The token bucket\<close>

record tb_state =
  bucket_size :: nat
  bucket_rate :: c_float
  bucket_available :: nat
  last_arrival_time :: timespec
  packet_overhead :: nat
  tb_lock :: bool

definition timespecsub :: "timespec \<Rightarrow> timespec \<Rightarrow> timespec" where
  "timespecsub a b =
     (let sec = ts_sec a - ts_sec b; nsec = ts_nsec a - ts_nsec b in
      if nsec < 0 then \<lparr>ts_sec = sec - 1, ts_nsec = nsec + 1000000000\<rparr>
      else \<lparr>ts_sec = sec, ts_nsec = nsec\<rparr>)"

definition tb_init :: "timespec \<Rightarrow> nat \<Rightarrow> c_float \<Rightarrow> nat \<Rightarrow> bool \<Rightarrow> tb_state" where
  "tb_init now sz rate overhead with_lock =
     \<lparr>bucket_size = sz, bucket_rate = rate, bucket_available = sz, last_arrival_time = now,
      packet_overhead = overhead, tb_lock = with_lock\<rparr>"

definition elapsed_ms :: "timespec \<Rightarrow> real" where
  "elapsed_ms e = real_of_int (ts_sec e) * 1000 + real_of_int (ts_nsec e) / 1000000"

text \<open>The tokens that arrived since the last call, and the bucket with them.\<close>

definition new_tokens :: "timespec \<Rightarrow> tb_state \<Rightarrow> nat option" where
  "new_tokens now tb =
     to_size_t (float_round (float_mult Finite (Finite (elapsed_ms (timespecsub now (last_arrival_time tb)))) (bucket_rate tb)))"

definition refill :: "timespec \<Rightarrow> tb_state \<Rightarrow> nat option" where
  "refill now tb = map_option (\<lambda>k. (bucket_available tb + k) mod 2 ^ 64) (new_tokens now tb)"

text \<open>The first part of \<^verbatim>\<open>tb_count\<close>: refill, and either take the tokens or compute the time to sleep.
  The quotient by a rate of zero is infinite and has no value of type \<^verbatim>\<open>time_t\<close>.\<close>

datatype count_outcome = Counted tb_state | Must_sleep timespec tb_state

definition sleep_request :: "nat \<Rightarrow> tb_state \<Rightarrow> timespec option" where
  "sleep_request pkt tb =
     (case bucket_rate tb of
        Finite rate \<Rightarrow>
          (let sleep_ms = real (pkt - bucket_available tb) / rate; sec = \<lfloor>sleep_ms / 1000\<rfloor> in
           if rate = 0 \<or> sec < - (2 ^ 63) \<or> 2 ^ 63 \<le> sec then None
           else Some \<lparr>ts_sec = sec, ts_nsec = \<lfloor>(sleep_ms - 1000 * real_of_int sec) * 1000000\<rfloor>\<rparr>)
      | NaN \<Rightarrow> None
      | _ \<Rightarrow> Some \<lparr>ts_sec = 0, ts_nsec = 0\<rparr>)"

definition tb_count_begin :: "timespec \<Rightarrow> nat \<Rightarrow> tb_state \<Rightarrow> count_outcome option" where
  "tb_count_begin now packet_size tb =
     (let pkt = (packet_size + packet_overhead tb) mod 2 ^ 64 in
      if pkt \<le> bucket_size tb then do {
        avail \<leftarrow> refill now tb;
        let avail = (if avail > bucket_size tb then bucket_size tb else avail);
        let tb1 = tb\<lparr>bucket_available := avail, last_arrival_time := now\<rparr>;
        if pkt \<le> avail then Some (Counted (tb1\<lparr>bucket_available := avail - pkt\<rparr>))
        else map_option (\<lambda>req. Must_sleep req tb1) (sleep_request pkt tb1)
      }
      else None)"

text \<open>The loop around \<^verbatim>\<open>nanosleep\<close>: a signal interrupts the sleep, which goes on for the remaining time;
  another error ends it. The result is the list of the requests made.\<close>

datatype sleep_result = Slept | Interrupted timespec | Sleep_error

fun sleep_loop :: "timespec \<Rightarrow> sleep_result list \<Rightarrow> timespec list" where
  "sleep_loop req [] = [req]"
| "sleep_loop req (Slept # _) = [req]"
| "sleep_loop req (Interrupted rem # rs) = req # sleep_loop rem rs"
| "sleep_loop req (Sleep_error # _) = [req]"

text \<open>The last part: refill again and take the tokens.\<close>

definition tb_count_end :: "timespec \<Rightarrow> nat \<Rightarrow> tb_state \<Rightarrow> tb_state option" where
  "tb_count_end now packet_size tb =
     do {
       let pkt = (packet_size + packet_overhead tb) mod 2 ^ 64;
       avail \<leftarrow> refill now tb;
       let avail = (if avail < pkt then 0 else avail - pkt);
       let avail = (if avail > bucket_size tb then bucket_size tb else avail);
       Some (tb\<lparr>bucket_available := avail, last_arrival_time := now\<rparr>)
     }"

text \<open>The whole call: \<open>now\<close> and \<open>later\<close> are the two readings of the clock, the second one only used
  after a sleep, whose course is \<open>rs\<close>.\<close>

definition tb_count :: "timespec \<Rightarrow> sleep_result list \<Rightarrow> timespec \<Rightarrow> nat \<Rightarrow> tb_state \<Rightarrow> (timespec list \<times> tb_state) option" where
  "tb_count now rs later packet_size tb =
     (case tb_count_begin now packet_size tb of
        None \<Rightarrow> None
      | Some (Counted tb1) \<Rightarrow> Some ([], tb1)
      | Some (Must_sleep req tb1) \<Rightarrow> map_option (Pair (sleep_loop req rs)) (tb_count_end later packet_size tb1))"

section \<open>The filter\<close>

record rate_limiter_data =
  rl_global :: "tb_state option"
  rl_client :: "tb_state option"

record ratef_bio =
  rf_init :: int
  rf_ptr :: "rate_limiter_data option"
  rf_flags :: int
  rf_next :: bool

definition ratef_new :: "ratef_bio \<Rightarrow> ratef_bio" where
  "ratef_new bi = bi\<lparr>rf_init := 0, rf_ptr := None, rf_flags := 0\<rparr>"

text \<open>\<open>obj\<close> is the object that \<^verbatim>\<open>BIO_new\<close> allocates, \<open>ok\<close> whether \<^verbatim>\<open>malloc\<close> succeeds.\<close>

definition BIO_f_new_rate_limiter :: "ratef_bio option \<Rightarrow> bool \<Rightarrow> tb_state option \<Rightarrow> tb_state option \<Rightarrow> ratef_bio option" where
  "BIO_f_new_rate_limiter obj ok gl cl =
     (case obj of
        None \<Rightarrow> None
      | Some o0 \<Rightarrow>
          (if ok then Some ((ratef_new o0)\<lparr>rf_ptr := Some \<lparr>rl_global = gl, rl_client = cl\<rparr>, rf_init := 1\<rparr>)
           else None))"

definition ratef_free :: "ratef_bio option \<Rightarrow> int" where
  "ratef_free b = (case b of None \<Rightarrow> 0 | Some _ \<Rightarrow> 1)"

text \<open>The clock readings and sleeps of one counted packet.\<close>

type_synonym clock = "timespec \<times> sleep_result list \<times> timespec"

definition count_opt :: "clock \<Rightarrow> nat \<Rightarrow> tb_state option \<Rightarrow> tb_state option option" where
  "count_opt clk n t =
     (case t of
        None \<Rightarrow> Some None
      | Some tb \<Rightarrow> map_option (\<lambda>(_, tb'). Some tb') (tb_count (fst clk) (fst (snd clk)) (snd (snd clk)) n tb))"

text \<open>\<open>next_write\<close> is the write method of the next BIO in the chain: its result and its retry flags.\<close>

definition ratef_write :: "(u8 list \<Rightarrow> int \<times> int) \<Rightarrow> clock \<Rightarrow> clock \<Rightarrow> u8 list option \<Rightarrow> ratef_bio \<Rightarrow> (int \<times> ratef_bio) option" where
  "ratef_write next_write clk1 clk2 inp b =
     (case inp of
        None \<Rightarrow> Some (0, b)
      | Some i \<Rightarrow>
          (if length i \<le> 0 then Some (0, b)
           else if \<not> rf_next b then Some (0, b)
           else do {
             data \<leftarrow> rf_ptr b;
             cl \<leftarrow> count_opt clk1 (length i) (rl_client data);
             gl \<leftarrow> count_opt clk2 (length i) (rl_global data);
             (let (ret, fl) = next_write i in
              Some (ret, b\<lparr>rf_ptr := Some \<lparr>rl_global = gl, rl_client = cl\<rparr>, rf_flags := fl\<rparr>))
           }))"

definition ratef_read :: "(nat \<Rightarrow> int \<times> int) \<Rightarrow> bool \<Rightarrow> nat \<Rightarrow> ratef_bio \<Rightarrow> int \<times> ratef_bio" where
  "ratef_read next_read out_null outl b =
     (if out_null then (0, b)
      else if \<not> rf_next b then (0, b)
      else (let (ret, fl) = next_read outl in (ret, b\<lparr>rf_flags := fl\<rparr>)))"

datatype ratef_cmd = C_DO_STATE_MACHINE | CTRL_DUP_CMD | CTRL_OTHER_CMD int

definition ratef_ctrl :: "(ratef_cmd \<Rightarrow> int \<times> int) \<Rightarrow> ratef_cmd \<Rightarrow> ratef_bio \<Rightarrow> int \<times> ratef_bio" where
  "ratef_ctrl next_ctrl cmd b =
     (if \<not> rf_next b then (0, b)
      else case cmd of
        C_DO_STATE_MACHINE \<Rightarrow> (let (ret, fl) = next_ctrl cmd in (ret, b\<lparr>rf_flags := fl\<rparr>))
      | CTRL_DUP_CMD \<Rightarrow> (0, b)
      | CTRL_OTHER_CMD _ \<Rightarrow> (fst (next_ctrl cmd), b))"

section \<open>Time\<close>

definition msecs :: "timespec \<Rightarrow> real" where
  "msecs t = real_of_int (ts_sec t) * 1000 + real_of_int (ts_nsec t) / 1000000"

lemma elapsed_ms_sub: "elapsed_ms (timespecsub a b) = msecs a - msecs b"
  by (simp add: elapsed_ms_def timespecsub_def msecs_def Let_def diff_divide_distrib algebra_simps)

lemma c_round_le: "0 \<le> x \<Longrightarrow> real_of_int (c_round x) \<le> x + 1 / 2"
  unfolding c_round_def by simp

lemma c_round_ge: "0 \<le> x \<Longrightarrow> real n - 1 / 2 < x \<Longrightarrow> int n \<le> c_round x"
  unfolding c_round_def by (simp add: le_floor_iff)

lemma c_round_nonneg: "0 \<le> x \<Longrightarrow> 0 \<le> c_round x"
  unfolding c_round_def by simp

lemma new_tokens_Finite:
  "bucket_rate tb = Finite r \<Longrightarrow>
     new_tokens now tb = to_size_t (Finite (real_of_int (c_round ((msecs now - msecs (last_arrival_time tb)) * r))))"
  by (simp add: new_tokens_def elapsed_ms_sub)

lemma new_tokens_le:
  assumes "msecs (last_arrival_time tb) \<le> msecs now" "bucket_rate tb = Finite r" "0 < r" "new_tokens now tb = Some k"
  shows "real k \<le> (msecs now - msecs (last_arrival_time tb)) * r + 1 / 2"
proof -
  have "0 \<le> (msecs now - msecs (last_arrival_time tb)) * r" using assms(1,3) by simp
  from c_round_le [OF this] c_round_nonneg [OF this] show ?thesis
    using to_size_t_intD [OF assms(4) [unfolded new_tokens_Finite [OF assms(2)]]] by simp
qed

text \<open>The time to sleep has a value of type \<^verbatim>\<open>time_t\<close> when the bucket is not absurdly large for its rate; the
  sleep that is asked for is short of the exact time by less than a nanosecond.\<close>

lemma sleep_request_msecs:
  assumes "bucket_rate tb = Finite r" "0 < r" "pkt \<le> bucket_size tb" "real (bucket_size tb) \<le> 2 ^ 63 * r"
  obtains req where "sleep_request pkt tb = Some req" "msecs req > real (pkt - bucket_available tb) / r - 1 / 1000000"
proof -
  let ?s = "real (pkt - bucket_available tb) / r"
  have "real (pkt - bucket_available tb) \<le> real (bucket_size tb)" using assms(3) by simp
  then have "real (pkt - bucket_available tb) \<le> 2 ^ 63 * r" using assms(4) by (rule order_trans)
  then have s: "0 \<le> ?s" "?s \<le> 2 ^ 63" using assms(2) by (simp_all add: divide_le_eq)
  have "?s / 1000 < of_int (2 ^ 63)" using s by simp
  then have sec: "0 \<le> \<lfloor>?s / 1000\<rfloor>" "\<lfloor>?s / 1000\<rfloor> < 2 ^ 63"
    using s(1) by (simp_all only: floor_less_iff zero_le_floor divide_nonneg_nonneg zero_le_numeral)
  have m: "real_of_int \<lfloor>s / 1000\<rfloor> * 1000 + real_of_int \<lfloor>(s - 1000 * real_of_int \<lfloor>s / 1000\<rfloor>) * 1000000\<rfloor> / 1000000 >
      s - 1 / 1000000" for s :: real
  proof -
    have "real_of_int \<lfloor>(s - 1000 * real_of_int \<lfloor>s / 1000\<rfloor>) * 1000000\<rfloor> > (s - 1000 * real_of_int \<lfloor>s / 1000\<rfloor>) * 1000000 - 1"
      by linarith
    moreover have "s - 1 / 1000000 < q * 1000 + n / 1000000" if "(s - 1000 * q) * 1000000 - 1 < n" for q n :: real
      using divide_strict_right_mono [OF that, of 1000000] by (simp add: diff_divide_distrib)
    ultimately show ?thesis by blast
  qed
  let ?req = "\<lparr>ts_sec = \<lfloor>?s / 1000\<rfloor>, ts_nsec = \<lfloor>(?s - 1000 * real_of_int \<lfloor>?s / 1000\<rfloor>) * 1000000\<rfloor>\<rparr>"
  have "\<not> (r = 0 \<or> \<lfloor>?s / 1000\<rfloor> < - (2 ^ 63) \<or> 2 ^ 63 \<le> \<lfloor>?s / 1000\<rfloor>)" using assms(2) sec by linarith
  then have "sleep_request pkt tb = Some ?req" by (simp only: sleep_request_def Let_def assms(1) c_float.case if_False)
  moreover have "msecs ?req > ?s - 1 / 1000000" using m [of ?s] by (simp only: msecs_def timespec.simps)
  ultimately show thesis by (rule that)
qed

text \<open>After a sleep of the time that was asked for, the tokens suffice.\<close>

lemma tokens_after_sleep:
  assumes rate: "bucket_rate tb = Finite r" "0 < r" "r < 500000"
    and req: "msecs req > real (pkt - bucket_available tb) / r - 1 / 1000000"
    and slept: "msecs (last_arrival_time tb) + msecs req \<le> msecs later"
    and mono: "msecs (last_arrival_time tb) \<le> msecs later" and k: "new_tokens later tb = Some k"
  shows "pkt \<le> bucket_available tb + k"
proof -
  let ?n = "pkt - bucket_available tb" and ?x = "(msecs later - msecs (last_arrival_time tb)) * r"
  have "real ?n / r - 1 / 1000000 < msecs later - msecs (last_arrival_time tb)"
    using slept req by linarith
  then have "(real ?n / r - 1 / 1000000) * r < ?x"
    using rate(2) by (rule mult_strict_right_mono)
  moreover have "(real ?n / r - 1 / 1000000) * r = real ?n - r / 1000000"
    using rate(2) by (simp add: field_simps)
  ultimately have "real ?n - 1 / 2 < ?x" using rate(3) by linarith
  moreover have "0 \<le> ?x" using mono rate(2) by simp
  ultimately have "int ?n \<le> c_round ?x" by (intro c_round_ge)
  then show ?thesis using to_size_t_intD [OF k [unfolded new_tokens_Finite [OF rate(1)]]] by simp
qed

section \<open>Conformance\<close>

text \<open>A refill that has a value of type \<^verbatim>\<open>size_t\<close> and does not make the counter wrap around.\<close>

definition refill_fits :: "timespec \<Rightarrow> tb_state \<Rightarrow> bool" where
  "refill_fits now tb \<longleftrightarrow> (case new_tokens now tb of None \<Rightarrow> False | Some k \<Rightarrow> bucket_available tb + k < 2 ^ 64)"

lemma refill_fitsE:
  assumes "refill_fits now tb"
  obtains k where "new_tokens now tb = Some k" "refill now tb = Some (bucket_available tb + k)"
  using assms by (auto simp: refill_fits_def refill_def split: option.splits)

text \<open>The clock does not run backwards, a sleep lasts at least as long as it was asked for, and the
  refills do not wrap around.\<close>

definition call_ok :: "clock \<Rightarrow> nat \<Rightarrow> tb_state \<Rightarrow> bool" where
  "call_ok clk n tb \<longleftrightarrow>
     msecs (last_arrival_time tb) \<le> msecs (fst clk) \<and> msecs (fst clk) \<le> msecs (snd (snd clk)) \<and>
     refill_fits (fst clk) tb \<and>
     (case tb_count_begin (fst clk) n tb of
        Some (Must_sleep req tb1) \<Rightarrow> msecs (fst clk) + msecs req \<le> msecs (snd (snd clk)) \<and> refill_fits (snd (snd clk)) tb1
      | _ \<Rightarrow> True)"

text \<open>A bucket that the theorem is about: a finite rate below 500000 kB/s, beyond which a nanosecond is
  worth half a byte, and a size of type \<^verbatim>\<open>size_t\<close> that is not absurdly large for the rate.\<close>

definition sane_bucket :: "real \<Rightarrow> tb_state \<Rightarrow> bool" where
  "sane_bucket r tb \<longleftrightarrow> bucket_rate tb = Finite r \<and> 0 < r \<and> r < 500000 \<and>
     bucket_size tb < 2 ^ 64 \<and> real (bucket_size tb) \<le> 2 ^ 63 * r"

lemma tb_count_spec:
  assumes sane: "sane_bucket r tb" and ok: "call_ok clk n tb" and fits: "n + packet_overhead tb \<le> bucket_size tb"
  obtains reqs tb' where "tb_count (fst clk) (fst (snd clk)) (snd (snd clk)) n tb = Some (reqs, tb')"
    and "bucket_available tb' \<le> bucket_size tb" "bucket_size tb' = bucket_size tb" "bucket_rate tb' = bucket_rate tb"
      "packet_overhead tb' = packet_overhead tb"
    and "real (n + packet_overhead tb + bucket_available tb') \<le> real (bucket_available tb) +
      (msecs (last_arrival_time tb') - msecs (last_arrival_time tb)) * r + 1"
proof -
  obtain now rs later where clk: "clk = (now, rs, later)" by (cases clk) auto
  have rate: "bucket_rate tb = Finite r" "0 < r" "r < 500000" and big: "real (bucket_size tb) \<le> 2 ^ 63 * r"
    and pk: "(n + packet_overhead tb) mod 2 ^ 64 = n + packet_overhead tb"
    using sane fits by (simp_all add: sane_bucket_def)
  have mono: "msecs (last_arrival_time tb) \<le> msecs now" "msecs now \<le> msecs later"
    using ok by (simp_all add: call_ok_def clk)
  obtain k where k: "new_tokens now tb = Some k" "refill now tb = Some (bucket_available tb + k)"
    by (rule refill_fitsE [of now tb]) (use ok in \<open>auto simp: call_ok_def clk\<close>)
  let ?pkt = "n + packet_overhead tb" and ?a = "bucket_available tb + k"
  let ?b = "min ?a (bucket_size tb)"
  let ?tb1 = "tb\<lparr>bucket_available := ?b, last_arrival_time := now\<rparr>"
  note t1 = new_tokens_le [OF mono(1) rate(1,2) k(1)]
  have cap: "(if ?a > bucket_size tb then bucket_size tb else ?a) = ?b" by (simp add: min_def)
  note begins = tb_count_begin_def [of now n tb, unfolded pk k(2) Let_def bind.bind_lunit cap]
  show thesis
  proof (cases "?pkt \<le> ?b")
    case True
    then have b: "tb_count_begin now n tb = Some (Counted (?tb1\<lparr>bucket_available := ?b - ?pkt\<rparr>))"
      unfolding begins using fits by simp
    show thesis
      by (rule that [of "[]" "?tb1\<lparr>bucket_available := ?b - ?pkt\<rparr>"])
        (use b True t1 in \<open>auto simp: tb_count_def clk\<close>)
  next
    case False
    obtain req where req: "sleep_request ?pkt ?tb1 = Some req" "msecs req > real (?pkt - bucket_available ?tb1) / r - 1 / 1000000"
      by (rule sleep_request_msecs [of ?tb1 r ?pkt]) (use rate fits big in simp_all)
    have b: "tb_count_begin now n tb = Some (Must_sleep req ?tb1)"
      unfolding begins using fits False req(1) by simp
    have slept: "msecs (last_arrival_time ?tb1) + msecs req \<le> msecs later" "refill_fits later ?tb1"
      using ok b by (simp_all add: call_ok_def clk)
    obtain j where j: "new_tokens later ?tb1 = Some j" "refill later ?tb1 = Some (bucket_available ?tb1 + j)"
      by (rule refill_fitsE [OF slept(2)])
    let ?c = "?b + j"
    have enough: "?pkt \<le> ?c"
      using tokens_after_sleep [OF _ rate(2,3) req(2) slept(1) _ j(1)] rate(1) mono(2) by simp
    have t2: "real j \<le> (msecs later - msecs now) * r + 1 / 2"
      using new_tokens_le [OF _ _ rate(2) j(1)] rate(1) mono(2) by simp
    let ?tb2 = "?tb1\<lparr>bucket_available := min (?c - ?pkt) (bucket_size tb), last_arrival_time := later\<rparr>"
    have e: "tb_count_end later n ?tb1 = Some ?tb2"
      using enough pk j(2) by (auto simp: tb_count_end_def min_def)
    have "real (?pkt + bucket_available ?tb2) \<le> real ?c" using enough by simp
    also have "real ?c \<le> real (bucket_available tb) + (msecs later - msecs (last_arrival_time tb)) * r + 1"
      using t1 t2 by (simp add: algebra_simps)
    finally show thesis
      by (intro that [of "sleep_loop req rs" ?tb2])
        (use b e in \<open>simp_all add: tb_count_def clk\<close>)
  qed
qed

text \<open>A sequence of counted packets.\<close>

fun tb_run :: "(clock \<times> nat) list \<Rightarrow> tb_state \<Rightarrow> tb_state option" where
  "tb_run [] tb = Some tb"
| "tb_run ((clk, n) # calls) tb =
     (case tb_count (fst clk) (fst (snd clk)) (snd (snd clk)) n tb of
        None \<Rightarrow> None
      | Some (_, tb') \<Rightarrow> tb_run calls tb')"

fun run_ok :: "(clock \<times> nat) list \<Rightarrow> tb_state \<Rightarrow> bool" where
  "run_ok [] tb = True"
| "run_ok ((clk, n) # calls) tb =
     (call_ok clk n tb \<and>
      (case tb_count (fst clk) (fst (snd clk)) (snd (snd clk)) n tb of
         None \<Rightarrow> True
       | Some (_, tb') \<Rightarrow> run_ok calls tb'))"

lemma tb_run_spec:
  assumes "sane_bucket r tb" "run_ok calls tb"
    and "\<forall>(_, n) \<in> set calls. n + packet_overhead tb \<le> bucket_size tb"
  shows "\<exists>tb'. tb_run calls tb = Some tb' \<and>
    (bucket_available tb \<le> bucket_size tb \<longrightarrow> bucket_available tb' \<le> bucket_size tb) \<and>
    real (sum_list (map (\<lambda>(_, n). n + packet_overhead tb) calls) + bucket_available tb') \<le> real (bucket_available tb) +
      (msecs (last_arrival_time tb') - msecs (last_arrival_time tb)) * r + real (length calls)"
  using assms
proof (induction calls arbitrary: tb)
  case (Cons call calls)
  obtain clk n where call: "call = (clk, n)" by (cases call)
  have ok: "call_ok clk n tb" and fits: "n + packet_overhead tb \<le> bucket_size tb"
    using Cons.prems by (auto simp: call)
  obtain reqs tb1 where c: "tb_count (fst clk) (fst (snd clk)) (snd (snd clk)) n tb = Some (reqs, tb1)"
    and f: "bucket_available tb1 \<le> bucket_size tb" "bucket_size tb1 = bucket_size tb"
      "bucket_rate tb1 = bucket_rate tb" "packet_overhead tb1 = packet_overhead tb"
    and le: "real (n + packet_overhead tb + bucket_available tb1) \<le> real (bucket_available tb) +
      (msecs (last_arrival_time tb1) - msecs (last_arrival_time tb)) * r + 1"
    by (rule tb_count_spec [OF Cons.prems(1) ok fits])
  have "run_ok calls tb1" "sane_bucket r tb1" using Cons.prems(1,2) f by (simp_all add: call c sane_bucket_def)
  with Cons.IH [of tb1] Cons.prems f obtain tb' where r: "tb_run calls tb1 = Some tb'"
    and a: "bucket_available tb' \<le> bucket_size tb"
    and s: "real (sum_list (map (\<lambda>(_, n). n + packet_overhead tb) calls) + bucket_available tb') \<le> real (bucket_available tb1) +
      (msecs (last_arrival_time tb') - msecs (last_arrival_time tb1)) * r + real (length calls)"
    by auto
  from le s have "real (sum_list (map (\<lambda>(_, n). n + packet_overhead tb) (call # calls)) + bucket_available tb') \<le>
      real (bucket_available tb) + (msecs (last_arrival_time tb') - msecs (last_arrival_time tb)) * r +
      real (length (call # calls))"
    by (simp add: call algebra_simps)
  with r a c show ?case by (auto simp: call)
qed simp


text \<open>A bucket of 100 bytes refilled with 1 byte per millisecond: the second packet of 80 bytes has to
  wait for 60 milliseconds.\<close>

definition demo_bucket :: tb_state where
  "demo_bucket = tb_init \<lparr>ts_sec = 0, ts_nsec = 0\<rparr> 100 (Finite 1) 0 True"

definition demo_calls :: "(clock \<times> nat) list" where
  "demo_calls =
     [((\<lparr>ts_sec = 0, ts_nsec = 0\<rparr>, [], \<lparr>ts_sec = 0, ts_nsec = 0\<rparr>), 80),
      ((\<lparr>ts_sec = 0, ts_nsec = 0\<rparr>, [Slept], \<lparr>ts_sec = 0, ts_nsec = 60000000\<rparr>), 80)]"


end
