(* ===== verification/Client_Peer.thy ===== *)
theory Client_Peer
  imports Linked_List Search_Tree Dtls_Context Token_Bucket
begin

text \<open>
  The table of connected peers of the client (\<^verbatim>\<open>client/peer.c\<close>, \<^verbatim>\<open>client/peer.h\<close>) with the
  creation of the SSL structure of a peer (\<^verbatim>\<open>createClientSSL\<close> of \<^verbatim>\<open>client/dtls_utils.c\<close>): the
  reference counted structures, the list \<open>peers_list\<close> with its counter and the two search trees.
  Every operation holds \<^verbatim>\<open>peers_mutex\<close> from its first to its last statement (only the increment of a
  counter holds the mutex of that counter instead), so it is one atomic
  step; the threads of the client interleave these steps in any order. \<open>None\<close> is a fault.

  The mutexes and the condition variable of a peer carry no data; the order in which they are locked is the subject of \<open>Client_Locks\<close>. The
  OpenSSL calls that build the session are recorded in the order in which they take effect.
\<close>

section \<open>Data\<close>

datatype client_type = NEW | PUNCHING | LINKED | ESTABLISHED | CLOSED

record client =
  pe_time :: int
  pe_last_keepalive :: int
  pe_clientaddr :: sockaddr_in
  pe_vpnIP :: u32
  pe_state :: client_type
  pe_tunfd :: int
  pe_sockfd :: int
  pe_next :: "ptr option"
  pe_prev :: "ptr option"
  pe_is_dtls_client :: bool
  pe_shutdown :: bool
  pe_rdv_answer :: "u8 option"
  pe_rate_limiter :: "tb_state option"
  pe_ref_count :: u32

record client_table =
  pe_heap :: "client heap"
  peers_list :: "ptr option"
  peers_n_clients :: int
  peers_vpn_root :: search_tree
  peers_address_root :: search_tree

text \<open>The calls on the session of a peer.\<close>

datatype ssl_call =
    Call_SSL_new bool
  | Call_BIO_new_dgram int
  | Call_BIO_new_rate_limiter bool bool
  | Call_BIO_push
  | Call_new_rbio int u32
  | Call_set_recv_timeout timeval
  | Call_SSL_set_bio
  | Call_new_out_fifo int u32
  | Call_set_droptail bool
  | Call_set_connect_state
  | Call_set_accept_state
  | Call_set_mtu int
  | Call_BIO_free_dgram
  | Call_BIO_free_all_wbio
  | Call_SSL_free
  | Call_BIO_free_out_fifo

text \<open>What the allocations of one operation return.\<close>

record client_mem =
  pm_malloc :: allocator
  pm_SSL_new :: bool
  pm_dgram :: bool
  pm_limiter :: bool
  pm_rbio :: bool
  pm_out_fifo :: bool
  pm_tsearch_vpn :: bool
  pm_tsearch_addr :: bool

section \<open>Comparison routines\<close>

fun memcmp :: "u8 list \<Rightarrow> u8 list \<Rightarrow> int" where
  "memcmp (a # as) (b # bs) = (if a = b then memcmp as bs else uint a - uint b)"
| "memcmp _ _ = 0"

definition compare_peers_vpn :: "client \<Rightarrow> client \<Rightarrow> int" where
  "compare_peers_vpn peer1 peer2 = memcmp (bytes_of_u32 (pe_vpnIP peer1)) (bytes_of_u32 (pe_vpnIP peer2))"

definition compare_peers_addr :: "client \<Rightarrow> client \<Rightarrow> int" where
  "compare_peers_addr peer1 peer2 =
     (if sin_addr (pe_clientaddr peer1) < sin_addr (pe_clientaddr peer2) then -1
      else if sin_addr (pe_clientaddr peer1) = sin_addr (pe_clientaddr peer2) then
        (if sin_port (pe_clientaddr peer1) < sin_port (pe_clientaddr peer2) then -1
         else if sin_port (pe_clientaddr peer1) = sin_port (pe_clientaddr peer2) then 0
         else 1)
      else 1)"

section \<open>The session of a peer\<close>

definition createClientSSL :: "configuration \<Rightarrow> client_mem \<Rightarrow> client \<Rightarrow> int \<times> ssl_call list" where
  "createClientSSL config mem peer =
     (if \<not> pm_SSL_new mem then (-1, [])
      else let c1 = [Call_SSL_new (pe_is_dtls_client peer)] in
        if \<not> pm_dgram mem then (-1, c1 @ [Call_SSL_free])
        else let c2 = c1 @ [Call_BIO_new_dgram (pe_sockfd peer)];
                 limited = tb_client_size config \<noteq> 0 \<or> tb_connection_size config \<noteq> 0 in
          if limited \<and> \<not> pm_limiter mem then (-1, c2 @ [Call_BIO_free_dgram, Call_SSL_free])
          else let c3 = (if limited
                         then c2 @ [Call_BIO_new_rate_limiter (tb_client_size config \<noteq> 0)
                                      (tb_connection_size config \<noteq> 0), Call_BIO_push]
                         else c2) in
            if \<not> pm_rbio mem then (-1, c3 @ [Call_BIO_free_all_wbio, Call_SSL_free])
            else let c4 = c3 @ [Call_new_rbio (FIFO_size config) (MESSAGE_MAX_LENGTH config),
                                Call_set_recv_timeout \<lparr>tv_sec = 0, tv_usec = 250000\<rparr>, Call_SSL_set_bio] in
              if \<not> pm_out_fifo mem then (-1, c4 @ [Call_SSL_free])
              else (0, c4 @ [Call_new_out_fifo (FIFO_size config) (MESSAGE_MAX_LENGTH config),
                             Call_set_droptail True,
                             (if pe_is_dtls_client peer then Call_set_connect_state else Call_set_accept_state),
                             Call_set_mtu (tun_mtu config)]))"

section \<open>Operations on the table\<close>

definition new_peer :: "configuration \<Rightarrow> timespec \<Rightarrow> int \<Rightarrow> int \<Rightarrow> client_type \<Rightarrow> int \<Rightarrow> u32 \<Rightarrow> u16 \<Rightarrow> u32 \<Rightarrow> bool \<Rightarrow> client" where
  "new_peer config now sockfd tunfd state t clientIP clientPort peer_vpn is_dtls_client =
     \<lparr>pe_time = t, pe_last_keepalive = t,
      pe_clientaddr = \<lparr>sin_addr = clientIP, sin_port = clientPort\<rparr>,
      pe_vpnIP = peer_vpn, pe_state = state, pe_tunfd = tunfd, pe_sockfd = sockfd,
      pe_next = None, pe_prev = None, pe_is_dtls_client = is_dtls_client, pe_shutdown = False,
      pe_rdv_answer = None,
      pe_rate_limiter = (if tb_connection_size config \<noteq> 0
        then Some (tb_init now (tb_connection_size config) (tb_connection_rate config) 8 True) else None),
      pe_ref_count = 2\<rparr>"

abbreviation set_pe_next :: "client \<Rightarrow> ptr option \<Rightarrow> client" where
  "set_pe_next c x \<equiv> c\<lparr>pe_next := x\<rparr>"

abbreviation set_pe_prev :: "client \<Rightarrow> ptr option \<Rightarrow> client" where
  "set_pe_prev c x \<equiv> c\<lparr>pe_prev := x\<rparr>"

definition peers_incr_ref :: "ptr \<Rightarrow> client_table \<Rightarrow> client_table option" where
  "peers_incr_ref p s =
     do { peer \<leftarrow> pe_heap s p;
          Some (s\<lparr>pe_heap := (pe_heap s)(p \<mapsto> peer\<lparr>pe_ref_count := pe_ref_count peer + 1\<rparr>)\<rparr>) }"

definition peers_remove :: "ptr \<Rightarrow> client_table \<Rightarrow> (ssl_call list \<times> client_table) option" where
  "peers_remove p s =
     do {
       (h, head) \<leftarrow> unlink_node pe_next pe_prev set_pe_next set_pe_prev (pe_heap s) (peers_list s) p;
       peer \<leftarrow> h p;
       vpn_root \<leftarrow> tdelete (cmp_at compare_peers_vpn h peer) (peers_vpn_root s);
       address_root \<leftarrow> tdelete (cmp_at compare_peers_addr h peer) (peers_address_root s);
       Some ([Call_SSL_free, Call_BIO_free_out_fifo],
             s\<lparr>pe_heap := h(p := None), peers_list := head, peers_vpn_root := vpn_root,
               peers_address_root := address_root, peers_n_clients := peers_n_clients s - 1\<rparr>)
     }"

definition peers_decr_ref :: "ptr \<Rightarrow> u32 \<Rightarrow> client_table \<Rightarrow> (ssl_call list \<times> client_table) option" where
  "peers_decr_ref p n s =
     do {
       peer \<leftarrow> pe_heap s p;
       let peer' = peer\<lparr>pe_ref_count := pe_ref_count peer - n\<rparr>;
       let s' = s\<lparr>pe_heap := (pe_heap s)(p \<mapsto> peer')\<rparr>;
       if pe_ref_count peer' = 0 then peers_remove p s' else Some ([], s')
     }"

definition peers_add :: "configuration \<Rightarrow> client_mem \<Rightarrow> timespec \<Rightarrow> int \<Rightarrow> int \<Rightarrow> client_type \<Rightarrow> int \<Rightarrow> u32 \<Rightarrow> u16 \<Rightarrow> u32
  \<Rightarrow> bool \<Rightarrow> client_table \<Rightarrow> (ptr option \<times> ssl_call list \<times> client_table) option" where
  "peers_add config mem now sockfd tunfd state t clientIP clientPort peer_vpn is_dtls_client s =
     (if peers_n_clients s \<ge> conf_max_clients config then Some (None, [], s)
      else case pm_malloc mem (allocated (pe_heap s)) of
        None \<Rightarrow> Some (None, [], s)
      | Some p \<Rightarrow>
          (let peer = new_peer config now sockfd tunfd state t clientIP clientPort peer_vpn is_dtls_client;
               h = (pe_heap s)(p \<mapsto> peer);
               (r, calls) = createClientSSL config mem peer in
           if r \<noteq> 0 then Some (None, calls, s\<lparr>pe_heap := h(p := None)\<rparr>)
           else do {
             (slot, vpn_root) \<leftarrow> tsearch (cmp_at compare_peers_vpn h peer) (pm_tsearch_vpn mem) p (peers_vpn_root s);
             (case slot of
                None \<Rightarrow> Some (None, calls @ [Call_SSL_free], s\<lparr>pe_heap := h(p := None), peers_vpn_root := vpn_root\<rparr>)
              | Some _ \<Rightarrow> do {
                  (slot2, address_root) \<leftarrow>
                     (if clientPort \<noteq> 0
                      then tsearch (cmp_at compare_peers_addr h peer) (pm_tsearch_addr mem) p (peers_address_root s)
                      else Some (Some p, peers_address_root s));
                  (case slot2 of
                     None \<Rightarrow> do {
                       address_root' \<leftarrow> tdelete (cmp_at compare_peers_addr h peer) address_root;
                       Some (None, calls @ [Call_SSL_free],
                             s\<lparr>pe_heap := h(p := None), peers_vpn_root := vpn_root,
                               peers_address_root := address_root'\<rparr>)
                     }
                   | Some _ \<Rightarrow> do {
                       (h', head) \<leftarrow> link_head set_pe_next set_pe_prev h (peers_list s) p;
                       Some (Some p, calls,
                             s\<lparr>pe_heap := h', peers_list := head, peers_n_clients := peers_n_clients s + 1,
                               peers_vpn_root := vpn_root, peers_address_root := address_root\<rparr>)
                     })
                })
           }))"

definition peers_add_requested :: "configuration \<Rightarrow> client_mem \<Rightarrow> timespec \<Rightarrow> int \<Rightarrow> int \<Rightarrow> client_type \<Rightarrow> int \<Rightarrow> u32
  \<Rightarrow> client_table \<Rightarrow> (ptr option \<times> ssl_call list \<times> client_table) option" where
  "peers_add_requested config mem now sockfd tunfd state t peer_vpn s =
     peers_add config mem now sockfd tunfd state t 0 0 peer_vpn True s"

definition peers_add_caller :: "configuration \<Rightarrow> client_mem \<Rightarrow> timespec \<Rightarrow> int \<Rightarrow> int \<Rightarrow> client_type \<Rightarrow> int \<Rightarrow> u32 \<Rightarrow> u16 \<Rightarrow> u32
  \<Rightarrow> client_table \<Rightarrow> (ptr option \<times> ssl_call list \<times> client_table) option" where
  "peers_add_caller config mem now sockfd tunfd state t clientIP clientPort peer_vpn s =
     peers_add config mem now sockfd tunfd state t clientIP clientPort peer_vpn False s"

definition peers_register_endpoint :: "bool \<Rightarrow> ptr \<Rightarrow> client_table \<Rightarrow> (int \<times> client_table) option" where
  "peers_register_endpoint ok p s =
     do {
       peer \<leftarrow> pe_heap s p;
       (slot, address_root) \<leftarrow> tsearch (cmp_at compare_peers_addr (pe_heap s) peer) ok p (peers_address_root s);
       (case slot of
          None \<Rightarrow> Some (-1, s\<lparr>peers_address_root := address_root\<rparr>)
        | Some _ \<Rightarrow> Some (0, s\<lparr>peers_address_root := address_root\<rparr>))
     }"

text \<open>The searched item: the C sets only the key fields of \<^verbatim>\<open>peer_tmp\<close>, no other one is read.\<close>

definition peer_tmp :: "u32 \<Rightarrow> sockaddr_in \<Rightarrow> client" where
  "peer_tmp vpn ep = new_peer initConfig \<lparr>ts_sec = 0, ts_nsec = 0\<rparr> 0 0 NEW 0 (sin_addr ep) (sin_port ep) vpn False"

definition peers_get_by_VPN :: "u32 \<Rightarrow> client_table \<Rightarrow> (ptr option \<times> client_table) option" where
  "peers_get_by_VPN address s =
     do {
       r \<leftarrow> tfind (cmp_at compare_peers_vpn (pe_heap s) (peer_tmp address \<lparr>sin_addr = 0, sin_port = 0\<rparr>)) (peers_vpn_root s);
       (case r of
          None \<Rightarrow> Some (None, s)
        | Some p \<Rightarrow> do { s' \<leftarrow> peers_incr_ref p s; Some (Some p, s') })
     }"

definition peers_get_by_endpoint :: "sockaddr_in \<Rightarrow> client_table \<Rightarrow> (ptr option \<times> client_table) option" where
  "peers_get_by_endpoint cl_address s =
     do {
       r \<leftarrow> tfind (cmp_at compare_peers_addr (pe_heap s) (peer_tmp 0 cl_address)) (peers_address_root s);
       (case r of
          None \<Rightarrow> Some (None, s)
        | Some p \<Rightarrow> do { s' \<leftarrow> peers_incr_ref p s; Some (Some p, s') })
     }"

text \<open>A field assignment through a pointer to a peer.\<close>

definition set_peer :: "ptr \<Rightarrow> (client \<Rightarrow> client) \<Rightarrow> client_table \<Rightarrow> client_table option" where
  "set_peer p f s = do { peer \<leftarrow> pe_heap s p; Some (s\<lparr>pe_heap := (pe_heap s)(p \<mapsto> f peer)\<rparr>) }"

definition peers_update_peer_time :: "ptr \<Rightarrow> int \<Rightarrow> client_table \<Rightarrow> client_table option" where
  "peers_update_peer_time p t = set_peer p (\<lambda>c. c\<lparr>pe_time := t, pe_last_keepalive := t\<rparr>)"

section \<open>Interfaces\<close>

definition pe_payload :: "client \<Rightarrow> client" where
  "pe_payload c = c\<lparr>pe_next := None, pe_prev := None\<rparr>"

definition pe_endpoint :: "client \<Rightarrow> u32 \<times> u16" where
  "pe_endpoint c = (sin_addr (pe_clientaddr c), sin_port (pe_clientaddr c))"

lemma pe_payload_fields [simp]:
  "pe_endpoint (pe_payload c) = pe_endpoint c" "pe_vpnIP (pe_payload c) = pe_vpnIP c"
  "pe_ref_count (pe_payload c) = pe_ref_count c" "pe_state (pe_payload c) = pe_state c"
  by (simp_all add: pe_payload_def pe_endpoint_def)

lemma memcmp_zero: "length as = length bs \<Longrightarrow> memcmp as bs = 0 \<longleftrightarrow> as = bs"
  by (induction as bs rule: memcmp.induct) (auto simp: word_uint_eq_iff)

interpretation peer_links: linked_node pe_next pe_prev set_pe_next set_pe_prev pe_payload
  by unfold_locales (simp_all add: pe_payload_def)

interpretation peers_by_addr: key_compare compare_peers_addr pe_endpoint
  by unfold_locales (auto simp: compare_peers_addr_def pe_endpoint_def)

interpretation peers_by_vpn: key_compare compare_peers_vpn pe_vpnIP
proof unfold_locales
  fix a b :: client
  have "length (bytes_of_u32 (pe_vpnIP a)) = length (bytes_of_u32 (pe_vpnIP b))"
    by (simp add: bytes_of_u32_def)
  then show "compare_peers_vpn a b = 0 \<longleftrightarrow> pe_vpnIP a = pe_vpnIP b"
    unfolding compare_peers_vpn_def by (metis memcmp_zero bytes_of_u32_inj)
qed

section \<open>The invariant of the table\<close>

text \<open>\<open>table_wf ps s\<close>: the list holds the peers \<open>ps\<close>, which are exactly the allocated structures;
  the counter counts them; both indexes hold some of them under pairwise different keys.\<close>

definition table_wf :: "ptr list \<Rightarrow> client_table \<Rightarrow> bool" where
  "table_wf ps s \<longleftrightarrow>
     dlist pe_next pe_prev (pe_heap s) (peers_list s) ps \<and> distinct ps \<and>
     (\<forall>p. pe_heap s p \<noteq> None \<longleftrightarrow> p \<in> set ps) \<and> peers_n_clients s = int (length ps) \<and>
     peers_by_vpn.index_ok (pe_heap s) (set ps) (peers_vpn_root s) \<and>
     peers_by_addr.index_ok (pe_heap s) (set ps) (peers_address_root s)"

lemma table_wf_alloc: "table_wf ps s \<Longrightarrow> pe_heap s p \<noteq> None \<longleftrightarrow> p \<in> set ps"
  by (simp add: table_wf_def)

definition no_peers :: client_table where
  "no_peers = \<lparr>pe_heap = Map.empty, peers_list = None, peers_n_clients = 0, peers_vpn_root = [], peers_address_root = []\<rparr>"

lemma table_wf_init: "table_wf [] no_peers"
  by (simp add: table_wf_def no_peers_def peers_by_vpn.index_ok_Nil peers_by_addr.index_ok_Nil)

lemma pe_payload_key:
  assumes "field_at pe_payload h p = field_at pe_payload h' q"
  shows "field_at pe_endpoint h p = field_at pe_endpoint h' q"
    and "field_at pe_vpnIP h p = field_at pe_vpnIP h' q"
    and "field_at pe_ref_count h p = field_at pe_ref_count h' q"
    and "field_at pe_state h p = field_at pe_state h' q"
  using field_at_cong [OF assms, of pe_endpoint pe_endpoint]
    field_at_cong [OF assms, of pe_vpnIP pe_vpnIP] field_at_cong [OF assms, of pe_ref_count pe_ref_count]
    field_at_cong [OF assms, of pe_state pe_state]
  by (simp_all add: pe_endpoint_def pe_payload_def)

text \<open>Assignments that leave the links and the keys alone keep the invariant; the endpoint may
  change as long as the peer is not in the index by endpoint.\<close>

lemma table_wf_set:
  assumes wf: "table_wf ps s" and c: "pe_heap s p = Some c"
    and l: "pe_next c' = pe_next c" "pe_prev c' = pe_prev c" "pe_vpnIP c' = pe_vpnIP c"
    and a: "pe_clientaddr c' = pe_clientaddr c \<or> p \<notin> set (peers_address_root s)"
  shows "table_wf ps (s\<lparr>pe_heap := (pe_heap s)(p \<mapsto> c')\<rparr>)"
proof -
  have "peers_by_vpn.index_ok ((pe_heap s)(p \<mapsto> c')) (set ps) t = peers_by_vpn.index_ok (pe_heap s) (set ps) t" for t
    by (rule peers_by_vpn.index_ok_cong) (use c l in \<open>auto simp: field_at_Some\<close>)
  moreover have "peers_by_addr.index_ok ((pe_heap s)(p \<mapsto> c')) (set ps) (peers_address_root s)"
  proof -
    have "inj_on (field_at pe_endpoint ((pe_heap s)(p \<mapsto> c'))) (set (peers_address_root s)) =
      inj_on (field_at pe_endpoint (pe_heap s)) (set (peers_address_root s))"
      using a c by (intro inj_on_cong) (auto simp: field_at_Some pe_endpoint_def)
    with wf show ?thesis by (auto simp: table_wf_def peers_by_addr.index_ok_def)
  qed
  moreover have "p \<in> set ps" using wf c by (auto simp: table_wf_def)
  ultimately show ?thesis
    using wf dlseg_update_same [of "pe_heap s" p c pe_next c' pe_prev] c l by (auto simp: table_wf_def)
qed

lemma set_peer_wf:
  assumes "table_wf ps s" and "pe_heap s p = Some c"
    and "pe_next (f c) = pe_next c" "pe_prev (f c) = pe_prev c" "pe_vpnIP (f c) = pe_vpnIP c"
    and "pe_clientaddr (f c) = pe_clientaddr c \<or> p \<notin> set (peers_address_root s)"
  shows "set_peer p f s = Some (s\<lparr>pe_heap := (pe_heap s)(p \<mapsto> f c)\<rparr>)"
    and "table_wf ps (s\<lparr>pe_heap := (pe_heap s)(p \<mapsto> f c)\<rparr>)"
  using assms table_wf_set by (simp_all add: set_peer_def)

text \<open>Removing a peer: it leaves the list, both indexes and the heap; the others stay.\<close>

lemma index_ok_free:
  "peers_by_vpn.index_ok h A t \<Longrightarrow> p \<notin> set t \<Longrightarrow> peers_by_vpn.index_ok (h(p := None)) (A - {p}) t"
  "peers_by_addr.index_ok h A u \<Longrightarrow> p \<notin> set u \<Longrightarrow> peers_by_addr.index_ok (h(p := None)) (A - {p}) u"
  by (auto simp: peers_by_vpn.index_ok_def peers_by_addr.index_ok_def inj_on_def)

lemma peers_remove_wf:
  assumes wf: "table_wf ps s" and p: "p \<in> set ps"
  obtains s' where "peers_remove p s = Some ([Call_SSL_free, Call_BIO_free_out_fifo], s')" "table_wf (remove1 p ps) s'"
    "\<And>q. field_at pe_payload (pe_heap s') q = (if q = p then None else field_at pe_payload (pe_heap s) q)"
    "set (peers_address_root s') \<subseteq> set (peers_address_root s)"
proof -
  have l: "dlist pe_next pe_prev (pe_heap s) (peers_list s) ps" and d: "distinct ps"
    and ixv: "peers_by_vpn.index_ok (pe_heap s) (set ps) (peers_vpn_root s)"
    and ixa: "peers_by_addr.index_ok (pe_heap s) (set ps) (peers_address_root s)"
    using wf by (simp_all add: table_wf_def)
  obtain h head where u: "unlink_node pe_next pe_prev set_pe_next set_pe_prev (pe_heap s) (peers_list s) p = Some (h, head)"
    and l': "dlist pe_next pe_prev h head (remove1 p ps)"
    and pay: "\<And>q. field_at pe_payload h q = field_at pe_payload (pe_heap s) q"
    using peer_links.unlink_node_list [OF l d p] by metis
  have al: "\<And>q. h q \<noteq> None \<longleftrightarrow> q \<in> set ps"
    using field_at_alloc [OF pay] table_wf_alloc [OF wf] by simp
  then obtain c where c: "h p = Some c" using p by auto
  have ixv': "peers_by_vpn.index_ok h (set ps) (peers_vpn_root s)"
    using peers_by_vpn.index_ok_cong [of "set ps" h "pe_heap s"] pe_payload_key(2) [OF pay] ixv by simp
  have ixa': "peers_by_addr.index_ok h (set ps) (peers_address_root s)"
    using peers_by_addr.index_ok_cong [of "set ps" h "pe_heap s"] pe_payload_key(1) [OF pay] ixa by simp
  obtain tv where tv: "tdelete (cmp_at compare_peers_vpn h c) (peers_vpn_root s) = Some tv"
    "peers_by_vpn.index_ok h (set ps) tv" "p \<notin> set tv"
    using peers_by_vpn.tdelete_index [OF ixv' c] by metis
  obtain ta where ta: "tdelete (cmp_at compare_peers_addr h c) (peers_address_root s) = Some ta"
    "peers_by_addr.index_ok h (set ps) ta" "p \<notin> set ta" "set ta \<subseteq> set (peers_address_root s)"
    using peers_by_addr.tdelete_index [OF ixa' c] by metis
  let ?s = "s\<lparr>pe_heap := h(p := None), peers_list := head, peers_vpn_root := tv,
              peers_address_root := ta, peers_n_clients := peers_n_clients s - 1\<rparr>"
  have "int (length (remove1 p ps)) = int (length ps) - 1" using p by (cases "length ps") (simp_all add: length_remove1)
  moreover have "p \<notin> set (remove1 p ps)" using d by simp
  ultimately have "table_wf (remove1 p ps) ?s"
    using wf l' al p d index_ok_free(1) [OF tv(2,3)] index_ok_free(2) [OF ta(2,3)]
    by (auto simp: table_wf_def dlseg_update_other)
  moreover have "peers_remove p s = Some ([Call_SSL_free, Call_BIO_free_out_fifo], ?s)"
    using u c tv(1) ta(1) by (simp add: peers_remove_def)
  ultimately show thesis using pay ta(4) by (intro that [of ?s]) simp_all
qed

text \<open>Adding a peer.\<close>

lemma table_wf_link:
  assumes wf: "table_wf ps s" and p: "pe_heap s p = None"
    and v: "peers_by_vpn.index_ok ((pe_heap s)(p \<mapsto> c)) (insert p (set ps)) tv"
    and a: "peers_by_addr.index_ok ((pe_heap s)(p \<mapsto> c)) (insert p (set ps)) ta"
  obtains h' where "link_head set_pe_next set_pe_prev ((pe_heap s)(p \<mapsto> c)) (peers_list s) p = Some (h', Some p)"
    and "\<And>q. field_at pe_payload h' q = field_at pe_payload ((pe_heap s)(p \<mapsto> c)) q"
    and "table_wf (p # ps) (s\<lparr>pe_heap := h', peers_list := Some p, peers_n_clients := peers_n_clients s + 1,
            peers_vpn_root := tv, peers_address_root := ta\<rparr>)"
proof -
  let ?h = "(pe_heap s)(p \<mapsto> c)"
  have pps: "p \<notin> set ps" using p table_wf_alloc [OF wf, of p] by simp
  have l: "dlist pe_next pe_prev ?h (peers_list s) ps" and d: "distinct ps"
    using wf pps by (simp_all add: table_wf_def dlseg_update_other)
  obtain h' where h': "link_head set_pe_next set_pe_prev ?h (peers_list s) p = Some (h', Some p)"
    and l': "dlist pe_next pe_prev h' (Some p) (p # ps)"
    and pay: "\<And>q. field_at pe_payload h' q = field_at pe_payload ?h q"
    by (rule peer_links.link_head_list [OF l pps _ d]) auto
  have al: "\<And>q. h' q \<noteq> None \<longleftrightarrow> q \<in> set (p # ps)"
    using field_at_alloc [OF pay] table_wf_alloc [OF wf] by simp
  have "peers_by_vpn.index_ok h' (insert p (set ps)) tv"
    using peers_by_vpn.index_ok_cong [of "insert p (set ps)" h' ?h tv] pe_payload_key(2) [OF pay] v by simp
  moreover have "peers_by_addr.index_ok h' (insert p (set ps)) ta"
    using peers_by_addr.index_ok_cong [of "insert p (set ps)" h' ?h ta] pe_payload_key(1) [OF pay] a by simp
  ultimately have "table_wf (p # ps) (s\<lparr>pe_heap := h', peers_list := Some p, peers_n_clients := peers_n_clients s + 1,
            peers_vpn_root := tv, peers_address_root := ta\<rparr>)"
    using wf l' al pps d by (simp add: table_wf_def del: dlseg.simps)
  then show thesis by (rule that [OF h' pay])
qed

lemma index_ok_alloc:
  assumes "table_wf ps s" and "pe_heap s p = None"
  shows "peers_by_vpn.index_ok ((pe_heap s)(p \<mapsto> c)) (insert p (set ps)) (peers_vpn_root s)"
    and "peers_by_addr.index_ok ((pe_heap s)(p \<mapsto> c)) (insert p (set ps)) (peers_address_root s)"
    and "p \<notin> set (peers_vpn_root s)" and "p \<notin> set (peers_address_root s)"
proof -
  have p: "p \<notin> set ps" using assms table_wf_alloc [of ps s p] by simp
  with assms show "p \<notin> set (peers_vpn_root s)" "p \<notin> set (peers_address_root s)"
    by (auto simp: table_wf_def peers_by_vpn.index_ok_def peers_by_addr.index_ok_def)
  with assms show "peers_by_vpn.index_ok ((pe_heap s)(p \<mapsto> c)) (insert p (set ps)) (peers_vpn_root s)"
    "peers_by_addr.index_ok ((pe_heap s)(p \<mapsto> c)) (insert p (set ps)) (peers_address_root s)"
    by (auto simp: table_wf_def peers_by_vpn.index_ok_def peers_by_addr.index_ok_def inj_on_def)
qed

lemma table_unchanged: "pe_heap s p = None \<Longrightarrow> s\<lparr>pe_heap := (pe_heap s)(p := None)\<rparr> = s"
  by (simp add: fun_upd_idem)

text \<open>Adding a peer either changes nothing (no room, or an allocation fails), or puts one new
  structure with two references in front of the list. The node of the second index must not fail
  to be allocated (see \<open>peers_add_dangling\<close> below).\<close>

text \<open>What the code needs to add a peer: room in the table and every allocation.\<close>

definition add_possible :: "configuration \<Rightarrow> client_mem \<Rightarrow> client_table \<Rightarrow> bool" where
  "add_possible config mem s \<longleftrightarrow> peers_n_clients s < conf_max_clients config \<and> pm_malloc mem (allocated (pe_heap s)) \<noteq> None \<and>
     pm_SSL_new mem \<and> pm_dgram mem \<and> pm_limiter mem \<and> pm_rbio mem \<and> pm_out_fifo mem \<and> pm_tsearch_vpn mem"

lemma peers_add_cases:
  assumes wf: "table_wf ps s" and fr: "malloc_fresh (pm_malloc mem)"
    and node: "pm_tsearch_addr mem \<or> cPort = 0"
    and c: "c = new_peer config now sockfd tunfd state t cIP cPort vpn is_client"
  obtains (failed) calls where "peers_add config mem now sockfd tunfd state t cIP cPort vpn is_client s = Some (None, calls, s)"
      "\<not> add_possible config mem s"
  | (added) p calls s' where "peers_add config mem now sockfd tunfd state t cIP cPort vpn is_client s = Some (Some p, calls, s')"
      "pe_heap s p = None" "table_wf (p # ps) s'"
      "\<And>q. field_at pe_payload (pe_heap s') q = field_at pe_payload ((pe_heap s)(p \<mapsto> c)) q"
      "peers_n_clients s < conf_max_clients config"
      "cPort = 0 \<Longrightarrow> p \<notin> set (peers_address_root s')"
      "set (peers_address_root s') \<subseteq> insert p (set (peers_address_root s))"
proof (cases "peers_n_clients s \<ge> conf_max_clients config \<or> pm_malloc mem (allocated (pe_heap s)) = None")
  case True
  then show thesis by (intro failed) (auto simp: peers_add_def add_possible_def)
next
  case False
  then obtain p where room: "peers_n_clients s < conf_max_clients config"
    and m: "pm_malloc mem (allocated (pe_heap s)) = Some p" by auto
  have p: "pe_heap s p = None" using malloc_freshD [OF fr m] by simp
  let ?h = "(pe_heap s)(p \<mapsto> c)" and ?A = "insert p (set ps)"
  note start = peers_add_def [of config mem now sockfd tunfd state t cIP cPort vpn is_client s, folded c]
  note ix = index_ok_alloc(1,2) [OF wf p, of c] index_ok_alloc(3,4) [OF wf p]
  obtain r calls where ssl: "createClientSSL config mem c = (r, calls)" by (cases "createClientSSL config mem c")
  obtain r1 tv where v: "tsearch (cmp_at compare_peers_vpn ?h c) (pm_tsearch_vpn mem) p (peers_vpn_root s) = Some (r1, tv)"
    "peers_by_vpn.index_ok ?h ?A tv" "r1 = None \<Longrightarrow> tv = peers_vpn_root s" "pm_tsearch_vpn mem \<Longrightarrow> r1 \<noteq> None"
    by (rule peers_by_vpn.tsearch_index [OF ix(1) insertI1 ix(3) fun_upd_same, of "pm_tsearch_vpn mem"]) blast
  have "\<exists>q ta. (if cPort \<noteq> 0 then tsearch (cmp_at compare_peers_addr ?h c) (pm_tsearch_addr mem) p (peers_address_root s)
      else Some (Some p, peers_address_root s)) = Some (Some q, ta) \<and> peers_by_addr.index_ok ?h ?A ta \<and>
      (cPort = 0 \<longrightarrow> ta = peers_address_root s) \<and> set ta \<subseteq> insert p (set (peers_address_root s))"
  proof (cases "cPort = 0")
    case False
    with node have ok: "pm_tsearch_addr mem" by simp
    obtain r2 ta where "tsearch (cmp_at compare_peers_addr ?h c) True p (peers_address_root s) = Some (r2, ta)"
      "peers_by_addr.index_ok ?h ?A ta" "r2 \<noteq> None" "ta = peers_address_root s \<or> ta = p # peers_address_root s"
      by (rule peers_by_addr.tsearch_index [OF ix(2) insertI1 ix(4) fun_upd_same, of True]) blast
    with False ok show ?thesis by auto
  qed (use ix(2) in auto)
  then obtain q ta where a: "(if cPort \<noteq> 0 then tsearch (cmp_at compare_peers_addr ?h c) (pm_tsearch_addr mem) p (peers_address_root s)
      else Some (Some p, peers_address_root s)) = Some (Some q, ta)" "peers_by_addr.index_ok ?h ?A ta"
      "cPort = 0 \<longrightarrow> ta = peers_address_root s" "set ta \<subseteq> insert p (set (peers_address_root s))"
    by blast
  show thesis
  proof (cases "r = 0 \<and> r1 \<noteq> None")
    case True
    obtain h' where h: "link_head set_pe_next set_pe_prev ?h (peers_list s) p = Some (h', Some p)"
      "\<And>q. field_at pe_payload h' q = field_at pe_payload ?h q"
      "table_wf (p # ps) (s\<lparr>pe_heap := h', peers_list := Some p, peers_n_clients := peers_n_clients s + 1,
            peers_vpn_root := tv, peers_address_root := ta\<rparr>)"
      using table_wf_link [OF wf p v(2) a(2)] by metis
    show thesis
      by (rule added [OF _ p h(3) _ room, of calls]) (use room m ssl v(1) a True h(1,2) ix(4) in \<open>auto simp: start\<close>)
  next
    case False
    have "r = 0" if "add_possible config mem s"
      using ssl that by (auto simp: createClientSSL_def add_possible_def Let_def split: if_splits)
    then have no: "\<not> add_possible config mem s" using False v(4) by (auto simp: add_possible_def)
    show thesis
      by (rule failed [OF _ no, of "if r = 0 then calls @ [Call_SSL_free] else calls"])
        (use False room m ssl v(1,3) p in \<open>auto simp: start table_unchanged simp del: fun_upd_apply\<close>)
  qed
qed

section \<open>Reference counting\<close>

text \<open>The threads of the client share the table. A reference is a pointer that a thread, or the
  table itself, holds; \<open>hold p\<close> is the number of references to \<open>p\<close>. One step is one operation
  of the table by some thread.\<close>

datatype peer_write =
    Set_state client_type
  | Set_time int
  | Set_last_keepalive int
  | Set_shutdown
  | Set_rdv_answer u8
  | Set_clientaddr sockaddr_in

fun apply_write :: "peer_write \<Rightarrow> client \<Rightarrow> client" where
  "apply_write (Set_state x) c = c\<lparr>pe_state := x\<rparr>"
| "apply_write (Set_time t) c = c\<lparr>pe_time := t, pe_last_keepalive := t\<rparr>"
| "apply_write (Set_last_keepalive t) c = c\<lparr>pe_last_keepalive := t\<rparr>"
| "apply_write Set_shutdown c = c\<lparr>pe_shutdown := True\<rparr>"
| "apply_write (Set_rdv_answer a) c = c\<lparr>pe_rdv_answer := Some a\<rparr>"
| "apply_write (Set_clientaddr a) c = c\<lparr>pe_clientaddr := a\<rparr>"

datatype peer_event =
    Add client_mem timespec int int client_type int u32 u16 u32 bool
  | Get_by_VPN u32
  | Get_by_endpoint sockaddr_in
  | Incr_ref ptr
  | Decr_ref ptr u32
  | Register_endpoint bool ptr
  | Write ptr peer_write

record peer_sys =
  tbl :: client_table
  hold :: "ptr \<Rightarrow> nat"

definition add_hold :: "ptr option \<Rightarrow> nat \<Rightarrow> (ptr \<Rightarrow> nat) \<Rightarrow> ptr \<Rightarrow> nat" where
  "add_hold r n f = (case r of None \<Rightarrow> f | Some p \<Rightarrow> f(p := f p + n))"

fun peer_step :: "configuration \<Rightarrow> peer_event \<Rightarrow> peer_sys \<Rightarrow> peer_sys option" where
  "peer_step config (Add mem now sockfd tunfd state t cIP cPort vpn is_client) s =
     do { (r, _, x) \<leftarrow> peers_add config mem now sockfd tunfd state t cIP cPort vpn is_client (tbl s);
          Some \<lparr>tbl = x, hold = add_hold r 2 (hold s)\<rparr> }"
| "peer_step config (Get_by_VPN a) s =
     do { (r, x) \<leftarrow> peers_get_by_VPN a (tbl s); Some \<lparr>tbl = x, hold = add_hold r 1 (hold s)\<rparr> }"
| "peer_step config (Get_by_endpoint a) s =
     do { (r, x) \<leftarrow> peers_get_by_endpoint a (tbl s); Some \<lparr>tbl = x, hold = add_hold r 1 (hold s)\<rparr> }"
| "peer_step config (Incr_ref p) s =
     do { x \<leftarrow> peers_incr_ref p (tbl s); Some \<lparr>tbl = x, hold = add_hold (Some p) 1 (hold s)\<rparr> }"
| "peer_step config (Decr_ref p n) s =
     do { (_, x) \<leftarrow> peers_decr_ref p n (tbl s); Some \<lparr>tbl = x, hold = (hold s)(p := hold s p - unat n)\<rparr> }"
| "peer_step config (Register_endpoint ok p) s =
     do { (_, x) \<leftarrow> peers_register_endpoint ok p (tbl s); Some (s\<lparr>tbl := x\<rparr>) }"
| "peer_step config (Write p w) s =
     do { x \<leftarrow> set_peer p (apply_write w) (tbl s); Some (s\<lparr>tbl := x\<rparr>) }"

text \<open>The discipline the threads follow: a thread uses a peer only while it holds a reference and
  gives up no more references than it holds; there are fewer than \<open>2 ^ 32 - 1\<close> references, and the
  allocator is sound.\<close>

fun allowed :: "peer_event \<Rightarrow> peer_sys \<Rightarrow> bool" where
  "allowed (Add mem now sockfd tunfd state t cIP cPort vpn is_client) s = malloc_fresh (pm_malloc mem)"
| "allowed (Get_by_VPN a) s = (\<forall>p. hold s p < 2 ^ 32 - 1)"
| "allowed (Get_by_endpoint a) s = (\<forall>p. hold s p < 2 ^ 32 - 1)"
| "allowed (Incr_ref p) s = (0 < hold s p \<and> hold s p < 2 ^ 32 - 1)"
| "allowed (Decr_ref p n) s = (0 < unat n \<and> unat n \<le> hold s p)"
| "allowed (Register_endpoint ok p) s = (0 < hold s p)"
| "allowed (Write p w) s = (0 < hold s p)"

text \<open>The two things that the code does not guard against: the allocation of the node for the
  endpoint of a new peer fails, and the endpoint of a peer is written while the index by endpoint
  holds the peer under its old one.\<close>

fun node_fails :: "peer_event \<Rightarrow> bool" where
  "node_fails (Add mem now sockfd tunfd state t cIP cPort vpn is_client) = (\<not> pm_tsearch_addr mem \<and> cPort \<noteq> 0)"
| "node_fails _ = False"

fun moves_indexed :: "peer_event \<Rightarrow> peer_sys \<Rightarrow> bool" where
  "moves_indexed (Write p (Set_clientaddr a)) s = (p \<in> set (peers_address_root (tbl s)))"
| "moves_indexed _ s = False"

definition counts_ok :: "(ptr \<Rightarrow> nat) \<Rightarrow> client heap \<Rightarrow> bool" where
  "counts_ok f h \<longleftrightarrow> (\<forall>p. map_option unat (field_at pe_ref_count h p) = (if f p = 0 then None else Some (f p)))"

definition peer_sys_inv :: "peer_sys \<Rightarrow> bool" where
  "peer_sys_inv s \<longleftrightarrow> (\<exists>ps. table_wf ps (tbl s)) \<and> counts_ok (hold s) (pe_heap (tbl s))"

text \<open>No operation but an addition makes a peer appear, and none but an assignment changes its state.\<close>

definition states_le :: "client_table \<Rightarrow> client_table \<Rightarrow> bool" where
  "states_le x' x \<longleftrightarrow>
     (\<forall>q. field_at pe_state (pe_heap x') q = None \<or> field_at pe_state (pe_heap x') q = field_at pe_state (pe_heap x) q) \<and>
     set (peers_address_root x') \<subseteq> set (peers_address_root x)"

lemma states_leI:
  assumes "\<And>q. field_at pe_state (pe_heap x') q = None \<or> field_at pe_state (pe_heap x') q = field_at pe_state (pe_heap x) q"
    and "set (peers_address_root x') \<subseteq> set (peers_address_root x)"
  shows "states_le x' x"
  using assms by (simp add: states_le_def)

lemma states_le_refl [simp]: "states_le x x"
  by (simp add: states_le_def)

lemma states_le_trans:
  assumes "states_le z y" and "states_le y x"
  shows "states_le z x"
proof (rule states_leI)
  fix q
  show "field_at pe_state (pe_heap z) q = None \<or> field_at pe_state (pe_heap z) q = field_at pe_state (pe_heap x) q"
    using assms unfolding states_le_def by metis
qed (use assms in \<open>auto simp: states_le_def\<close>)

lemma counts_okD:
  assumes "counts_ok f h"
  shows "0 < f p \<longleftrightarrow> h p \<noteq> None" and "h p = Some c \<Longrightarrow> unat (pe_ref_count c) = f p"
  using assms by (auto simp: counts_ok_def field_at_def split: if_splits dest!: spec [of _ p])

lemma counts_ok_upd:
  assumes "counts_ok f h" and "\<And>q. q \<noteq> p \<Longrightarrow> field_at pe_ref_count h' q = field_at pe_ref_count h q"
    and "map_option unat (field_at pe_ref_count h' p) = (if n = 0 then None else Some n)"
  shows "counts_ok (f(p := n)) h'"
  unfolding counts_ok_def
proof
  fix q
  show "map_option unat (field_at pe_ref_count h' q) = (if (f(p := n)) q = 0 then None else Some ((f(p := n)) q))"
    using assms by (cases "q = p") (simp_all add: counts_ok_def)
qed

lemma counts_ok_cong:
  assumes "counts_ok f h" and "\<And>q. field_at pe_ref_count h' q = field_at pe_ref_count h q"
  shows "counts_ok f h'"
  using assms by (simp add: counts_ok_def)

lemma peers_incr_ref_inv:
  assumes wf: "table_wf ps x" and cnt: "counts_ok f (pe_heap x)" and p: "pe_heap x p = Some c" and b: "f p < 2 ^ 32 - 1"
  obtains x' where "peers_incr_ref p x = Some x'" "table_wf ps x'" "counts_ok (f(p := f p + 1)) (pe_heap x')" "states_le x' x"
    "peers_address_root x' = peers_address_root x"
proof -
  let ?c = "c\<lparr>pe_ref_count := pe_ref_count c + 1\<rparr>"
  have "unat (pe_ref_count c + 1) = f p + 1"
    using counts_okD(2) [OF cnt p] b by (simp add: unat_word_ariths)
  then have "counts_ok (f(p := f p + 1)) ((pe_heap x)(p \<mapsto> ?c))"
    by (intro counts_ok_upd [OF cnt]) simp_all
  moreover have "table_wf ps (x\<lparr>pe_heap := (pe_heap x)(p \<mapsto> ?c)\<rparr>)"
    by (rule table_wf_set [OF wf p]) simp_all
  moreover have "states_le (x\<lparr>pe_heap := (pe_heap x)(p \<mapsto> ?c)\<rparr>) x"
    by (rule states_leI) (use p in \<open>simp_all add: field_at_def\<close>)
  ultimately show thesis
    by (intro that [of "x\<lparr>pe_heap := (pe_heap x)(p \<mapsto> ?c)\<rparr>"]) (simp_all add: peers_incr_ref_def p)
qed

lemma peers_get_inv:
  assumes wf: "table_wf ps x" and cnt: "counts_ok f (pe_heap x)" and b: "\<And>p. f p < 2 ^ 32 - 1"
  shows "\<exists>r x'. peers_get_by_VPN a x = Some (r, x') \<and> table_wf ps x' \<and> counts_ok (add_hold r 1 f) (pe_heap x') \<and>
      states_le x' x \<and> peers_address_root x' = peers_address_root x \<and> (\<forall>p. r = Some p \<longrightarrow> 0 < f p)"
    and "\<exists>r x'. peers_get_by_endpoint e x = Some (r, x') \<and> table_wf ps x' \<and> counts_ok (add_hold r 1 f) (pe_heap x') \<and>
      states_le x' x \<and> peers_address_root x' = peers_address_root x \<and> (\<forall>p. r = Some p \<longrightarrow> 0 < f p)"
proof -
  have ixv: "peers_by_vpn.index_ok (pe_heap x) (set ps) (peers_vpn_root x)"
    and ixa: "peers_by_addr.index_ok (pe_heap x) (set ps) (peers_address_root x)"
    using wf by (simp_all add: table_wf_def)
  have got: "\<exists>r' x'. (case r of None \<Rightarrow> Some (None, x) | Some p \<Rightarrow> do { s' \<leftarrow> peers_incr_ref p x; Some (Some p, s') }) = Some (r', x') \<and>
      table_wf ps x' \<and> counts_ok (add_hold r' 1 f) (pe_heap x') \<and> states_le x' x \<and>
      peers_address_root x' = peers_address_root x \<and> (\<forall>p. r' = Some p \<longrightarrow> 0 < f p)"
    if r: "\<And>q. r = Some q \<Longrightarrow> q \<in> set ps" for r
  proof (cases r)
    case None
    then show ?thesis using wf cnt by (simp add: add_hold_def)
  next
    case (Some p)
    with r table_wf_alloc [OF wf, of p] obtain c where "pe_heap x p = Some c" by auto
    moreover from this have "0 < f p" using counts_okD(1) [OF cnt, of p] by simp
    ultimately obtain x' where "peers_incr_ref p x = Some x'" "table_wf ps x'" "counts_ok (f(p := f p + 1)) (pe_heap x')" "states_le x' x"
      "peers_address_root x' = peers_address_root x" "0 < f p"
      using peers_incr_ref_inv [OF wf cnt _ b] by metis
    then show ?thesis using Some by (simp add: add_hold_def)
  qed
  obtain r where r: "tfind (cmp_at compare_peers_vpn (pe_heap x) (peer_tmp a \<lparr>sin_addr = 0, sin_port = 0\<rparr>)) (peers_vpn_root x) = Some r"
    "\<And>q. r = Some q \<Longrightarrow> q \<in> set (peers_vpn_root x)"
    using peers_by_vpn.tfind_index [OF ixv, of "peer_tmp a \<lparr>sin_addr = 0, sin_port = 0\<rparr>"] by metis
  then have "\<And>q. r = Some q \<Longrightarrow> q \<in> set ps" using ixv by (auto simp: peers_by_vpn.index_ok_def)
  from got [OF this] show "\<exists>r x'. peers_get_by_VPN a x = Some (r, x') \<and> table_wf ps x' \<and> counts_ok (add_hold r 1 f) (pe_heap x') \<and>
      states_le x' x \<and> peers_address_root x' = peers_address_root x \<and> (\<forall>p. r = Some p \<longrightarrow> 0 < f p)"
    by (simp add: peers_get_by_VPN_def r(1))
  obtain r where r: "tfind (cmp_at compare_peers_addr (pe_heap x) (peer_tmp 0 e)) (peers_address_root x) = Some r"
    "\<And>q. r = Some q \<Longrightarrow> q \<in> set (peers_address_root x)"
    using peers_by_addr.tfind_index [OF ixa, of "peer_tmp 0 e"] by metis
  then have "\<And>q. r = Some q \<Longrightarrow> q \<in> set ps" using ixa by (auto simp: peers_by_addr.index_ok_def)
  from got [OF this] show "\<exists>r x'. peers_get_by_endpoint e x = Some (r, x') \<and> table_wf ps x' \<and> counts_ok (add_hold r 1 f) (pe_heap x') \<and>
      states_le x' x \<and> peers_address_root x' = peers_address_root x \<and> (\<forall>p. r = Some p \<longrightarrow> 0 < f p)"
    by (simp add: peers_get_by_endpoint_def r(1))
qed

lemma peers_decr_ref_inv:
  assumes wf: "table_wf ps x" and cnt: "counts_ok f (pe_heap x)" and n: "0 < unat n" "unat n \<le> f p"
  obtains calls x' where "peers_decr_ref p n x = Some (calls, x')"
    "table_wf (if unat n = f p then remove1 p ps else ps) x'" "counts_ok (f(p := f p - unat n)) (pe_heap x')"
    "set (peers_address_root x') \<subseteq> set (peers_address_root x)"
    "unat n \<noteq> f p \<Longrightarrow> calls = [] \<and> peers_address_root x' = peers_address_root x"
    "unat n = f p \<Longrightarrow> calls = [Call_SSL_free, Call_BIO_free_out_fifo]" "states_le x' x"
proof -
  obtain c where c: "pe_heap x p = Some c" using counts_okD(1) [OF cnt, of p] n by auto
  let ?c = "c\<lparr>pe_ref_count := pe_ref_count c - n\<rparr>" and ?x = "x\<lparr>pe_heap := (pe_heap x)(p \<mapsto> c\<lparr>pe_ref_count := pe_ref_count c - n\<rparr>)\<rparr>"
  have rc: "unat (pe_ref_count c) = f p" using counts_okD(2) [OF cnt c] .
  then have u: "unat (pe_ref_count c - n) = f p - unat n"
    using n by (simp add: unat_sub word_le_nat_alt)
  have wf': "table_wf ps ?x" by (rule table_wf_set [OF wf c]) simp_all
  show thesis
  proof (cases "unat n = f p")
    case True
    with u have z: "pe_ref_count c - n = 0" by (simp add: unat_eq_0)
    have "p \<in> set ps" using table_wf_alloc [OF wf, of p] c by simp
    then obtain x' where x': "peers_remove p ?x = Some ([Call_SSL_free, Call_BIO_free_out_fifo], x')" "table_wf (remove1 p ps) x'"
      "\<And>q. field_at pe_payload (pe_heap x') q = (if q = p then None else field_at pe_payload (pe_heap ?x) q)"
      "set (peers_address_root x') \<subseteq> set (peers_address_root ?x)"
      using peers_remove_wf [OF wf'] by metis
    have rcq: "field_at pe_ref_count (pe_heap x') q = field_at pe_ref_count (pe_heap x) q" if "q \<noteq> p" for q
      by (rule pe_payload_key(3)) (use x'(3) [of q] that in simp)
    have np: "field_at pe_ref_count (pe_heap x') p = None" using x'(3) [of p] by simp
    have "counts_ok (f(p := f p - unat n)) (pe_heap x')"
      by (rule counts_ok_upd [OF cnt rcq]) (simp_all add: np True)
    moreover have "states_le x' x"
    proof (rule states_leI)
      fix q
      show "field_at pe_state (pe_heap x') q = None \<or> field_at pe_state (pe_heap x') q = field_at pe_state (pe_heap x) q"
      proof (cases "q = p")
        case True
        then show ?thesis using x'(3) [of p] by simp
      next
        case False
        have "field_at pe_state (pe_heap x') q = field_at pe_state (pe_heap x) q"
          by (rule pe_payload_key(4)) (use x'(3) [of q] False in simp)
        then show ?thesis ..
      qed
    qed (use x'(4) in simp)
    ultimately show thesis using x' c z True by (intro that) (simp_all add: peers_decr_ref_def)
  next
    case False
    with u n have z: "pe_ref_count c - n \<noteq> 0" by (metis diff_is_0_eq le_antisym unat_0)
    have "counts_ok (f(p := f p - unat n)) (pe_heap ?x)"
      by (rule counts_ok_upd [OF cnt]) (use u False n in \<open>simp_all\<close>)
    moreover have "states_le ?x x" by (rule states_leI) (use c in \<open>simp_all add: field_at_def\<close>)
    ultimately show thesis using wf' c z False by (intro that [of "[]" ?x]) (simp_all add: peers_decr_ref_def)
  qed
qed

lemma peers_register_inv:
  assumes wf: "table_wf ps x" and p: "pe_heap x p = Some c"
  obtains r x' where "peers_register_endpoint ok p x = Some (r, x')" "table_wf ps x'" "pe_heap x' = pe_heap x"
    "set (peers_address_root x') \<subseteq> insert p (set (peers_address_root x))"
proof -
  have ix: "peers_by_addr.index_ok (pe_heap x) (set ps) (peers_address_root x)" using wf by (simp add: table_wf_def)
  have ps: "p \<in> set ps" using wf p by (auto simp: table_wf_def)
  have "\<exists>r t. tsearch (cmp_at compare_peers_addr (pe_heap x) c) ok p (peers_address_root x) = Some (r, t) \<and>
    peers_by_addr.index_ok (pe_heap x) (set ps) t \<and> (t = peers_address_root x \<or> t = p # peers_address_root x)"
  proof (cases "p \<in> set (peers_address_root x)")
    case True
    then have "tfind (cmp_at compare_peers_addr (pe_heap x) c) (peers_address_root x) = Some (Some p)"
      using peers_by_addr.tfind_index [OF ix, of c] p by (metis field_at_def option.simps(9))
    with ix show ?thesis by (simp add: tsearch_def)
  next
    case False
    then show ?thesis by (rule peers_by_addr.tsearch_index [OF ix ps _ p, of ok]) blast
  qed
  then obtain r t where t: "tsearch (cmp_at compare_peers_addr (pe_heap x) c) ok p (peers_address_root x) = Some (r, t)"
    "peers_by_addr.index_ok (pe_heap x) (set ps) t" "t = peers_address_root x \<or> t = p # peers_address_root x" by blast
  have "table_wf ps (x\<lparr>peers_address_root := t\<rparr>)" using wf t(2) by (simp add: table_wf_def)
  then show thesis
    by (intro that [of "if r = None then -1 else 0" "x\<lparr>peers_address_root := t\<rparr>"])
      (use p t(1,3) in \<open>auto simp: peers_register_endpoint_def split: option.splits\<close>)
qed

lemma apply_write_fields [simp]:
  "pe_next (apply_write w c) = pe_next c" "pe_prev (apply_write w c) = pe_prev c"
  "pe_vpnIP (apply_write w c) = pe_vpnIP c" "pe_ref_count (apply_write w c) = pe_ref_count c"
  by (cases w; simp)+

lemma write_inv:
  assumes wf: "table_wf ps x" and cnt: "counts_ok f (pe_heap x)" and p: "pe_heap x p = Some c"
    and a: "\<And>e. w = Set_clientaddr e \<Longrightarrow> p \<notin> set (peers_address_root x)"
  shows "\<exists>x'. set_peer p (apply_write w) x = Some x' \<and> table_wf ps x' \<and> counts_ok f (pe_heap x') \<and>
    peers_address_root x' = peers_address_root x"
proof -
  have "pe_clientaddr (apply_write w c) = pe_clientaddr c \<or> p \<notin> set (peers_address_root x)"
    using a by (cases w) auto
  with set_peer_wf [OF wf p, of "apply_write w"] have
    "set_peer p (apply_write w) x = Some (x\<lparr>pe_heap := (pe_heap x)(p \<mapsto> apply_write w c)\<rparr>)"
    "table_wf ps (x\<lparr>pe_heap := (pe_heap x)(p \<mapsto> apply_write w c)\<rparr>)" by simp_all
  moreover have "counts_ok f ((pe_heap x)(p \<mapsto> apply_write w c))"
    by (rule counts_ok_cong [OF cnt]) (simp add: field_at_def p)
  ultimately show ?thesis by simp
qed

text \<open>The runs of the table, with the number of those two mishaps on the way.\<close>

inductive peer_run :: "configuration \<Rightarrow> nat \<Rightarrow> peer_sys \<Rightarrow> bool" for config where
  run_init: "peer_run config 0 \<lparr>tbl = no_peers, hold = (\<lambda>_. 0)\<rparr>"
| run_step: "peer_run config k s \<Longrightarrow> allowed e s \<Longrightarrow> peer_step config e s = Some s' \<Longrightarrow>
    peer_run config (if node_fails e \<or> moves_indexed e s then Suc k else k) s'"

lemma peer_sys_invE:
  assumes "peer_sys_inv s"
  obtains ps where "table_wf ps (tbl s)" "counts_ok (hold s) (pe_heap (tbl s))"
  using assms by (auto simp: peer_sys_inv_def)

lemma peer_step_add:
  assumes inv: "peer_sys_inv s" and al: "malloc_fresh (pm_malloc mem)" "pm_tsearch_addr mem \<or> cPort = 0"
    and bound: "peers_n_clients (tbl s) \<le> max 0 (conf_max_clients config)"
  shows "\<exists>s'. peer_step config (Add mem now sockfd tunfd state t cIP cPort vpn is_client) s = Some s' \<and>
    peer_sys_inv s' \<and> peers_n_clients (tbl s') \<le> max 0 (conf_max_clients config)"
proof -
  from inv obtain ps where wf: "table_wf ps (tbl s)" and cnt: "counts_ok (hold s) (pe_heap (tbl s))" by (rule peer_sys_invE)
  define c where c: "c = new_peer config now sockfd tunfd state t cIP cPort vpn is_client"
  show ?thesis
  proof (cases rule: peers_add_cases [OF wf al c, case_names failed added])
    case (failed calls)
    with wf cnt bound show ?thesis by (auto simp: add_hold_def peer_sys_inv_def)
  next
    case (added p calls x)
    note rc = pe_payload_key(3) [OF added(4)]
    have "hold s p = 0" using counts_okD(1) [OF cnt, of p] added(2) by simp
    then have "counts_ok ((hold s)(p := 2)) (pe_heap x)"
      by (intro counts_ok_upd [OF cnt]) (simp_all add: rc c new_peer_def)
    then have "counts_ok (add_hold (Some p) 2 (hold s)) (pe_heap x)"
      by (simp add: add_hold_def \<open>hold s p = 0\<close> numeral_2_eq_2)
    moreover have "peers_n_clients x = peers_n_clients (tbl s) + 1"
      using wf added(3) by (simp add: table_wf_def del: dlseg.simps)
    ultimately show ?thesis
      using added(1,3,5) by (auto simp: peer_sys_inv_def)
  qed
qed

lemma table_wf_count: "table_wf ps x \<Longrightarrow> peers_n_clients x = int (length ps)"
  by (simp add: table_wf_def)

lemma peer_step_ok:
  assumes inv: "peer_sys_inv s" and al: "allowed e s" and no: "\<not> node_fails e" "\<not> moves_indexed e s"
    and bound: "peers_n_clients (tbl s) \<le> max 0 (conf_max_clients config)"
  shows "\<exists>s'. peer_step config e s = Some s' \<and> peer_sys_inv s' \<and>
    peers_n_clients (tbl s') \<le> max 0 (conf_max_clients config)"
proof -
  from inv obtain ps where wf: "table_wf ps (tbl s)" and cnt: "counts_ok (hold s) (pe_heap (tbl s))" by (rule peer_sys_invE)
  note n = table_wf_count [OF wf]
  have held: "\<exists>c. pe_heap (tbl s) p = Some c" if "0 < hold s p" for p
    using counts_okD(1) [OF cnt, of p] that by auto
  have done_: "\<exists>s'. peer_step config e s = Some s' \<and> peer_sys_inv s' \<and> peers_n_clients (tbl s') \<le> max 0 (conf_max_clients config)"
    if "peer_step config e s = Some \<lparr>tbl = x, hold = f\<rparr>" "table_wf qs x" "counts_ok f (pe_heap x)" "length qs \<le> length ps" for x f qs
    using that n bound by (auto simp: peer_sys_inv_def table_wf_count [OF that(2)])
  show ?thesis
  proof (cases e)
    case (Add mem now sockfd tunfd state t cIP cPort vpn is_client)
    with peer_step_add [OF inv _ _ bound] al no show ?thesis by simp
  next
    case (Get_by_VPN a)
    with al have "\<And>p. hold s p < 2 ^ 32 - 1" by simp
    from peers_get_inv(1) [OF wf cnt this] obtain r x where "peers_get_by_VPN a (tbl s) = Some (r, x)" "table_wf ps x"
      "counts_ok (add_hold r 1 (hold s)) (pe_heap x)" by blast
    with Get_by_VPN show ?thesis by (intro done_ [of x "add_hold r 1 (hold s)" ps]) simp_all
  next
    case (Get_by_endpoint a)
    with al have "\<And>p. hold s p < 2 ^ 32 - 1" by simp
    from peers_get_inv(2) [OF wf cnt this] obtain r x where "peers_get_by_endpoint a (tbl s) = Some (r, x)" "table_wf ps x"
      "counts_ok (add_hold r 1 (hold s)) (pe_heap x)" by blast
    with Get_by_endpoint show ?thesis by (intro done_ [of x "add_hold r 1 (hold s)" ps]) simp_all
  next
    case (Incr_ref p)
    with al held obtain c where "pe_heap (tbl s) p = Some c" "hold s p < 2 ^ 32 - 1" by auto
    then obtain x where "peers_incr_ref p (tbl s) = Some x" "table_wf ps x" "counts_ok ((hold s)(p := hold s p + 1)) (pe_heap x)"
      using peers_incr_ref_inv [OF wf cnt] by blast
    with Incr_ref show ?thesis by (intro done_ [of x "(hold s)(p := hold s p + 1)" ps]) (simp_all add: add_hold_def)
  next
    case (Decr_ref p m)
    with al have m: "0 < unat m" "unat m \<le> hold s p" by simp_all
    obtain calls x where "peers_decr_ref p m (tbl s) = Some (calls, x)"
      "table_wf (if unat m = hold s p then remove1 p ps else ps) x" "counts_ok ((hold s)(p := hold s p - unat m)) (pe_heap x)"
      by (rule peers_decr_ref_inv [OF wf cnt m]) blast
    with Decr_ref show ?thesis
      by (intro done_ [of x "(hold s)(p := hold s p - unat m)" "if unat m = hold s p then remove1 p ps else ps"])
        (simp_all add: length_remove1)
  next
    case (Register_endpoint ok p)
    with al held obtain c where "pe_heap (tbl s) p = Some c" by auto
    then obtain r x where "peers_register_endpoint ok p (tbl s) = Some (r, x)" "table_wf ps x" "pe_heap x = pe_heap (tbl s)"
      by (rule peers_register_inv [OF wf, of p c ok]) blast
    with Register_endpoint cnt show ?thesis by (intro done_ [of x "hold s" ps]) simp_all
  next
    case (Write p w)
    with al no have h: "0 < hold s p" and a: "\<And>e. w = Set_clientaddr e \<Longrightarrow> p \<notin> set (peers_address_root (tbl s))"
      by (cases w; simp)+
    from held [OF h] obtain c where "pe_heap (tbl s) p = Some c" by blast
    from write_inv [OF wf cnt this, of w] a obtain x where "set_peer p (apply_write w) (tbl s) = Some x"
      "table_wf ps x" "counts_ok (hold s) (pe_heap x)" by blast
    with Write show ?thesis by (intro done_ [of x "hold s" ps]) simp_all
  qed
qed

lemma peer_run_inv:
  "peer_run config k s \<Longrightarrow> k = 0 \<Longrightarrow> peer_sys_inv s \<and> peers_n_clients (tbl s) \<le> max 0 (conf_max_clients config)"
proof (induction rule: peer_run.induct)
  case run_init
  have "counts_ok (\<lambda>_. 0) (pe_heap no_peers)" by (simp add: counts_ok_def no_peers_def)
  then show ?case using table_wf_init by (auto simp: peer_sys_inv_def no_peers_def)
next
  case (run_step k s e s')
  then show ?case using peer_step_ok [of s e config] by (auto split: if_splits)
qed

lemma table_wf_card:
  assumes "table_wf ps x" and "counts_ok f (pe_heap x)"
  shows "peers_n_clients x = int (card {p. 0 < f p})"
proof -
  have "{p. 0 < f p} = set ps"
    using counts_okD(1) [OF assms(2)] table_wf_alloc [OF assms(1)] by auto
  then show ?thesis using assms(1) by (simp add: table_wf_def distinct_card)
qed

text \<open>C3. Memory safety of the peer table under any interleaving of the threads, a step being one
  operation of the table, which the code runs under a mutex. Two mishaps against which the code has
  no guard are excluded, before the step and in the step: that the node of the tree by endpoint
  cannot be allocated for a new peer, and that the endpoint of a peer is written while that tree
  holds the peer. Then every operation that a thread may perform next runs without touching freed
  memory; after it a structure exists exactly while somebody holds a reference to it, its counter is
  the number of those references, it is freed at the moment the last one is given up and not
  before, the number of peers is the number of structures and never exceeds the configured maximum.\<close>

theorem peer_references_safe:
  assumes "peer_run config 0 s" and "allowed e s" and "\<not> node_fails e" and "\<not> moves_indexed e s"
  shows "\<exists>s'. peer_step config e s = Some s' \<and>
    (\<forall>p. map_option unat (field_at pe_ref_count (pe_heap (tbl s')) p) = (if hold s' p = 0 then None else Some (hold s' p))) \<and>
    peers_n_clients (tbl s') = int (card {p. 0 < hold s' p}) \<and>
    peers_n_clients (tbl s') \<le> max 0 (conf_max_clients config)"
proof -
  obtain s' where s': "peer_step config e s = Some s'" "peer_sys_inv s'"
    "peers_n_clients (tbl s') \<le> max 0 (conf_max_clients config)"
    using peer_step_ok [OF _ assms(2-4)] peer_run_inv [OF assms(1)] by blast
  from s'(2) obtain ps where "table_wf ps (tbl s')" "counts_ok (hold s') (pe_heap (tbl s'))" by (rule peer_sys_invE)
  with table_wf_card s' show ?thesis by (auto simp: counts_ok_def)
qed

definition demo_mem :: client_mem where
  "demo_mem = \<lparr>pm_malloc = malloc3, pm_SSL_new = True, pm_dgram = True, pm_limiter = True, pm_rbio = True,
     pm_out_fifo = True, pm_tsearch_vpn = True, pm_tsearch_addr = True\<rparr>"

abbreviation demo_now :: timespec where
  "demo_now \<equiv> \<lparr>ts_sec = 0, ts_nsec = 0\<rparr>"

abbreviation demo_add :: peer_event where
  "demo_add \<equiv> Add demo_mem demo_now 3 4 PUNCHING 0 5 6 7 False"

definition demo_peer_sys :: peer_sys where
  "demo_peer_sys = the (peer_step initConfig demo_add \<lparr>tbl = no_peers, hold = (\<lambda>_. 0)\<rparr>)"

lemma demo_peer_sys_eq:
  "peer_step initConfig demo_add \<lparr>tbl = no_peers, hold = (\<lambda>_. 0)\<rparr> = Some demo_peer_sys"
  "demo_peer_sys = \<lparr>tbl = \<lparr>pe_heap = [1 \<mapsto> new_peer initConfig demo_now 3 4 PUNCHING 0 5 6 7 False],
     peers_list = Some 1, peers_n_clients = 1, peers_vpn_root = [1], peers_address_root = [1]\<rparr>, hold = (\<lambda>_. 0)(1 := 2)\<rparr>"
  by (simp_all add: demo_peer_sys_def fun_eq_iff peers_add_def no_peers_def initConfig_def demo_mem_def malloc3_def createClientSSL_def
      tsearch_def link_head_def new_peer_def add_hold_def Let_def)

lemma demo_peer_run: "peer_run initConfig 0 demo_peer_sys"
  using run_step [OF run_init _ demo_peer_sys_eq(1)] by (simp add: demo_mem_def malloc3_fresh)

text \<open>A peer is added with its two references, and both are given up.\<close>

theorem peer_references_safe_witness:
  "\<exists>s'. peer_step initConfig (Decr_ref 1 2) demo_peer_sys = Some s' \<and>
    (\<forall>p. map_option unat (field_at pe_ref_count (pe_heap (tbl s')) p) = (if hold s' p = 0 then None else Some (hold s' p))) \<and>
    peers_n_clients (tbl s') = int (card {p. 0 < hold s' p}) \<and>
    peers_n_clients (tbl s') \<le> max 0 (conf_max_clients initConfig)"
  by (rule peer_references_safe [OF demo_peer_run]) (simp_all add: demo_peer_sys_eq(2))

section \<open>A failure path that leaves a dangling pointer\<close>

text \<open>C31. The failure path of \<^verbatim>\<open>peers_add\<close> after the peer has entered the index by VPN address: when the
  node for the index by endpoint cannot be allocated, the code deletes the peer from the index by
  endpoint, where it is not, instead of the index by VPN address. The structure is freed, its
  queue of outgoing packets is not, and the index by VPN address keeps the freed pointer: the next
  lookup of that address reads freed memory.\<close>

theorem peers_add_dangling:
  assumes wf: "table_wf ps s" and room: "peers_n_clients s < conf_max_clients config"
    and m: "malloc_fresh (pm_malloc mem)" "pm_malloc mem (allocated (pe_heap s)) = Some p"
    and ok: "pm_SSL_new mem" "pm_dgram mem" "pm_limiter mem" "pm_rbio mem" "pm_out_fifo mem" "pm_tsearch_vpn mem"
    and fail: "\<not> pm_tsearch_addr mem" "cPort \<noteq> 0"
    and new: "\<forall>q \<in> set (peers_vpn_root s). field_at pe_vpnIP (pe_heap s) q \<noteq> Some vpn"
      "\<forall>q \<in> set (peers_address_root s). field_at pe_endpoint (pe_heap s) q \<noteq> Some (cIP, cPort)"
  shows "\<exists>calls s'. peers_add config mem now sockfd tunfd state t cIP cPort vpn is_client s = Some (None, calls, s') \<and>
    pe_heap s' p = None \<and> p \<in> set (peers_vpn_root s') \<and> peers_get_by_VPN vpn s' = None \<and>
    Call_new_out_fifo (FIFO_size config) (MESSAGE_MAX_LENGTH config) \<in> set calls \<and> Call_BIO_free_out_fifo \<notin> set calls"
proof -
  define c where c: "c = new_peer config now sockfd tunfd state t cIP cPort vpn is_client"
  note start = peers_add_def [of config mem now sockfd tunfd state t cIP cPort vpn is_client s, folded c]
  have p: "pe_heap s p = None" using malloc_freshD [OF m] by simp
  let ?h = "(pe_heap s)(p \<mapsto> c)"
  note ix = index_ok_alloc(1,2) [OF wf p, of c] index_ok_alloc(3,4) [OF wf p]
  have key: "pe_vpnIP c = vpn" "pe_endpoint c = (cIP, cPort)" by (simp_all add: c new_peer_def pe_endpoint_def)
  have al: "?h q \<noteq> None" if "q \<in> set (peers_vpn_root s) \<or> q \<in> set (peers_address_root s)" for q
    using ix(1,2) that unfolding peers_by_vpn.index_ok_def peers_by_addr.index_ok_def by blast
  have "field_at pe_vpnIP ?h q \<noteq> Some vpn" if "q \<in> set (peers_vpn_root s)" for q
    using new(1) ix(3) that by auto
  then have v: "tfind (cmp_at compare_peers_vpn ?h c) (peers_vpn_root s) = Some None"
    using al by (intro peers_by_vpn.tfind_absent) (simp_all add: key del: fun_upd_apply field_at_upd)
  have "field_at pe_endpoint ?h q \<noteq> Some (cIP, cPort)" if "q \<in> set (peers_address_root s)" for q
    using new(2) ix(4) that by auto
  then have a: "tfind (cmp_at compare_peers_addr ?h c) (peers_address_root s) = Some None"
    using al by (intro peers_by_addr.tfind_absent) (simp_all add: key del: fun_upd_apply field_at_upd)
  obtain ta where ta: "tdelete (cmp_at compare_peers_addr ?h c) (peers_address_root s) = Some ta"
    using peers_by_addr.tdelete_index [OF ix(2), of p c] by auto
  obtain calls where calls: "createClientSSL config mem c = (0, calls)"
    "Call_new_out_fifo (FIFO_size config) (MESSAGE_MAX_LENGTH config) \<in> set calls" "Call_BIO_free_out_fifo \<notin> set calls"
    using ok by (cases "pe_is_dtls_client c") (auto simp: createClientSSL_def Let_def)
  let ?s = "s\<lparr>pe_heap := ?h(p := None), peers_vpn_root := p # peers_vpn_root s, peers_address_root := ta\<rparr>"
  have "peers_add config mem now sockfd tunfd state t cIP cPort vpn is_client s = Some (None, calls @ [Call_SSL_free], ?s)"
    using room m(2) calls(1) ok(6) fail v a ta by (simp add: start tsearch_def)
  moreover have "peers_get_by_VPN vpn ?s = None" by (simp add: peers_get_by_VPN_def)
  ultimately show ?thesis using calls(2,3)
    by (intro exI [of _ "calls @ [Call_SSL_free]"] exI [of _ ?s]) simp
qed

theorem peers_add_dangling_witness:
  "\<exists>calls s'. peers_add initConfig (demo_mem\<lparr>pm_tsearch_addr := False\<rparr>) demo_now 3 4 PUNCHING 0 5 6 7 False no_peers = Some (None, calls, s') \<and>
    pe_heap s' 1 = None \<and> 1 \<in> set (peers_vpn_root s') \<and> peers_get_by_VPN 7 s' = None \<and>
    Call_new_out_fifo (FIFO_size initConfig) (MESSAGE_MAX_LENGTH initConfig) \<in> set calls \<and> Call_BIO_free_out_fifo \<notin> set calls"
  by (rule peers_add_dangling [OF table_wf_init])
    (simp_all add: no_peers_def initConfig_def demo_mem_def malloc3_fresh, simp_all add: malloc3_def)

end
