(* ===== verification/Client_Packet.thy ===== *)
theory Client_Packet
  imports Client_Config
begin

text \<open>
  The packets the client builds and rewrites (\<^verbatim>\<open>client/communication.c\<close>, \<^verbatim>\<open>client/communication.h\<close>):
  messages for the rendezvous server, the registration with it, the fatal alert for unknown peers,
  the IPv4 header checksum of rewritten broadcast packets, and the size limit that is given to
  OpenSSL once a session is established. Buffers are byte lists; multi-byte fields are read and
  written in the memory order of the host, which is little endian.
\<close>

section \<open>Constants\<close>

abbreviation DTLS_CHANGE_CIPHER_SPEC :: u8 where "DTLS_CHANGE_CIPHER_SPEC \<equiv> 20"
abbreviation DTLS_ALERT :: u8 where "DTLS_ALERT \<equiv> 21"
abbreviation DTLS_HANDSHAKE :: u8 where "DTLS_HANDSHAKE \<equiv> 22"
abbreviation DTLS_APPLICATION_DATA :: u8 where "DTLS_APPLICATION_DATA \<equiv> 23"
abbreviation MAX_REGISTERING_TRIES :: nat where "MAX_REGISTERING_TRIES \<equiv> 4"
abbreviation PUNCH_NUMBER :: nat where "PUNCH_NUMBER \<equiv> 10"
abbreviation DTLS1_RT_HEADER_LENGTH :: u32 where "DTLS1_RT_HEADER_LENGTH \<equiv> 13"
abbreviation sizeof_dtlsheader_t :: nat where "sizeof_dtlsheader_t \<equiv> 13"
abbreviation sizeof_ip :: nat where "sizeof_ip \<equiv> 20"

section \<open>Messages\<close>

definition init_smsg :: "u8 \<Rightarrow> u32 \<Rightarrow> u32 \<Rightarrow> message_t" where
  "init_smsg type ip1 ip2 = \<lparr>m_type = type, m_port = 0, m_ip1 = ip1, m_ip2 = ip2\<rparr>"

definition init_timeout :: timeval where
  "init_timeout = \<lparr>tv_sec = 2, tv_usec = 0\<rparr>"

text \<open>One attempt of \<^verbatim>\<open>sendto\<close>: the number of bytes sent, a full socket buffer, or another error.\<close>

datatype send_outcome = Sent nat | Again | Failed

fun xsendto :: "send_outcome list \<Rightarrow> int option" where
  "xsendto [] = None"
| "xsendto (Sent n # os) = Some (int n)"
| "xsendto (Again # os) = xsendto os"
| "xsendto (Failed # os) = Some (-1)"

definition register_message :: "configuration \<Rightarrow> message_t" where
  "register_message config =
     (if send_local_addr config = 1
      then (init_smsg HELLO (vpnIP config) (localIP config))\<lparr>m_port := htons (localport config)\<rparr>
      else if send_local_addr config = 2
      then (init_smsg HELLO (vpnIP config) (sin_addr (override_local_addr config)))
             \<lparr>m_port := sin_port (override_local_addr config)\<rparr>
      else init_smsg HELLO (vpnIP config) 0)"

text \<open>The loop of \<^verbatim>\<open>register_rdv\<close>. \<open>stop i\<close> is the value of \<^verbatim>\<open>end_campagnol\<close> at the test before the
  try number \<open>i\<close>, \<open>reply i\<close> the message that the try reads from the queue, if any. The result holds the
  messages that were sent.\<close>

function register_loop :: "configuration \<Rightarrow> (nat \<Rightarrow> bool) \<Rightarrow> (nat \<Rightarrow> message_t option) \<Rightarrow> bool \<Rightarrow> nat \<Rightarrow> bool \<times> message_t list" where
  "register_loop config stop reply registered tries =
     (if \<not> registered \<and> tries < MAX_REGISTERING_TRIES \<and> \<not> stop tries then
        (let registered' = (case reply tries of None \<Rightarrow> False | Some rmsg \<Rightarrow> m_type rmsg = OK);
             (r, sent) = register_loop config stop reply registered' (tries + 1) in
         (r, register_message config # sent))
      else (registered, []))"
  by pat_completeness auto
termination by (relation "measure (\<lambda>(_, _, _, _, t). MAX_REGISTERING_TRIES - t)") auto

declare register_loop.simps [simp del]

definition register_rdv :: "configuration \<Rightarrow> (nat \<Rightarrow> bool) \<Rightarrow> (nat \<Rightarrow> message_t option) \<Rightarrow> bool \<times> message_t list" where
  "register_rdv config stop reply = register_loop config stop reply False 0"

section \<open>The alert for an unknown peer\<close>

text \<open>The alert record: content type, then version, epoch and sequence number of the record that
  was received, then length and content.\<close>

definition alert_record :: "u8 list \<Rightarrow> u8 list" where
  "alert_record hdr = DTLS_ALERT # take 10 (drop 1 hdr) @ [0, 2, 2, 80]"

section \<open>The checksum\<close>

fun csum_loop :: "u8 list \<Rightarrow> int \<Rightarrow> int" where
  "csum_loop (a # b # xs) acc = csum_loop xs (acc + uint (u16_of_bytes a b))"
| "csum_loop [a] acc = acc + uint a * 2 ^ 8"
| "csum_loop [] acc = acc"

definition fold_sum :: "int \<Rightarrow> int" where
  "fold_sum acc = acc div 2 ^ 16 + acc mod 2 ^ 16"

definition compute_csum :: "u8 list \<Rightarrow> u16" where
  "compute_csum addr = NOT (word_of_int (fold_sum (csum_loop addr 0)))"

text \<open>Fields of the IPv4 header: the destination address at offset 16, the checksum at offset 10.\<close>

definition ip_dst :: "u8 list \<Rightarrow> u32" where
  "ip_dst ip = u32_of_bytes (ip ! 16) (ip ! 17) (ip ! 18) (ip ! 19)"

definition set_ip_dst :: "u32 \<Rightarrow> u8 list \<Rightarrow> u8 list" where
  "set_ip_dst a ip = take 16 ip @ bytes_of_u32 a @ drop 20 ip"

definition set_ip_sum :: "u16 \<Rightarrow> u8 list \<Rightarrow> u8 list" where
  "set_ip_sum x ip = take 10 ip @ bytes_of_u16 x @ drop 12 ip"

definition rewrite_broadcast :: "configuration \<Rightarrow> u8 list \<Rightarrow> u8 list" where
  "rewrite_broadcast config ip =
     (if ip_dst ip = vpnBroadcastIP config then
        (let ip1 = set_ip_sum 0 (set_ip_dst (vpnIP config) ip) in
         set_ip_sum (compute_csum (take sizeof_ip ip1)) ip1)
      else ip)"

section \<open>The size limit of the session\<close>

definition link_mtu :: "configuration \<Rightarrow> u32 \<Rightarrow> u32 \<Rightarrow> u32" where
  "link_mtu config mac_size blocksize =
     (let pkt_size = word_of_int (tun_mtu config) + 1 + blocksize + mac_size;
          rest = pkt_size AND (blocksize - 1);
          mtu = (if rest \<noteq> 0 then pkt_size + (blocksize - rest) else pkt_size) in
      mtu + DTLS1_RT_HEADER_LENGTH)"

section \<open>Registration\<close>

lemma register_loop_start:
  "register_loop config stop reply True tries = (True, [])"
  by (simp add: register_loop.simps)

definition accepted_at :: "(nat \<Rightarrow> bool) \<Rightarrow> (nat \<Rightarrow> message_t option) \<Rightarrow> nat \<Rightarrow> bool" where
  "accepted_at stop reply i \<longleftrightarrow> \<not> stop i \<and> (case reply i of None \<Rightarrow> False | Some rmsg \<Rightarrow> m_type rmsg = OK)"

lemma register_loop_step:
  assumes "tries < MAX_REGISTERING_TRIES"
  shows "fst (register_loop config stop reply False tries) \<longleftrightarrow>
    \<not> stop tries \<and> (accepted_at stop reply tries \<or> fst (register_loop config stop reply False (tries + 1)))"
proof -
  let ?b = "case reply tries of None \<Rightarrow> False | Some rmsg \<Rightarrow> m_type rmsg = OK"
  have "fst (register_loop config stop reply False tries) \<longleftrightarrow> \<not> stop tries \<and> fst (register_loop config stop reply ?b (tries + 1))"
    using assms by (subst register_loop.simps) (simp add: case_prod_beta Let_def)
  then show ?thesis by (cases ?b; cases "stop tries") (simp_all add: register_loop_start accepted_at_def)
qed

text \<open>From a given try on: success exactly when a later try is accepted before a stop and before
  the tries run out.\<close>

lemma register_loop_result:
  "fst (register_loop config stop reply False tries) \<longleftrightarrow>
     (\<exists>i. tries \<le> i \<and> i < MAX_REGISTERING_TRIES \<and> accepted_at stop reply i \<and> (\<forall>j. tries \<le> j \<and> j < i \<longrightarrow> \<not> stop j))"
  (is "?L tries \<longleftrightarrow> ?R tries")
proof (induction "MAX_REGISTERING_TRIES - tries" arbitrary: tries)
  case 0
  then show ?case by (simp add: register_loop.simps)
next
  case (Suc n)
  then have lt: "tries < MAX_REGISTERING_TRIES" and IH: "?L (tries + 1) \<longleftrightarrow> ?R (tries + 1)" by auto
  have unroll: "?R tries \<longleftrightarrow> \<not> stop tries \<and> (accepted_at stop reply tries \<or> ?R (tries + 1))"
  proof
    assume "?R tries"
    then obtain i where i: "tries \<le> i" "i < MAX_REGISTERING_TRIES" "accepted_at stop reply i" "\<forall>j. tries \<le> j \<and> j < i \<longrightarrow> \<not> stop j"
      by blast
    show "\<not> stop tries \<and> (accepted_at stop reply tries \<or> ?R (tries + 1))"
    proof (cases "i = tries")
      case True
      with i show ?thesis by (simp add: accepted_at_def)
    next
      case False
      with i have "tries + 1 \<le> i" "\<not> stop tries" by auto
      moreover have "\<forall>j. tries + 1 \<le> j \<and> j < i \<longrightarrow> \<not> stop j" using i(4) by auto
      ultimately show ?thesis using i(2,3) by blast
    qed
  next
    assume r: "\<not> stop tries \<and> (accepted_at stop reply tries \<or> ?R (tries + 1))"
    show "?R tries"
    proof (cases "accepted_at stop reply tries")
      case True
      with lt show ?thesis by (intro exI [of _ tries]) auto
    next
      case False
      with r obtain i where i: "tries + 1 \<le> i" "i < MAX_REGISTERING_TRIES" "accepted_at stop reply i"
        "\<forall>j. tries + 1 \<le> j \<and> j < i \<longrightarrow> \<not> stop j" by blast
      have "\<forall>j. tries \<le> j \<and> j < i \<longrightarrow> \<not> stop j" using i(4) r by (metis Suc_eq_plus1 not_less_eq_eq le_antisym)
      with i show ?thesis by (intro exI [of _ i]) auto
    qed
  qed
  have "?L tries \<longleftrightarrow> \<not> stop tries \<and> (accepted_at stop reply tries \<or> ?L (tries + 1))"
    by (rule register_loop_step [OF lt])
  with unroll IH show ?case by (simp only:)
qed

lemma register_loop_sent:
  "\<exists>n. n \<le> MAX_REGISTERING_TRIES - tries \<and> snd (register_loop config stop reply b tries) = replicate n (register_message config)"
proof (induction "MAX_REGISTERING_TRIES - tries" arbitrary: tries b)
  case 0
  then show ?case by (simp add: register_loop.simps)
next
  case (Suc k)
  let ?b = "case reply tries of None \<Rightarrow> False | Some rmsg \<Rightarrow> m_type rmsg = OK"
  have k: "k = MAX_REGISTERING_TRIES - (tries + 1)" using Suc(2) by simp
  obtain n where "n \<le> MAX_REGISTERING_TRIES - (tries + 1)" "snd (register_loop config stop reply ?b (tries + 1)) = replicate n (register_message config)"
    using Suc(1) [of "tries + 1" ?b, OF k] by blast
  then show ?case
    using Suc(2) by (intro exI [of _ "if \<not> b \<and> tries < MAX_REGISTERING_TRIES \<and> \<not> stop tries then Suc n else 0"])
      (auto simp: register_loop.simps [of config stop reply b tries] case_prod_beta Let_def)
qed

text \<open>Registration with the rendezvous server ends after at most four attempts. It succeeds exactly
  when one of the attempts reads the answer OK, no earlier test having seen the request to stop;
  every message it sends is the same HELLO, with the VPN address of the client and, as the
  configuration asks, its local endpoint, the overriding one, or none.\<close>

theorem registration_bounded:
  "(fst (register_rdv config stop reply) \<longleftrightarrow>
     (\<exists>i < MAX_REGISTERING_TRIES. (\<exists>rmsg. reply i = Some rmsg \<and> m_type rmsg = OK) \<and> (\<forall>j \<le> i. \<not> stop j))) \<and>
   (\<exists>n \<le> MAX_REGISTERING_TRIES. snd (register_rdv config stop reply) = replicate n (register_message config))"
proof -
  have acc: "accepted_at stop reply i \<and> (\<forall>j. 0 \<le> j \<and> j < i \<longrightarrow> \<not> stop j) \<longleftrightarrow>
    (\<exists>rmsg. reply i = Some rmsg \<and> m_type rmsg = OK) \<and> (\<forall>j \<le> i. \<not> stop j)" for i
    by (cases "reply i") (auto simp: accepted_at_def le_less)
  have "fst (register_rdv config stop reply) \<longleftrightarrow>
     (\<exists>i < MAX_REGISTERING_TRIES. (\<exists>rmsg. reply i = Some rmsg \<and> m_type rmsg = OK) \<and> (\<forall>j \<le> i. \<not> stop j))"
    unfolding register_rdv_def register_loop_result using acc by auto
  moreover have "\<exists>n \<le> MAX_REGISTERING_TRIES. snd (register_rdv config stop reply) = replicate n (register_message config)"
    using register_loop_sent [of 0 config stop reply False] by (auto simp: register_rdv_def)
  ultimately show ?thesis by blast
qed

text \<open>The third attempt is accepted.\<close>

definition third_reply :: "nat \<Rightarrow> message_t option" where
  "third_reply i = (if i = 2 then Some (init_smsg OK 0 0) else None)"

theorem registration_bounded_witness:
  "fst (register_rdv initConfig (\<lambda>_. False) third_reply)"
proof -
  have "\<exists>i < MAX_REGISTERING_TRIES. (\<exists>rmsg. third_reply i = Some rmsg \<and> m_type rmsg = OK) \<and> (\<forall>j \<le> i. \<not> False)"
    by (intro exI [of _ 2]) (simp add: third_reply_def init_smsg_def)
  then show ?thesis using registration_bounded [of initConfig "\<lambda>_. False" third_reply] by simp
qed

section \<open>Correctness of the checksum\<close>

lemma uint_not_u16: "uint (NOT (x :: u16)) = 65535 - uint x"
proof -
  have "NOT x = - x - 1" by (rule not_eq_complement)
  then have "NOT x + x = - 1" by simp
  moreover have "uint (NOT x) + uint x = uint (NOT x + x) \<or> uint (NOT x) + uint x = uint (NOT x + x) + 65536"
    using uint_plus_if' [of "NOT x" x] by (auto split: if_splits)
  moreover have "uint (- 1 :: u16) = 65535" by (simp add: unsigned_minus_1_eq_mask mask_eq_exp_minus_1)
  ultimately have "uint (NOT x) + uint x = 65535 \<or> uint (NOT x) + uint x = 65535 + 65536" by simp
  moreover have "uint (NOT x) < 65536" "uint x < 65536"
    using unsigned_less [of "NOT x"] unsigned_less [of x] by simp_all
  ultimately show ?thesis by linarith
qed

lemma csum_loop_acc: "csum_loop xs acc = acc + csum_loop xs 0"
proof (induction xs arbitrary: acc rule: induct_list012)
  case (3 a b xs)
  show ?case using 3(1) [of "acc + uint (u16_of_bytes a b)"] 3(1) [of "uint (u16_of_bytes a b)"] by simp
qed simp_all

lemma csum_loop_append: "even (length xs) \<Longrightarrow> csum_loop (xs @ ys) 0 = csum_loop xs 0 + csum_loop ys 0"
proof (induction xs rule: induct_list012)
  case (3 a b xs)
  then show ?case
    using csum_loop_acc [of "xs @ ys" "uint (u16_of_bytes a b)"] csum_loop_acc [of xs "uint (u16_of_bytes a b)"] by simp
qed simp_all

lemma csum_loop_bounds: "0 \<le> csum_loop xs 0 \<and> csum_loop xs 0 \<le> 65535 * int (length xs)"
proof (induction xs rule: induct_list012)
  case (2 a)
  have "uint a < 256" using unsigned_less [of a] by simp
  then show ?case by simp
next
  case (3 a b xs)
  have "uint (u16_of_bytes a b) < 65536" using unsigned_less [of "u16_of_bytes a b"] by simp
  then show ?case using 3(1) csum_loop_acc [of xs "uint (u16_of_bytes a b)"] by simp
qed simp

lemma csum_loop_u16: "csum_loop (bytes_of_u16 x) 0 = uint x"
  using u16_of_bytes_of_u16 [of x] by (simp add: bytes_of_u16_def)

text \<open>What the single fold of the carry does to the sum that a receiver verifies.\<close>

lemma compute_csum_verifies:
  assumes "csum_loop xs 0 < 2 ^ 31"
  shows "(csum_loop xs 0 + uint (compute_csum xs)) mod 65535 = (if fold_sum (csum_loop xs 0) < 2 ^ 16 then 0 else 1)"
proof -
  let ?s = "csum_loop xs 0" let ?f = "fold_sum ?s"
  have s: "?s = 65536 * (?s div 65536) + ?s mod 65536" by simp
  have "0 \<le> ?s" using csum_loop_bounds [of xs] by simp
  then have f: "0 \<le> ?f" "?f < 2 * 65536" using assms by (auto simp: fold_sum_def)
  have c: "uint (compute_csum xs) = 65535 - ?f mod 65536"
    by (simp add: compute_csum_def uint_not_u16 uint_word_of_int)
  have sf: "?s = 65535 * (?s div 65536) + ?f" using s by (simp add: fold_sum_def)
  show ?thesis
  proof (cases "?f < 65536")
    case True
    with f have "?s + uint (compute_csum xs) = 65535 * (?s div 65536 + 1)" using sf c by simp
    with True show ?thesis by simp
  next
    case False
    with f have "?f mod 65536 = ?f - 65536" using mod_pos_pos_trivial [of "?f - 65536" 65536] by simp
    then have "?s + uint (compute_csum xs) = 65535 * (?s div 65536 + 2) + 1" using sf c by simp
    then have "(?s + uint (compute_csum xs)) mod 65535 = (65535 * (?s div 65536 + 2) + 1) mod 65535" by presburger
    also have "\<dots> = 1" by (simp only: mod_mult_self4) simp
    finally show ?thesis using False by simp
  qed
qed

lemma set_ip_sum_parts:
  assumes "sizeof_ip \<le> length ip"
  shows "length (set_ip_sum x ip) = length ip" "take 10 (set_ip_sum x ip) = take 10 ip"
    "drop 12 (set_ip_sum x ip) = drop 12 ip"
    "take sizeof_ip (set_ip_sum x ip) = take 10 ip @ bytes_of_u16 x @ take 8 (drop 12 ip)"
  using assms by (simp_all add: set_ip_sum_def bytes_of_u16_def min_def)

lemma set_ip_dst_parts:
  assumes "sizeof_ip \<le> length ip"
  shows "length (set_ip_dst a ip) = length ip" "take 16 (set_ip_dst a ip) = take 16 ip"
    "drop 20 (set_ip_dst a ip) = drop 20 ip" "ip_dst (set_ip_dst a ip) = a"
  using assms u32_of_bytes_of_u32 [of a] by (simp_all add: set_ip_dst_def ip_dst_def bytes_of_u32_def min_def nth_append)

lemma ip_dst_set_ip_sum: "sizeof_ip \<le> length ip \<Longrightarrow> ip_dst (set_ip_sum x ip) = ip_dst ip"
  by (simp add: ip_dst_def set_ip_sum_def bytes_of_u16_def nth_append min_def)

lemma nth_set_ip:
  assumes "sizeof_ip \<le> length ip" and "i < length ip"
  shows "i \<notin> {10, 11} \<Longrightarrow> set_ip_sum x ip ! i = ip ! i"
    and "i \<notin> {16 ..< 20} \<Longrightarrow> set_ip_dst a ip ! i = ip ! i"
  using assms by (auto simp: set_ip_sum_def set_ip_dst_def bytes_of_u16_def bytes_of_u32_def nth_append min_def
      nth_Cons' not_less)

lemma csum_header:
  assumes "sizeof_ip \<le> length ip"
  shows "csum_loop (take sizeof_ip (set_ip_sum x ip)) 0 =
    csum_loop (take sizeof_ip (set_ip_sum 0 ip)) 0 + uint x"
proof -
  have "even (length (take 10 ip))" "even (length (bytes_of_u16 y))" for y
    using assms by (simp_all add: bytes_of_u16_def min_def)
  then show ?thesis by (simp add: set_ip_sum_parts(4) [OF assms] csum_loop_append csum_loop_u16)
qed

text \<open>The length of the whole header in bytes, which the first byte of the packet gives, and the bytes
  of its options behind the fixed part of 20 bytes.\<close>

definition header_length :: "u8 list \<Rightarrow> nat" where
  "header_length ip = 4 * (unat (hd ip) mod 16)"

definition ip_options :: "u8 list \<Rightarrow> u8 list" where
  "ip_options ip = take (header_length ip - sizeof_ip) (drop sizeof_ip ip)"

text \<open>C32. A packet for the broadcast address of the VPN is redirected to the own address: the length, and
  every byte other than destination address and header checksum stay the same, and the destination
  becomes the VPN address of the client. The checksum that the code writes covers the fixed part
  of the header, of 20 bytes. The ones' complement sum that a receiver computes over the whole
  header is therefore the sum of the options, if the header has any, plus one when folding the
  carry of the sum once produces another carry, which the code drops. A header without options
  verifies (its sum is zero) exactly when there is no second carry.\<close>

theorem broadcast_rewrite_checksum:
  assumes len: "header_length ip \<le> length ip" and hl: "sizeof_ip \<le> header_length ip"
    and dst: "ip_dst ip = vpnBroadcastIP config"
  shows "length (rewrite_broadcast config ip) = length ip \<and> ip_dst (rewrite_broadcast config ip) = vpnIP config \<and>
    (\<forall>i < length ip. i \<notin> {10, 11} \<union> {16 ..< 20} \<longrightarrow> rewrite_broadcast config ip ! i = ip ! i) \<and>
    csum_loop (take (header_length ip) (rewrite_broadcast config ip)) 0 mod 65535 =
      ((if fold_sum (csum_loop (take sizeof_ip (set_ip_sum 0 (set_ip_dst (vpnIP config) ip))) 0) < 2 ^ 16 then 0 else 1) +
       csum_loop (ip_options ip) 0) mod 65535 \<and>
    (header_length ip = sizeof_ip \<longrightarrow>
       (csum_loop (take (header_length ip) (rewrite_broadcast config ip)) 0 mod 65535 = 0 \<longleftrightarrow>
        fold_sum (csum_loop (take sizeof_ip (set_ip_sum 0 (set_ip_dst (vpnIP config) ip))) 0) < 2 ^ 16))"
proof -
  let ?d = "set_ip_dst (vpnIP config) ip" let ?z = "set_ip_sum 0 ?d"
  let ?c = "compute_csum (take sizeof_ip ?z)"
  have ln: "sizeof_ip \<le> length ip" using len hl by simp
  have ld: "sizeof_ip \<le> length ?d" using ln by (simp add: set_ip_dst_parts)
  have lz: "sizeof_ip \<le> length ?z" using ld by (simp add: set_ip_sum_parts)
  have r: "rewrite_broadcast config ip = set_ip_sum ?c ?z" using dst by (simp add: rewrite_broadcast_def Let_def)
  have zz: "set_ip_sum 0 ?z = ?z"
    using ld by (simp add: set_ip_sum_def bytes_of_u16_def min_def)
  have "csum_loop (take sizeof_ip ?z) 0 \<le> 65535 * 20"
    using csum_loop_bounds [of "take sizeof_ip ?z"] lz by (simp add: min_absorb2)
  then have "(csum_loop (take sizeof_ip ?z) 0 + uint ?c) mod 65535 = (if fold_sum (csum_loop (take sizeof_ip ?z) 0) < 2 ^ 16 then 0 else 1)"
    by (intro compute_csum_verifies) simp
  then have fixed: "csum_loop (take sizeof_ip (rewrite_broadcast config ip)) 0 mod 65535 =
      (if fold_sum (csum_loop (take sizeof_ip ?z) 0) < 2 ^ 16 then 0 else 1)"
    unfolding r csum_header [OF lz] zz .
  have lr: "length (rewrite_broadcast config ip) = length ip" using ln ld lz by (simp add: r set_ip_sum_parts set_ip_dst_parts)
  have "drop sizeof_ip (rewrite_broadcast config ip) = drop sizeof_ip ip"
    by (rule nth_equalityI) (use ln ld lz in \<open>simp_all add: r nth_set_ip set_ip_sum_parts set_ip_dst_parts\<close>)
  moreover have "take (header_length ip) x = take sizeof_ip x @ take (header_length ip - sizeof_ip) (drop sizeof_ip x)" for x :: "u8 list"
    using hl take_add [of sizeof_ip "header_length ip - sizeof_ip" x] by simp
  ultimately have split: "take (header_length ip) (rewrite_broadcast config ip) = take sizeof_ip (rewrite_broadcast config ip) @ ip_options ip"
    by (simp add: ip_options_def)
  have even: "even (length (take sizeof_ip (rewrite_broadcast config ip)))" using ln lr by (simp add: min_absorb2)
  have whole: "csum_loop (take (header_length ip) (rewrite_broadcast config ip)) 0 mod 65535 =
      ((if fold_sum (csum_loop (take sizeof_ip ?z) 0) < 2 ^ 16 then 0 else 1) + csum_loop (ip_options ip) 0) mod 65535"
    unfolding split csum_loop_append [OF even] fixed [symmetric] by (simp add: mod_add_left_eq)
  have "rewrite_broadcast config ip ! i = ip ! i" if "i < length ip" "i \<notin> {10, 11} \<union> {16 ..< 20}" for i
    unfolding r using that ln ld lz by (simp add: nth_set_ip set_ip_sum_parts set_ip_dst_parts)
  moreover have "ip_dst (rewrite_broadcast config ip) = vpnIP config"
    using ln ld lz by (simp add: r set_ip_dst_parts ip_dst_set_ip_sum)
  moreover have "csum_loop (take (header_length ip) (rewrite_broadcast config ip)) 0 mod 65535 = 0 \<longleftrightarrow>
      fold_sum (csum_loop (take sizeof_ip ?z) 0) < 2 ^ 16" if h: "header_length ip = sizeof_ip"
    unfolding h fixed by simp
  ultimately show ?thesis using lr whole by blast
qed

text \<open>A header whose checksum is right, and one where the second carry is dropped.\<close>

definition demo_config :: configuration where
  "demo_config = initConfig\<lparr>vpnIP := 1, vpnBroadcastIP := 255\<rparr>"

definition demo_ip :: "u8 \<Rightarrow> u8 list" where
  "demo_ip x = 0x45 # replicate 11 0 @ [255, 255, x, 255, 255, 0, 0, 0]"

theorem broadcast_rewrite_checksum_witness:
  "ip_dst (rewrite_broadcast demo_config (demo_ip 185)) = 1 \<and>
   csum_loop (take sizeof_ip (rewrite_broadcast demo_config (demo_ip 185))) 0 mod 65535 = 0 \<and>
   csum_loop (take sizeof_ip (rewrite_broadcast demo_config (demo_ip 186))) 0 mod 65535 = 1"
proof -
  have d: "vpnIP demo_config = 1" "vpnBroadcastIP demo_config = 255" by (simp_all add: demo_config_def)
  have h: "header_length (demo_ip x) = sizeof_ip" for x by (simp add: demo_ip_def header_length_def)
  have l: "header_length (demo_ip x) \<le> length (demo_ip x)" "sizeof_ip \<le> header_length (demo_ip x)" for x
    unfolding h by (simp_all add: demo_ip_def)
  have b: "ip_dst (demo_ip x) = vpnBroadcastIP demo_config" for x
    by (simp add: demo_ip_def d ip_dst_def u32_of_bytes_def nth_append)
  have "fold_sum (csum_loop (take sizeof_ip (set_ip_sum 0 (set_ip_dst 1 (demo_ip 185)))) 0) < 2 ^ 16" by code_simp
  moreover have "\<not> fold_sum (csum_loop (take sizeof_ip (set_ip_sum 0 (set_ip_dst 1 (demo_ip 186)))) 0) < 2 ^ 16" by code_simp
  ultimately show ?thesis
    using broadcast_rewrite_checksum [OF l b, of 185] broadcast_rewrite_checksum [OF l b, of 186] d
    by (simp add: h ip_options_def)
qed

section \<open>Correctness of the size limit\<close>

lemma unat_and_mask: "unat (w AND (2 ^ k - 1) :: u32) = unat w mod 2 ^ k"
proof -
  have "w AND (2 ^ k - 1) = take_bit k w" by (simp only: take_bit_eq_mask mask_eq_exp_minus_1)
  then have "unat (w AND (2 ^ k - 1)) = take_bit k (unat w)" by (simp only: unsigned_take_bit_eq)
  then show ?thesis by (simp only: take_bit_eq_mod)
qed

lemma round_up:
  assumes "0 < (b :: nat)"
  shows "(if n mod b \<noteq> 0 then n + (b - n mod b) else n) = b * ((n + b - 1) div b)"
proof -
  have n: "n = b * (n div b) + n mod b" by simp
  have r: "n mod b < b" using assms by simp
  have "n + b - 1 = b * (n div b) + (n mod b + b - 1)" using assms n by simp
  then have d: "(n + b - 1) div b = n div b + (n mod b + b - 1) div b"
    using assms div_mult_self4 [of b "n div b" "n mod b + b - 1"] by (simp only:)
  show ?thesis
  proof (cases "n mod b = 0")
    case True
    have "(n mod b + b - 1) div b = 0" using True assms by simp
    with d True n show ?thesis by simp
  next
    case False
    with r assms have "b * 1 \<le> n mod b + b - 1" "n mod b + b - 1 < b * Suc 1" by (simp_all, linarith+)
    then have "(n mod b + b - 1) div b = 1" by (rule div_nat_eqI)
    with d have "b * ((n + b - 1) div b) = b * (n div b) + b" by (simp only:) simp
    moreover have "n + (b - n mod b) = b * (n div b) + b" using n r by linarith
    ultimately show ?thesis using False by simp
  qed
qed

text \<open>The limit for the size of a DTLS record after the handshake. For a block cipher (blocks of \<open>2 ^ k \<le> 16\<close>
  bytes, a MAC of at most 64 bytes) it is the 13 bytes of the record header plus packet, padding
  length, initialisation vector and MAC rounded up to whole blocks, with no wrap around, and it fits
  the buffers of the queues, \<^verbatim>\<open>MESSAGE_MAX_LENGTH\<close>. Without a block cipher the block size is 0, the
  mask \<^verbatim>\<open>blocksize - 1\<close> has all bits set, and the limit collapses to 13 bytes for every MTU.\<close>

theorem session_size_limit:
  assumes mtu: "0 \<le> tun_mtu config" "tun_mtu config \<le> 65535" and mac: "unat mac \<le> 64" and k: "k \<le> 4"
  shows "unat (link_mtu config mac (2 ^ k)) =
      13 + 2 ^ k * ((nat (tun_mtu config) + 1 + 2 ^ k + unat mac + 2 ^ k - 1) div 2 ^ k) \<and>
    unat (link_mtu config mac (2 ^ k)) \<le> unat (MESSAGE_MAX_LENGTH config) \<and>
    link_mtu config mac 0 = 13"
proof -
  let ?b = "2 ^ k :: nat" and ?n = "nat (tun_mtu config) + 1 + 2 ^ k + unat mac"
  have b: "?b \<le> 16" using k power_increasing [of k 4 "2 :: nat"] by simp
  define pkt :: u32 where "pkt = word_of_int (tun_mtu config) + 1 + 2 ^ k + mac"
  have "word_of_int (tun_mtu config) = (of_nat (nat (tun_mtu config)) :: u32)"
    using mtu by simp
  then have pkt: "pkt = of_nat ?n" by (simp add: pkt_def)
  have small: "?n < 2 ^ 20" "?n + ?b < 2 ^ 20" using mtu mac b by simp_all
  then have u: "unat pkt = ?n" unfolding pkt by (simp only: unat_of_nat) simp
  have rest: "unat (pkt AND (2 ^ k - 1)) = ?n mod ?b" by (simp only: unat_and_mask u)
  then have rest': "pkt AND (2 ^ k - 1) = of_nat (?n mod ?b)" by (metis of_nat_unat ucast_id)
  let ?m = "if ?n mod ?b \<noteq> 0 then ?n + (?b - ?n mod ?b) else ?n"
  have rb: "?n mod ?b \<le> ?b" by (simp add: less_imp_le)
  have "link_mtu config mac (2 ^ k) = of_nat (?m + 13)"
  proof (cases "?n mod ?b = 0")
    case True
    then have "pkt AND (2 ^ k - 1) = 0" using rest' by simp
    then show ?thesis using True pkt by (simp add: link_mtu_def Let_def pkt_def)
  next
    case False
    then have "pkt AND (2 ^ k - 1) \<noteq> 0" using rest by (metis unat_0)
    moreover have "(2 ^ k :: u32) - of_nat (?n mod ?b) = of_nat (?b - ?n mod ?b)" using rb by (simp add: of_nat_diff)
    moreover have "link_mtu config mac (2 ^ k) = (if pkt AND (2 ^ k - 1) \<noteq> 0 then pkt + (2 ^ k - (pkt AND (2 ^ k - 1))) else pkt) + 13"
      by (simp only: link_mtu_def Let_def pkt_def)
    ultimately have "link_mtu config mac (2 ^ k) = pkt + of_nat (?b - ?n mod ?b) + 13" by (simp only: rest' if_True not_False_eq_True)
    moreover have "?m = ?n + (?b - ?n mod ?b)" using False by simp
    ultimately show ?thesis
      unfolding pkt of_nat_add [of "?n + (?b - ?n mod ?b)" 13, symmetric] of_nat_add [of ?n "?b - ?n mod ?b", symmetric]
      by (simp only: of_nat_add of_nat_numeral)
  qed
  moreover have "?m + 13 < 2 ^ 32" "?m \<le> ?n + ?b" using small rb by auto
  ultimately have m: "unat (link_mtu config mac (2 ^ k)) = ?m + 13" by (simp only: unat_of_nat) simp
  have "uint (MESSAGE_MAX_LENGTH config) = tun_mtu config + 200"
    unfolding MESSAGE_MAX_LENGTH_def uint_word_of_int using mtu by simp
  then have "unat (MESSAGE_MAX_LENGTH config) = nat (tun_mtu config) + 200"
    using mtu by (simp add: unat_eq_nat_uint nat_add_distrib del: of_nat_unat)
  with m \<open>?m \<le> ?n + ?b\<close> b mac have "unat (link_mtu config mac (2 ^ k)) \<le> unat (MESSAGE_MAX_LENGTH config)" by linarith
  moreover have "link_mtu config mac 0 = 13"
    by (simp add: link_mtu_def Let_def)
  moreover have "?m = ?b * ((?n + ?b - 1) div ?b)" by (rule round_up) simp
  ultimately show ?thesis using m by simp
qed

theorem session_size_limit_witness:
  "unat (link_mtu initConfig 20 (2 ^ 4)) = 1469 \<and> unat (link_mtu initConfig 20 (2 ^ 4)) \<le> unat (MESSAGE_MAX_LENGTH initConfig) \<and>
   link_mtu initConfig 20 0 = 13"
  using session_size_limit [of initConfig 20 4] by (simp add: initConfig_def)

end
