(* ===== verification/Client_Comm.thy ===== *)
theory Client_Comm
  imports Client_Peer Client_Packet
begin

text \<open>
  The threads of the client (\<^verbatim>\<open>client/communication.c\<close>): the handler of messages from the rendezvous
  server, the handlers of packets from the socket and from the TUN device, the thread of each
  peer with its state machine, the punching and the writing threads, and the end of the program.

  A handler or a piece of a thread between two waits is one step; its result is the list of
  its effects in order, and the new table. A wait (a condition variable, a handshake, a read)
  ends a step, and what it returns is the input of the next step. \<open>None\<close> is a fault or a loop that
  does not end.
\<close>

section \<open>Effects\<close>

datatype comm_effect =
    Sendto sockaddr_in "u8 list"
  | Out_fifo_write ptr "u8 list"
  | Rbio_write ptr "u8 list"
  | Rdv_fifo_write "u8 list"
  | Write_tun "u8 list"
  | Signal ptr
  | Start_peer_handling ptr
  | Start_punch ptr
  | Start_SSL_writing ptr
  | End_SSL_writing ptr
  | SSL_shutdown ptr
  | SSL_write ptr "u8 list"
  | Set_dgram_peer ptr sockaddr_in
  | DTLS_handle_timeout ptr
  | Set_session_mtu ptr u32
  | Session_calls "ssl_call list"
  | Register_again

definition to_server :: "configuration \<Rightarrow> message_t \<Rightarrow> comm_effect" where
  "to_server config m = Sendto (serverAddr config) (bytes_of_message m)"

definition handler_sigTimerPing :: "configuration \<Rightarrow> comm_effect list" where
  "handler_sigTimerPing config = [to_server config (init_smsg PING 0 0)]"

text \<open>\<^verbatim>\<open>peers_decr_ref\<close> with the calls that it makes on the session.\<close>

definition drop_ref :: "ptr \<Rightarrow> u32 \<Rightarrow> client_table \<Rightarrow> (comm_effect list \<times> client_table) option" where
  "drop_ref p n t = do { (calls, t') \<leftarrow> peers_decr_ref p n t; Some ([Session_calls calls], t') }"

definition start_peer_handling :: "ptr \<Rightarrow> client_table \<Rightarrow> (comm_effect list \<times> client_table) option" where
  "start_peer_handling p t = do { t' \<leftarrow> peers_incr_ref p t; Some ([Start_peer_handling p], t') }"

definition start_punch :: "ptr \<Rightarrow> client_table \<Rightarrow> (comm_effect list \<times> client_table) option" where
  "start_punch p t = do { t' \<leftarrow> peers_incr_ref p t; Some ([Start_punch p], t') }"

definition start_SSL_writing :: "ptr \<Rightarrow> client_table \<Rightarrow> (comm_effect list \<times> client_table) option" where
  "start_SSL_writing p t = do { t' \<leftarrow> peers_incr_ref p t; Some ([Start_SSL_writing p], t') }"

section \<open>Messages from the rendezvous server\<close>

record comm_args =
  ca_sockfd :: int
  ca_tunfd :: int

text \<open>What a handler reads of its environment: the allocations, the clocks.\<close>

record comm_env =
  ev_mem :: client_mem
  ev_clock :: timespec
  ev_time :: int

definition rdv_answer :: "u8 \<Rightarrow> u32 \<Rightarrow> peer_write list \<Rightarrow> client_table \<Rightarrow> (comm_effect list \<times> client_table) option" where
  "rdv_answer answer ip ws t =
     do {
       (r, t1) \<leftarrow> peers_get_by_VPN ip t;
       (case r of
          None \<Rightarrow> Some ([], t1)
        | Some p \<Rightarrow> do {
            t2 \<leftarrow> set_peer p (\<lambda>c. fold apply_write (Set_rdv_answer answer # ws) c) t1;
            (es, t3) \<leftarrow> drop_ref p 1 t2;
            Some (Signal p # es, t3)
          })
     }"

definition rdv_forward :: "configuration \<Rightarrow> comm_env \<Rightarrow> comm_args \<Rightarrow> message_t \<Rightarrow> client_table \<Rightarrow> (comm_effect list \<times> client_table) option" where
  "rdv_forward config env args rmsg t =
     do {
       (r, t1) \<leftarrow> peers_get_by_VPN (m_ip2 rmsg) t;
       (case r of
          None \<Rightarrow> do {
            (r2, calls, t2) \<leftarrow> peers_add_caller config (ev_mem env) (ev_clock env) (ca_sockfd args) (ca_tunfd args)
                                 PUNCHING (ev_time env) (m_ip1 rmsg) (m_port rmsg) (m_ip2 rmsg) t1;
            (case r2 of
               None \<Rightarrow> Some ([Session_calls calls], t2)
             | Some p \<Rightarrow> do {
                 (es, t3) \<leftarrow> start_peer_handling p t2;
                 (es', t4) \<leftarrow> drop_ref p 1 t3;
                 Some (Session_calls calls # es @ es', t4)
               })
          }
        | Some p \<Rightarrow> drop_ref p 1 t1)
     }"

definition rdv_handling :: "configuration \<Rightarrow> comm_env \<Rightarrow> comm_args \<Rightarrow> message_t \<Rightarrow> client_table \<Rightarrow> (comm_effect list \<times> client_table) option" where
  "rdv_handling config env args rmsg t =
     (if m_type rmsg = REJ_CONNECTION then rdv_answer REJ_CONNECTION (m_ip1 rmsg) [] t
      else if m_type rmsg = ANS_CONNECTION then
        rdv_answer ANS_CONNECTION (m_ip2 rmsg) [Set_clientaddr \<lparr>sin_addr = m_ip1 rmsg, sin_port = m_port rmsg\<rparr>] t
      else if m_type rmsg = FWD_CONNECTION then rdv_forward config env args rmsg t
      else if m_type rmsg = RECONNECT then Some ([Register_again], t)
      else Some ([], t))"

section \<open>Packets from the socket\<close>

definition is_dtls :: "u8 list \<Rightarrow> nat \<Rightarrow> bool" where
  "is_dtls u r \<longleftrightarrow> r \<ge> sizeof_dtlsheader_t \<and>
     (u ! 0 = DTLS_APPLICATION_DATA \<or> u ! 0 = DTLS_HANDSHAKE \<or> u ! 0 = DTLS_ALERT \<or> u ! 0 = DTLS_CHANGE_CIPHER_SPEC)"

definition socket_dtls :: "sockaddr_in \<Rightarrow> u8 list \<Rightarrow> nat \<Rightarrow> client_table \<Rightarrow> (comm_effect list \<times> client_table) option" where
  "socket_dtls unknownaddr u r t =
     do {
       (x, t1) \<leftarrow> peers_get_by_endpoint unknownaddr t;
       (case x of
          Some p \<Rightarrow> do {
            peer \<leftarrow> pe_heap t1 p;
            (es, t2) \<leftarrow> drop_ref p 1 t1;
            Some ((if pe_state peer = ESTABLISHED \<or> pe_state peer = LINKED then [Rbio_write p (take r u)] else []) @ es, t2)
          }
        | None \<Rightarrow> Some (if u ! 0 = DTLS_APPLICATION_DATA then [Sendto unknownaddr (alert_record u)] else [], t1))
     }"

definition socket_punch :: "sockaddr_in \<Rightarrow> client_table \<Rightarrow> (comm_effect list \<times> client_table) option" where
  "socket_punch unknownaddr t =
     do {
       (x, t1) \<leftarrow> peers_get_by_endpoint unknownaddr t;
       (case x of
          Some p \<Rightarrow> do { (es, t2) \<leftarrow> drop_ref p 1 t1; Some (Signal p # es, t2) }
        | None \<Rightarrow> Some ([], t1))
     }"

definition comm_socket :: "configuration \<Rightarrow> sockaddr_in \<Rightarrow> u8 list \<Rightarrow> nat \<Rightarrow> client_table \<Rightarrow> (comm_effect list \<times> client_table) option" where
  "comm_socket config unknownaddr u r t =
     (if sin_addr (serverAddr config) = sin_addr unknownaddr \<and> sin_port (serverAddr config) = sin_port unknownaddr then
        Some (if r = sizeof_message_t then [Rdv_fifo_write (take r u)] else [], t)
      else if is_dtls u r then socket_dtls unknownaddr u r t
      else if r = sizeof_message_t then
        (if u ! 0 = PUNCH then socket_punch unknownaddr t else Some ([], t))
      else Some ([], t))"

section \<open>Packets from the TUN device\<close>

partial_function (option) broadcast_walk :: "u8 list \<Rightarrow> ptr option \<Rightarrow> client_table \<Rightarrow> comm_effect list option" where
  "broadcast_walk packet x t =
     (case x of
        None \<Rightarrow> Some []
      | Some p \<Rightarrow> Option.bind (pe_heap t p) (\<lambda>peer.
          Option.bind (broadcast_walk packet (pe_next peer) t) (\<lambda>es.
            Some ((if pe_state peer = ESTABLISHED then [Out_fifo_write p packet] else []) @ es))))"

definition tun_unknown :: "configuration \<Rightarrow> comm_env \<Rightarrow> comm_args \<Rightarrow> u32 \<Rightarrow> u8 list \<Rightarrow> client_table \<Rightarrow> (comm_effect list \<times> client_table) option" where
  "tun_unknown config env args peer_addr packet t =
     do {
       (r, calls, t1) \<leftarrow> peers_add_requested config (ev_mem env) (ev_clock env) (ca_sockfd args) (ca_tunfd args)
                           NEW (ev_time env) peer_addr t;
       (case r of
          None \<Rightarrow> Some ([Session_calls calls], t1)
        | Some p \<Rightarrow> do {
            (es, t2) \<leftarrow> start_peer_handling p t1;
            (es', t3) \<leftarrow> drop_ref p 1 t2;
            Some (Session_calls calls # Out_fifo_write p packet # es @ es', t3)
          })
     }"

definition tun_known :: "comm_env \<Rightarrow> ptr \<Rightarrow> u8 list \<Rightarrow> client_table \<Rightarrow> (comm_effect list \<times> client_table) option" where
  "tun_known env p packet t =
     do {
       peer \<leftarrow> pe_heap t p;
       if pe_state peer \<noteq> CLOSED then do {
         t1 \<leftarrow> set_peer p (apply_write (Set_time (ev_time env))) t;
         (es, t2) \<leftarrow> drop_ref p 1 t1;
         Some (Out_fifo_write p packet # es, t2)
       }
       else drop_ref p 1 t
     }"

definition comm_tun :: "configuration \<Rightarrow> comm_env \<Rightarrow> comm_args \<Rightarrow> u8 list \<Rightarrow> nat \<Rightarrow> client_table \<Rightarrow> (comm_effect list \<times> client_table) option" where
  "comm_tun config env args u r t =
     (let peer_addr = ip_dst u; packet = take r u in
      if peer_addr = vpnBroadcastIP config then
        do { es \<leftarrow> broadcast_walk packet (peers_list t) t; Some (es, t) }
      else if peer_addr = vpnIP config then Some ([Write_tun packet], t)
      else do {
        (x, t1) \<leftarrow> peers_get_by_VPN peer_addr t;
        (case x of
           None \<Rightarrow> tun_unknown config env args peer_addr packet t1
         | Some p \<Rightarrow> tun_known env p packet t1)
      })"

section \<open>The thread of a peer\<close>

text \<open>Where the thread stands: at the top of its loop, or in one of its four waits. The reading loop
  remembers the last second in which it looked at the timers.\<close>

datatype peer_pc = Top | Wait_answer | Wait_punch | Handshake | Reading int | Done

datatype handshake_result = Handshake_done | Want_read | Handshake_error

datatype ssl_read_result =
    Read_timeout | Read_again | Read_zero_return | Read_syscall | Read_error | Read_data "u8 list"

datatype peer_input =
    Go bool
  | Answer_wait bool bool bool bool
  | Punch_wait bool bool
  | Handshake_return handshake_result int u32 u32
  | SSL_read_return ssl_read_result int

abbreviation set_state :: "ptr \<Rightarrow> client_type \<Rightarrow> client_table \<Rightarrow> client_table option" where
  "set_state p st \<equiv> set_peer p (apply_write (Set_state st))"

definition close_message :: "configuration \<Rightarrow> client \<Rightarrow> comm_effect" where
  "close_message config peer = to_server config (init_smsg CLOSE_CONNECTION (pe_vpnIP peer) 0)"

definition peer_top :: "configuration \<Rightarrow> bool \<Rightarrow> ptr \<Rightarrow> client_table \<Rightarrow> (peer_pc \<times> comm_effect list \<times> client_table) option" where
  "peer_top config end_campagnol p t =
     do {
       peer \<leftarrow> pe_heap t p;
       (case pe_state peer of
          NEW \<Rightarrow>
            if end_campagnol then do { t1 \<leftarrow> set_state p CLOSED t; Some (Top, [], t1) }
            else Some (Wait_answer, [to_server config (init_smsg ASK_CONNECTION (pe_vpnIP peer) 0)], t)
        | PUNCHING \<Rightarrow>
            if end_campagnol then do { t1 \<leftarrow> set_state p CLOSED t; Some (Top, [], t1) }
            else do { (es, t1) \<leftarrow> start_punch p t; Some (Wait_punch, es, t1) }
        | LINKED \<Rightarrow>
            if end_campagnol then do { t1 \<leftarrow> set_state p CLOSED t; Some (Top, [], t1) }
            else Some (Handshake, [Set_dgram_peer p (pe_clientaddr peer)], t)
        | ESTABLISHED \<Rightarrow> do { (es, t1) \<leftarrow> start_SSL_writing p t; Some (Reading 0, es, t1) }
        | CLOSED \<Rightarrow> do { (es, t1) \<leftarrow> drop_ref p 2 t; Some (Done, es, t1) })
     }"

text \<open>After the wait for the answer: \<open>expired\<close> is the result of the wait, \<open>unset\<close> what the comparison of
  \<^verbatim>\<open>rdv_answer\<close> gives when the field has never been written (it is not initialised).\<close>

definition peer_answered :: "bool \<Rightarrow> bool \<Rightarrow> bool \<Rightarrow> bool \<Rightarrow> ptr \<Rightarrow> client_table \<Rightarrow> (peer_pc \<times> comm_effect list \<times> client_table) option" where
  "peer_answered expired end_campagnol unset node p t =
     do {
       peer \<leftarrow> pe_heap t p;
       let rejected = (case pe_rdv_answer peer of None \<Rightarrow> unset | Some a \<Rightarrow> a = REJ_CONNECTION);
       if expired \<or> rejected \<or> end_campagnol then
         do { t1 \<leftarrow> set_state p CLOSED t; Some (Top, [], t1) }
       else do {
         (r, t1) \<leftarrow> peers_register_endpoint node p t;
         t2 \<leftarrow> set_state p (if r \<noteq> 0 then CLOSED else PUNCHING) t1;
         Some (Top, [], t2)
       }
     }"

definition peer_punched :: "configuration \<Rightarrow> bool \<Rightarrow> bool \<Rightarrow> ptr \<Rightarrow> client_table \<Rightarrow> (peer_pc \<times> comm_effect list \<times> client_table) option" where
  "peer_punched config expired end_campagnol p t =
     do {
       peer \<leftarrow> pe_heap t p;
       if expired then do { t1 \<leftarrow> set_state p CLOSED t; Some (Top, [close_message config peer], t1) }
       else if end_campagnol then do { t1 \<leftarrow> set_state p CLOSED t; Some (Top, [], t1) }
       else do { t1 \<leftarrow> set_state p LINKED t; Some (Top, [], t1) }
     }"

definition peer_handshake :: "configuration \<Rightarrow> handshake_result \<Rightarrow> int \<Rightarrow> u32 \<Rightarrow> u32 \<Rightarrow> ptr \<Rightarrow> client_table
  \<Rightarrow> (peer_pc \<times> comm_effect list \<times> client_table) option" where
  "peer_handshake config r now mac_size blocksize p t =
     do {
       peer \<leftarrow> pe_heap t p;
       (case r of
          Want_read \<Rightarrow> Some (Handshake, [DTLS_handle_timeout p], t)
        | Handshake_error \<Rightarrow> do { t1 \<leftarrow> set_state p CLOSED t; Some (Top, [close_message config peer], t1) }
        | Handshake_done \<Rightarrow> do {
            t1 \<leftarrow> set_state p ESTABLISHED t;
            t2 \<leftarrow> set_peer p (apply_write (Set_time now)) t1;
            Some (Top, [Set_session_mtu p (link_mtu config mac_size blocksize)], t2)
          })
     }"

text \<open>The timers of the reading loop: a keepalive message when the link was silent, the end of the
  session when no data arrived for too long.\<close>

definition keepalive_due :: "configuration \<Rightarrow> int \<Rightarrow> client \<Rightarrow> bool" where
  "keepalive_due config timestamp peer \<longleftrightarrow> timestamp - pe_last_keepalive peer > uint (keepalive config)"

definition session_expired :: "configuration \<Rightarrow> int \<Rightarrow> client \<Rightarrow> bool" where
  "session_expired config timestamp peer \<longleftrightarrow>
     (\<not> pe_is_dtls_client peer \<and> timestamp - pe_time peer > timeout config + 10) \<or>
     (pe_is_dtls_client peer \<and> timestamp - pe_time peer > timeout config)"

definition peer_timers :: "configuration \<Rightarrow> int \<Rightarrow> ptr \<Rightarrow> client_table \<Rightarrow> (peer_pc \<times> comm_effect list \<times> client_table) option" where
  "peer_timers config timestamp p t =
     do {
       peer \<leftarrow> pe_heap t p;
       (es, t1) \<leftarrow>
         (if keepalive_due config timestamp peer then
            do { t' \<leftarrow> set_peer p (apply_write (Set_last_keepalive timestamp)) t;
                 Some ([Sendto (pe_clientaddr peer) (bytes_of_message (init_smsg PUNCH_KEEP_ALIVE 0 0))], t') }
          else Some ([], t));
       if session_expired config timestamp peer then
         do { t2 \<leftarrow> set_state p CLOSED t1;
              Some (Top, es @ [close_message config peer, SSL_shutdown p, End_SSL_writing p], t2) }
       else Some (Reading timestamp, es, t1)
     }"

definition peer_read :: "configuration \<Rightarrow> int \<Rightarrow> ssl_read_result \<Rightarrow> int \<Rightarrow> ptr \<Rightarrow> client_table
  \<Rightarrow> (peer_pc \<times> comm_effect list \<times> client_table) option" where
  "peer_read config last_time r timestamp p t =
     do {
       peer \<leftarrow> pe_heap t p;
       (case r of
          Read_timeout \<Rightarrow>
            if timestamp \<noteq> last_time then peer_timers config timestamp p t else Some (Reading last_time, [], t)
        | Read_again \<Rightarrow> Some (Reading last_time, [], t)
        | Read_data u \<Rightarrow> do {
            t1 \<leftarrow> set_peer p (apply_write (Set_time timestamp)) t;
            Some (Reading last_time, [Write_tun (rewrite_broadcast config u)], t1)
          }
        | _ \<Rightarrow> do {
            t1 \<leftarrow> set_state p CLOSED t;
            Some (Top, (if r = Read_syscall \<and> pe_shutdown peer then [SSL_shutdown p] else []) @ [End_SSL_writing p], t1)
          })
     }"

text \<open>One step of \<^verbatim>\<open>peer_handling\<close>; an input for another wait leaves the thread where it is.\<close>

fun peer_handling :: "configuration \<Rightarrow> ptr \<Rightarrow> peer_pc \<Rightarrow> peer_input \<Rightarrow> client_table
  \<Rightarrow> (peer_pc \<times> comm_effect list \<times> client_table) option" where
  "peer_handling config p Top (Go e) t = peer_top config e p t"
| "peer_handling config p Wait_answer (Answer_wait expired e unset node) t = peer_answered expired e unset node p t"
| "peer_handling config p Wait_punch (Punch_wait expired e) t = peer_punched config expired e p t"
| "peer_handling config p Handshake (Handshake_return r now mac bs) t = peer_handshake config r now mac bs p t"
| "peer_handling config p (Reading last_time) (SSL_read_return r now) t = peer_read config last_time r now p t"
| "peer_handling config p pc i t = Some (pc, [], t)"

section \<open>The punching and the writing thread\<close>

text \<open>One turn of the loop of \<^verbatim>\<open>punch\<close>, the number of turns so far being \<open>i\<close>: the thread goes on, or ends
  after giving up its reference.\<close>

definition punch :: "configuration \<Rightarrow> ptr \<Rightarrow> nat \<Rightarrow> client_table \<Rightarrow> (bool \<times> comm_effect list \<times> client_table) option" where
  "punch config p i t =
     do {
       peer \<leftarrow> pe_heap t p;
       if i < PUNCH_NUMBER \<and> pe_state peer \<noteq> CLOSED then
         Some (True, [Sendto (pe_clientaddr peer) (bytes_of_message (init_smsg PUNCH (vpnIP config) 0))], t)
       else do { (es, t') \<leftarrow> drop_ref p 1 t; Some (False, es, t') }
     }"

datatype write_result = Write_ok | Write_zero_return | Write_ssl_error bool | Write_other

text \<open>One turn of the loop of \<^verbatim>\<open>SSL_writing\<close>, \<open>packet\<close> being what it read from the queue: the inner loop
  repeats the write while the socket is blocked (\<open>blocked\<close> times), and \<open>w\<close> is the result of the last
  write. The thread ends on the empty packet, on the end of the session, and on an error of a
  session that is not shut down.\<close>

fun writing_ends :: "write_result \<Rightarrow> bool" where
  "writing_ends Write_zero_return = True"
| "writing_ends (Write_ssl_error shut) = (\<not> shut)"
| "writing_ends _ = False"

definition write_calls :: "ptr \<Rightarrow> u8 list \<Rightarrow> nat \<Rightarrow> comm_effect list" where
  "write_calls p packet blocked = (if packet = [] then [] else replicate (Suc blocked) (SSL_write p packet))"

definition SSL_writing :: "u8 list \<Rightarrow> nat \<Rightarrow> write_result \<Rightarrow> ptr \<Rightarrow> client_table \<Rightarrow> (bool \<times> comm_effect list \<times> client_table) option" where
  "SSL_writing packet blocked w p t =
     do {
       _ \<leftarrow> pe_heap t p;
       if packet = [] \<or> writing_ends w then
         do { (es, t') \<leftarrow> drop_ref p 1 t; Some (False, write_calls p packet blocked @ es, t') }
       else Some (True, write_calls p packet blocked, t)
     }"

section \<open>The end of the program\<close>

definition end_peer_handling :: "ptr \<Rightarrow> client_table \<Rightarrow> (comm_effect list \<times> client_table) option" where
  "end_peer_handling p t = do { t1 \<leftarrow> set_peer p (apply_write Set_shutdown) t; Some ([Rbio_write p []], t1) }"

partial_function (option) end_all :: "ptr option \<Rightarrow> client_table \<Rightarrow> (comm_effect list \<times> client_table) option" where
  "end_all x t =
     (case x of
        None \<Rightarrow> Some ([], t)
      | Some p \<Rightarrow> Option.bind (pe_heap t p) (\<lambda>peer.
          Option.bind (end_peer_handling p t) (\<lambda>est.
            Option.bind (end_all (pe_next peer) (snd est)) (\<lambda>est'.
              Some (fst est @ fst est', snd est')))))"

definition stop_vpn :: "configuration \<Rightarrow> client_table \<Rightarrow> (comm_effect list \<times> client_table) option" where
  "stop_vpn config t =
     do { (es, t1) \<leftarrow> end_all (peers_list t) t;
          Some (es @ [to_server config (init_smsg BYE (vpnIP config) 0)], t1) }"

end
