(* ===== verification/Client_System.thy ===== *)
theory Client_System
  imports Client_Comm
begin

text \<open>
  The client as a system of threads over the shared table of peers. A state holds the table, where the
  thread of each peer stands, the punching and the writing threads. A step is a step of one
  thread, the threads taking turns in any order. The invariant accounts for every reference:
  two for a running peer thread (its own and the one of the list), one for each punching and each
  writing thread.
\<close>

section \<open>The system\<close>

record vpn_sys =
  vs_table :: client_table
  vs_pc :: "ptr \<Rightarrow> peer_pc"
  vs_punch :: "(ptr \<times> nat) list"
  vs_writer :: "ptr list"

datatype vpn_event =
    Rdv_message comm_env comm_args message_t
  | Socket_packet sockaddr_in "u8 list" nat
  | Tun_packet comm_env comm_args "u8 list" nat
  | Peer_step ptr peer_input
  | Punch_step nat
  | Writer_step nat "u8 list" nat write_result
  | Stop

text \<open>A started thread is a new thread of the system.\<close>

fun spawn :: "comm_effect \<Rightarrow> vpn_sys \<Rightarrow> vpn_sys" where
  "spawn (Start_peer_handling p) s = s\<lparr>vs_pc := (vs_pc s)(p := Top)\<rparr>"
| "spawn (Start_punch p) s = s\<lparr>vs_punch := (p, 0) # vs_punch s\<rparr>"
| "spawn (Start_SSL_writing p) s = s\<lparr>vs_writer := p # vs_writer s\<rparr>"
| "spawn _ s = s"

definition commit :: "vpn_sys \<Rightarrow> comm_effect list \<times> client_table \<Rightarrow> comm_effect list \<times> vpn_sys" where
  "commit s r = (fst r, fold spawn (fst r) (s\<lparr>vs_table := snd r\<rparr>))"

definition remove_nth :: "nat \<Rightarrow> 'a list \<Rightarrow> 'a list" where
  "remove_nth i xs = take i xs @ drop (Suc i) xs"

fun vpn_step :: "configuration \<Rightarrow> vpn_event \<Rightarrow> vpn_sys \<Rightarrow> (comm_effect list \<times> vpn_sys) option" where
  "vpn_step config (Rdv_message env args m) s = map_option (commit s) (rdv_handling config env args m (vs_table s))"
| "vpn_step config (Socket_packet a u r) s = map_option (commit s) (comm_socket config a u r (vs_table s))"
| "vpn_step config (Tun_packet env args u r) s = map_option (commit s) (comm_tun config env args u r (vs_table s))"
| "vpn_step config (Peer_step p i) s =
     do { (pc, es, t) \<leftarrow> peer_handling config p (vs_pc s p) i (vs_table s);
          Some (commit (s\<lparr>vs_pc := (vs_pc s)(p := pc)\<rparr>) (es, t)) }"
| "vpn_step config (Punch_step i) s =
     (let (p, n) = vs_punch s ! i in
      do { (more, es, t) \<leftarrow> punch config p n (vs_table s);
           Some (commit (s\<lparr>vs_punch := (if more then (vs_punch s)[i := (p, Suc n)] else remove_nth i (vs_punch s))\<rparr>) (es, t)) })"
| "vpn_step config (Writer_step i packet blocked w) s =
     (let p = vs_writer s ! i in
      do { (more, es, t) \<leftarrow> SSL_writing packet blocked w p (vs_table s);
           Some (commit (s\<lparr>vs_writer := (if more then vs_writer s else remove_nth i (vs_writer s))\<rparr>) (es, t)) })"
| "vpn_step config Stop s = map_option (commit s) (stop_vpn config (vs_table s))"

text \<open>The references that the threads hold.\<close>

definition thread_refs :: "vpn_sys \<Rightarrow> ptr \<Rightarrow> nat" where
  "thread_refs s p = (if vs_pc s p = Done then 0 else 2) + count_list (map fst (vs_punch s)) p + count_list (vs_writer s) p"

text \<open>The events that can happen: threads that exist take a step, and the allocator is sound.\<close>

fun vpn_possible :: "vpn_event \<Rightarrow> vpn_sys \<Rightarrow> bool" where
  "vpn_possible (Rdv_message env args m) s = malloc_fresh (pm_malloc (ev_mem env))"
| "vpn_possible (Tun_packet env args u r) s = malloc_fresh (pm_malloc (ev_mem env))"
| "vpn_possible (Peer_step p i) s = (vs_pc s p \<noteq> Done)"
| "vpn_possible (Punch_step i) s = (i < length (vs_punch s))"
| "vpn_possible (Writer_step i packet blocked w) s = (i < length (vs_writer s))"
| "vpn_possible _ s = True"

text \<open>Two events that the code accepts without a guard: the node of the tree by endpoint cannot be
  allocated when the server announces a caller, and the server answers with an endpoint for a peer
  that is already in the tree by endpoint.\<close>

fun caller_node_fails :: "vpn_event \<Rightarrow> bool" where
  "caller_node_fails (Rdv_message env args m) =
     (m_type m = FWD_CONNECTION \<and> m_port m \<noteq> 0 \<and> \<not> pm_tsearch_addr (ev_mem env))"
| "caller_node_fails _ = False"

fun late_answer :: "vpn_event \<Rightarrow> vpn_sys \<Rightarrow> bool" where
  "late_answer (Rdv_message env args m) s =
     (m_type m = ANS_CONNECTION \<and>
      (\<exists>p \<in> set (peers_address_root (vs_table s)). field_at pe_vpnIP (pe_heap (vs_table s)) p = Some (m_ip2 m)))"
| "late_answer _ s = False"

text \<open>The events of a run without those two.\<close>

definition vpn_allowed :: "vpn_event \<Rightarrow> vpn_sys \<Rightarrow> bool" where
  "vpn_allowed e s \<longleftrightarrow> vpn_possible e s \<and> \<not> caller_node_fails e \<and> \<not> late_answer e s"

lemma vpn_allowed_simps [simp]:
  "vpn_allowed (Rdv_message env args m) s \<longleftrightarrow>
     malloc_fresh (pm_malloc (ev_mem env)) \<and>
     (m_type m = FWD_CONNECTION \<and> m_port m \<noteq> 0 \<longrightarrow> pm_tsearch_addr (ev_mem env)) \<and>
     (m_type m = ANS_CONNECTION \<longrightarrow>
        (\<forall>p \<in> set (peers_address_root (vs_table s)). field_at pe_vpnIP (pe_heap (vs_table s)) p \<noteq> Some (m_ip2 m)))"
  "vpn_allowed (Socket_packet a u r) s" "vpn_allowed Stop s"
  "vpn_allowed (Tun_packet env args u r) s \<longleftrightarrow> malloc_fresh (pm_malloc (ev_mem env))"
  "vpn_allowed (Peer_step p i) s \<longleftrightarrow> vs_pc s p \<noteq> Done"
  "vpn_allowed (Punch_step k) s \<longleftrightarrow> k < length (vs_punch s)"
  "vpn_allowed (Writer_step k packet blocked w) s \<longleftrightarrow> k < length (vs_writer s)"
  by (auto simp: vpn_allowed_def)

definition few_threads :: "vpn_sys \<Rightarrow> bool" where
  "few_threads s \<longleftrightarrow> (\<forall>p. thread_refs s p < 2 ^ 32 - 2)"

definition vpn_init :: vpn_sys where
  "vpn_init = \<lparr>vs_table = no_peers, vs_pc = (\<lambda>_. Done), vs_punch = [], vs_writer = []\<rparr>"

text \<open>The runs of the client, with the number of unguarded events on the way.\<close>

inductive vpn_run :: "configuration \<Rightarrow> nat \<Rightarrow> vpn_sys \<Rightarrow> bool" for config where
  run_start: "vpn_run config 0 vpn_init"
| run_next: "vpn_run config k s \<Longrightarrow> vpn_possible e s \<Longrightarrow> few_threads s \<Longrightarrow> vpn_step config e s = Some (es, s') \<Longrightarrow>
    vpn_run config (if caller_node_fails e \<or> late_answer e s then Suc k else k) s'"

definition vpn_reachable :: "configuration \<Rightarrow> vpn_sys \<Rightarrow> bool" where
  "vpn_reachable config s \<longleftrightarrow> vpn_run config 0 s"

lemma vpn_start: "vpn_reachable config vpn_init"
  by (simp add: vpn_reachable_def run_start)

lemma vpn_next:
  "vpn_reachable config s \<Longrightarrow> vpn_allowed e s \<Longrightarrow> few_threads s \<Longrightarrow> vpn_step config e s = Some (es, s') \<Longrightarrow>
     vpn_reachable config s'"
  using run_next [of config 0 s e es s'] by (simp add: vpn_reachable_def vpn_allowed_def)

section \<open>The invariant\<close>

text \<open>The state of a peer is known from where its thread waits; a peer that still asks for its
  endpoint is not indexed by endpoint.\<close>

fun pc_state :: "peer_pc \<Rightarrow> client_type \<Rightarrow> bool" where
  "pc_state Top st = True"
| "pc_state Wait_answer st = (st = NEW)"
| "pc_state Wait_punch st = (st = PUNCHING)"
| "pc_state Handshake st = (st = LINKED)"
| "pc_state (Reading _) st = (st = ESTABLISHED)"
| "pc_state Done st = (st = CLOSED)"

definition states_ok :: "(ptr \<Rightarrow> peer_pc) \<Rightarrow> client_table \<Rightarrow> bool" where
  "states_ok pc t \<longleftrightarrow> (\<forall>p st. field_at pe_state (pe_heap t) p = Some st \<longrightarrow>
     pc_state (pc p) st \<and> (st = NEW \<longrightarrow> p \<notin> set (peers_address_root t)))"

definition vpn_inv :: "vpn_sys \<Rightarrow> bool" where
  "vpn_inv s \<longleftrightarrow> (\<exists>ps. table_wf ps (vs_table s)) \<and> counts_ok (thread_refs s) (pe_heap (vs_table s)) \<and>
     states_ok (vs_pc s) (vs_table s)"

lemma states_okD:
  "states_ok pc t \<Longrightarrow> pe_heap t p = Some c \<Longrightarrow> pc_state (pc p) (pe_state c) \<and> (pe_state c = NEW \<longrightarrow> p \<notin> set (peers_address_root t))"
  by (auto simp: states_ok_def field_at_def)

lemma states_ok_mono:
  assumes "states_ok pc t" and "states_le t' t"
  shows "states_ok pc t'"
  unfolding states_ok_def
proof (intro allI impI)
  fix p st
  assume a: "field_at pe_state (pe_heap t') p = Some st"
  then have "field_at pe_state (pe_heap t) p = Some st" using assms(2) unfolding states_le_def by (metis option.distinct(1))
  then have "pc_state (pc p) st \<and> (st = NEW \<longrightarrow> p \<notin> set (peers_address_root t))" using assms(1) by (simp add: states_ok_def)
  then show "pc_state (pc p) st \<and> (st = NEW \<longrightarrow> p \<notin> set (peers_address_root t'))" using assms(2) by (auto simp: states_le_def)
qed

lemma vpn_inv_init: "vpn_inv vpn_init"
proof -
  have "thread_refs vpn_init = (\<lambda>_. 0)" by (simp add: thread_refs_def vpn_init_def fun_eq_iff)
  then show ?thesis
    using table_wf_init by (auto simp: vpn_inv_def vpn_init_def counts_ok_def states_ok_def no_peers_def field_at_def)
qed

text \<open>A handler that starts no thread, keeps all references and changes no state.\<close>

fun starts :: "comm_effect \<Rightarrow> bool" where
  "starts (Start_peer_handling p) = True"
| "starts (Start_punch p) = True"
| "starts (Start_SSL_writing p) = True"
| "starts _ = False"

definition quiet :: "(ptr \<Rightarrow> nat) \<Rightarrow> client_table \<Rightarrow> (comm_effect list \<times> client_table) option \<Rightarrow> bool" where
  "quiet f t r \<longleftrightarrow> (\<exists>es t' ps. r = Some (es, t') \<and> table_wf ps t' \<and> counts_ok f (pe_heap t') \<and> states_le t' t \<and>
     list_all (\<lambda>e. \<not> starts e) es)"

lemma quietI:
  "r = Some (es, t') \<Longrightarrow> table_wf ps t' \<Longrightarrow> counts_ok f (pe_heap t') \<Longrightarrow> states_le t' t \<Longrightarrow> list_all (\<lambda>e. \<not> starts e) es \<Longrightarrow> quiet f t r"
  by (auto simp: quiet_def)

lemma fold_spawn_quiet: "list_all (\<lambda>e. \<not> starts e) es \<Longrightarrow> fold spawn es s = s"
proof (induction es)
  case (Cons e es)
  then have "spawn e s = s" by (cases e) simp_all
  with Cons show ?case by simp
qed simp

lemma quiet_inv:
  assumes "quiet (thread_refs s) (vs_table s) r" and "vpn_inv s"
  shows "\<exists>es t. r = Some (es, t) \<and> vpn_inv (snd (commit s (es, t)))"
proof -
  obtain es t ps where r: "r = Some (es, t)" "table_wf ps t" "counts_ok (thread_refs s) (pe_heap t)" "states_le t (vs_table s)"
    "list_all (\<lambda>e. \<not> starts e) es" using assms(1) by (auto simp: quiet_def)
  have "thread_refs (s\<lparr>vs_table := t\<rparr>) = thread_refs s" by (simp add: thread_refs_def fun_eq_iff)
  moreover have "states_ok (vs_pc s) t" using assms(2) states_ok_mono [OF _ r(4)] by (simp add: vpn_inv_def)
  ultimately show ?thesis using r by (auto simp: commit_def fold_spawn_quiet vpn_inv_def)
qed

lemma set_peer_quiet:
  assumes wf: "table_wf ps t" and cnt: "counts_ok f (pe_heap t)" and p: "pe_heap t p = Some c"
    and keep: "pe_next (g c) = pe_next c" "pe_prev (g c) = pe_prev c" "pe_vpnIP (g c) = pe_vpnIP c" "pe_ref_count (g c) = pe_ref_count c"
    and addr: "pe_clientaddr (g c) = pe_clientaddr c \<or> p \<notin> set (peers_address_root t)"
  obtains t' where "set_peer p g t = Some t'" "table_wf ps t'" "counts_ok f (pe_heap t')"
    "peers_address_root t' = peers_address_root t" "pe_heap t' = (pe_heap t)(p \<mapsto> g c)"
    "pe_state (g c) = pe_state c \<Longrightarrow> states_le t' t"
proof -
  let ?t = "t\<lparr>pe_heap := (pe_heap t)(p \<mapsto> g c)\<rparr>"
  have "set_peer p g t = Some ?t" "table_wf ps ?t" using set_peer_wf [OF wf p, of g] keep addr by blast+
  moreover have "counts_ok f (pe_heap ?t)" by (rule counts_ok_cong [OF cnt]) (use p keep in \<open>simp add: field_at_def\<close>)
  moreover have "pe_state (g c) = pe_state c \<Longrightarrow> states_le ?t t"
    by (rule states_leI) (use p in \<open>simp_all add: field_at_def\<close>)
  ultimately show thesis by (intro that [of ?t]) simp_all
qed

lemma release:
  assumes wf: "table_wf ps t" and cnt: "counts_ok (f(p := f p + 1)) (pe_heap t)" and pos: "0 < f p"
  obtains es t' where "drop_ref p 1 t = Some (es, t')" "es = [Session_calls []]" "table_wf ps t'" "counts_ok f (pe_heap t')" "states_le t' t"
    "peers_address_root t' = peers_address_root t"
proof -
  have "0 < unat (1 :: u32)" "unat (1 :: u32) \<le> (f(p := f p + 1)) p" by simp_all
  then obtain calls t' where "peers_decr_ref p 1 t = Some (calls, t')"
    "table_wf (if unat (1 :: u32) = (f(p := f p + 1)) p then remove1 p ps else ps) t'"
    "counts_ok ((f(p := f p + 1))(p := (f(p := f p + 1)) p - unat (1 :: u32))) (pe_heap t')"
    "unat (1 :: u32) \<noteq> (f(p := f p + 1)) p \<Longrightarrow> calls = [] \<and> peers_address_root t' = peers_address_root t" "states_le t' t"
    by (rule peers_decr_ref_inv [OF wf cnt]) blast
  with pos show thesis by (intro that [of "[Session_calls []]" t']) (simp_all add: drop_ref_def)
qed

section \<open>The handlers\<close>

text \<open>The facts every handler starts from.\<close>

definition running :: "(ptr \<Rightarrow> nat) \<Rightarrow> client_table \<Rightarrow> ptr list \<Rightarrow> bool" where
  "running f t ps \<longleftrightarrow> table_wf ps t \<and> counts_ok f (pe_heap t) \<and> (\<forall>p. f p < 2 ^ 32 - 2)"

lemma runningD:
  assumes "running f t ps"
  shows "table_wf ps t" "counts_ok f (pe_heap t)" "f p < 2 ^ 32 - 1"
  using assms by (auto simp: running_def dest!: spec [of _ p])

lemma get_by_VPN:
  assumes run: "running f t ps"
  obtains (none) t1 where "peers_get_by_VPN a t = Some (None, t1)" "table_wf ps t1" "counts_ok f (pe_heap t1)" "states_le t1 t"
  | (some) p c t1 where "peers_get_by_VPN a t = Some (Some p, t1)" "table_wf ps t1" "counts_ok (f(p := f p + 1)) (pe_heap t1)" "states_le t1 t"
      "0 < f p" "pe_heap t1 p = Some c" "peers_address_root t1 = peers_address_root t"
proof -
  obtain r t1 where r: "peers_get_by_VPN a t = Some (r, t1)" "table_wf ps t1" "counts_ok (add_hold r 1 f) (pe_heap t1)"
    "states_le t1 t" "peers_address_root t1 = peers_address_root t" "\<forall>p. r = Some p \<longrightarrow> 0 < f p"
    using peers_get_inv(1) [OF runningD(1,2) [OF run] runningD(3) [OF run]] by metis
  show thesis
  proof (cases r)
    case None
    with r show thesis by (intro none) (simp_all add: add_hold_def)
  next
    case (Some p)
    with r have c1: "counts_ok (f(p := f p + 1)) (pe_heap t1)" by (simp add: add_hold_def)
    then obtain c where "pe_heap t1 p = Some c" using counts_okD(1) [OF c1, of p] by auto
    with r Some c1 show thesis by (intro some [of p t1 c]) simp_all
  qed
qed

lemma get_by_endpoint:
  assumes run: "running f t ps"
  obtains (none) t1 where "peers_get_by_endpoint a t = Some (None, t1)" "table_wf ps t1" "counts_ok f (pe_heap t1)" "states_le t1 t"
  | (some) p c t1 where "peers_get_by_endpoint a t = Some (Some p, t1)" "table_wf ps t1" "counts_ok (f(p := f p + 1)) (pe_heap t1)" "states_le t1 t"
      "0 < f p" "pe_heap t1 p = Some c"
proof -
  obtain r t1 where r: "peers_get_by_endpoint a t = Some (r, t1)" "table_wf ps t1" "counts_ok (add_hold r 1 f) (pe_heap t1)"
    "states_le t1 t" "\<forall>p. r = Some p \<longrightarrow> 0 < f p"
    using peers_get_inv(2) [OF runningD(1,2) [OF run] runningD(3) [OF run]] by metis
  show thesis
  proof (cases r)
    case None
    with r show thesis by (intro none) (simp_all add: add_hold_def)
  next
    case (Some p)
    with r have c1: "counts_ok (f(p := f p + 1)) (pe_heap t1)" by (simp add: add_hold_def)
    then obtain c where "pe_heap t1 p = Some c" using counts_okD(1) [OF c1, of p] by auto
    with r Some c1 show thesis by (intro some [of p t1 c]) simp_all
  qed
qed

lemma socket_dtls_quiet:
  assumes run: "running f t ps"
  shows "quiet f t (socket_dtls a u r t)"
proof (cases rule: get_by_endpoint [OF run, of a, case_names none some])
  case (none t1)
  then show ?thesis
    by (intro quietI [of _ "if u ! 0 = DTLS_APPLICATION_DATA then [Sendto a (alert_record u)] else []" t1]) (simp_all add: socket_dtls_def)
next
  case (some p c t1)
  obtain es t2 where d: "drop_ref p 1 t1 = Some (es, t2)" "es = [Session_calls []]" "table_wf ps t2" "counts_ok f (pe_heap t2)" "states_le t2 t1"
    by (rule release [OF some(2,3,5)])
  show ?thesis
    by (rule quietI [OF _ d(3,4) states_le_trans [OF d(5) some(4)]]) (use some(1,6) d(1,2) in \<open>auto simp: socket_dtls_def\<close>)
qed

lemma socket_punch_quiet:
  assumes run: "running f t ps"
  shows "quiet f t (socket_punch a t)"
proof (cases rule: get_by_endpoint [OF run, of a, case_names none some])
  case (none t1)
  then show ?thesis by (intro quietI [of _ "[]" t1]) (simp_all add: socket_punch_def)
next
  case (some p c t1)
  obtain es t2 where d: "drop_ref p 1 t1 = Some (es, t2)" "es = [Session_calls []]" "table_wf ps t2" "counts_ok f (pe_heap t2)" "states_le t2 t1"
    by (rule release [OF some(2,3,5)])
  show ?thesis
    by (rule quietI [OF _ d(3,4) states_le_trans [OF d(5) some(4)]]) (use some(1) d(1,2) in \<open>auto simp: socket_punch_def\<close>)
qed

lemma comm_socket_quiet:
  assumes run: "running f t ps"
  shows "quiet f t (comm_socket config a u r t)"
  using socket_dtls_quiet [OF run, of a u r] socket_punch_quiet [OF run, of a] runningD [OF run]
  by (auto simp: comm_socket_def intro!: quietI)

lemma get_by_VPN_key:
  assumes "peers_get_by_VPN a t = Some (Some p, t1)"
  shows "field_at pe_vpnIP (pe_heap t) p = Some a"
proof -
  let ?x = "peer_tmp a \<lparr>sin_addr = 0, sin_port = 0\<rparr>"
  have "tfind (cmp_at compare_peers_vpn (pe_heap t) ?x) (peers_vpn_root t) = Some (Some p)"
    using assms unfolding peers_get_by_VPN_def by (auto simp: bind_eq_Some_conv split: option.split_asm)
  then have "field_at pe_vpnIP (pe_heap t) p = Some (pe_vpnIP ?x)" using peers_by_vpn.tfind_SomeD by blast
  then show ?thesis by (simp add: peer_tmp_def new_peer_def)
qed

text \<open>Assignments that change neither the state nor anything the table relies on.\<close>

lemma set_peer_le:
  assumes "table_wf ps t" and "counts_ok f (pe_heap t)" and "pe_heap t p = Some c"
    and "pe_next (g c) = pe_next c" "pe_prev (g c) = pe_prev c" "pe_vpnIP (g c) = pe_vpnIP c" "pe_ref_count (g c) = pe_ref_count c"
    and "pe_clientaddr (g c) = pe_clientaddr c \<or> p \<notin> set (peers_address_root t)" and "pe_state (g c) = pe_state c"
  shows "\<exists>t'. set_peer p g t = Some t' \<and> table_wf ps t' \<and> counts_ok f (pe_heap t') \<and> states_le t' t"
  by (rule set_peer_quiet [where g = g and c = c and p = p, OF assms(1-8)]) (use assms(9) in blast)

lemma rdv_answer_quiet:
  assumes run: "running f t ps"
    and ws: "ws = [] \<or> (\<exists>e. ws = [Set_clientaddr e]) \<and> (\<forall>q \<in> set (peers_address_root t). field_at pe_vpnIP (pe_heap t) q \<noteq> Some ip)"
  shows "quiet f t (rdv_answer a ip ws t)"
proof (cases rule: get_by_VPN [OF run, of ip, case_names none some])
  case (none t1)
  then show ?thesis by (intro quietI [of _ "[]" t1]) (simp_all add: rdv_answer_def)
next
  case (some p c t1)
  define g where "g = fold apply_write (Set_rdv_answer a # ws)"
  have "ws = [] \<or> (\<exists>e. ws = [Set_clientaddr e]) \<and> p \<notin> set (peers_address_root t1)"
    using ws get_by_VPN_key [OF some(1)] some(7) by auto
  then obtain t2 where t2: "set_peer p g t1 = Some t2" "table_wf ps t2" "counts_ok (f(p := f p + 1)) (pe_heap t2)" "states_le t2 t1"
    by (atomize_elim, intro set_peer_le [OF some(2,3,6)]) (auto simp: g_def)
  obtain es t3 where d: "drop_ref p 1 t2 = Some (es, t3)" "es = [Session_calls []]" "table_wf ps t3" "counts_ok f (pe_heap t3)" "states_le t3 t2"
    by (rule release [OF t2(2,3) some(5)])
  have "rdv_answer a ip ws t = Some (Signal p # es, t3)"
    unfolding rdv_answer_def g_def [symmetric] using some(1) t2(1) d(1) by simp
  from quietI [OF this d(3,4) states_le_trans [OF d(5) states_le_trans [OF t2(4) some(4)]]] d(2) show ?thesis by simp
qed

lemma tun_known_quiet:
  assumes wf: "table_wf ps t" and cnt: "counts_ok (f(p := f p + 1)) (pe_heap t)" and f: "0 < f p" and c: "pe_heap t p = Some c"
  shows "quiet f t (tun_known env p packet t)"
proof (cases "pe_state c = CLOSED")
  case True
  obtain es t1 where d: "drop_ref p 1 t = Some (es, t1)" "es = [Session_calls []]" "table_wf ps t1" "counts_ok f (pe_heap t1)" "states_le t1 t"
    by (rule release [OF wf cnt f])
  show ?thesis by (rule quietI [OF _ d(3-5)]) (use True c d(1,2) in \<open>auto simp: tun_known_def\<close>)
next
  case False
  let ?g = "apply_write (Set_time (ev_time env))"
  obtain t1 where t1: "set_peer p ?g t = Some t1" "table_wf ps t1" "counts_ok (f(p := f p + 1)) (pe_heap t1)" "states_le t1 t"
    by (atomize_elim, intro set_peer_le [OF wf cnt c]) simp_all
  obtain es t2 where d: "drop_ref p 1 t1 = Some (es, t2)" "es = [Session_calls []]" "table_wf ps t2" "counts_ok f (pe_heap t2)" "states_le t2 t1"
    by (rule release [OF t1(2,3) f])
  show ?thesis
    by (rule quietI [OF _ d(3,4) states_le_trans [OF d(5) t1(4)]]) (use False c t1(1) d(1,2) in \<open>auto simp: tun_known_def\<close>)
qed

text \<open>The walks over the list of peers end: the remaining list is a suffix of the well formed one.\<close>

lemma broadcast_walk_suffix:
  assumes wf: "table_wf (xs @ ys) t"
  shows "broadcast_walk packet (first_of ys) t =
    Some (map (\<lambda>p. Out_fifo_write p packet) (filter (\<lambda>p. field_at pe_state (pe_heap t) p = Some ESTABLISHED) ys))"
  using wf
proof (induction ys arbitrary: xs)
  case Nil
  show ?case by (simp add: broadcast_walk.simps)
next
  case (Cons p ys)
  then have l: "dlist pe_next pe_prev (pe_heap t) (peers_list t) (xs @ p # ys)" by (simp add: table_wf_def)
  obtain c where c: "pe_heap t p = Some c" using dlseg_allocated [OF l, of p] by auto
  have "pe_next c = first_of ys" using dlist_next [OF l c] .
  moreover have "table_wf ((xs @ [p]) @ ys) t" using Cons.prems by simp
  ultimately show ?case using Cons.IH [of "xs @ [p]"] c
    by (simp add: broadcast_walk.simps [of packet "Some p"] field_at_Some)
qed

lemma broadcast_walk_list:
  assumes "table_wf ps t"
  shows "broadcast_walk packet (peers_list t) t =
    Some (map (\<lambda>p. Out_fifo_write p packet) (filter (\<lambda>p. field_at pe_state (pe_heap t) p = Some ESTABLISHED) ps))"
proof -
  have "peers_list t = first_of ps" using assms by (auto simp: table_wf_def dest: dlseg_head)
  then show ?thesis using broadcast_walk_suffix [of "[]" ps t packet] assms by simp
qed

lemma end_all_suffix:
  assumes "table_wf (xs @ ys) t" and "counts_ok f (pe_heap t)"
  shows "\<exists>t'. end_all (first_of ys) t = Some (map (\<lambda>p. Rbio_write p []) ys, t') \<and> table_wf (xs @ ys) t' \<and> counts_ok f (pe_heap t') \<and> states_le t' t"
  using assms
proof (induction ys arbitrary: xs t)
  case Nil
  then show ?case by (simp add: end_all.simps)
next
  case (Cons p ys)
  then have l: "dlist pe_next pe_prev (pe_heap t) (peers_list t) (xs @ p # ys)" by (simp add: table_wf_def)
  obtain c where c: "pe_heap t p = Some c" using dlseg_allocated [OF l, of p] by auto
  obtain t1 where t1: "set_peer p (apply_write Set_shutdown) t = Some t1" "table_wf (xs @ p # ys) t1" "counts_ok f (pe_heap t1)" "states_le t1 t"
    by (atomize_elim, intro set_peer_le [OF Cons.prems c]) simp_all
  obtain t' where t': "end_all (first_of ys) t1 = Some (map (\<lambda>p. Rbio_write p []) ys, t')" "table_wf ((xs @ [p]) @ ys) t'" "counts_ok f (pe_heap t')" "states_le t' t1"
    using Cons.IH [of "xs @ [p]" t1] t1 by auto
  have "pe_next c = first_of ys" using dlist_next [OF l c] .
  with t1(1) t'(1) c have "end_all (first_of (p # ys)) t = Some (map (\<lambda>p. Rbio_write p []) (p # ys), t')"
    by (simp add: end_all.simps [of "Some p"] end_peer_handling_def)
  with t' states_le_trans [OF t'(4) t1(4)] show ?case by (intro exI [of _ t']) simp
qed

lemma stop_vpn_quiet:
  assumes run: "running f t ps"
  shows "quiet f t (stop_vpn config t)"
proof -
  have "peers_list t = first_of ps" using runningD(1) [OF run] by (auto simp: table_wf_def dest: dlseg_head)
  then obtain t' where "end_all (peers_list t) t = Some (map (\<lambda>p. Rbio_write p []) ps, t')" "table_wf ps t'" "counts_ok f (pe_heap t')" "states_le t' t"
    using end_all_suffix [of "[]" ps t f] runningD [OF run] by auto
  then show ?thesis
    by (intro quietI [of _ "map (\<lambda>p. Rbio_write p []) ps @ [to_server config (init_smsg BYE (vpnIP config) 0)]" t'])
      (simp_all add: stop_vpn_def list_all_iff to_server_def)
qed

text \<open>A handler changes the state of no peer; a peer that appears starts in one of two states.\<close>

definition states_kept :: "client_table \<Rightarrow> client_table \<Rightarrow> bool" where
  "states_kept t t' \<longleftrightarrow> (\<forall>q st. field_at pe_state (pe_heap t') q = Some st \<longrightarrow>
     field_at pe_state (pe_heap t) q = Some st \<or> field_at pe_state (pe_heap t) q = None \<and> st \<in> {NEW, PUNCHING})"

lemma states_leD:
  "states_le t' t \<Longrightarrow> field_at pe_state (pe_heap t') q = Some st \<Longrightarrow> field_at pe_state (pe_heap t) q = Some st"
  unfolding states_le_def by (metis option.distinct(1))

lemma states_le_kept: "states_le t' t \<Longrightarrow> states_kept t t'"
  unfolding states_le_def states_kept_def by (metis option.distinct(1))

text \<open>A new peer with its thread.\<close>

lemma thread_refs_done: "thread_refs s p = 0 \<Longrightarrow> vs_pc s p = Done"
  by (auto simp: thread_refs_def split: if_splits)

lemma launch:
  assumes inv: "vpn_inv s" and few: "few_threads s" and t1: "states_le t1 (vs_table s)" "counts_ok (thread_refs s) (pe_heap t1)"
    and p: "pe_heap t1 p = None" and wf: "table_wf qs t2"
    and pay: "\<And>q. field_at pe_payload (pe_heap t2) q = field_at pe_payload ((pe_heap t1)(p \<mapsto> c)) q"
    and c: "pe_ref_count c = 2" "pe_state c = NEW \<longrightarrow> p \<notin> set (peers_address_root t2)" "pe_state c \<in> {NEW, PUNCHING}"
    and root: "set (peers_address_root t2) \<subseteq> insert p (set (peers_address_root t1))"
  obtains t3 t4 where "start_peer_handling p t2 = Some ([Start_peer_handling p], t3)" "drop_ref p 1 t3 = Some ([Session_calls []], t4)"
    "vpn_inv (s\<lparr>vs_table := t4, vs_pc := (vs_pc s)(p := Top)\<rparr>)" "states_kept (vs_table s) t4"
    "pe_heap (vs_table s) p = None"
proof -
  let ?f = "(thread_refs s)(p := 2)"
  have z: "thread_refs s p = 0" using counts_okD(1) [OF t1(2), of p] p by simp
  have fresh: "pe_heap (vs_table s) p = None"
    using inv counts_okD(1) [of "thread_refs s" "pe_heap (vs_table s)" p] z by (auto simp: vpn_inv_def)
  have cnt2: "counts_ok ?f (pe_heap t2)"
    by (rule counts_ok_upd [OF t1(2)]) (use pe_payload_key(3) [OF pay] c in simp_all)
  obtain c2 where c2: "pe_heap t2 p = Some c2" using counts_okD(1) [OF cnt2, of p] by auto
  obtain t3 where t3: "peers_incr_ref p t2 = Some t3" "table_wf qs t3" "counts_ok (?f(p := ?f p + 1)) (pe_heap t3)" "states_le t3 t2"
    by (rule peers_incr_ref_inv [OF wf cnt2 c2]) auto
  obtain es t4 where t4: "drop_ref p 1 t3 = Some (es, t4)" "es = [Session_calls []]" "table_wf qs t4" "counts_ok ?f (pe_heap t4)" "states_le t4 t3"
    by (rule release [OF t3(2,3)]) auto
  have "states_ok ((vs_pc s)(p := Top)) t2"
    unfolding states_ok_def
  proof (intro allI impI)
    fix q st
    assume st: "field_at pe_state (pe_heap t2) q = Some st"
    have k: "field_at pe_state (pe_heap t2) q = field_at pe_state ((pe_heap t1)(p \<mapsto> c)) q" by (rule pe_payload_key(4) [OF pay])
    show "pc_state (((vs_pc s)(p := Top)) q) st \<and> (st = NEW \<longrightarrow> q \<notin> set (peers_address_root t2))"
    proof (cases "q = p")
      case True
      with st k c(2) show ?thesis by auto
    next
      case False
      with st k have "field_at pe_state (pe_heap t1) q = Some st" by simp
      moreover have "states_ok (vs_pc s) t1" using inv states_ok_mono [OF _ t1(1)] by (simp add: vpn_inv_def)
      ultimately show ?thesis using False root by (auto simp: states_ok_def)
    qed
  qed
  then have "states_ok ((vs_pc s)(p := Top)) t4" using states_ok_mono states_le_trans [OF t4(5) t3(4)] by blast
  moreover have "thread_refs (s\<lparr>vs_table := t4, vs_pc := (vs_pc s)(p := Top)\<rparr>) = ?f"
    using z by (auto simp: thread_refs_def fun_eq_iff)
  ultimately have "vpn_inv (s\<lparr>vs_table := t4, vs_pc := (vs_pc s)(p := Top)\<rparr>)"
    using t4(3,4) by (auto simp: vpn_inv_def)
  moreover have "states_kept (vs_table s) t4"
    unfolding states_kept_def
  proof (intro allI impI)
    fix q st
    assume "field_at pe_state (pe_heap t4) q = Some st"
    then have "field_at pe_state (pe_heap t2) q = Some st"
      using states_leD [OF states_le_trans [OF t4(5) t3(4)]] by blast
    then have st: "field_at pe_state ((pe_heap t1)(p \<mapsto> c)) q = Some st" using pe_payload_key(4) [OF pay, of q] by simp
    with c(3) fresh st show "field_at pe_state (pe_heap (vs_table s)) q = Some st \<or> field_at pe_state (pe_heap (vs_table s)) q = None \<and> st \<in> {NEW, PUNCHING}"
      using states_leD [OF t1(1), of q st] by (cases "q = p") auto
  qed
  ultimately show thesis using that fresh t3(1) t4(1,2) by (simp add: start_peer_handling_def)
qed

lemma new_peer_fields [simp]:
  "pe_ref_count (new_peer config now sockfd tunfd st t ip pt vpn cl) = 2" "pe_state (new_peer config now sockfd tunfd st t ip pt vpn cl) = st"
  by (simp_all add: new_peer_def)

text \<open>The two handlers that add peers: nothing changes, or the peer is in the table and its thread runs.\<close>

definition handled :: "vpn_sys \<Rightarrow> (comm_effect list \<times> client_table) option \<Rightarrow> bool" where
  "handled s r \<longleftrightarrow> (\<exists>es t. r = Some (es, t) \<and> vpn_inv (snd (commit s (es, t))) \<and> states_kept (vs_table s) t \<and>
     (\<forall>q. Start_peer_handling q \<in> set es \<longrightarrow> pe_heap (vs_table s) q = None))"

lemma quiet_starts: "list_all (\<lambda>e. \<not> starts e) es \<Longrightarrow> Start_peer_handling q \<notin> set es"
  by (auto simp: list_all_iff)

lemma handled_quiet:
  assumes "quiet (thread_refs s) (vs_table s) r" and "vpn_inv s"
  shows "handled s r"
proof -
  obtain es t where "r = Some (es, t)" "states_le t (vs_table s)" "list_all (\<lambda>e. \<not> starts e) es" using assms(1) by (auto simp: quiet_def)
  with quiet_inv [OF assms] states_le_kept quiet_starts show ?thesis by (auto simp: handled_def)
qed

lemma tun_unknown_handled:
  assumes inv: "vpn_inv s" and few: "few_threads s" and fr: "malloc_fresh (pm_malloc (ev_mem env))"
    and t1: "table_wf ps t1" "counts_ok (thread_refs s) (pe_heap t1)" "states_le t1 (vs_table s)"
  shows "handled s (tun_unknown config env args a packet t1)"
proof (cases rule: peers_add_cases [OF t1(1) fr _ refl, of 0 config "ev_clock env" "ca_sockfd args" "ca_tunfd args" NEW "ev_time env" 0 a True,
      case_names port failed added])
  case (failed calls)
  then have "tun_unknown config env args a packet t1 = Some ([Session_calls calls], t1)"
    by (simp add: tun_unknown_def peers_add_requested_def)
  from quietI [OF this t1] handled_quiet [OF _ inv] show ?thesis by simp
next
  case (added p calls t2)
  obtain t3 t4 where l: "start_peer_handling p t2 = Some ([Start_peer_handling p], t3)" "drop_ref p 1 t3 = Some ([Session_calls []], t4)"
    "vpn_inv (s\<lparr>vs_table := t4, vs_pc := (vs_pc s)(p := Top)\<rparr>)" "states_kept (vs_table s) t4" "pe_heap (vs_table s) p = None"
    by (rule launch [OF inv few t1(3,2) added(2,3,4)]) (use added(6,7) in simp_all)
  then show ?thesis
    using added(1) by (simp add: handled_def tun_unknown_def peers_add_requested_def commit_def)
qed simp

lemma rdv_forward_handled:
  assumes inv: "vpn_inv s" and few: "few_threads s" and fr: "malloc_fresh (pm_malloc (ev_mem env))"
    and node: "pm_tsearch_addr (ev_mem env) \<or> m_port m = 0" and run: "running (thread_refs s) (vs_table s) ps"
  shows "handled s (rdv_forward config env args m (vs_table s))"
proof (cases rule: get_by_VPN [OF run, of "m_ip2 m", case_names none some])
  case (some p c t1)
  obtain es t2 where d: "drop_ref p 1 t1 = Some (es, t2)" "es = [Session_calls []]" "table_wf ps t2" "counts_ok (thread_refs s) (pe_heap t2)" "states_le t2 t1"
    by (rule release [OF some(2,3,5)])
  have "rdv_forward config env args m (vs_table s) = Some (es, t2)" using some(1) d(1) by (simp add: rdv_forward_def)
  from quietI [OF this d(3,4) states_le_trans [OF d(5) some(4)]] d(2) handled_quiet [OF _ inv] show ?thesis by simp
next
  case t1: (none t1)
  show ?thesis
  proof (cases rule: peers_add_cases [OF t1(2) fr node refl, of config "ev_clock env" "ca_sockfd args" "ca_tunfd args" PUNCHING "ev_time env"
        "m_ip1 m" "m_ip2 m" False, case_names failed added])
    case (failed calls)
    then have "rdv_forward config env args m (vs_table s) = Some ([Session_calls calls], t1)"
      using t1(1) by (simp add: rdv_forward_def peers_add_caller_def)
    from quietI [OF this t1(2-4)] handled_quiet [OF _ inv] show ?thesis by simp
  next
    case (added p calls t2)
    obtain t3 t4 where l: "start_peer_handling p t2 = Some ([Start_peer_handling p], t3)" "drop_ref p 1 t3 = Some ([Session_calls []], t4)"
      "vpn_inv (s\<lparr>vs_table := t4, vs_pc := (vs_pc s)(p := Top)\<rparr>)" "states_kept (vs_table s) t4" "pe_heap (vs_table s) p = None"
      by (rule launch [OF inv few t1(4,3) added(2,3,4)]) (use added(7) in simp_all)
    then show ?thesis
      using added(1) t1(1) by (simp add: handled_def rdv_forward_def peers_add_caller_def commit_def)
  qed
qed

lemma quiet_trans: "quiet f t1 r \<Longrightarrow> states_le t1 t \<Longrightarrow> quiet f t r"
  unfolding quiet_def using states_le_trans by metis

lemma vpn_inv_running:
  assumes "vpn_inv s" and "few_threads s"
  obtains ps where "running (thread_refs s) (vs_table s) ps"
  using assms by (auto simp: vpn_inv_def few_threads_def running_def)

lemma rdv_handling_handled:
  assumes inv: "vpn_inv s" and few: "few_threads s" and al: "vpn_allowed (Rdv_message env args m) s"
  shows "handled s (rdv_handling config env args m (vs_table s))"
proof -
  obtain ps where run: "running (thread_refs s) (vs_table s) ps" by (rule vpn_inv_running [OF inv few])
  have idle: "handled s (Some (es, vs_table s))" if "list_all (\<lambda>e. \<not> starts e) es" for es
    by (rule handled_quiet [OF quietI [OF refl runningD(1,2) [OF run] states_le_refl that] inv])
  have "handled s (rdv_answer a ip [] (vs_table s))" for a ip
    by (rule handled_quiet [OF rdv_answer_quiet [OF run] inv]) simp
  moreover have "handled s (rdv_answer ANS_CONNECTION (m_ip2 m) [Set_clientaddr e] (vs_table s))" if "m_type m = ANS_CONNECTION" for e
    by (rule handled_quiet [OF rdv_answer_quiet [OF run] inv]) (use al that in simp)
  moreover have "handled s (rdv_forward config env args m (vs_table s))" if "m_type m = FWD_CONNECTION"
    by (rule rdv_forward_handled [OF inv few _ _ run]) (use al that in auto)
  moreover have "handled s (Some ([], vs_table s))" "handled s (Some ([Register_again], vs_table s))"
    by - (rule idle, simp)+
  ultimately show ?thesis by (simp add: rdv_handling_def)
qed

lemma comm_tun_handled:
  assumes inv: "vpn_inv s" and few: "few_threads s" and al: "vpn_allowed (Tun_packet env args u r) s"
  shows "handled s (comm_tun config env args u r (vs_table s))"
proof -
  obtain ps where run: "running (thread_refs s) (vs_table s) ps" by (rule vpn_inv_running [OF inv few])
  have idle: "handled s (Some (es, vs_table s))" if "list_all (\<lambda>e. \<not> starts e) es" for es
    by (rule handled_quiet [OF quietI [OF refl runningD(1,2) [OF run] states_le_refl that] inv])
  have unicast: "handled s (do { (x, t1) \<leftarrow> peers_get_by_VPN a (vs_table s);
      (case x of None \<Rightarrow> tun_unknown config env args a packet t1 | Some p \<Rightarrow> tun_known env p packet t1) })" for a packet
  proof (cases rule: get_by_VPN [OF run, of a, case_names none some])
    case (none t1)
    then show ?thesis using tun_unknown_handled [OF inv few _ none(2-4)] al by simp
  next
    case (some p c t1)
    then show ?thesis
      using handled_quiet [OF quiet_trans [OF tun_known_quiet [OF some(2,3,5,6)] some(4)] inv] by simp
  qed
  have "handled s (Some ([Write_tun (take r u)], vs_table s))"
    "handled s (Some (map (\<lambda>p. Out_fifo_write p (take r u))
      (filter (\<lambda>p. field_at pe_state (pe_heap (vs_table s)) p = Some ESTABLISHED) ps), vs_table s))"
    by - (rule idle, simp add: list_all_iff)+
  with unicast [of "ip_dst u" "take r u"] show ?thesis
    by (simp add: comm_tun_def Let_def broadcast_walk_list [OF runningD(1) [OF run]])
qed

section \<open>The threads of the peers\<close>

lemma states_ok_pc:
  "states_ok pc t \<Longrightarrow> pe_heap t p = Some c \<Longrightarrow> pc_state pc' (pe_state c) \<Longrightarrow> states_ok (pc(p := pc')) t"
  by (auto simp: states_ok_def field_at_def)

lemma set_state_step:
  assumes wf: "table_wf ps t" and cnt: "counts_ok f (pe_heap t)" and st: "states_ok pc t" and c: "pe_heap t p = Some c"
    and new: "x \<noteq> NEW" "pc_state pc' x"
  obtains t' where "set_state p x t = Some t'" "table_wf ps t'" "counts_ok f (pe_heap t')" "states_ok (pc(p := pc')) t'"
    "pe_heap t' p = Some (c\<lparr>pe_state := x\<rparr>)"
proof -
  obtain t' where t': "set_state p x t = Some t'" "table_wf ps t'" "counts_ok f (pe_heap t')"
    "peers_address_root t' = peers_address_root t" "pe_heap t' = (pe_heap t)(p \<mapsto> apply_write (Set_state x) c)"
    by (rule set_peer_quiet [where g = "apply_write (Set_state x)" and c = c and p = p, OF wf cnt c]) simp_all
  have "states_ok (pc(p := pc')) t'"
    using st new by (auto simp: states_ok_def t'(4,5))
  with t' show thesis by (intro that [of t']) simp_all
qed

text \<open>A step of a peer thread that starts no thread and does not end.\<close>

lemma commit_peer:
  assumes "vs_pc s p \<noteq> Done" and "pc' \<noteq> Done" and "list_all (\<lambda>e. \<not> starts e) es" and "table_wf ps t"
    and "counts_ok (thread_refs s) (pe_heap t)" and "states_ok ((vs_pc s)(p := pc')) t"
  shows "vpn_inv (snd (commit (s\<lparr>vs_pc := (vs_pc s)(p := pc')\<rparr>) (es, t)))"
proof -
  have "thread_refs (s\<lparr>vs_pc := (vs_pc s)(p := pc'), vs_table := t\<rparr>) = thread_refs s"
    using assms(1,2) by (auto simp: thread_refs_def fun_eq_iff)
  with assms(3-6) show ?thesis by (auto simp: commit_def fold_spawn_quiet vpn_inv_def)
qed

definition stepped :: "vpn_sys \<Rightarrow> ptr \<Rightarrow> (peer_pc \<times> comm_effect list \<times> client_table) option \<Rightarrow> bool" where
  "stepped s p r \<longleftrightarrow> (\<exists>pc es t. r = Some (pc, es, t) \<and> vpn_inv (snd (commit (s\<lparr>vs_pc := (vs_pc s)(p := pc)\<rparr>) (es, t))))"

lemma stepped_to:
  assumes "r = Some (pc', es, t)" "vs_pc s p \<noteq> Done" and "pc' \<noteq> Done" and "list_all (\<lambda>e. \<not> starts e) es" and "table_wf ps t"
    and "counts_ok (thread_refs s) (pe_heap t)" and "states_ok ((vs_pc s)(p := pc')) t"
  shows "stepped s p r"
  using commit_peer [OF assms(2-7)] assms(1) by (auto simp: stepped_def)

lemma stepped_state:
  assumes wf: "table_wf ps t" and cnt: "counts_ok (thread_refs s) (pe_heap t)" and st: "states_ok (vs_pc s) t" and c: "pe_heap t p = Some c"
    and pc: "vs_pc s p \<noteq> Done" and x: "x \<noteq> NEW" and es: "list_all (\<lambda>e. \<not> starts e) es"
  shows "stepped s p (do { t1 \<leftarrow> set_state p x t; Some (Top, es, t1) })"
proof -
  obtain t' where "set_state p x t = Some t'" "table_wf ps t'" "counts_ok (thread_refs s) (pe_heap t')" "states_ok ((vs_pc s)(p := Top)) t'"
    by (rule set_state_step [OF wf cnt st c x, of Top]) simp_all
  then show ?thesis by (intro stepped_to [of _ Top es t']) (use pc es in simp_all)
qed

text \<open>A step that starts a punching or a writing thread.\<close>

lemma stepped_spawn:
  assumes wf: "table_wf ps t" and cnt: "counts_ok (thread_refs s) (pe_heap t)" and st: "states_ok (vs_pc s) t" and c: "pe_heap t p = Some c"
    and pc: "vs_pc s p \<noteq> Done" "pc' \<noteq> Done" "pc_state pc' (pe_state c)" and few: "few_threads s"
  shows "stepped s p (do { (es, t1) \<leftarrow> start_punch p t; Some (pc', es, t1) })"
    and "stepped s p (do { (es, t1) \<leftarrow> start_SSL_writing p t; Some (pc', es, t1) })"
proof -
  let ?f = "thread_refs s"
  have "?f p < 2 ^ 32 - 1" using few by (auto simp: few_threads_def dest!: spec [of _ p])
  then obtain t1 where t1: "peers_incr_ref p t = Some t1" "table_wf ps t1" "counts_ok (?f(p := ?f p + 1)) (pe_heap t1)" "states_le t1 t"
    by (rule peers_incr_ref_inv [OF wf cnt c]) blast
  have ok: "states_ok ((vs_pc s)(p := pc')) t1"
    by (rule states_ok_mono [OF states_ok_pc [OF st c pc(3)] t1(4)])
  have refs: "thread_refs (s\<lparr>vs_pc := (vs_pc s)(p := pc'), vs_table := t1, vs_punch := (p, 0) # vs_punch s\<rparr>) = ?f(p := ?f p + 1)"
    "thread_refs (s\<lparr>vs_pc := (vs_pc s)(p := pc'), vs_table := t1, vs_writer := p # vs_writer s\<rparr>) = ?f(p := ?f p + 1)"
    using pc by (auto simp: thread_refs_def fun_eq_iff)
  show "stepped s p (do { (es, t1) \<leftarrow> start_punch p t; Some (pc', es, t1) })"
    using t1 ok refs(1) by (auto simp: stepped_def start_punch_def commit_def vpn_inv_def)
  show "stepped s p (do { (es, t1) \<leftarrow> start_SSL_writing p t; Some (pc', es, t1) })"
    using t1 ok refs(2) by (auto simp: stepped_def start_SSL_writing_def commit_def vpn_inv_def)
qed

text \<open>The last step of a peer thread.\<close>

lemma stepped_done:
  assumes wf: "table_wf ps t" and cnt: "counts_ok (thread_refs s) (pe_heap t)" and st: "states_ok (vs_pc s) t" and c: "pe_heap t p = Some c"
    and pc: "vs_pc s p \<noteq> Done" and closed: "pe_state c = CLOSED"
  shows "stepped s p (do { (es, t1) \<leftarrow> drop_ref p 2 t; Some (Done, es, t1) })"
proof -
  let ?f = "thread_refs s"
  have "0 < unat (2 :: u32)" "unat (2 :: u32) \<le> ?f p" using pc by (simp_all add: thread_refs_def)
  then obtain calls t1 where t1: "peers_decr_ref p 2 t = Some (calls, t1)" "table_wf (if unat (2 :: u32) = ?f p then remove1 p ps else ps) t1"
    "counts_ok (?f(p := ?f p - unat (2 :: u32))) (pe_heap t1)" "states_le t1 t"
    by (rule peers_decr_ref_inv [OF wf cnt]) blast
  have "states_ok ((vs_pc s)(p := Done)) t1"
    by (rule states_ok_mono [OF states_ok_pc [OF st c] t1(4)]) (simp add: closed)
  moreover have "thread_refs (s\<lparr>vs_pc := (vs_pc s)(p := Done), vs_table := t1\<rparr>) = ?f(p := ?f p - unat (2 :: u32))"
    using pc by (auto simp: thread_refs_def fun_eq_iff)
  ultimately show ?thesis
    using t1 by (auto simp: stepped_def drop_ref_def commit_def vpn_inv_def)
qed

text \<open>The facts every step of a peer thread starts from.\<close>

lemma peer_thread:
  assumes inv: "vpn_inv s" and pc: "vs_pc s p \<noteq> Done"
  obtains ps c where "table_wf ps (vs_table s)" "counts_ok (thread_refs s) (pe_heap (vs_table s))" "states_ok (vs_pc s) (vs_table s)"
    "pe_heap (vs_table s) p = Some c" "pc_state (vs_pc s p) (pe_state c)" "pe_state c = NEW \<Longrightarrow> p \<notin> set (peers_address_root (vs_table s))"
proof -
  obtain ps where i: "table_wf ps (vs_table s)" "counts_ok (thread_refs s) (pe_heap (vs_table s))" "states_ok (vs_pc s) (vs_table s)"
    using inv by (auto simp: vpn_inv_def)
  have "0 < thread_refs s p" using pc by (simp add: thread_refs_def)
  then obtain c where "pe_heap (vs_table s) p = Some c" using counts_okD(1) [OF i(2), of p] by auto
  with i states_okD [OF i(3)] show thesis by (intro that [of ps c]) blast+
qed

lemma peer_top_stepped:
  assumes inv: "vpn_inv s" and few: "few_threads s" and pc: "vs_pc s p = Top"
  shows "stepped s p (peer_top config e p (vs_table s))"
proof -
  have nd: "vs_pc s p \<noteq> Done" using pc by simp
  obtain ps c where i: "table_wf ps (vs_table s)" "counts_ok (thread_refs s) (pe_heap (vs_table s))" "states_ok (vs_pc s) (vs_table s)"
    "pe_heap (vs_table s) p = Some c" by (rule peer_thread [OF inv nd])
  have stay: "stepped s p (Some (pc', es, vs_table s))" if "pc' \<noteq> Done" "pc_state pc' (pe_state c)" "list_all (\<lambda>e. \<not> starts e) es" for pc' es
    by (rule stepped_to [OF refl nd that(1,3) i(1,2) states_ok_pc [OF i(3,4) that(2)]])
  have closed: "stepped s p (do { t1 \<leftarrow> set_state p CLOSED (vs_table s); Some (Top, [], t1) })"
    by (rule stepped_state [OF i nd]) simp_all
  show ?thesis
  proof (cases "pe_state c")
    case NEW
    with closed stay [of Wait_answer "[to_server config (init_smsg ASK_CONNECTION (pe_vpnIP c) 0)]"] i(4) show ?thesis
      by (simp add: peer_top_def to_server_def)
  next
    case PUNCHING
    with closed stepped_spawn(1) [OF i nd _ _ few, of Wait_punch] i(4) show ?thesis by (simp add: peer_top_def)
  next
    case LINKED
    with closed stay [of Handshake "[Set_dgram_peer p (pe_clientaddr c)]"] i(4) show ?thesis by (simp add: peer_top_def)
  next
    case ESTABLISHED
    with stepped_spawn(2) [OF i nd _ _ few, of "Reading 0"] i(4) show ?thesis by (simp add: peer_top_def)
  next
    case CLOSED
    with stepped_done [OF i nd] i(4) show ?thesis by (simp add: peer_top_def)
  qed
qed

lemma peer_answered_stepped:
  assumes inv: "vpn_inv s" and pc: "vs_pc s p = Wait_answer"
  shows "stepped s p (peer_answered expired e unset node p (vs_table s))"
proof -
  have nd: "vs_pc s p \<noteq> Done" using pc by simp
  obtain ps c where i: "table_wf ps (vs_table s)" "counts_ok (thread_refs s) (pe_heap (vs_table s))" "states_ok (vs_pc s) (vs_table s)"
    "pe_heap (vs_table s) p = Some c" and c: "pc_state (vs_pc s p) (pe_state c)" "pe_state c = NEW \<Longrightarrow> p \<notin> set (peers_address_root (vs_table s))"
    by (rule peer_thread [OF inv nd]) blast
  obtain r t1 where t1: "peers_register_endpoint node p (vs_table s) = Some (r, t1)" "table_wf ps t1" "pe_heap t1 = pe_heap (vs_table s)"
    "set (peers_address_root t1) \<subseteq> insert p (set (peers_address_root (vs_table s)))"
    by (rule peers_register_inv [OF i(1,4)]) blast
  let ?x = "if r \<noteq> 0 then CLOSED else PUNCHING"
  have cnt1: "counts_ok (thread_refs s) (pe_heap t1)" and c1: "pe_heap t1 p = Some c" using i t1(3) by simp_all
  obtain t2 where t2: "set_state p ?x t1 = Some t2" "table_wf ps t2" "counts_ok (thread_refs s) (pe_heap t2)"
    "peers_address_root t2 = peers_address_root t1" "pe_heap t2 = (pe_heap t1)(p \<mapsto> apply_write (Set_state ?x) c)"
    by (rule set_peer_quiet [where g = "apply_write (Set_state ?x)" and c = c and p = p, OF t1(2) cnt1 c1]) simp_all
  have ok: "states_ok ((vs_pc s)(p := Top)) t2"
    using i(3) t1(3,4) by (auto simp: states_ok_def t2(4,5))
  have "stepped s p (Some (Top, [], t2))"
    by (rule stepped_to [OF refl nd _ _ t2(2,3) ok]) simp_all
  moreover have "stepped s p (do { t1 \<leftarrow> set_state p CLOSED (vs_table s); Some (Top, [], t1) })"
    by (rule stepped_state [OF i nd]) simp_all
  ultimately show ?thesis using i(4) t1(1) t2(1) by (simp add: peer_answered_def)
qed

lemma peer_punched_stepped:
  assumes inv: "vpn_inv s" and pc: "vs_pc s p = Wait_punch"
  shows "stepped s p (peer_punched config expired e p (vs_table s))"
proof -
  have nd: "vs_pc s p \<noteq> Done" using pc by simp
  obtain ps c where i: "table_wf ps (vs_table s)" "counts_ok (thread_refs s) (pe_heap (vs_table s))" "states_ok (vs_pc s) (vs_table s)"
    "pe_heap (vs_table s) p = Some c" by (rule peer_thread [OF inv nd])
  have "stepped s p (do { t1 \<leftarrow> set_state p CLOSED (vs_table s); Some (Top, es, t1) })" if "list_all (\<lambda>e. \<not> starts e) es" for es
    by (rule stepped_state [OF i nd _ that]) simp
  moreover have "stepped s p (do { t1 \<leftarrow> set_state p LINKED (vs_table s); Some (Top, [], t1) })"
    by (rule stepped_state [OF i nd]) simp_all
  ultimately show ?thesis using i(4) by (simp add: peer_punched_def close_message_def to_server_def)
qed

lemma peer_handshake_stepped:
  assumes inv: "vpn_inv s" and pc: "vs_pc s p = Handshake"
  shows "stepped s p (peer_handshake config r now mac bs p (vs_table s))"
proof -
  have nd: "vs_pc s p \<noteq> Done" using pc by simp
  obtain ps c where i: "table_wf ps (vs_table s)" "counts_ok (thread_refs s) (pe_heap (vs_table s))" "states_ok (vs_pc s) (vs_table s)"
    "pe_heap (vs_table s) p = Some c" and c: "pc_state (vs_pc s p) (pe_state c)" by (rule peer_thread [OF inv nd]) blast
  show ?thesis
  proof (cases r)
    case Want_read
    have "stepped s p (Some (Handshake, [DTLS_handle_timeout p], vs_table s))"
      by (rule stepped_to [OF refl nd _ _ i(1,2) states_ok_pc [OF i(3,4)]]) (use c pc in simp_all)
    then show ?thesis using Want_read i(4) by (simp add: peer_handshake_def)
  next
    case Handshake_error
    have "stepped s p (do { t1 \<leftarrow> set_state p CLOSED (vs_table s); Some (Top, [close_message config c], t1) })"
      by (rule stepped_state [OF i nd]) (simp_all add: close_message_def to_server_def)
    then show ?thesis using Handshake_error i(4) by (simp add: peer_handshake_def)
  next
    case Handshake_done
    obtain t1 where t1: "set_state p ESTABLISHED (vs_table s) = Some t1" "table_wf ps t1" "counts_ok (thread_refs s) (pe_heap t1)"
      "states_ok ((vs_pc s)(p := Top)) t1" "pe_heap t1 p = Some (c\<lparr>pe_state := ESTABLISHED\<rparr>)"
      by (rule set_state_step [OF i, of ESTABLISHED Top]) simp_all
    obtain t2 where t2: "set_peer p (apply_write (Set_time now)) t1 = Some t2" "table_wf ps t2" "counts_ok (thread_refs s) (pe_heap t2)" "states_le t2 t1"
      by (atomize_elim, intro set_peer_le [OF t1(2,3,5)]) simp_all
    have "stepped s p (Some (Top, [Set_session_mtu p (link_mtu config mac bs)], t2))"
      by (rule stepped_to [OF refl nd _ _ t2(2,3) states_ok_mono [OF t1(4) t2(4)]]) simp_all
    then show ?thesis using Handshake_done i(4) t1(1) t2(1) by (simp add: peer_handshake_def)
  qed
qed

lemma peer_timers_stepped:
  assumes inv: "vpn_inv s" and pc: "vs_pc s p = Reading lt"
  shows "stepped s p (peer_timers config now p (vs_table s))"
proof -
  have nd: "vs_pc s p \<noteq> Done" using pc by simp
  obtain ps c where i: "table_wf ps (vs_table s)" "counts_ok (thread_refs s) (pe_heap (vs_table s))" "states_ok (vs_pc s) (vs_table s)"
    "pe_heap (vs_table s) p = Some c" and c: "pc_state (vs_pc s p) (pe_state c)" by (rule peer_thread [OF inv nd]) blast
  let ?ka = "if keepalive_due config now c then
      do { t' \<leftarrow> set_peer p (apply_write (Set_last_keepalive now)) (vs_table s);
           Some ([Sendto (pe_clientaddr c) (bytes_of_message (init_smsg PUNCH_KEEP_ALIVE 0 0))], t') }
    else Some ([], vs_table s)"
  have "\<exists>es t1 c1. ?ka = Some (es, t1) \<and> list_all (\<lambda>e. \<not> starts e) es \<and> table_wf ps t1 \<and> counts_ok (thread_refs s) (pe_heap t1) \<and>
      states_le t1 (vs_table s) \<and> pe_heap t1 p = Some c1 \<and> pe_state c1 = pe_state c"
  proof (cases "keepalive_due config now c")
    case True
    obtain t' where "set_peer p (apply_write (Set_last_keepalive now)) (vs_table s) = Some t'" "table_wf ps t'" "counts_ok (thread_refs s) (pe_heap t')"
      "pe_heap t' = (pe_heap (vs_table s))(p \<mapsto> apply_write (Set_last_keepalive now) c)" "states_le t' (vs_table s)"
      by (rule set_peer_quiet [where g = "apply_write (Set_last_keepalive now)" and c = c and p = p, OF i(1,2,4)]) simp_all
    with True show ?thesis by simp
  qed (use i in simp)
  then obtain es t1 c1 where k: "?ka = Some (es, t1)" "list_all (\<lambda>e. \<not> starts e) es" "table_wf ps t1" "counts_ok (thread_refs s) (pe_heap t1)"
      "states_le t1 (vs_table s)" "pe_heap t1 p = Some c1" "pe_state c1 = pe_state c" by blast
  have st1: "states_ok (vs_pc s) t1" by (rule states_ok_mono [OF i(3) k(5)])
  have "stepped s p (do { t2 \<leftarrow> set_state p CLOSED t1; Some (Top, es @ [close_message config c, SSL_shutdown p, End_SSL_writing p], t2) })"
    by (rule stepped_state [OF k(3,4) st1 k(6) nd]) (use k(2) in \<open>simp_all add: close_message_def to_server_def\<close>)
  moreover have "stepped s p (Some (Reading now, es, t1))"
    by (rule stepped_to [OF refl nd _ k(2-4) states_ok_pc [OF st1 k(6)]]) (use c pc k(7) in simp_all)
  ultimately show ?thesis unfolding peer_timers_def using i(4) k(1) by simp
qed

lemma peer_read_stepped:
  assumes inv: "vpn_inv s" and pc: "vs_pc s p = Reading lt"
  shows "stepped s p (peer_read config lt r now p (vs_table s))"
proof -
  have nd: "vs_pc s p \<noteq> Done" using pc by simp
  obtain ps c where i: "table_wf ps (vs_table s)" "counts_ok (thread_refs s) (pe_heap (vs_table s))" "states_ok (vs_pc s) (vs_table s)"
    "pe_heap (vs_table s) p = Some c" and c: "pc_state (vs_pc s p) (pe_state c)" by (rule peer_thread [OF inv nd]) blast
  have closed: "stepped s p (do { t1 \<leftarrow> set_state p CLOSED (vs_table s); Some (Top, es, t1) })" if "list_all (\<lambda>e. \<not> starts e) es" for es
    by (rule stepped_state [OF i nd _ that]) simp
  have stay: "stepped s p (Some (Reading lt, es, t))" if "table_wf ps t" "counts_ok (thread_refs s) (pe_heap t)" "states_le t (vs_table s)"
      "list_all (\<lambda>e. \<not> starts e) es" for t es
    by (rule stepped_to [OF refl nd _ that(4,1,2) states_ok_mono [OF states_ok_pc [OF i(3,4)] that(3)]]) (use c pc in simp_all)
  show ?thesis
  proof (cases r)
    case (Read_data u)
    obtain t1 where t1: "set_peer p (apply_write (Set_time now)) (vs_table s) = Some t1" "table_wf ps t1" "counts_ok (thread_refs s) (pe_heap t1)" "states_le t1 (vs_table s)"
      by (atomize_elim, intro set_peer_le [OF i(1,2,4)]) simp_all
    have "stepped s p (Some (Reading lt, [Write_tun (rewrite_broadcast config u)], t1))" by (rule stay [OF t1(2-4)]) simp
    then show ?thesis using Read_data i(4) t1(1) by (simp add: peer_read_def)
  qed (use closed stay [OF i(1,2) states_le_refl, of "[]"] peer_timers_stepped [OF inv pc, of config now] i(4) in \<open>simp_all add: peer_read_def\<close>)
qed

lemma peer_handling_stepped:
  assumes inv: "vpn_inv s" and few: "few_threads s" and nd: "vs_pc s p \<noteq> Done"
  shows "stepped s p (peer_handling config p (vs_pc s p) i (vs_table s))"
proof -
  obtain ps c where i: "table_wf ps (vs_table s)" "counts_ok (thread_refs s) (pe_heap (vs_table s))" "states_ok (vs_pc s) (vs_table s)"
    "pe_heap (vs_table s) p = Some c" by (rule peer_thread [OF inv nd])
  have "stepped s p (Some (vs_pc s p, [], vs_table s))"
    by (rule stepped_to [OF refl nd nd _ i(1,2)]) (use i(3) in simp_all)
  then show ?thesis
    using peer_top_stepped [OF inv few] peer_answered_stepped [OF inv] peer_punched_stepped [OF inv] peer_handshake_stepped [OF inv]
      peer_read_stepped [OF inv] nd
    by (cases "vs_pc s p"; cases i) simp_all
qed

section \<open>The punching and the writing threads\<close>

lemma count_remove_nth:
  assumes "i < length xs"
  shows "count_list xs q = count_list (remove_nth i xs) q + (if q = xs ! i then 1 else 0)"
proof -
  have "xs = take i xs @ xs ! i # drop (Suc i) xs" using assms by (rule id_take_nth_drop)
  then have "count_list xs q = count_list (take i xs @ xs ! i # drop (Suc i) xs) q" by simp
  then show ?thesis by (simp add: remove_nth_def)
qed

lemma count_list_all_0: "(\<forall>q. count_list xs q = 0) \<longleftrightarrow> xs = []"
  by (cases xs) auto

lemma map_remove_nth: "map f (remove_nth i xs) = remove_nth i (map f xs)"
  by (simp add: remove_nth_def take_map drop_map)

lemma map_fst_update: "i < length xs \<Longrightarrow> xs ! i = (p, n) \<Longrightarrow> map fst (xs[i := (p, m)]) = map fst xs"
  by (simp add: map_update list_update_same_conv)

text \<open>A thread that gives up its reference and ends.\<close>

lemma drop_last:
  assumes inv: "vpn_inv s" and p: "0 < thread_refs s p"
  obtains es t where "drop_ref p 1 (vs_table s) = Some (es, t)" "list_all (\<lambda>e. \<not> starts e) es"
    "\<exists>ps. table_wf ps t" "counts_ok ((thread_refs s)(p := thread_refs s p - 1)) (pe_heap t)" "states_ok (vs_pc s) t" "states_le t (vs_table s)"
proof -
  obtain ps where i: "table_wf ps (vs_table s)" "counts_ok (thread_refs s) (pe_heap (vs_table s))" "states_ok (vs_pc s) (vs_table s)"
    using inv by (auto simp: vpn_inv_def)
  have "0 < unat (1 :: u32)" "unat (1 :: u32) \<le> thread_refs s p" using p by simp_all
  then obtain calls t where t: "peers_decr_ref p 1 (vs_table s) = Some (calls, t)"
    "table_wf (if unat (1 :: u32) = thread_refs s p then remove1 p ps else ps) t"
    "counts_ok ((thread_refs s)(p := thread_refs s p - unat (1 :: u32))) (pe_heap t)" "states_le t (vs_table s)"
    by (rule peers_decr_ref_inv [OF i(1,2)]) blast
  then show thesis
    by (intro that [of "[Session_calls calls]" t]) (auto simp: drop_ref_def intro: states_ok_mono [OF i(3)])
qed

lemma held:
  assumes "vpn_inv s" and "0 < thread_refs s p"
  obtains c where "pe_heap (vs_table s) p = Some c"
  using assms counts_okD(1) [of "thread_refs s" "pe_heap (vs_table s)" p] by (auto simp: vpn_inv_def)

lemma punch_ok:
  assumes inv: "vpn_inv s" and i: "i < length (vs_punch s)"
  shows "\<exists>es s'. vpn_step config (Punch_step i) s = Some (es, s') \<and> vpn_inv s'"
proof -
  obtain p n where pn: "vs_punch s ! i = (p, n)" by fastforce
  have cnt: "count_list (map fst (vs_punch s)) q = count_list (map fst (remove_nth i (vs_punch s))) q + (if q = p then 1 else 0)" for q
    using count_remove_nth [of i "map fst (vs_punch s)" q] i pn by (simp add: map_remove_nth)
  then have pos: "0 < thread_refs s p" by (simp add: thread_refs_def)
  obtain c where c: "pe_heap (vs_table s) p = Some c" by (rule held [OF inv pos])
  show ?thesis
  proof (cases "n < PUNCH_NUMBER \<and> pe_state c \<noteq> CLOSED")
    case True
    have "thread_refs (s\<lparr>vs_punch := (vs_punch s)[i := (p, Suc n)]\<rparr>) = thread_refs s"
      by (simp add: thread_refs_def fun_eq_iff map_fst_update [OF i pn])
    then have "vpn_inv (s\<lparr>vs_punch := (vs_punch s)[i := (p, Suc n)]\<rparr>)" using inv by (simp add: vpn_inv_def)
    then show ?thesis using True c pn by (simp add: punch_def commit_def)
  next
    case False
    obtain es t where d: "drop_ref p 1 (vs_table s) = Some (es, t)" "list_all (\<lambda>e. \<not> starts e) es"
      "\<exists>ps. table_wf ps t" "counts_ok ((thread_refs s)(p := thread_refs s p - 1)) (pe_heap t)" "states_ok (vs_pc s) t"
      by (rule drop_last [OF inv pos]) blast
    have "thread_refs (s\<lparr>vs_punch := remove_nth i (vs_punch s), vs_table := t\<rparr>) = (thread_refs s)(p := thread_refs s p - 1)"
      by (auto simp: thread_refs_def fun_eq_iff cnt)
    then have "vpn_inv (s\<lparr>vs_punch := remove_nth i (vs_punch s), vs_table := t\<rparr>)" using d(3-5) by (simp add: vpn_inv_def)
    then show ?thesis using False c pn d(1,2) by (auto simp: punch_def commit_def fold_spawn_quiet)
  qed
qed

lemma write_calls_quiet: "list_all (\<lambda>e. \<not> starts e) (write_calls p packet blocked)"
  by (simp add: write_calls_def list_all_iff)

lemma writer_ok:
  assumes inv: "vpn_inv s" and i: "i < length (vs_writer s)"
  shows "\<exists>es s'. vpn_step config (Writer_step i packet blocked w) s = Some (es, s') \<and> vpn_inv s'"
proof -
  define p where p: "p = vs_writer s ! i"
  have cnt: "count_list (vs_writer s) q = count_list (remove_nth i (vs_writer s)) q + (if q = p then 1 else 0)" for q
    using count_remove_nth [OF i, of q] p by simp
  then have pos: "0 < thread_refs s p" by (simp add: thread_refs_def)
  obtain c where c: "pe_heap (vs_table s) p = Some c" by (rule held [OF inv pos])
  obtain es t where d: "drop_ref p 1 (vs_table s) = Some (es, t)" "list_all (\<lambda>e. \<not> starts e) es"
    "\<exists>ps. table_wf ps t" "counts_ok ((thread_refs s)(p := thread_refs s p - 1)) (pe_heap t)" "states_ok (vs_pc s) t"
    by (rule drop_last [OF inv pos]) blast
  have "thread_refs (s\<lparr>vs_writer := remove_nth i (vs_writer s), vs_table := t\<rparr>) = (thread_refs s)(p := thread_refs s p - 1)"
    by (auto simp: thread_refs_def fun_eq_iff cnt)
  then have "vpn_inv (s\<lparr>vs_writer := remove_nth i (vs_writer s), vs_table := t\<rparr>)" using d(3-5) by (simp add: vpn_inv_def)
  then show ?thesis using c d(1,2) inv p [symmetric]
    by (auto simp: SSL_writing_def commit_def fold_spawn_quiet write_calls_quiet)
qed

section \<open>The whole client\<close>

lemma vpn_step_ok:
  assumes inv: "vpn_inv s" and al: "vpn_allowed e s" and few: "few_threads s"
  shows "\<exists>es s'. vpn_step config e s = Some (es, s') \<and> vpn_inv s'"
proof -
  obtain ps where run: "running (thread_refs s) (vs_table s) ps" by (rule vpn_inv_running [OF inv few])
  have h: "\<exists>es s'. map_option (commit s) r = Some (es, s') \<and> vpn_inv s'" if "handled s r" for r
    using that by (auto simp: handled_def commit_def)
  show ?thesis
  proof (cases e)
    case (Rdv_message env args m)
    with h [OF rdv_handling_handled [OF inv few]] al show ?thesis by simp
  next
    case (Socket_packet a u r)
    with h [OF handled_quiet [OF comm_socket_quiet [OF run] inv]] show ?thesis by simp
  next
    case (Tun_packet env args u r)
    with h [OF comm_tun_handled [OF inv few]] al show ?thesis by simp
  next
    case (Peer_step p i)
    with peer_handling_stepped [OF inv few, of p config i] al show ?thesis by (auto simp: stepped_def commit_def)
  next
    case (Punch_step i)
    with punch_ok [OF inv] al show ?thesis by simp
  next
    case (Writer_step i packet blocked w)
    with writer_ok [OF inv] al show ?thesis by simp
  next
    case Stop
    with h [OF handled_quiet [OF stop_vpn_quiet [OF run] inv]] show ?thesis by simp
  qed
qed

lemma vpn_run_inv: "vpn_run config k s \<Longrightarrow> k = 0 \<Longrightarrow> vpn_inv s"
proof (induction rule: vpn_run.induct)
  case run_start
  show ?case by (rule vpn_inv_init)
next
  case (run_next k s e es s')
  then show ?case using vpn_step_ok [of s e config] by (auto simp: vpn_allowed_def split: if_splits)
qed

lemma vpn_reachable_inv: "vpn_reachable config s \<Longrightarrow> vpn_inv s"
  by (simp add: vpn_reachable_def vpn_run_inv)

text \<open>C2. The client runs safely as long as two events do not happen against which the code has no
  guard: that the node of the tree by endpoint cannot be allocated for a caller whom the server
  announces, and that the server sends an endpoint for a peer that is already in this tree. A step
  is one turn of one thread, a message, a packet or the work of a peer thread up to its next wait,
  and runs as a whole. From every state that the threads can reach in this way, every next step of
  any thread ends without touching freed memory; afterwards a peer structure exists exactly while
  its thread or a punching or writing thread for it exists, its reference counter is the number of
  references these hold, and the number of peers is 0, which is what the end of the program waits
  for, exactly when none of those threads is left.\<close>

theorem client_threads_safe:
  assumes "vpn_run config 0 s" and "vpn_possible e s" and "few_threads s"
    and "\<not> caller_node_fails e" and "\<not> late_answer e s"
  shows "\<exists>es s'. vpn_step config e s = Some (es, s') \<and>
    (\<forall>p. map_option unat (field_at pe_ref_count (pe_heap (vs_table s')) p) =
      (if thread_refs s' p = 0 then None else Some (thread_refs s' p))) \<and>
    (peers_n_clients (vs_table s') = 0 \<longleftrightarrow> (\<forall>p. vs_pc s' p = Done) \<and> vs_punch s' = [] \<and> vs_writer s' = [])"
proof -
  obtain es s' where s': "vpn_step config e s = Some (es, s')" "vpn_inv s'"
    using vpn_step_ok [OF vpn_run_inv [OF assms(1) refl] _ assms(3), of e config] assms(2,4,5)
    unfolding vpn_allowed_def by blast
  then obtain ps where i: "table_wf ps (vs_table s')" "counts_ok (thread_refs s') (pe_heap (vs_table s'))" by (auto simp: vpn_inv_def)
  have "p \<in> set ps \<longleftrightarrow> thread_refs s' p \<noteq> 0" for p
    using counts_okD(1) [OF i(2), of p] table_wf_alloc [OF i(1), of p] by simp
  then have "peers_n_clients (vs_table s') = 0 \<longleftrightarrow> (\<forall>p. thread_refs s' p = 0)"
    using table_wf_count [OF i(1)] by (cases ps) auto
  also have "\<dots> \<longleftrightarrow> (\<forall>p. vs_pc s' p = Done) \<and> vs_punch s' = [] \<and> vs_writer s' = []"
    by (simp add: thread_refs_def all_conj_distrib count_list_all_0)
  finally show ?thesis using s'(1) i(2) by (auto simp: counts_ok_def)
qed

definition demo_comm_env :: comm_env where
  "demo_comm_env = \<lparr>ev_mem = demo_mem, ev_clock = demo_now, ev_time = 0\<rparr>"

definition demo_args :: comm_args where
  "demo_args = \<lparr>ca_sockfd = 3, ca_tunfd = 4\<rparr>"

lemma few_threads_init: "few_threads vpn_init"
  by (simp add: few_threads_def thread_refs_def vpn_init_def)

text \<open>The first packet for an unknown peer.\<close>

theorem client_threads_safe_witness:
  "\<exists>es s'. vpn_step initConfig (Tun_packet demo_comm_env demo_args (replicate 20 1) 20) vpn_init = Some (es, s') \<and>
    (\<forall>p. map_option unat (field_at pe_ref_count (pe_heap (vs_table s')) p) =
      (if thread_refs s' p = 0 then None else Some (thread_refs s' p))) \<and>
    (peers_n_clients (vs_table s') = 0 \<longleftrightarrow> (\<forall>p. vs_pc s' p = Done) \<and> vs_punch s' = [] \<and> vs_writer s' = [])"
  by (rule client_threads_safe [OF run_start _ few_threads_init]) (simp_all add: demo_comm_env_def demo_mem_def malloc3_fresh)

section \<open>The state machine of a peer\<close>

text \<open>The abstract machine: the states of a connection and the steps between them.\<close>

inductive peer_edge :: "client_type \<Rightarrow> client_type \<Rightarrow> bool" where
  accepted: "peer_edge NEW PUNCHING"
| punched: "peer_edge PUNCHING LINKED"
| secured: "peer_edge LINKED ESTABLISHED"
| ended: "st \<noteq> CLOSED \<Longrightarrow> peer_edge st CLOSED"

lemma set_peer_states:
  assumes "set_peer p g t = Some t'" and "pe_heap t p = Some c"
  shows "field_at pe_state (pe_heap t') = (field_at pe_state (pe_heap t))(p \<mapsto> pe_state (g c))" "pe_heap t' p = Some (g c)"
  using assms by (auto simp: set_peer_def field_at_def fun_eq_iff)

lemma incr_states: "peers_incr_ref p t = Some t' \<Longrightarrow> field_at pe_state (pe_heap t') = field_at pe_state (pe_heap t)"
  by (auto simp: peers_incr_ref_def bind_eq_Some_conv field_at_def fun_eq_iff)

lemma register_states: "peers_register_endpoint ok p t = Some (r, t') \<Longrightarrow> pe_heap t' = pe_heap t"
  by (auto simp: peers_register_endpoint_def bind_eq_Some_conv split: option.splits prod.splits)

text \<open>What a step of the thread of a peer does to the states: nothing, or one edge for its own peer;
  the edge to the established state needs a finished handshake, and data is passed to the TUN device
  in that state only.\<close>

definition peer_moves :: "ptr \<Rightarrow> peer_input \<Rightarrow> client_table \<Rightarrow> comm_effect list \<Rightarrow> client_table \<Rightarrow> bool" where
  "peer_moves p i t es t' \<longleftrightarrow>
     (\<forall>q st. field_at pe_state (pe_heap t') q = Some st \<longrightarrow> field_at pe_state (pe_heap t) q \<noteq> Some st \<longrightarrow>
        q = p \<and> (\<exists>st0. field_at pe_state (pe_heap t) p = Some st0 \<and> peer_edge st0 st) \<and>
        (st = ESTABLISHED \<longrightarrow> (\<exists>now mac bs. i = Handshake_return Handshake_done now mac bs))) \<and>
     (\<forall>x. Write_tun x \<in> set es \<longrightarrow> field_at pe_state (pe_heap t) p = Some ESTABLISHED)"

lemma peer_movesD:
  assumes "peer_moves p i t es t'"
  shows "field_at pe_state (pe_heap t') q = Some st \<Longrightarrow> field_at pe_state (pe_heap t) q = Some st \<or>
      q = p \<and> (\<exists>st0. field_at pe_state (pe_heap t) q = Some st0 \<and> peer_edge st0 st) \<and>
      (st = ESTABLISHED \<longrightarrow> (\<exists>now mac bs. i = Handshake_return Handshake_done now mac bs))"
    and "\<forall>x. Write_tun x \<in> set es \<longrightarrow> field_at pe_state (pe_heap t) p = Some ESTABLISHED"
  using assms [unfolded peer_moves_def, THEN conjunct1, rule_format, of q st]
    assms [unfolded peer_moves_def, THEN conjunct2] by auto

lemma peer_moves_none:
  assumes "states_le t' t" and "\<And>x. Write_tun x \<in> set es \<Longrightarrow> field_at pe_state (pe_heap t) p = Some ESTABLISHED"
  shows "peer_moves p i t es t'"
  using assms states_leD [OF assms(1)] by (auto simp: peer_moves_def)

lemma peer_moves_edge:
  assumes "pe_heap t p = Some c" and "peer_edge (pe_state c) x" and "field_at pe_state (pe_heap t') = (field_at pe_state (pe_heap t))(p \<mapsto> x)"
    and "x = ESTABLISHED \<Longrightarrow> \<exists>now mac bs. i = Handshake_return Handshake_done now mac bs"
    and "\<And>y. Write_tun y \<notin> set es"
  shows "peer_moves p i t es t'"
  using assms by (auto simp: peer_moves_def field_at_Some)

lemma peer_moves_same:
  assumes "field_at pe_state (pe_heap t') = field_at pe_state (pe_heap t)"
    and "\<And>x. Write_tun x \<in> set es \<Longrightarrow> field_at pe_state (pe_heap t) p = Some ESTABLISHED"
  shows "peer_moves p i t es t'"
  using assms by (auto simp: peer_moves_def)

lemma peer_moves_set:
  assumes "set_state p x t = Some t'" and "pe_heap t p = Some c" and "peer_edge (pe_state c) x"
    and "x \<noteq> ESTABLISHED" and "\<And>y. Write_tun y \<notin> set es"
  shows "peer_moves p i t es t'"
  by (rule peer_moves_edge [OF assms(2,3)]) (use set_peer_states(1) [OF assms(1,2)] assms(4,5) in simp_all)

lemma peer_top_moves:
  assumes inv: "vpn_inv s" and pc: "vs_pc s p \<noteq> Done" and c: "pe_heap (vs_table s) p = Some c"
    and r: "peer_top config e p (vs_table s) = Some (pc', es, t')"
  shows "peer_moves p i (vs_table s) es t'"
proof -
  have closed: ?thesis if "pe_state c \<noteq> CLOSED" "do { t1 \<leftarrow> set_state p CLOSED (vs_table s); Some (Top, [], t1) } = Some (pc', es, t')"
    using that(2) by (auto simp: bind_eq_Some_conv intro: peer_moves_set [OF _ c] peer_edge.ended [OF that(1)])
  show ?thesis
  proof (cases "pe_state c")
    case NEW
    with r c closed show ?thesis by (auto simp: peer_top_def to_server_def split: if_splits intro: peer_moves_same)
  next
    case PUNCHING
    with r c closed show ?thesis
      by (auto simp: peer_top_def start_punch_def bind_eq_Some_conv split: if_splits intro: peer_moves_same dest: incr_states)
  next
    case LINKED
    with r c closed show ?thesis by (auto simp: peer_top_def split: if_splits intro: peer_moves_same)
  next
    case ESTABLISHED
    with r c show ?thesis
      by (auto simp: peer_top_def start_SSL_writing_def bind_eq_Some_conv intro: peer_moves_same dest: incr_states)
  next
    case CLOSED
    obtain ps where i: "table_wf ps (vs_table s)" "counts_ok (thread_refs s) (pe_heap (vs_table s))" using inv by (auto simp: vpn_inv_def)
    have "0 < unat (2 :: u32)" "unat (2 :: u32) \<le> thread_refs s p" using pc by (simp_all add: thread_refs_def)
    then obtain calls t1 where "peers_decr_ref p 2 (vs_table s) = Some (calls, t1)" "states_le t1 (vs_table s)"
      by (rule peers_decr_ref_inv [OF i]) blast
    with CLOSED r c show ?thesis by (auto simp: peer_top_def drop_ref_def intro: peer_moves_none)
  qed
qed

lemma peer_answered_moves:
  assumes c: "pe_heap t p = Some c" "pe_state c = NEW" and r: "peer_answered expired e unset node p t = Some (pc', es, t')"
  shows "peer_moves p i t es t'"
proof (cases "expired \<or> (case pe_rdv_answer c of None \<Rightarrow> unset | Some a \<Rightarrow> a = REJ_CONNECTION) \<or> e")
  case True
  with r c have "set_state p CLOSED t = Some t'" "es = []" by (auto simp: peer_answered_def bind_eq_Some_conv Let_def)
  then show ?thesis using peer_moves_set [OF _ c(1), of CLOSED t' "[]" i] peer_edge.ended [of NEW] c(2) by simp
next
  case False
  with r c obtain r1 t1 where t1: "peers_register_endpoint node p t = Some (r1, t1)"
    and t': "set_state p (if r1 \<noteq> 0 then CLOSED else PUNCHING) t1 = Some t'" and es: "es = []"
    by (auto simp: peer_answered_def bind_eq_Some_conv Let_def)
  have h: "pe_heap t1 = pe_heap t" by (rule register_states [OF t1])
  have c1: "pe_heap t1 p = Some c" using h c by simp
  show ?thesis
    by (rule peer_moves_edge [OF c(1), of "if r1 \<noteq> 0 then CLOSED else PUNCHING"])
      (use set_peer_states(1) [OF t' c1] h c es in \<open>auto intro: peer_edge.intros split: if_splits\<close>)
qed

lemma peer_punched_moves:
  assumes c: "pe_heap t p = Some c" "pe_state c = PUNCHING" and r: "peer_punched config expired e p t = Some (pc', es, t')"
  shows "peer_moves p i t es t'"
  using r c(1)
  by (auto simp: peer_punched_def bind_eq_Some_conv close_message_def to_server_def c(2) split: if_splits
      intro!: peer_moves_set [OF _ c(1)] intro: peer_edge.intros)

lemma peer_handshake_moves:
  assumes c: "pe_heap t p = Some c" "pe_state c = LINKED" and r: "peer_handshake config r now mac bs p t = Some (pc', es, t')"
  shows "peer_moves p (Handshake_return r now mac bs) t es t'"
proof (cases r)
  case Want_read
  with assms show ?thesis by (auto simp: peer_handshake_def intro: peer_moves_same)
next
  case Handshake_error
  with assms show ?thesis
    by (auto simp: peer_handshake_def bind_eq_Some_conv close_message_def to_server_def intro!: peer_moves_set [OF _ c(1)] intro: peer_edge.intros)
next
  case Handshake_done
  with assms obtain t1 where t1: "set_state p ESTABLISHED t = Some t1" and t': "set_peer p (apply_write (Set_time now)) t1 = Some t'"
    and es: "es = [Set_session_mtu p (link_mtu config mac bs)]"
    by (auto simp: peer_handshake_def bind_eq_Some_conv)
  note s1 = set_peer_states [OF t1 c(1)]
  show ?thesis
    by (rule peer_moves_edge [OF c(1), of ESTABLISHED])
      (use s1 set_peer_states [OF t' s1(2)] es Handshake_done c(2) in \<open>auto intro: peer_edge.intros\<close>)
qed

lemma peer_timers_moves:
  assumes c: "pe_heap t p = Some c" "pe_state c = ESTABLISHED" and r: "peer_timers config now p t = Some (pc', es, t')"
  shows "peer_moves p i t es t'"
proof -
  have ex: "Write_tun x \<in> set es \<Longrightarrow> field_at pe_state (pe_heap t) p = Some ESTABLISHED" for x
    using c by (simp add: field_at_Some)
  obtain es1 t1 where k: "(if keepalive_due config now c then
      do { t' \<leftarrow> set_peer p (apply_write (Set_last_keepalive now)) t;
           Some ([Sendto (pe_clientaddr c) (bytes_of_message (init_smsg PUNCH_KEEP_ALIVE 0 0))], t') }
      else Some ([], t)) = Some (es1, t1)"
    and t': "(if session_expired config now c then do { t2 \<leftarrow> set_state p CLOSED t1;
        Some (Top, es1 @ [close_message config c, SSL_shutdown p, End_SSL_writing p], t2) } else Some (Reading now, es1, t1)) = Some (pc', es, t')"
    using r c(1) by (auto simp: peer_timers_def bind_eq_Some_conv simp del: if_split_asm)
  have t1: "field_at pe_state (pe_heap t1) = field_at pe_state (pe_heap t)" "\<exists>c1. pe_heap t1 p = Some c1"
    using k c by (auto simp: bind_eq_Some_conv set_peer_def field_at_def fun_eq_iff split: if_splits)
  then obtain c1 where c1: "pe_heap t1 p = Some c1" by blast
  show ?thesis
  proof (cases "session_expired config now c")
    case True
    with t' have "set_state p CLOSED t1 = Some t'" by (auto simp: bind_eq_Some_conv)
    from set_peer_states(1) [OF this c1] t1(1) have "field_at pe_state (pe_heap t') = (field_at pe_state (pe_heap t))(p \<mapsto> CLOSED)" by simp
    with c show ?thesis by (auto simp: peer_moves_def field_at_Some intro: peer_edge.intros)
  next
    case False
    with t' t1(1) ex show ?thesis by (intro peer_moves_same) auto
  qed
qed

lemma peer_read_moves:
  assumes c: "pe_heap t p = Some c" "pe_state c = ESTABLISHED" and r: "peer_read config lt r now p t = Some (pc', es, t')"
  shows "peer_moves p i t es t'"
proof -
  have est: "field_at pe_state (pe_heap t) p = Some ESTABLISHED" using c by (simp add: field_at_Some)
  have closed: "peer_moves p i t es' t''" if "set_state p CLOSED t = Some t''" "\<And>y. Write_tun y \<notin> set es'" for es' t''
    using peer_moves_set [OF that(1) c(1), of es' i] peer_edge.ended [of ESTABLISHED] c(2) that(2) by simp
  show ?thesis
  proof (cases r)
    case Read_timeout
    with r c peer_timers_moves [OF c] show ?thesis
      by (auto simp: peer_read_def split: if_splits intro: peer_moves_same)
  next
    case Read_again
    with r c show ?thesis by (auto simp: peer_read_def intro: peer_moves_same)
  next
    case (Read_data u)
    with r c obtain t1 where "set_peer p (apply_write (Set_time now)) t = Some t1" "t' = t1"
      by (auto simp: peer_read_def bind_eq_Some_conv)
    then have "field_at pe_state (pe_heap t') = field_at pe_state (pe_heap t)"
      using set_peer_states(1) [OF _ c(1)] c by (auto simp: fun_eq_iff field_at_Some)
    then show ?thesis using est by (intro peer_moves_same) simp_all
  qed (use r c(1) in \<open>auto simp: peer_read_def bind_eq_Some_conv intro!: closed split: if_splits\<close>)
qed

lemma peer_handling_moves:
  assumes inv: "vpn_inv s" and pc: "vs_pc s p \<noteq> Done" and r: "peer_handling config p (vs_pc s p) i (vs_table s) = Some (pc', es, t')"
  shows "peer_moves p i (vs_table s) es t'"
proof -
  obtain ps c where c: "pe_heap (vs_table s) p = Some c" "pc_state (vs_pc s p) (pe_state c)"
    by (rule peer_thread [OF inv pc]) blast
  have stay: ?thesis if "es = []" "t' = vs_table s" using that by (auto intro: peer_moves_same)
  show ?thesis
    using r c stay peer_top_moves [OF inv pc c(1)] peer_answered_moves [OF c(1)] peer_punched_moves [OF c(1)]
      peer_handshake_moves [OF c(1)] peer_read_moves [OF c(1)]
    by (cases "vs_pc s p"; cases i) auto
qed

lemma fold_spawn_table: "vs_table (fold spawn es s) = vs_table s"
proof (induction es arbitrary: s)
  case (Cons e es)
  have "vs_table (spawn e s) = vs_table s" by (cases e) simp_all
  with Cons show ?case by simp
qed simp

lemma fold_spawn_pc: "Start_peer_handling p \<notin> set es \<Longrightarrow> vs_pc (fold spawn es s) p = vs_pc s p"
proof (induction es arbitrary: s)
  case (Cons e es)
  then have "vs_pc (spawn e s) p = vs_pc s p" by (cases e) simp_all
  with Cons show ?case by simp
qed simp

lemma quiet_kept: "quiet f t r \<Longrightarrow> r = Some (es, t') \<Longrightarrow> states_le t' t"
  by (auto simp: quiet_def)

lemma punch_kept:
  assumes inv: "vpn_inv s" and p: "0 < thread_refs s p"
  shows "punch config p n (vs_table s) = Some (b, es, t) \<Longrightarrow> states_le t (vs_table s) \<and> Start_peer_handling q \<notin> set es"
    and "SSL_writing packet blocked w p (vs_table s) = Some (b, es, t) \<Longrightarrow> states_le t (vs_table s) \<and> Start_peer_handling q \<notin> set es"
proof -
  obtain es' t' where d: "drop_ref p 1 (vs_table s) = Some (es', t')" "states_le t' (vs_table s)" "list_all (\<lambda>e. \<not> starts e) es'"
    by (rule drop_last [OF inv p])
  then show "punch config p n (vs_table s) = Some (b, es, t) \<Longrightarrow> states_le t (vs_table s) \<and> Start_peer_handling q \<notin> set es"
    "SSL_writing packet blocked w p (vs_table s) = Some (b, es, t) \<Longrightarrow> states_le t (vs_table s) \<and> Start_peer_handling q \<notin> set es"
    using quiet_starts quiet_starts [OF write_calls_quiet] by (auto simp: punch_def SSL_writing_def bind_eq_Some_conv split: if_splits)
qed

text \<open>Every step that is not a step of the thread of a peer keeps all states, and the threads of all
  existing peers stay where they are.\<close>

lemma other_steps_keep:
  assumes inv: "vpn_inv s" and al: "vpn_allowed e s" and few: "few_threads s" and st: "vpn_step config e s = Some (es, s')"
    and e: "\<And>p i. e \<noteq> Peer_step p i"
  shows "states_kept (vs_table s) (vs_table s') \<and> (\<forall>q. pe_heap (vs_table s) q \<noteq> None \<longrightarrow> vs_pc s' q = vs_pc s q)" (is "?K")
proof -
  obtain ps where run: "running (thread_refs s) (vs_table s) ps" by (rule vpn_inv_running [OF inv few])
  have h: ?K if hd: "handled s r" and rs: "map_option (commit s) r = Some (es, s')" for r
  proof -
    obtain t where t: "states_kept (vs_table s) t" "\<forall>q. Start_peer_handling q \<in> set es \<longrightarrow> pe_heap (vs_table s) q = None"
      and s': "s' = fold spawn es (s\<lparr>vs_table := t\<rparr>)"
      using hd rs by (auto simp: handled_def commit_def)
    have "vs_pc s' q = vs_pc s q" if "pe_heap (vs_table s) q \<noteq> None" for q
    proof -
      have "Start_peer_handling q \<notin> set es" using t(2) [THEN spec, of q] that by auto
      then show ?thesis by (simp add: s' fold_spawn_pc)
    qed
    then show ?thesis using t(1) s' by (simp add: fold_spawn_table)
  qed
  show ?thesis
  proof (cases e)
    case (Rdv_message env args m)
    with h [OF rdv_handling_handled [OF inv few]] al st show ?thesis by simp
  next
    case (Socket_packet a u r)
    with h [OF handled_quiet [OF comm_socket_quiet [OF run] inv]] st show ?thesis by simp
  next
    case (Tun_packet env args u r)
    with h [OF comm_tun_handled [OF inv few]] al st show ?thesis by simp
  next
    case (Peer_step p i)
    with e show ?thesis by blast
  next
    case (Punch_step i)
    obtain p n where pn: "vs_punch s ! i = (p, n)" by fastforce
    have "p \<in> set (map fst (vs_punch s))" using al Punch_step pn by (auto simp: in_set_conv_nth image_iff intro!: bexI [of _ "(p, n)"])
    then have "count_list (map fst (vs_punch s)) p \<noteq> 0" by (simp only: count_list_0_iff not_not)
    then have "0 < thread_refs s p" by (simp add: thread_refs_def)
    note k = punch_kept(1) [OF inv this]
    obtain b t where "punch config p n (vs_table s) = Some (b, es, t)" "vs_table s' = t"
      "s' = fold spawn es (s\<lparr>vs_punch := (if b then (vs_punch s)[i := (p, Suc n)] else remove_nth i (vs_punch s)), vs_table := t\<rparr>)"
      using Punch_step st pn by (auto simp: bind_eq_Some_conv commit_def fold_spawn_table)
    with k states_le_kept fold_spawn_pc show ?thesis by (auto simp: fold_spawn_pc)
  next
    case (Writer_step i packet blocked w)
    have "vs_writer s ! i \<in> set (vs_writer s)" using al Writer_step by simp
    then have "count_list (vs_writer s) (vs_writer s ! i) \<noteq> 0" by (simp only: count_list_0_iff not_not)
    then have "0 < thread_refs s (vs_writer s ! i)" by (simp add: thread_refs_def)
    note k = punch_kept(2) [OF inv this]
    obtain b t where "SSL_writing packet blocked w (vs_writer s ! i) (vs_table s) = Some (b, es, t)" "vs_table s' = t"
      "s' = fold spawn es (s\<lparr>vs_writer := (if b then vs_writer s else remove_nth i (vs_writer s)), vs_table := t\<rparr>)"
      using Writer_step st by (auto simp: bind_eq_Some_conv commit_def fold_spawn_table Let_def)
    with k states_le_kept show ?thesis by (auto simp: fold_spawn_pc)
  next
    case Stop
    with h [OF handled_quiet [OF stop_vpn_quiet [OF run] inv]] st show ?thesis by simp
  qed
qed

text \<open>C6. The connection of every peer follows the state machine: whatever the threads do, a step
  keeps the state of a peer or takes one edge of the machine, an edge being taken only by the
  thread of that peer; a connection becomes established only by a finished DTLS handshake, a new
  connection starts by asking or by punching, and a packet from the network reaches the TUN
  device only from a peer whose connection is established.\<close>

theorem peer_state_machine:
  assumes "vpn_reachable config s" and "vpn_allowed e s" and "few_threads s" and "vpn_step config e s = Some (es, s')"
    and "field_at pe_state (pe_heap (vs_table s')) p = Some st"
  shows "(case field_at pe_state (pe_heap (vs_table s)) p of
      None \<Rightarrow> st = NEW \<or> st = PUNCHING
    | Some st0 \<Rightarrow> st = st0 \<or> (peer_edge st0 st \<and> (\<exists>i. e = Peer_step p i \<and>
        (st = ESTABLISHED \<longrightarrow> (\<exists>now mac bs. i = Handshake_return Handshake_done now mac bs))))) \<and>
    (\<forall>q i x. e = Peer_step q i \<and> Write_tun x \<in> set es \<longrightarrow> field_at pe_state (pe_heap (vs_table s)) q = Some ESTABLISHED)"
proof (cases "\<exists>q i. e = Peer_step q i")
  case True
  then obtain q i where e: "e = Peer_step q i" by blast
  with assms(4) obtain pc' t' where r: "peer_handling config q (vs_pc s q) i (vs_table s) = Some (pc', es, t')" "vs_table s' = t'"
    by (auto simp: bind_eq_Some_conv commit_def fold_spawn_table)
  have "peer_moves q i (vs_table s) es t'"
    by (rule peer_handling_moves [OF vpn_reachable_inv [OF assms(1)] _ r(1)]) (use assms(2) e in simp)
  then have m: "field_at pe_state (pe_heap (vs_table s)) p = Some st \<or>
      p = q \<and> (\<exists>st0. field_at pe_state (pe_heap (vs_table s)) p = Some st0 \<and> peer_edge st0 st) \<and>
      (st = ESTABLISHED \<longrightarrow> (\<exists>now mac bs. i = Handshake_return Handshake_done now mac bs))"
    and w: "\<forall>x. Write_tun x \<in> set es \<longrightarrow> field_at pe_state (pe_heap (vs_table s)) q = Some ESTABLISHED"
    using peer_movesD(1) [OF _ assms(5) [unfolded r(2)]] peer_movesD(2) by blast+
  from m e have "case field_at pe_state (pe_heap (vs_table s)) p of None \<Rightarrow> st = NEW \<or> st = PUNCHING
    | Some st0 \<Rightarrow> st = st0 \<or> (peer_edge st0 st \<and> (\<exists>i. e = Peer_step p i \<and>
        (st = ESTABLISHED \<longrightarrow> (\<exists>now mac bs. i = Handshake_return Handshake_done now mac bs))))"
    by (elim disjE conjE exE) simp_all
  with w e show ?thesis by simp
next
  case False
  then have "states_kept (vs_table s) (vs_table s')"
    using other_steps_keep [OF vpn_reachable_inv [OF assms(1)] assms(2-4)] by blast
  then have "field_at pe_state (pe_heap (vs_table s)) p = Some st \<or> field_at pe_state (pe_heap (vs_table s)) p = None \<and> st \<in> {NEW, PUNCHING}"
    using assms(5) by (simp only: states_kept_def)
  with False show ?thesis by (elim disjE conjE) (auto simp: field_at_def)
qed

text \<open>A packet for an unknown address makes a peer that starts by asking.\<close>

definition demo_packet :: "u8 list" where
  "demo_packet = replicate 16 1 @ [200, 0, 0, 0]"

definition demo_first :: vpn_sys where
  "demo_first = \<lparr>vs_table = \<lparr>pe_heap = [1 \<mapsto> new_peer initConfig demo_now 3 4 NEW 0 0 0 200 True],
     peers_list = Some 1, peers_n_clients = 1, peers_vpn_root = [1], peers_address_root = []\<rparr>,
     vs_pc = (\<lambda>_. Done)(1 := Top), vs_punch = [], vs_writer = []\<rparr>"

lemma demo_first_step:
  "\<exists>es. vpn_step initConfig (Tun_packet demo_comm_env demo_args demo_packet 20) vpn_init = Some (es, demo_first)"
proof -
  have dst: "ip_dst demo_packet = 200" "take 20 demo_packet = demo_packet" unfolding demo_packet_def by code_simp+
  have conf: "vpnBroadcastIP initConfig = 0" "vpnIP initConfig = 0" "conf_max_clients initConfig = 100" "tb_client_size initConfig = 0"
    "tb_connection_size initConfig = 0" by (simp_all add: initConfig_def)
  have add: "\<exists>calls. peers_add_requested initConfig demo_mem demo_now 3 4 NEW 0 200 no_peers =
    Some (Some 1, calls, vs_table demo_first)"
    by (simp add: demo_first_def peers_add_requested_def peers_add_def no_peers_def conf demo_mem_def malloc3_def createClientSSL_def tsearch_def
        link_head_def new_peer_def Let_def fun_eq_iff)
  have "\<exists>calls. tun_unknown initConfig demo_comm_env demo_args 200 x no_peers =
    Some ([Session_calls calls, Out_fifo_write 1 x, Start_peer_handling 1, Session_calls []], vs_table demo_first)" for x
    using add by (auto simp: tun_unknown_def demo_comm_env_def demo_args_def start_peer_handling_def drop_ref_def peers_incr_ref_def peers_decr_ref_def
        demo_first_def new_peer_def fun_eq_iff)
  from this [of "demo_packet"] obtain calls where "tun_unknown initConfig demo_comm_env demo_args 200 demo_packet no_peers =
    Some ([Session_calls calls, Out_fifo_write 1 demo_packet, Start_peer_handling 1, Session_calls []], vs_table demo_first)" by blast
  moreover have "peers_get_by_VPN 200 no_peers = Some (None, no_peers)" by (simp add: peers_get_by_VPN_def no_peers_def)
  ultimately have "comm_tun initConfig demo_comm_env demo_args demo_packet 20 no_peers =
      Some ([Session_calls calls, Out_fifo_write 1 demo_packet, Start_peer_handling 1, Session_calls []], vs_table demo_first)"
    by (simp add: comm_tun_def dst conf Let_def)
  then show ?thesis by (simp add: vpn_init_def commit_def demo_first_def)
qed

theorem peer_state_machine_witness:
  "field_at pe_state (pe_heap (vs_table demo_first)) 1 = Some NEW \<and> field_at pe_state (pe_heap (vs_table vpn_init)) 1 = None \<and>
   (NEW = NEW \<or> NEW = PUNCHING)"
proof -
  let ?e = "Tun_packet demo_comm_env demo_args demo_packet 20"
  have al: "vpn_allowed ?e vpn_init" by (simp add: demo_comm_env_def demo_mem_def malloc3_fresh)
  obtain es where st: "vpn_step initConfig ?e vpn_init = Some (es, demo_first)" using demo_first_step by blast
  have new: "field_at pe_state (pe_heap (vs_table demo_first)) 1 = Some NEW" by (simp add: demo_first_def)
  have "field_at pe_state (pe_heap (vs_table vpn_init)) 1 = None" by (simp add: vpn_init_def no_peers_def)
  with peer_state_machine [OF vpn_start al few_threads_init st new] new show ?thesis by simp
qed

section \<open>What a client does with the messages of the rendezvous server\<close>

text \<open>A reference that is taken and given back leaves the structure as it was.\<close>

lemma incr_drop:
  assumes "pe_heap t p = Some c" and "pe_ref_count c \<noteq> 0"
  obtains t' where "peers_incr_ref p t = Some t'" "pe_heap t' p = Some (c\<lparr>pe_ref_count := pe_ref_count c + 1\<rparr>)"
    "drop_ref p 1 t' = Some ([Session_calls []], t)"
proof (rule that)
  show "peers_incr_ref p t = Some (t\<lparr>pe_heap := (pe_heap t)(p \<mapsto> c\<lparr>pe_ref_count := pe_ref_count c + 1\<rparr>)\<rparr>)"
    using assms by (simp add: peers_incr_ref_def)
qed (use assms in \<open>auto simp: drop_ref_def peers_decr_ref_def fun_upd_idem\<close>)

text \<open>The caller: the answer of the server gives the endpoint of the peer to the thread that waits.\<close>

lemma answer_received:
  assumes inv: "vpn_inv s" and m: "m_type m = ANS_CONNECTION" and pc: "vs_pc s p \<noteq> Done"
    and get: "peers_get_by_VPN (m_ip2 m) (vs_table s) = Some (Some p, t1)" and c: "pe_heap (vs_table s) p = Some c"
  shows "\<exists>t2. vpn_step config (Rdv_message env args m) s = Some ([Signal p, Session_calls []], s\<lparr>vs_table := t2\<rparr>) \<and>
    pe_heap t2 p = Some (c\<lparr>pe_rdv_answer := Some ANS_CONNECTION, pe_clientaddr := \<lparr>sin_addr = m_ip1 m, sin_port = m_port m\<rparr>\<rparr>) \<and>
    peers_address_root t2 = peers_address_root (vs_table s)"
proof -
  let ?a = "\<lparr>sin_addr = m_ip1 m, sin_port = m_port m\<rparr>"
  let ?c = "c\<lparr>pe_rdv_answer := Some ANS_CONNECTION, pe_clientaddr := ?a\<rparr>"
  have "0 < thread_refs s p" using pc by (simp add: thread_refs_def)
  moreover have "unat (pe_ref_count c) = thread_refs s p" using inv counts_okD(2) [where p = p and h = "pe_heap (vs_table s)", OF _ c] by (auto simp: vpn_inv_def)
  ultimately have r: "pe_ref_count c \<noteq> 0" by auto
  have "peers_incr_ref p (vs_table s) = Some t1"
    using get by (auto simp: peers_get_by_VPN_def bind_eq_Some_conv split: option.splits)
  then have t1: "t1 = (vs_table s)\<lparr>pe_heap := (pe_heap (vs_table s))(p \<mapsto> c\<lparr>pe_ref_count := pe_ref_count c + 1\<rparr>)\<rparr>"
    using c by (simp add: peers_incr_ref_def)
  define t2 where "t2 = (vs_table s)\<lparr>pe_heap := (pe_heap (vs_table s))(p \<mapsto> ?c)\<rparr>"
  have "rdv_handling config env args m (vs_table s) = Some ([Signal p, Session_calls []], t2)"
    using get m r by (simp add: rdv_handling_def rdv_answer_def set_peer_def t1 t2_def drop_ref_def peers_decr_ref_def)
  then show ?thesis by (auto simp: commit_def t2_def)
qed

text \<open>The called client: a peer with the endpoint of the caller that starts punching.\<close>

lemma forward_received:
  assumes inv: "vpn_inv s" and few: "few_threads s" and m: "m_type m = FWD_CONNECTION"
    and fr: "malloc_fresh (pm_malloc (ev_mem env))" and node: "pm_tsearch_addr (ev_mem env) \<or> m_port m = 0"
    and new: "peers_get_by_VPN (m_ip2 m) (vs_table s) = Some (None, vs_table s)"
    and room: "add_possible config (ev_mem env) (vs_table s)"
  shows "\<exists>p es t. vpn_step config (Rdv_message env args m) s = Some (es, s\<lparr>vs_table := t, vs_pc := (vs_pc s)(p := Top)\<rparr>) \<and>
    Start_peer_handling p \<in> set es \<and> pe_heap (vs_table s) p = None \<and>
    (\<exists>c. pe_heap t p = Some c \<and> pe_payload c = new_peer config (ev_clock env) (ca_sockfd args) (ca_tunfd args) PUNCHING (ev_time env)
       (m_ip1 m) (m_port m) (m_ip2 m) False)"
proof -
  obtain ps where wf: "table_wf ps (vs_table s)" using inv by (auto simp: vpn_inv_def)
  let ?c = "new_peer config (ev_clock env) (ca_sockfd args) (ca_tunfd args) PUNCHING (ev_time env) (m_ip1 m) (m_port m) (m_ip2 m) False"
  obtain p calls t2 where add: "peers_add config (ev_mem env) (ev_clock env) (ca_sockfd args) (ca_tunfd args) PUNCHING (ev_time env)
      (m_ip1 m) (m_port m) (m_ip2 m) False (vs_table s) = Some (Some p, calls, t2)"
    and p: "pe_heap (vs_table s) p = None"
    and pay: "\<And>q. field_at pe_payload (pe_heap t2) q = field_at pe_payload ((pe_heap (vs_table s))(p \<mapsto> ?c)) q"
    by (rule peers_add_cases [OF wf fr node refl, of config "ev_clock env" "ca_sockfd args" "ca_tunfd args" PUNCHING "ev_time env" "m_ip1 m" "m_ip2 m" False])
      (use room in blast)+
  have "field_at pe_payload (pe_heap t2) p = Some (pe_payload ?c)" using pay [of p] by simp
  moreover have "pe_payload ?c = ?c" by (simp add: pe_payload_def new_peer_def)
  ultimately obtain c where c: "pe_heap t2 p = Some c" "pe_payload c = ?c" by (auto simp: field_at_def)
  have r: "pe_ref_count c \<noteq> 0" using c(2) pe_payload_fields(3) [of c] by simp
  obtain t3 where t3: "peers_incr_ref p t2 = Some t3" "drop_ref p 1 t3 = Some ([Session_calls []], t2)"
    by (rule incr_drop [OF c(1) r])
  have "rdv_handling config env args m (vs_table s) = Some ([Session_calls calls, Start_peer_handling p, Session_calls []], t2)"
    using m new add t3 by (simp add: rdv_handling_def rdv_forward_def peers_add_caller_def start_peer_handling_def)
  then show ?thesis using c p by (auto simp: commit_def)
qed

text \<open>The thread that waited for the answer goes on to punch.\<close>

lemma answer_taken:
  assumes inv: "vpn_inv s" and pc: "vs_pc s p = Wait_answer" and c: "pe_heap (vs_table s) p = Some c"
    and ans: "pe_rdv_answer c = Some ANS_CONNECTION"
  shows "\<exists>t. vpn_step config (Peer_step p (Answer_wait False False u True)) s =
      Some ([], s\<lparr>vs_pc := (vs_pc s)(p := Top), vs_table := t\<rparr>) \<and> pe_heap t p = Some (c\<lparr>pe_state := PUNCHING\<rparr>)"
proof -
  obtain ps where wf: "table_wf ps (vs_table s)" and st: "states_ok (vs_pc s) (vs_table s)" using inv by (auto simp: vpn_inv_def)
  have out: "p \<notin> set (peers_address_root (vs_table s))" using states_okD [OF st c] pc by simp
  have ix: "peers_by_addr.index_ok (pe_heap (vs_table s)) (set ps) (peers_address_root (vs_table s))" and ps: "p \<in> set ps"
    using wf c by (auto simp: table_wf_def)
  obtain r t where "tsearch (cmp_at compare_peers_addr (pe_heap (vs_table s)) c) True p (peers_address_root (vs_table s)) = Some (r, t)" "r \<noteq> None"
    by (rule peers_by_addr.tsearch_index [OF ix ps out c, of True]) blast
  then have "peers_register_endpoint True p (vs_table s) = Some (0, (vs_table s)\<lparr>peers_address_root := t\<rparr>)"
    using c by (auto simp: peers_register_endpoint_def)
  then show ?thesis
    using pc c ans
    by (intro exI [of _ "(vs_table s)\<lparr>peers_address_root := t, pe_heap := (pe_heap (vs_table s))(p \<mapsto> c\<lparr>pe_state := PUNCHING\<rparr>)\<rparr>"])
      (simp add: peer_answered_def set_peer_def commit_def)
qed

section \<open>The thread of a peer ends\<close>

text \<open>How far a peer thread is from its end.\<close>

fun peer_rank :: "peer_pc \<Rightarrow> client_type \<Rightarrow> nat" where
  "peer_rank Top NEW = 9"
| "peer_rank Wait_answer st = 8"
| "peer_rank Top PUNCHING = 7"
| "peer_rank Wait_punch st = 6"
| "peer_rank Top LINKED = 5"
| "peer_rank Handshake st = 4"
| "peer_rank Top ESTABLISHED = 3"
| "peer_rank (Reading lt) st = 2"
| "peer_rank Top CLOSED = 1"
| "peer_rank Done st = 0"

definition thread_rank :: "vpn_sys \<Rightarrow> ptr \<Rightarrow> nat" where
  "thread_rank s p = (case field_at pe_state (pe_heap (vs_table s)) p of None \<Rightarrow> 0 | Some st \<Rightarrow> peer_rank (vs_pc s p) st)"

text \<open>The inputs that keep a thread waiting: something it does not wait for, an unfinished
  handshake, a read that does not end the connection.\<close>

fun keeps_waiting :: "peer_pc \<Rightarrow> peer_input \<Rightarrow> bool" where
  "keeps_waiting Top (Go e) = False"
| "keeps_waiting Wait_answer (Answer_wait x e u n) = False"
| "keeps_waiting Wait_punch (Punch_wait x e) = False"
| "keeps_waiting Handshake (Handshake_return r now mac bs) = (r = Want_read)"
| "keeps_waiting (Reading lt) (SSL_read_return r now) = (r \<in> {Read_timeout, Read_again} \<or> (\<exists>u. r = Read_data u))"
| "keeps_waiting pc i = True"

definition peer_progress :: "peer_pc \<Rightarrow> client \<Rightarrow> peer_input \<Rightarrow> ptr \<Rightarrow> (peer_pc \<times> comm_effect list \<times> client_table) option \<Rightarrow> bool" where
  "peer_progress pc c i p r \<longleftrightarrow> (\<forall>pc' es t'. r = Some (pc', es, t') \<longrightarrow> (\<forall>q. Start_peer_handling q \<notin> set es) \<and>
     (pc' = Done \<or> (\<exists>c'. pe_heap t' p = Some c' \<and>
        (peer_rank pc' (pe_state c') < peer_rank pc (pe_state c) \<or>
         keeps_waiting pc i \<and> peer_rank pc' (pe_state c') = peer_rank pc (pe_state c)))))"

lemma set_peer_at: "set_peer p g t = Some t' \<Longrightarrow> pe_heap t p = Some c \<Longrightarrow> pe_heap t' p = Some (g c)"
  by (auto simp: set_peer_def)

lemma peer_top_progress:
  assumes "pe_heap t p = Some c"
  shows "peer_progress Top c (Go e) p (peer_top config e p t)"
  using assms set_peer_at [OF _ assms]
  by (cases "pe_state c")
    (auto simp: peer_progress_def peer_top_def start_punch_def start_SSL_writing_def drop_ref_def peers_incr_ref_def bind_eq_Some_conv to_server_def
      split: if_splits)

lemma peer_answered_progress:
  assumes "pe_heap t p = Some c" and "pe_state c = NEW"
  shows "peer_progress Wait_answer c (Answer_wait x e u n) p (peer_answered x e u n p t)"
  using assms set_peer_at [OF _ assms(1)]
  by (auto simp: peer_progress_def peer_answered_def bind_eq_Some_conv Let_def split: if_splits dest!: register_states set_peer_at)

lemma peer_punched_progress:
  assumes "pe_heap t p = Some c"
  shows "peer_progress Wait_punch c (Punch_wait x e) p (peer_punched config x e p t)"
  using assms set_peer_at [OF _ assms(1)]
  by (auto simp: peer_progress_def peer_punched_def bind_eq_Some_conv close_message_def to_server_def split: if_splits)

lemma peer_handshake_progress:
  assumes "pe_heap t p = Some c"
  shows "peer_progress Handshake c (Handshake_return r now mac bs) p (peer_handshake config r now mac bs p t)"
  using assms
  by (cases r) (auto simp: peer_progress_def peer_handshake_def bind_eq_Some_conv close_message_def to_server_def dest!: set_peer_at)

lemma peer_timers_progress:
  assumes "pe_heap t p = Some c"
  shows "peer_progress (Reading lt) c (SSL_read_return Read_timeout now) p (peer_timers config now p t)"
  using assms
  by (auto simp: peer_progress_def peer_timers_def bind_eq_Some_conv close_message_def to_server_def split: if_splits dest!: set_peer_at)

lemma peer_read_progress:
  assumes "pe_heap t p = Some c"
  shows "peer_progress (Reading lt) c (SSL_read_return r now) p (peer_read config lt r now p t)"
  using assms peer_timers_progress [OF assms, of lt now config] set_peer_at [OF _ assms]
  by (cases r) (auto simp: peer_read_def peer_progress_def bind_eq_Some_conv split: if_splits)

lemma peer_handling_progress:
  assumes "pe_heap t p = Some c" and "pc_state pc (pe_state c)" and "pc \<noteq> Done"
  shows "peer_progress pc c i p (peer_handling config p pc i t)"
proof -
  have "peer_progress pc c i p (Some (pc, [], t))" if "keeps_waiting pc i"
    using that assms by (auto simp: peer_progress_def)
  then show ?thesis
    using assms peer_top_progress [OF assms(1)] peer_answered_progress [OF assms(1)] peer_punched_progress [OF assms(1)]
      peer_handshake_progress [OF assms(1)] peer_read_progress [OF assms(1)]
    by (cases pc; cases i) simp_all
qed

lemma peer_rank_bounds: "peer_rank pc st \<le> 9" "peer_rank pc st = 0 \<longleftrightarrow> pc = Done"
  by (cases pc; cases st; simp)+

lemma thread_rank_at: "pe_heap (vs_table s) p = Some c \<Longrightarrow> thread_rank s p = peer_rank (vs_pc s p) (pe_state c)"
  by (simp add: thread_rank_def field_at_Some)

text \<open>A step of a peer thread, and what it leaves of the other threads.\<close>

lemma peer_step_progress:
  assumes inv: "vpn_inv s" and pc: "vs_pc s q \<noteq> Done" and st: "vpn_step config (Peer_step q i) s = Some (es, s')"
  obtains c where "pe_heap (vs_table s) q = Some c" and "peer_moves q i (vs_table s) es (vs_table s')"
    and "peer_progress (vs_pc s q) c i q (Some (vs_pc s' q, es, vs_table s'))" and "\<And>p. p \<noteq> q \<Longrightarrow> vs_pc s' p = vs_pc s p"
proof -
  obtain pc' t' where r: "peer_handling config q (vs_pc s q) i (vs_table s) = Some (pc', es, t')"
    and s': "s' = fold spawn es (s\<lparr>vs_pc := (vs_pc s)(q := pc'), vs_table := t'\<rparr>)"
    using st by (auto simp: bind_eq_Some_conv commit_def)
  obtain ps c where c: "pe_heap (vs_table s) q = Some c" "pc_state (vs_pc s q) (pe_state c)"
    by (rule peer_thread [OF inv pc]) blast
  have g: "peer_progress (vs_pc s q) c i q (Some (pc', es, t'))"
    using peer_handling_progress [OF c pc, of i config] r by simp
  then have "Start_peer_handling p \<notin> set es" for p by (simp add: peer_progress_def)
  then have "vs_pc s' p = ((vs_pc s)(q := pc')) p" for p using fold_spawn_pc [of p es] s' by simp
  then show thesis
    using that [of c] c(1) g peer_handling_moves [OF inv pc r] s' by (simp add: fold_spawn_table)
qed

lemma thread_rank_Done: "vs_pc s p = Done \<Longrightarrow> thread_rank s p = 0"
  by (auto simp: thread_rank_def split: option.splits)

lemma thread_rank_0:
  assumes "vpn_inv s"
  shows "thread_rank s p = 0 \<longleftrightarrow> vs_pc s p = Done"
proof (cases "vs_pc s p = Done")
  case False
  obtain ps c where "pe_heap (vs_table s) p = Some c" by (rule peer_thread [OF assms False])
  then show ?thesis using False by (simp add: thread_rank_at peer_rank_bounds(2))
qed (simp add: thread_rank_Done)

lemma thread_rank_kept:
  assumes inv': "vpn_inv s'" and pc: "vs_pc s p \<noteq> Done" "vs_pc s' p = vs_pc s p"
    and st: "\<And>st. field_at pe_state (pe_heap (vs_table s')) p = Some st \<Longrightarrow> field_at pe_state (pe_heap (vs_table s)) p = Some st"
  shows "thread_rank s' p = thread_rank s p"
proof -
  have "vs_pc s' p \<noteq> Done" using pc by simp
  then obtain c where "pe_heap (vs_table s') p = Some c" using peer_thread [OF inv'] by metis
  then have f: "field_at pe_state (pe_heap (vs_table s')) p = Some (pe_state c)" by (simp add: field_at_Some)
  show ?thesis using f st [OF f] pc(2) by (simp add: thread_rank_def)
qed

lemma own_step_rank:
  assumes inv: "vpn_inv s" and pc: "vs_pc s p \<noteq> Done" and st: "vpn_step config (Peer_step p i) s = Some (es, s')"
  shows "thread_rank s' p < thread_rank s p \<or> thread_rank s' p = thread_rank s p \<and> keeps_waiting (vs_pc s p) i"
proof -
  obtain c where c: "pe_heap (vs_table s) p = Some c"
    and g: "peer_progress (vs_pc s p) c i p (Some (vs_pc s' p, es, vs_table s'))"
    by (rule peer_step_progress [OF inv pc st])
  show ?thesis
  proof (cases "vs_pc s' p = Done")
    case True
    then show ?thesis using thread_rank_Done [OF True] thread_rank_0 [OF inv, of p] pc by simp
  next
    case False
    with g thread_rank_at [OF c] show ?thesis by (auto simp: peer_progress_def thread_rank_at)
  qed
qed

lemma other_step_rank:
  assumes inv: "vpn_inv s" and al: "vpn_allowed e s" and few: "few_threads s" and st: "vpn_step config e s = Some (es, s')"
    and pc: "vs_pc s p \<noteq> Done" and e: "\<And>i. e \<noteq> Peer_step p i"
  shows "thread_rank s' p = thread_rank s p"
proof -
  have inv': "vpn_inv s'" using vpn_step_ok [OF inv al few, of config] st by auto
  obtain ps c where c: "pe_heap (vs_table s) p = Some c" by (rule peer_thread [OF inv pc])
  show ?thesis
  proof (cases "\<exists>q i. e = Peer_step q i")
    case True
    then obtain q i where q: "e = Peer_step q i" "q \<noteq> p" using e by blast
    with al have "vs_pc s q \<noteq> Done" by simp
    then obtain c' where m: "peer_moves q i (vs_table s) es (vs_table s')" and "vs_pc s' p = vs_pc s p"
      using peer_step_progress [OF inv _ st [unfolded q(1)]] q(2) by metis
    then show ?thesis using peer_movesD(1) [OF m] q(2) by (intro thread_rank_kept [OF inv' pc]) blast+
  next
    case False
    then have k: "states_kept (vs_table s) (vs_table s')" "vs_pc s' p = vs_pc s p"
      using other_steps_keep [OF inv al few st] c by blast+
    have "field_at pe_state (pe_heap (vs_table s)) p \<noteq> None" using c by simp
    then have "field_at pe_state (pe_heap (vs_table s)) p = Some st" if "field_at pe_state (pe_heap (vs_table s')) p = Some st" for st
      using k(1) [unfolded states_kept_def, THEN spec, THEN spec, THEN mp, OF that] by auto
    with k(2) show ?thesis by (rule thread_rank_kept [OF inv' pc])
  qed
qed

text \<open>C9. The thread of a peer ends. Its distance from the end is at most 9 steps; no step of any
  thread increases it, and every own step for which the thread does not just go on waiting (for the
  handshake to finish, or for the end of the connection) decreases it. At distance 0 the thread has
  ended.\<close>

theorem peer_thread_ends:
  assumes "vpn_reachable config s" and "vpn_allowed e s" and "few_threads s" and "vpn_step config e s = Some (es, s')"
    and "vs_pc s p \<noteq> Done"
  shows "thread_rank s p \<le> 9 \<and> (thread_rank s' p = 0 \<longleftrightarrow> vs_pc s' p = Done) \<and>
    (thread_rank s' p < thread_rank s p \<or>
     thread_rank s' p = thread_rank s p \<and> (\<forall>i. e = Peer_step p i \<longrightarrow> keeps_waiting (vs_pc s p) i))"
proof -
  have inv: "vpn_inv s" by (rule vpn_reachable_inv [OF assms(1)])
  have inv': "vpn_inv s'" using vpn_step_ok [OF inv assms(2,3), of config] assms(4) by auto
  have "thread_rank s p \<le> 9" using peer_rank_bounds(1) by (simp add: thread_rank_def split: option.split)
  moreover have "thread_rank s' p < thread_rank s p \<or>
     thread_rank s' p = thread_rank s p \<and> (\<forall>i. e = Peer_step p i \<longrightarrow> keeps_waiting (vs_pc s p) i)"
  proof (cases "\<exists>i. e = Peer_step p i")
    case True
    with own_step_rank [OF inv assms(5)] assms(4) show ?thesis by blast
  next
    case False
    with other_step_rank [OF inv assms(2-5)] show ?thesis by blast
  qed
  ultimately show ?thesis using thread_rank_0 [OF inv'] by simp
qed

text \<open>The thread of the first peer: its first step sends the request and waits for the answer, so the
  distance falls from 9 to 8.\<close>

theorem peer_thread_ends_witness:
  "\<exists>es s'. vpn_step initConfig (Peer_step 1 (Go False)) demo_first = Some (es, s') \<and>
     thread_rank demo_first 1 = 9 \<and> thread_rank s' 1 < 9"
proof -
  let ?e = "Tun_packet demo_comm_env demo_args demo_packet 20"
  have al: "vpn_allowed ?e vpn_init" by (simp add: demo_comm_env_def demo_mem_def malloc3_fresh)
  obtain es0 where st0: "vpn_step initConfig ?e vpn_init = Some (es0, demo_first)" using demo_first_step by blast
  have r: "vpn_reachable initConfig demo_first" by (rule vpn_next [OF vpn_start al few_threads_init st0])
  have few: "few_threads demo_first" by (simp add: few_threads_def thread_refs_def demo_first_def)
  have top: "vs_pc demo_first 1 = Top" by (simp add: demo_first_def)
  then have pc: "vs_pc demo_first 1 \<noteq> Done" by simp
  have al1: "vpn_allowed (Peer_step 1 (Go False)) demo_first" using pc by simp
  have rank: "thread_rank demo_first 1 = 9" by (simp add: thread_rank_def demo_first_def new_peer_def)
  obtain es s' where st: "vpn_step initConfig (Peer_step 1 (Go False)) demo_first = Some (es, s')"
    using vpn_step_ok [OF vpn_reachable_inv [OF r] al1 few, of initConfig] by auto
  from peer_thread_ends [OF r al1 few st pc] rank top st show ?thesis by auto
qed

end
