(* ===== verification/Main_Programs.thy ===== *)
theory Main_Programs
  imports Rdv_Protocol Client_System
begin

text \<open>
  The two main programs (\<^verbatim>\<open>rdvserver/campagnol_rdv.c\<close>, \<^verbatim>\<open>client/campagnol.c\<close>) with the creation of their
  sockets (\<^verbatim>\<open>net_socket.c\<close>): command line, exit codes, signals, the loop that restarts the VPN, and what is
  left open at the end. The results of system calls are inputs, and so is what \<^verbatim>\<open>getopt_long\<close>
  returns: the options with their arguments, and the arguments that are no options. The pid file, the
  log and the printed configuration are left out.
\<close>

section \<open>Results of an option\<close>

datatype 'c opt_result = Next 'c | Return int | Exit int

abbreviation EXIT_SUCCESS :: int where "EXIT_SUCCESS \<equiv> 0"
abbreviation EXIT_FAILURE :: int where "EXIT_FAILURE \<equiv> 1"

type_synonym option_list = "(char \<times> string) list"

fun option_loop :: "(char \<Rightarrow> string \<Rightarrow> 'c \<Rightarrow> 'c opt_result) \<Rightarrow> option_list \<Rightarrow> 'c \<Rightarrow> 'c opt_result" where
  "option_loop f [] c = Next c"
| "option_loop f ((opt, optarg) # os) c = (case f opt optarg c of Next c' \<Rightarrow> option_loop f os c' | r \<Rightarrow> r)"

text \<open>Conversion of a \<^verbatim>\<open>long\<close> to \<^verbatim>\<open>int\<close>, and \<^verbatim>\<open>atoi\<close>, which is \<^verbatim>\<open>strtol\<close> (saturating) with that conversion.\<close>

definition to_int :: "int \<Rightarrow> int" where
  "to_int i = sint (word_of_int i :: 32 word)"

definition atoi :: "string \<Rightarrow> int" where
  "atoi s =
     (case subject_sequence s of
        None \<Rightarrow> 0
      | Some (neg, m) \<Rightarrow> to_int (if neg then max (- (2 ^ 63)) (- int m) else min (2 ^ 63 - 1) (int m)))"

section \<open>The rendezvous server\<close>

definition rdv_default_config :: rdv_config where
  "rdv_default_config =
     \<lparr>rc_verbose = False, rc_debug = False, rc_daemonize = False, rc_dump = False,
      rc_serverport = SERVER_PORT_DEFAULT, max_clients = 100, rc_pidfile = None\<rparr>"

definition rdv_option :: "char \<Rightarrow> string \<Rightarrow> rdv_config \<Rightarrow> rdv_config opt_result" where
  "rdv_option opt optarg c =
     (if opt = CHR ''D'' then Next (c\<lparr>rc_daemonize := True\<rparr>)
      else if opt = CHR ''d'' then
        (if rc_debug c then Next (c\<lparr>rc_dump := True\<rparr>) else Next (c\<lparr>rc_debug := True, rc_verbose := True\<rparr>))
      else if opt = CHR ''h'' then Return 1
      else if opt = CHR ''m'' then
        (case strtol optarg of
           None \<Rightarrow> Return 1
         | Some l \<Rightarrow> if to_int l < 0 then Return 1 else Next (c\<lparr>max_clients := to_int l\<rparr>))
      else if opt = CHR ''p'' then
        (let i = atoi optarg in
         if i \<le> 0 \<or> i > 65535 then Return 1 else Next (c\<lparr>rc_serverport := word_of_int i\<rparr>))
      else if opt = CHR ''P'' then Next (c\<lparr>rc_pidfile := Some optarg\<rparr>)
      else if opt = CHR ''v'' then Next (c\<lparr>rc_verbose := True\<rparr>)
      else if opt = CHR ''V'' then Return 2
      else Return 1)"

definition rdv_parse_args :: "option_list \<Rightarrow> string list \<Rightarrow> rdv_config opt_result" where
  "rdv_parse_args opts args =
     (case option_loop rdv_option opts rdv_default_config of
        Next c \<Rightarrow> if args \<noteq> [] then Return 1 else Next c
      | r \<Rightarrow> r)"

text \<open>The result and the descriptors that are open afterwards.\<close>

definition rdv_create_socket :: "int \<Rightarrow> bool \<Rightarrow> int \<times> int set" where
  "rdv_create_socket sockfd bound =
     (if sockfd < 0 then (-1, {}) else if \<not> bound then (-1, {sockfd}) else (sockfd, {sockfd}))"

definition rdv_daemonize :: "rdv_config \<Rightarrow> rdv_config" where
  "rdv_daemonize c = c\<lparr>rc_verbose := False, rc_debug := False\<rparr>"

record rdv_system =
  rs_daemon :: bool
  rs_socket :: int
  rs_bind :: bool

text \<open>The end of a program: the exit status and the descriptors still open, or a fault.\<close>

datatype main_end = Exited int "int set" | Faulted

definition rdv_main :: "option_list \<Rightarrow> string list \<Rightarrow> rdv_system \<Rightarrow> rdv_event list \<Rightarrow> main_end" where
  "rdv_main opts args sys es =
     (case rdv_parse_args opts args of
        Return pa \<Rightarrow> Exited (if pa = 2 then EXIT_SUCCESS else EXIT_FAILURE) {}
      | Exit st \<Rightarrow> Exited st {}
      | Next c \<Rightarrow>
          if rc_daemonize c \<and> \<not> rs_daemon sys then Exited EXIT_FAILURE {}
          else let c' = (if rc_daemonize c then rdv_daemonize c else c);
                   (sockfd, fds) = rdv_create_socket (rs_socket sys) (rs_bind sys) in
            if sockfd < 0 then Exited EXIT_FAILURE fds
            else case rdv_server_run c' sockfd es of
                None \<Rightarrow> Faulted
              | Some s \<Rightarrow> Exited EXIT_SUCCESS (if sockfd > 0 then fds - {sockfd} else fds))"

section \<open>The client: options and sockets\<close>

text \<open>\<open>mlocked\<close> is the result of \<^verbatim>\<open>mlockall\<close>.\<close>

definition client_option :: "bool \<Rightarrow> char \<Rightarrow> string \<Rightarrow> configuration \<Rightarrow> configuration opt_result" where
  "client_option mlocked opt optarg c =
     (if opt = CHR ''v'' then Next (c\<lparr>verbose := 1\<rparr>)
      else if opt = CHR ''D'' then Next (c\<lparr>daemonize := 1\<rparr>)
      else if opt = CHR ''d'' then Next (c\<lparr>debug := 1, verbose := 1\<rparr>)
      else if opt = CHR ''m'' then (if \<not> mlocked then Exit EXIT_FAILURE else Next c)
      else if opt = CHR ''p'' then Next (c\<lparr>pidfile := Some optarg\<rparr>)
      else if opt = CHR ''V'' then Return 2
      else Return 1)"

text \<open>\<^verbatim>\<open>DEFAULT_CONF_FILE\<close> is set by the build.\<close>

definition client_parse_args :: "bool \<Rightarrow> string \<Rightarrow> option_list \<Rightarrow> string list \<Rightarrow> (configuration \<times> string) opt_result" where
  "client_parse_args mlocked default_conf opts args =
     (case option_loop (client_option mlocked) opts initConfig of
        Next c \<Rightarrow> (case args of [f] \<Rightarrow> Next (c, f) | [] \<Rightarrow> Next (c, default_conf) | _ \<Rightarrow> Return 1)
      | Return pa \<Rightarrow> Return pa
      | Exit st \<Rightarrow> Exit st)"

abbreviation IFNAMSIZ :: nat where "IFNAMSIZ \<equiv> 16"

record client_system =
  cs_mlock :: bool
  cs_daemon :: bool
  cs_conf_env :: conf_env
  cs_file :: "string \<Rightarrow> string"
  cs_socket :: int
  cs_bindtodevice :: bool
  cs_bind :: bool
  cs_sockname_port :: u16
  cs_nonblock :: bool
  cs_tun :: int

definition client_create_socket :: "client_system \<Rightarrow> configuration \<Rightarrow> int \<times> configuration \<times> int set" where
  "client_create_socket sys c =
     (let sockfd = cs_socket sys in
      if sockfd < 0 then (-1, c, {})
      else if (case iface c of None \<Rightarrow> False | Some n \<Rightarrow> length n + 1 > IFNAMSIZ \<or> \<not> cs_bindtodevice sys) then (-1, c, {sockfd})
      else if \<not> cs_bind sys then (-1, c, {sockfd})
      else (sockfd, if localport c = 0 then c\<lparr>localport := ntohs (cs_sockname_port sys)\<rparr> else c, {sockfd}))"

section \<open>The client: signals\<close>

datatype signal = SIGTERM | SIGINT | SIGQUIT | SIGALRM | SIGUSR1 | SIGUSR2 | SIG_other

text \<open>The two global flags, and whether the thread that waits for signals still runs (all
  signals are masked in the other threads).\<close>

record sig_state =
  sg_alive :: bool
  end_campagnol :: bool
  reload :: bool

datatype sig_effect = Stop_timer | Ping "comm_effect list" | Rebuild_contexts

fun sig_handler :: "configuration \<Rightarrow> signal \<Rightarrow> sig_state \<Rightarrow> sig_effect list \<times> sig_state" where
  "sig_handler config SIGALRM g = ([Ping (handler_sigTimerPing config)], g)"
| "sig_handler config SIGUSR1 g = ([], g\<lparr>end_campagnol := True, reload := True\<rparr>)"
| "sig_handler config SIGUSR2 g = (if \<not> end_campagnol g then [Rebuild_contexts] else [], g)"
| "sig_handler config SIG_other g = ([], g)"
| "sig_handler config _ g = ([Stop_timer], g\<lparr>end_campagnol := True, sg_alive := False\<rparr>)"

fun sig_run :: "configuration \<Rightarrow> signal list \<Rightarrow> sig_state \<Rightarrow> sig_effect list \<times> sig_state" where
  "sig_run config [] g = ([], g)"
| "sig_run config (sig # sigs) g =
     (if sg_alive g then
        (let (es, g1) = sig_handler config sig g; (es', g2) = sig_run config sigs g1 in (es @ es', g2))
      else ([], g))"

section \<open>The client: one run of the VPN\<close>

text \<open>\<^verbatim>\<open>start_vpn\<close> as the sequence of what it acquires, runs and releases. \<open>dtls\<close> says whether \<^verbatim>\<open>initDTLS\<close>
  succeeds, \<open>registered\<close> is the result of \<^verbatim>\<open>register_rdv\<close>. The threads are those of \<open>Client_Comm\<close>.\<close>

datatype vpn_resource = Rdv_fifo | Global_limiter | Peers_mutex | Dtls_contexts

datatype vpn_action =
    Acquire vpn_resource | Release vpn_resource
  | Set_fifo_timeout | Thread_comm_socket | Register_rdv | Start_ping_timer | Thread_rdv_handling | Run_comm_tun
  | Join_rdv_handling | Set_end_campagnol | Join_comm_socket | End_peers_and_bye | Wait_for_peers

definition start_vpn :: "configuration \<Rightarrow> bool \<Rightarrow> bool \<Rightarrow> int \<times> vpn_action list" where
  "start_vpn config dtls registered =
     (let limited = (tb_client_size config \<noteq> 0);
          before = [Acquire Rdv_fifo, Set_fifo_timeout] @ (if limited then [Acquire Global_limiter] else []) @ [Acquire Peers_mutex] in
      if \<not> dtls then (-1, before)
      else (0, before @ [Acquire Dtls_contexts, Thread_comm_socket, Register_rdv] @
              (if registered then [Start_ping_timer, Thread_rdv_handling, Run_comm_tun, Join_rdv_handling] else [Set_end_campagnol]) @
              [Join_comm_socket, Release Rdv_fifo, End_peers_and_bye, Wait_for_peers] @
              (if limited then [Release Global_limiter] else []) @ [Release Dtls_contexts, Release Peers_mutex]))"

text \<open>What an action needs: the threads and the registration use the queue of server messages, the
  peer table and the contexts; the end of the peers needs the table and, as their sessions are
  still running, the contexts. Nothing is acquired twice or released without being owned.\<close>

fun act :: "vpn_action \<Rightarrow> vpn_resource set \<Rightarrow> vpn_resource set option" where
  "act (Acquire r) S = (if r \<in> S then None else Some (insert r S))"
| "act (Release r) S = (if r \<in> S then Some (S - {r}) else None)"
| "act Set_fifo_timeout S = (if Rdv_fifo \<in> S then Some S else None)"
| "act Thread_comm_socket S = (if {Rdv_fifo, Peers_mutex, Dtls_contexts} \<subseteq> S then Some S else None)"
| "act Register_rdv S = (if Rdv_fifo \<in> S then Some S else None)"
| "act Thread_rdv_handling S = (if {Rdv_fifo, Peers_mutex, Dtls_contexts} \<subseteq> S then Some S else None)"
| "act Run_comm_tun S = (if {Peers_mutex, Dtls_contexts} \<subseteq> S then Some S else None)"
| "act Join_comm_socket S = (if {Rdv_fifo, Peers_mutex, Dtls_contexts} \<subseteq> S then Some S else None)"
| "act Join_rdv_handling S = (if {Rdv_fifo, Peers_mutex, Dtls_contexts} \<subseteq> S then Some S else None)"
| "act End_peers_and_bye S = (if {Peers_mutex, Dtls_contexts} \<subseteq> S then Some S else None)"
| "act Wait_for_peers S = (if {Peers_mutex, Dtls_contexts} \<subseteq> S then Some S else None)"
| "act _ S = Some S"

fun act_all :: "vpn_action list \<Rightarrow> vpn_resource set \<Rightarrow> vpn_resource set option" where
  "act_all [] S = Some S"
| "act_all (a # as) S = Option.bind (act a S) (act_all as)"

section \<open>The client: main program\<close>

text \<open>The loop around \<^verbatim>\<open>start_vpn\<close>: for each run its result and the signals that arrive before it
  returns; the state is the flags, \<^verbatim>\<open>send_bye\<close> and \<^verbatim>\<open>exit_status\<close>. \<open>None\<close>: the program still runs when the
  list of runs ends.\<close>

definition loop_head :: "sig_state \<Rightarrow> sig_state" where
  "loop_head g = (if reload g then g\<lparr>reload := False, end_campagnol := False\<rparr> else g)"

fun vpn_loop :: "configuration \<Rightarrow> (int \<times> signal list) list \<Rightarrow> sig_state \<times> bool \<times> int \<Rightarrow> (sig_state \<times> bool \<times> int) option" where
  "vpn_loop config [] st = None"
| "vpn_loop config ((r, sigs) # runs) (g, send_bye, exit_status) =
     (let g' = snd (sig_run config sigs (loop_head g));
          st = (if r = -1 then (g', True, EXIT_FAILURE) else (g', send_bye, exit_status)) in
      if reload g' then vpn_loop config runs st else Some st)"

text \<open>What a run of the VPN is given: whether \<^verbatim>\<open>initDTLS\<close> succeeds, whether the client is registered, and the signals
  that arrive before it returns. The message to the server that a run sends at its end, and those of all
  the runs of the loop.\<close>

type_synonym vpn_run_input = "bool \<times> bool \<times> signal list"

definition bye_message :: "configuration \<Rightarrow> comm_effect" where
  "bye_message c = to_server c (init_smsg BYE (vpnIP c) 0)"

fun byes_of :: "configuration \<Rightarrow> vpn_action list \<Rightarrow> comm_effect list" where
  "byes_of c [] = []"
| "byes_of c (a # as) = (if a = End_peers_and_bye then [bye_message c] else []) @ byes_of c as"

definition run_result :: "configuration \<Rightarrow> vpn_run_input \<Rightarrow> int \<times> signal list" where
  "run_result c run = (case run of (dtls, registered, sigs) \<Rightarrow> (fst (start_vpn c dtls registered), sigs))"

fun vpn_sent :: "configuration \<Rightarrow> vpn_run_input list \<Rightarrow> sig_state \<Rightarrow> comm_effect list" where
  "vpn_sent c [] g = []"
| "vpn_sent c ((dtls, registered, sigs) # runs) g =
     (let g' = snd (sig_run c sigs (loop_head g)) in
      byes_of c (snd (start_vpn c dtls registered)) @ (if reload g' then vpn_sent c runs g' else []))"

text \<open>How the client ends: its status, the \<^verbatim>\<open>BYE\<close> messages it sent in its life, and the descriptors that are left open.\<close>

datatype client_end = Client_exit int "comm_effect list" "int set" | Client_running | Client_fault

abbreviation sig_start :: sig_state where
  "sig_start \<equiv> \<lparr>sg_alive = True, end_campagnol = False, reload = False\<rparr>"

definition client_main_run :: "configuration \<Rightarrow> int \<Rightarrow> client_system \<Rightarrow> int set \<Rightarrow> vpn_run_input list \<Rightarrow> client_end" where
  "client_main_run c sockfd sys fds runs =
     (if cs_tun sys < 0 then Client_exit EXIT_FAILURE [] (if sockfd > 0 then fds - {sockfd} else fds)
      else case vpn_loop c (map (run_result c) runs) (sig_start, False, EXIT_SUCCESS) of
          None \<Rightarrow> Client_running
        | Some (g, send_bye, exit_status) \<Rightarrow>
            let fds1 = insert (cs_tun sys) fds;
                fds2 = (if cs_tun sys > 0 then fds1 - {cs_tun sys} else fds1);
                fds3 = (if sockfd > 0 then fds2 - {sockfd} else fds2) in
            Client_exit exit_status (vpn_sent c runs sig_start @ (if send_bye then [bye_message c] else [])) fds3)"

definition client_main :: "string \<Rightarrow> option_list \<Rightarrow> string list \<Rightarrow> client_system \<Rightarrow> vpn_run_input list \<Rightarrow> client_end" where
  "client_main default_conf opts args sys runs =
     (case client_parse_args (cs_mlock sys) default_conf opts args of
        Return pa \<Rightarrow> Client_exit (if pa = 2 then EXIT_SUCCESS else EXIT_FAILURE) [] {}
      | Exit st \<Rightarrow> Client_exit st [] {}
      | Next (c, configFile) \<Rightarrow>
          if daemonize c \<noteq> 0 \<and> \<not> cs_daemon sys then Client_exit EXIT_FAILURE [] {}
          else let c1 = (if daemonize c \<noteq> 0 then c\<lparr>verbose := 0, debug := 0\<rparr> else c) in
            case parseConfFile (cs_conf_env sys) (cs_file sys configFile) c1 of
              None \<Rightarrow> Client_fault
            | Some (res, c2) \<Rightarrow>
                if res \<noteq> 0 then Client_exit EXIT_SUCCESS [] {}
                else let (sockfd, c3, fds) = client_create_socket sys c2 in
                  if sockfd < 0 then Client_exit EXIT_FAILURE [] fds
                  else if \<not> cs_nonblock sys then
                    Client_exit EXIT_FAILURE [] (if sockfd > 0 then fds - {sockfd} else fds)
                  else client_main_run c3 sockfd sys fds runs)"

section \<open>The rendezvous server never faults\<close>

lemma option_loop_inv:
  assumes "option_loop f os c = Next c'" and "\<And>opt a c c'. f opt a c = Next c' \<Longrightarrow> P c \<Longrightarrow> P c'" and "P c"
  shows "P c'"
  using assms(1,3)
proof (induction os arbitrary: c)
  case (Cons o1 os)
  then obtain c1 where "f (fst o1) (snd o1) c = Next c1" "option_loop f os c1 = Next c'"
    by (cases o1) (auto split: opt_result.splits)
  with Cons assms(2) show ?case by blast
qed simp

lemma to_int_less: "to_int i < 2 ^ 31"
  using sint_lt [of "word_of_int i :: 32 word"] by (simp add: to_int_def)

lemma to_int_small:
  assumes "0 \<le> i" and "i < 2 ^ 31"
  shows "to_int i = i"
  using assms by (simp add: to_int_def sint_uint uint_word_of_int_eq signed_take_bit_int_eq_self take_bit_int_eq_self)

lemma port_not_0:
  assumes "0 < i" and "i \<le> 65535"
  shows "(word_of_int i :: 16 word) \<noteq> 0"
proof
  assume "(word_of_int i :: 16 word) = 0"
  then have "uint (word_of_int i :: 16 word) = 0" by simp
  with assms show False by (simp add: uint_word_of_int_eq take_bit_int_eq_self)
qed

text \<open>The range of the values that \<^verbatim>\<open>parse_args\<close> accepts.\<close>

definition rdv_ranges :: "rdv_config \<Rightarrow> bool" where
  "rdv_ranges c \<longleftrightarrow> 0 \<le> max_clients c \<and> max_clients c < 2 ^ 31 \<and> rc_serverport c \<noteq> 0"

lemma rdv_option_ranges: "rdv_option opt a c = Next c' \<Longrightarrow> rdv_ranges c \<Longrightarrow> rdv_ranges c'"
  using to_int_less port_not_0
  by (auto simp: rdv_option_def rdv_ranges_def Let_def split: if_splits option.splits)

lemma rdv_parse_args_ranges:
  assumes "rdv_parse_args opts args = Next c"
  shows "rdv_ranges c"
proof -
  have "option_loop rdv_option opts rdv_default_config = Next c"
    using assms by (auto simp: rdv_parse_args_def split: opt_result.splits if_splits)
  then show ?thesis
    by (rule option_loop_inv [OF _ rdv_option_ranges]) (simp_all add: rdv_default_config_def rdv_ranges_def)
qed

text \<open>C16. The rendezvous server, started with any command line and any sequence of datagrams, ends
  without a fault. An accepted command line gives a limit of clients and a port in range, which is
  what the safety of the server rests on; the exit status is success exactly when it became a daemon
  (if asked to) and has its socket; a descriptor stays open only when the socket
  could not be bound.\<close>

theorem rdv_main_safe:
  assumes "\<And>e. e \<in> set es \<Longrightarrow> malloc_fresh (rm_malloc (rdv_event.ev_mem e))" and "rs_socket sys \<noteq> 0"
  shows "\<exists>st fds. rdv_main opts args sys es = Exited st fds \<and> (fds \<noteq> {} \<longrightarrow> \<not> rs_bind sys \<and> st = EXIT_FAILURE) \<and>
    (\<forall>c. rdv_parse_args opts args = Next c \<longrightarrow> 0 \<le> max_clients c \<and> max_clients c < 2 ^ 31 \<and> rc_serverport c \<noteq> 0 \<and>
      (st = EXIT_SUCCESS \<longleftrightarrow> (rc_daemonize c \<longrightarrow> rs_daemon sys) \<and> 0 \<le> rs_socket sys \<and> rs_bind sys))"
proof (cases "rdv_parse_args opts args")
  case (Next c)
  have r: "rdv_ranges c" by (rule rdv_parse_args_ranges [OF Next])
  let ?c = "if rc_daemonize c then rdv_daemonize c else c"
  have "max_clients ?c \<ge> 0" using r by (simp add: rdv_ranges_def rdv_daemonize_def)
  then obtain s where s: "rdv_server_run ?c (rs_socket sys) es = Some s"
    using server_run_safe [of ?c es "rs_socket sys"] assms(1) by blast
  show ?thesis
    using r s assms(2) Next
    by (cases "rs_socket sys < 0"; cases "rs_bind sys") (auto simp: rdv_main_def rdv_create_socket_def rdv_ranges_def Let_def)
qed (auto simp: rdv_main_def)

text \<open>A port and a limit of clients, and two clients that register.\<close>

theorem rdv_main_safe_witness:
  "\<exists>fds. rdv_main [(CHR ''p'', ''5000''), (CHR ''m'', ''20'')] [] \<lparr>rs_daemon = True, rs_socket = 3, rs_bind = True\<rparr> demo_events = Exited 0 fds \<and> fds = {}"
proof -
  let ?opts = "[(CHR ''p'', ''5000''), (CHR ''m'', ''20'')]" and ?sys = "\<lparr>rs_daemon = True, rs_socket = 3, rs_bind = True\<rparr>"
  have "case rdv_parse_args ?opts [] of Next c \<Rightarrow> \<not> rc_daemonize c | _ \<Rightarrow> False" by code_simp
  then obtain c where c: "rdv_parse_args ?opts [] = Next c" "\<not> rc_daemonize c" by (auto split: opt_result.splits)
  have e: "\<And>e. e \<in> set demo_events \<Longrightarrow> malloc_fresh (rm_malloc (rdv_event.ev_mem e))"
    by (auto simp: demo_events_def demo_event_def demo_fresh)
  have "rs_socket ?sys \<noteq> 0" by simp
  from rdv_main_safe [where opts = ?opts and args = "[]", OF e this] c show ?thesis by auto
qed

section \<open>Signals and restarts of the client\<close>

abbreviation terminating :: "signal \<Rightarrow> bool" where
  "terminating sig \<equiv> sig \<in> {SIGTERM, SIGINT, SIGQUIT}"

lemma sig_handler_flags:
  "end_campagnol (snd (sig_handler config sig g)) \<longleftrightarrow> end_campagnol g \<or> terminating sig \<or> sig = SIGUSR1"
  "reload (snd (sig_handler config sig g)) \<longleftrightarrow> reload g \<or> sig = SIGUSR1"
  "sg_alive (snd (sig_handler config sig g)) \<longleftrightarrow> sg_alive g \<and> \<not> terminating sig"
  by (cases sig; simp)+

lemma sig_run_dead: "\<not> sg_alive g \<Longrightarrow> sig_run config sigs g = ([], g)"
  by (cases sigs) simp_all

lemma sig_run_Cons: "sg_alive g \<Longrightarrow> snd (sig_run config (sig # sigs) g) = snd (sig_run config sigs (snd (sig_handler config sig g)))"
  by (simp add: case_prod_beta)

lemma sig_run_flags:
  assumes "sg_alive g"
  shows "end_campagnol (snd (sig_run config sigs g)) \<longleftrightarrow> end_campagnol g \<or> (\<exists>sig. sig \<in> set sigs \<and> (terminating sig \<or> sig = SIGUSR1))"
    and "reload (snd (sig_run config sigs g)) \<longleftrightarrow> reload g \<or> SIGUSR1 \<in> set (takeWhile (\<lambda>sig. \<not> terminating sig) sigs)"
  using assms
proof (induction sigs arbitrary: g)
  case (Cons sig sigs)
  {
    case (1 g)
    let ?g = "snd (sig_handler config sig g)"
    show ?case
    proof (cases "sg_alive ?g")
      case True
      show ?thesis unfolding sig_run_Cons [OF 1] by (subst Cons.IH(1) [OF True], unfold sig_handler_flags) auto
    next
      case False
      with 1 have "terminating sig" by (simp add: sig_handler_flags)
      then show ?thesis unfolding sig_run_Cons [OF 1] sig_run_dead [OF False] snd_conv sig_handler_flags by auto
    qed
  next
    case (2 g)
    let ?g = "snd (sig_handler config sig g)"
    show ?case
    proof (cases "sg_alive ?g")
      case True
      with 2 have "\<not> terminating sig" by (simp add: sig_handler_flags)
      then show ?thesis unfolding sig_run_Cons [OF 2] by (subst Cons.IH(2) [OF True], unfold sig_handler_flags) auto
    next
      case False
      with 2 have "terminating sig" by (simp add: sig_handler_flags)
      then show ?thesis unfolding sig_run_Cons [OF 2] sig_run_dead [OF False] snd_conv sig_handler_flags by auto
    qed
  }
qed simp_all

text \<open>C33. The signals decide how the client goes on. While the signal thread runs, the end of the VPN is
  requested exactly by a signal to terminate or to reload, and a restart exactly by a signal to
  reload that is handled before one to terminate. The restart wins: when a signal to terminate
  arrives after one to reload and before the main loop looks at the flags, the VPN is started again
  with the request to end deleted, and no later signal can end it any more, since the signal
  thread has gone.\<close>

theorem signals_decide_restart:
  assumes "sg_alive g" and "reload g = False"
  shows "(end_campagnol (snd (sig_run config sigs g)) \<longleftrightarrow> end_campagnol g \<or> (\<exists>sig. sig \<in> set sigs \<and> (terminating sig \<or> sig = SIGUSR1))) \<and>
    (reload (snd (sig_run config sigs g)) \<longleftrightarrow> SIGUSR1 \<in> set (takeWhile (\<lambda>sig. \<not> terminating sig) sigs)) \<and>
    vpn_loop config ((0, SIGUSR1 # SIGTERM # sigs) # runs) (g, bye, st) =
      vpn_loop config runs (g\<lparr>reload := True, end_campagnol := True, sg_alive := False\<rparr>, bye, st) \<and>
    \<not> end_campagnol (snd (sig_run config sigs (loop_head (g\<lparr>reload := True, end_campagnol := True, sg_alive := False\<rparr>))))"
  using assms sig_run_flags [OF assms(1), of config sigs] by (simp add: loop_head_def sig_run_dead)

theorem signals_decide_restart_witness:
  "vpn_loop initConfig [(0, [SIGUSR1, SIGTERM])] (\<lparr>sg_alive = True, end_campagnol = False, reload = False\<rparr>, False, 0) = None"
  using signals_decide_restart [of "\<lparr>sg_alive = True, end_campagnol = False, reload = False\<rparr>" initConfig "[]" "[]" False 0] by simp

section \<open>The end of the client\<close>

text \<open>The runs of the VPN that take place, from the signals alone: another one follows while the signal thread
  lives and a signal to reload comes before one to terminate.\<close>

fun runs_done :: "bool \<Rightarrow> vpn_run_input list \<Rightarrow> vpn_run_input list" where
  "runs_done alive [] = []"
| "runs_done alive ((dtls, registered, sigs) # runs) =
     (dtls, registered, sigs) #
     (if alive \<and> SIGUSR1 \<in> set (takeWhile (\<lambda>sig. \<not> terminating sig) sigs)
      then runs_done (list_all (\<lambda>sig. \<not> terminating sig) sigs) runs else [])"

definition run_failed :: "vpn_run_input list \<Rightarrow> bool" where
  "run_failed runs \<longleftrightarrow> \<not> list_all fst runs"

lemma sig_run_alive:
  "sg_alive g \<Longrightarrow> sg_alive (snd (sig_run config sigs g)) \<longleftrightarrow> list_all (\<lambda>sig. \<not> terminating sig) sigs"
proof (induction sigs arbitrary: g)
  case (Cons sig sigs)
  let ?g = "snd (sig_handler config sig g)"
  have a: "sg_alive ?g \<longleftrightarrow> \<not> terminating sig" using Cons.prems sig_handler_flags(3) [of config sig g] by blast
  show ?case
  proof (cases "sg_alive ?g")
    case True
    with a Cons.IH [OF True] show ?thesis unfolding sig_run_Cons [OF Cons.prems] by simp
  next
    case False
    with a show ?thesis unfolding sig_run_Cons [OF Cons.prems] sig_run_dead [OF False] by auto
  qed
qed simp

lemma loop_head_flags [simp]: "sg_alive (loop_head g) = sg_alive g" "\<not> reload (loop_head g)"
  by (simp_all add: loop_head_def)

lemma loop_turn:
  "reload (snd (sig_run c sigs (loop_head g))) \<longleftrightarrow> sg_alive g \<and> SIGUSR1 \<in> set (takeWhile (\<lambda>sig. \<not> terminating sig) sigs)"
  "sg_alive g \<Longrightarrow> sg_alive (snd (sig_run c sigs (loop_head g))) \<longleftrightarrow> list_all (\<lambda>sig. \<not> terminating sig) sigs"
  using sig_run_flags(2) [of "loop_head g" c sigs] sig_run_dead [of "loop_head g" c sigs] sig_run_alive [of "loop_head g" c sigs]
  by (cases "sg_alive g"; simp)+

lemma start_vpn_result: "fst (start_vpn c dtls registered) = (if dtls then 0 else -1)"
  "byes_of c (snd (start_vpn c dtls registered)) = (if dtls then [bye_message c] else [])"
  by (simp_all add: start_vpn_def Let_def)

lemma run_result_eq: "run_result c (dtls, registered, sigs) = (if dtls then 0 else -1, sigs)"
  by (simp add: run_result_def start_vpn_result)

lemma vpn_loop_done:
  assumes "vpn_loop c (map (run_result c) runs) (g, bye, st) = Some (g', bye', st')"
  shows "bye' = (bye \<or> run_failed (runs_done (sg_alive g) runs)) \<and>
    st' = (if run_failed (runs_done (sg_alive g) runs) then EXIT_FAILURE else st) \<and>
    vpn_sent c runs g = replicate (length (filter fst (runs_done (sg_alive g) runs))) (bye_message c)"
  using assms
proof (induction runs arbitrary: g bye st)
  case (Cons run runs)
  obtain dtls registered sigs where run: "run = (dtls, registered, sigs)" by (cases run) auto
  let ?g = "snd (sig_run c sigs (loop_head g))"
  note turn = loop_turn [where c = c and sigs = sigs and g = g]
  show ?case
  proof (cases "reload ?g")
    case True
    then have al: "sg_alive g" "sg_alive ?g = list_all (\<lambda>sig. \<not> terminating sig) sigs" using turn by blast+
    have d: "runs_done (sg_alive g) (run # runs) = run # runs_done (sg_alive ?g) runs" using True turn(1) al by (simp add: run)
    from Cons.prems True have "vpn_loop c (map (run_result c) runs) (?g, bye \<or> \<not> dtls, if dtls then st else EXIT_FAILURE) = Some (g', bye', st')"
      by (auto simp: run run_result_eq Let_def split: if_splits)
    from Cons.IH [OF this] True show ?thesis unfolding d by (auto simp: run start_vpn_result run_failed_def Let_def)
  next
    case False
    then have d: "runs_done (sg_alive g) (run # runs) = [run]" using turn(1) by (auto simp: run)
    from Cons.prems False show ?thesis unfolding d
      by (auto simp: run run_result_eq start_vpn_result run_failed_def Let_def split: if_splits)
  qed
qed simp

lemma client_create_socket_cases:
  obtains (failed) fds where "client_create_socket sys c = (-1, c, fds)" "fds \<subseteq> {cs_socket sys}"
  | (created) c' where "client_create_socket sys c = (cs_socket sys, c', {cs_socket sys})" "0 \<le> cs_socket sys"
proof -
  let ?no_dev = "case iface c of None \<Rightarrow> False | Some n \<Rightarrow> length n + 1 > IFNAMSIZ \<or> \<not> cs_bindtodevice sys"
  consider "cs_socket sys < 0" | "\<not> cs_socket sys < 0" "?no_dev \<or> \<not> cs_bind sys" | "\<not> cs_socket sys < 0" "\<not> ?no_dev" "cs_bind sys" by blast
  then show thesis
  proof cases
    case 1
    then show thesis by (intro failed [of "{}"]) (simp_all add: client_create_socket_def)
  next
    case 2
    then show thesis by (intro failed [of "{cs_socket sys}"]) (auto simp: client_create_socket_def Let_def)
  next
    case 3
    then show thesis by (intro created) (simp_all only: client_create_socket_def Let_def if_False if_True not_False_eq_True, simp)
  qed
qed

text \<open>The configuration with which the VPN is started, when the client gets that far.\<close>

definition client_ready :: "string \<Rightarrow> option_list \<Rightarrow> string list \<Rightarrow> client_system \<Rightarrow> configuration option" where
  "client_ready default_conf opts args sys =
     (case client_parse_args (cs_mlock sys) default_conf opts args of
        Next (c, f) \<Rightarrow>
          (case parseConfFile (cs_conf_env sys) (cs_file sys f) (if daemonize c \<noteq> 0 then c\<lparr>verbose := 0, debug := 0\<rparr> else c) of
             Some (res, c2) \<Rightarrow>
               (case client_create_socket sys c2 of (sockfd, c3, fds) \<Rightarrow>
                  if (daemonize c \<noteq> 0 \<longrightarrow> cs_daemon sys) \<and> res = 0 \<and> 0 \<le> sockfd \<and> cs_nonblock sys \<and> 0 \<le> cs_tun sys then Some c3 else None)
           | None \<Rightarrow> None)
      | _ \<Rightarrow> None)"

lemma client_main_run_exit:
  assumes "client_main_run c sockfd sys {sockfd} runs = Client_exit st es fds" and "0 < sockfd" and "cs_tun sys \<noteq> 0"
  shows "fds = {}" "cs_tun sys < 0 \<Longrightarrow> es = []"
    "0 \<le> cs_tun sys \<Longrightarrow> st = (if run_failed (runs_done True runs) then EXIT_FAILURE else EXIT_SUCCESS) \<and>
       es = replicate (length (filter fst (runs_done True runs))) (bye_message c) @ (if run_failed (runs_done True runs) then [bye_message c] else [])"
proof -
  have "fds = {} \<and> (if cs_tun sys < 0 then es = [] else
      st = (if run_failed (runs_done True runs) then EXIT_FAILURE else EXIT_SUCCESS) \<and>
       es = replicate (length (filter fst (runs_done True runs))) (bye_message c) @ (if run_failed (runs_done True runs) then [bye_message c] else []))"
  proof (cases "cs_tun sys < 0")
    case True
    with assms show ?thesis by (auto simp: client_main_run_def)
  next
    case False
    obtain g bye st' where v: "vpn_loop c (map (run_result c) runs) (sig_start, False, EXIT_SUCCESS) = Some (g, bye, st')"
      using assms(1) False by (cases "vpn_loop c (map (run_result c) runs) (sig_start, False, EXIT_SUCCESS)") (auto simp: client_main_run_def)
    with assms False have "st = st'" "fds = {}" "es = vpn_sent c runs sig_start @ (if bye then [bye_message c] else [])"
      by (auto simp: client_main_run_def Let_def)
    with vpn_loop_done [OF v] False show ?thesis by simp
  qed
  then show "fds = {}" "cs_tun sys < 0 \<Longrightarrow> es = []"
    "0 \<le> cs_tun sys \<Longrightarrow> st = (if run_failed (runs_done True runs) then EXIT_FAILURE else EXIT_SUCCESS) \<and>
       es = replicate (length (filter fst (runs_done True runs))) (bye_message c) @ (if run_failed (runs_done True runs) then [bye_message c] else [])"
    by (auto split: if_splits)
qed

text \<open>C34. How the client ends: a descriptor is left open only when its socket could not be set up, and
  only that one. If the client gets as far as to start the VPN, each run of it whose contexts could be created sends a
  \<^verbatim>\<open>BYE\<close> to the server when it stops, registered or not; the main program sends one more, and the status is that of a
  failure, exactly when some run could not create its contexts. Which runs take place is decided by the signals. If the
  client does not get that far it sends none. A configuration file that is rejected, however, ends the program with
  the status of success.\<close>

theorem client_main_exit:
  assumes "client_main default_conf opts args sys runs = Client_exit st es fds" and "cs_socket sys \<noteq> 0" and "cs_tun sys \<noteq> 0"
  shows "(fds \<noteq> {} \<longrightarrow> fds = {cs_socket sys} \<and> es = [] \<and> st = EXIT_FAILURE) \<and>
    (case client_ready default_conf opts args sys of
       None \<Rightarrow> es = []
     | Some c \<Rightarrow>
         fds = {} \<and> st = (if run_failed (runs_done True runs) then EXIT_FAILURE else EXIT_SUCCESS) \<and>
         es = replicate (length (filter fst (runs_done True runs))) (bye_message c) @
              (if run_failed (runs_done True runs) then [bye_message c] else [])) \<and>
    (\<forall>c f res c'. client_parse_args (cs_mlock sys) default_conf opts args = Next (c, f) \<and> daemonize c = 0 \<and>
       parseConfFile (cs_conf_env sys) (cs_file sys f) c = Some (res, c') \<and> res \<noteq> 0 \<longrightarrow> st = EXIT_SUCCESS \<and> fds = {})"
proof (cases "client_parse_args (cs_mlock sys) default_conf opts args")
  case (Next cf)
  obtain c f where cf: "cf = (c, f)" by (cases cf)
  let ?c1 = "if daemonize c \<noteq> 0 then c\<lparr>verbose := 0, debug := 0\<rparr> else c"
  show ?thesis
  proof (cases "daemonize c \<noteq> 0 \<and> \<not> cs_daemon sys")
    case True
    with assms(1) Next cf show ?thesis by (auto simp: client_main_def client_ready_def split: option.splits prod.splits)
  next
    case ok: False
    then obtain res c2 where p: "parseConfFile (cs_conf_env sys) (cs_file sys f) ?c1 = Some (res, c2)"
      using assms(1) Next cf by (cases "parseConfFile (cs_conf_env sys) (cs_file sys f) ?c1") (auto simp: client_main_def Let_def)
    show ?thesis
    proof (cases "res = 0")
      case False
      with assms(1) Next cf ok p show ?thesis by (auto simp: client_main_def client_ready_def Let_def split: prod.splits)
    next
      case res: True
      have rejected: "(\<forall>c f res c'. client_parse_args (cs_mlock sys) default_conf opts args = Next (c, f) \<and> daemonize c = 0 \<and>
         parseConfFile (cs_conf_env sys) (cs_file sys f) c = Some (res, c') \<and> res \<noteq> 0 \<longrightarrow> st = EXIT_SUCCESS \<and> fds = {})"
        using Next cf p res by auto
      have ready: "client_ready default_conf opts args sys = (case client_create_socket sys c2 of (sockfd, c3, fds) \<Rightarrow>
          if 0 \<le> sockfd \<and> cs_nonblock sys \<and> 0 \<le> cs_tun sys then Some c3 else None)"
        using Next cf p res ok by (auto simp: client_ready_def split: prod.splits)
      show ?thesis
      proof (cases rule: client_create_socket_cases [of sys c2, case_names failed created])
        case (failed fds')
        with assms(1) Next cf ok p res have "st = EXIT_FAILURE" "es = []" "fds = fds'" by (auto simp: client_main_def Let_def)
        with failed rejected ready show ?thesis by auto
      next
        case (created c3)
        have e: "(if \<not> cs_nonblock sys then Client_exit EXIT_FAILURE [] {} else client_main_run c3 (cs_socket sys) sys {cs_socket sys} runs)
            = Client_exit st es fds"
          using assms(1,2) Next cf ok p res created by (auto simp: client_main_def Let_def)
        show ?thesis
        proof (cases "cs_nonblock sys")
          case False
          with e created rejected ready show ?thesis by auto
        next
          case True
          with e have x: "client_main_run c3 (cs_socket sys) sys {cs_socket sys} runs = Client_exit st es fds" by simp
          have pos: "0 < cs_socket sys" using created(2) assms(2) by simp
          show ?thesis using client_main_run_exit [OF x pos assms(3)] True created rejected ready
            by (cases "cs_tun sys < 0") simp_all
        qed
      qed
    qed
  qed
qed (use assms(1) in \<open>auto simp: client_main_def client_ready_def\<close>)

text \<open>A socket that cannot be bound; and a run that is ended by a signal to reload, followed by one whose contexts
  cannot be created: two \<^verbatim>\<open>BYE\<close> messages and a failure.\<close>

definition demo_client_system :: "bool \<Rightarrow> client_system" where
  "demo_client_system bound = \<lparr>cs_mlock = True, cs_daemon = True, cs_conf_env = demo_env,
     cs_file = (\<lambda>f. if f = ''demo'' then demo_file else []), cs_socket = 3, cs_bindtodevice = True,
     cs_bind = bound, cs_sockname_port = 1, cs_nonblock = True, cs_tun = 4\<rparr>"

abbreviation demo_runs :: "vpn_run_input list" where
  "demo_runs \<equiv> [(True, True, [SIGUSR1]), (False, True, [SIGTERM])]"

theorem client_main_exit_witness:
  "client_main ''campagnol.conf'' [] [''demo''] (demo_client_system False) [] = Client_exit 1 [] {3} \<and>
   {3} = {cs_socket (demo_client_system False)} \<and>
   (\<exists>c. client_main ''campagnol.conf'' [] [''demo''] (demo_client_system True) demo_runs = Client_exit 1 [bye_message c, bye_message c] {})"
proof -
  obtain c where c: "parseConfFile demo_env demo_file initConfig = Some (0, c)" using demo_parse by auto
  have i: "iface c = None" using demo_iface c by simp
  have d: "daemonize initConfig = 0" by (simp add: initConfig_def)
  have m: "client_main ''campagnol.conf'' [] [''demo''] (demo_client_system False) [] = Client_exit 1 [] {3}"
    using c d by (auto simp: client_main_def client_parse_args_def demo_client_system_def client_create_socket_def Let_def split: option.splits)
  have n: "cs_socket (demo_client_system b) \<noteq> 0" "cs_tun (demo_client_system b) \<noteq> 0" for b by (simp_all add: demo_client_system_def)
  obtain st es fds where m2: "client_main ''campagnol.conf'' [] [''demo''] (demo_client_system True) demo_runs = Client_exit st es fds"
    using c d i by (auto simp: client_main_def client_main_run_def run_result_def start_vpn_result loop_head_def client_parse_args_def
        demo_client_system_def client_create_socket_def Let_def)
  obtain c3 where r: "client_ready ''campagnol.conf'' [] [''demo''] (demo_client_system True) = Some c3"
    using c d i by (auto simp: client_ready_def client_parse_args_def demo_client_system_def client_create_socket_def Let_def)
  have x: "run_failed (runs_done True demo_runs)" "length (filter fst (runs_done True demo_runs)) = 1" by (simp_all add: run_failed_def)
  from client_main_exit [OF m2 n] r x have "es = [bye_message c3, bye_message c3]" "st = 1" "fds = {}" by (simp_all add: numeral_2_eq_2)
  with m2 client_main_exit [OF m n] m show ?thesis by auto
qed

section \<open>Resources of a run\<close>

text \<open>A run of the VPN uses its queue, table, rate limiter and contexts only while it owns them and, when it returns
  0, has released all of them, registered or not. When the contexts cannot be created it returns -1
  and leaves the queue, the mutex of the table and the rate limiter behind.\<close>

theorem start_vpn_resources:
  "fst (start_vpn config True registered) = 0 \<and> act_all (snd (start_vpn config True registered)) {} = Some {} \<and>
   fst (start_vpn config False registered) = -1 \<and>
   act_all (snd (start_vpn config False registered)) {} =
     Some ({Rdv_fifo, Peers_mutex} \<union> (if tb_client_size config \<noteq> 0 then {Global_limiter} else {}))"
  by (cases registered; cases "tb_client_size config = 0") (auto simp: start_vpn_def Let_def)

end
