(* ===== verification/Tun_Commands.thy ===== *)
theory Tun_Commands
  imports Client_Config
begin

text \<open>
  The shell commands that set up and shut down the TUN device (\<^verbatim>\<open>client/tun_device_common.c\<close>): the
  replacement of the special variables and the choice between the commands of the configuration
  and the default ones. The commands are the output of the functions; what \<^verbatim>\<open>system\<close> does with them
  is outside of the model. The string buffers are used through their abstract operations.
\<close>

section \<open>Formatted values\<close>

definition show_int :: "int \<Rightarrow> string" where
  "show_int i = (if i < 0 then CHR ''-'' # show_nat (nat (- i)) else show_nat (nat i))"

text \<open>\<^verbatim>\<open>inet_ntoa\<close>: the bytes of the address in memory order, in decimal.\<close>

definition inet_ntoa :: "u32 \<Rightarrow> string" where
  "inet_ntoa a =
     (case map (\<lambda>b. show_nat (unat b)) (bytes_of_u32 a) of
        [b0, b1, b2, b3] \<Rightarrow> b0 @ ''.'' @ b1 @ ''.'' @ b2 @ ''.'' @ b3
      | _ \<Rightarrow> '''')"

section \<open>Replacement of the variables\<close>

text \<open>The text that stands for the character after a percent sign, \<open>None\<close> when a null pointer would be
  formatted.\<close>

definition variable_text :: "configuration \<Rightarrow> string \<Rightarrow> char \<Rightarrow> string option" where
  "variable_text c device v =
     (if v = CHR ''%'' then Some ''%''
      else if v = CHR ''D'' then Some (CHR 0x27 # device @ [CHR 0x27])
      else if v = CHR ''V'' then Some (inet_ntoa (vpnIP c))
      else if v = CHR ''M'' then Some (show_int (tun_mtu c))
      else if v = CHR ''N'' then map_option (\<lambda>n. CHR 0x27 # n @ [CHR 0x27]) (network c)
      else if v = CHR ''n'' then Some (inet_ntoa (vpnNetmask c))
      else if v = CHR ''P'' then Some (show_nat (unat (localport c)))
      else if v = CHR ''I'' then Some (inet_ntoa (localIP c))
      else Some [CHR ''%'', v])"

text \<open>The loop over the characters. Behind a percent sign at the end the loop continues two characters
  further on, behind the terminator of the string: a read out of bounds.\<close>

fun replace_loop :: "configuration \<Rightarrow> string \<Rightarrow> string \<Rightarrow> strbuf \<Rightarrow> strbuf option" where
  "replace_loop c device [] sb = Some sb"
| "replace_loop c device [x] sb = (if x = CHR ''%'' then None else Some (sb_append [x] sb))"
| "replace_loop c device (x # v # rest) sb =
     (if x = CHR ''%'' then
        do { t \<leftarrow> variable_text c device v; replace_loop c device rest (sb_append t sb) }
      else replace_loop c device (v # rest) (sb_append [x] sb))"

definition replace_args :: "configuration \<Rightarrow> string \<Rightarrow> string \<Rightarrow> strbuf option" where
  "replace_args c s device = replace_loop c device s sb_empty"

text \<open>The list of the commands that are run; \<open>None\<close> as list of programs is the null pointer.\<close>

fun exec_loop :: "configuration \<Rightarrow> string list \<Rightarrow> string \<Rightarrow> string list option" where
  "exec_loop c [] device = Some []"
| "exec_loop c (p # programs) device =
     do { sb \<leftarrow> replace_args c p device; rest \<leftarrow> exec_loop c programs device; Some (cstr sb # rest) }"

definition exec_internal :: "configuration \<Rightarrow> string list option \<Rightarrow> string \<Rightarrow> string list option" where
  "exec_internal c programs device = (case programs of None \<Rightarrow> Some [] | Some ps \<Rightarrow> exec_loop c ps device)"

text \<open>\<open>tun_default_up\<close> and \<open>tun_default_down\<close> are the commands of the platform.\<close>

definition exec_up_commands :: "string list option \<Rightarrow> configuration \<Rightarrow> string \<Rightarrow> string list option" where
  "exec_up_commands tun_default_up c device =
     (case exec_up c of
        Some ps \<Rightarrow> exec_internal c (Some ps) device
      | None \<Rightarrow> exec_internal c tun_default_up device)"

definition exec_down_commands :: "string list option \<Rightarrow> configuration \<Rightarrow> string \<Rightarrow> string list option" where
  "exec_down_commands tun_default_down c device =
     (case exec_down c of
        Some ps \<Rightarrow> exec_internal c (Some ps) device
      | None \<Rightarrow> exec_internal c tun_default_down device)"

section \<open>The meaning of a template\<close>

text \<open>A template is a sequence of plain characters and of variables. How each variable is written and
  what it stands for is stated here from the documentation of the configuration file, apart from the
  code.\<close>

datatype piece = Literal char | Percent | Device | Vpn_address | Mtu | Vpn_network | Vpn_netmask
  | Local_port | Local_address | Unknown char

fun piece_text :: "piece \<Rightarrow> string" where
  "piece_text (Literal x) = [x]"
| "piece_text Percent = ''%%''"
| "piece_text Device = ''%D''"
| "piece_text Vpn_address = ''%V''"
| "piece_text Mtu = ''%M''"
| "piece_text Vpn_network = ''%N''"
| "piece_text Vpn_netmask = ''%n''"
| "piece_text Local_port = ''%P''"
| "piece_text Local_address = ''%I''"
| "piece_text (Unknown v) = [CHR ''%'', v]"

definition template :: "piece list \<Rightarrow> string" where
  "template ps = concat (map piece_text ps)"

fun piece_ok :: "piece \<Rightarrow> bool" where
  "piece_ok (Literal x) = (x \<noteq> CHR ''%'')"
| "piece_ok (Unknown v) = (v \<notin> set ''%DVMNnPI'')"
| "piece_ok _ = True"

definition quoted :: "string \<Rightarrow> string" where
  "quoted s = [CHR 0x27] @ s @ [CHR 0x27]"

fun piece_value :: "configuration \<Rightarrow> string \<Rightarrow> piece \<Rightarrow> string" where
  "piece_value c device (Literal x) = [x]"
| "piece_value c device Percent = ''%''"
| "piece_value c device Device = quoted device"
| "piece_value c device Vpn_address = inet_ntoa (vpnIP c)"
| "piece_value c device Mtu = show_int (tun_mtu c)"
| "piece_value c device Vpn_network = (case network c of Some n \<Rightarrow> quoted n | None \<Rightarrow> [])"
| "piece_value c device Vpn_netmask = inet_ntoa (vpnNetmask c)"
| "piece_value c device Local_port = show_nat (unat (localport c))"
| "piece_value c device Local_address = inet_ntoa (localIP c)"
| "piece_value c device (Unknown v) = [CHR ''%'', v]"

lemma piece_exists: "\<exists>p. piece_ok p \<and> piece_text p = [CHR ''%'', v]"
proof (cases "v \<in> set ''%DVMNnPI''")
  case True
  then show ?thesis
    by (auto intro: exI [of _ Percent] exI [of _ Device] exI [of _ Vpn_address] exI [of _ Mtu] exI [of _ Vpn_network]
        exI [of _ Vpn_netmask] exI [of _ Local_port] exI [of _ Local_address])
qed (auto intro: exI [of _ "Unknown v"])

lemma piece_cases:
  assumes "piece_ok p"
  obtains (literal) x where "p = Literal x" "x \<noteq> CHR ''%''" | (variable) v where "piece_text p = [CHR ''%'', v]"
  using assms by (cases p) auto

text \<open>The code gives every variable its value.\<close>

lemma variable_text_value:
  assumes "network c \<noteq> None" "piece_ok p" "piece_text p = [CHR ''%'', v]"
  shows "variable_text c device v = Some (piece_value c device p)"
  using assms by (cases p) (auto simp: variable_text_def quoted_def)

text \<open>Every string is, in exactly the way the loop reads it, a sequence of pieces, possibly followed by a
  single percent sign.\<close>

lemma template_exists:
  "\<exists>ps. list_all piece_ok ps \<and> (s = template ps \<or> s = template ps @ ''%'')"
proof (induction s rule: length_induct)
  case (1 s)
  show ?case
  proof (cases s)
    case Nil
    then show ?thesis by (intro exI [of _ "[]"]) (simp add: template_def)
  next
    case (Cons x r)
    show ?thesis
    proof (cases "x = CHR ''%'' \<and> r \<noteq> []")
      case True
      then obtain v r' where r: "r = v # r'" by (cases r) auto
      with 1 Cons obtain ps where "list_all piece_ok ps" "r' = template ps \<or> r' = template ps @ ''%''"
        by (metis length_Cons less_Suc_eq)
      moreover obtain p where "piece_ok p" "piece_text p = [CHR ''%'', v]" using piece_exists by blast
      ultimately show ?thesis using True Cons r by (intro exI [of _ "p # ps"]) (auto simp: template_def)
    next
      case False
      with 1 Cons obtain ps where "list_all piece_ok ps" "r = template ps \<or> r = template ps @ ''%''"
        by (metis length_Cons lessI)
      with False Cons show ?thesis
        by (cases "x = CHR ''%''")
          (intro exI [of _ "[]"], simp add: template_def,
           intro exI [of _ "Literal x # ps"], auto simp: template_def)
    qed
  qed
qed

lemma replace_loop_literal:
  "x \<noteq> CHR ''%'' \<Longrightarrow> replace_loop c device (x # rest) sb = replace_loop c device rest (sb_append [x] sb)"
  by (cases rest) auto

lemma replace_loop_template:
  assumes "network c \<noteq> None" "list_all piece_ok ps"
  shows "replace_loop c device (template ps @ rest) sb =
    replace_loop c device rest (sb_append (concat (map (piece_value c device) ps)) sb)"
  using assms(2)
proof (induction ps arbitrary: sb)
  case Nil
  then show ?case by (simp add: template_def sb_append_def)
next
  case (Cons p ps)
  then have IH: "\<And>sb. replace_loop c device (template ps @ rest) sb =
      replace_loop c device rest (sb_append (concat (map (piece_value c device) ps)) sb)" by simp
  from Cons.prems have "piece_ok p" by simp
  then show ?case
  proof (cases p rule: piece_cases)
    case (literal x)
    with IH show ?thesis by (simp add: template_def replace_loop_literal sb_append_append)
  next
    case (variable v)
    with IH variable_text_value [OF assms(1) \<open>piece_ok p\<close> variable, of device] show ?thesis
      by (simp add: template_def sb_append_append)
  qed
qed

text \<open>C30. The replacement of variables is exact: in a configuration that was accepted, each template is a
  sequence of characters and variables, possibly with a lone percent sign at its end. Without that
  sign the result is the concatenation of the characters and the values of the variables: the
  quoted device for \<^verbatim>\<open>%D\<close>, the VPN address for \<^verbatim>\<open>%V\<close>, the MTU for \<^verbatim>\<open>%M\<close>, the quoted network for \<^verbatim>\<open>%N\<close>, its
  netmask for \<^verbatim>\<open>%n\<close>, the local port for \<^verbatim>\<open>%P\<close>, the local address for \<^verbatim>\<open>%I\<close>, a percent sign for \<^verbatim>\<open>%%\<close>,
  and itself for any other letter. With the sign the loop runs behind the end of the string.\<close>

theorem replace_args_exact:
  assumes "network c \<noteq> None"
  shows "(\<exists>ps. list_all piece_ok ps \<and> (s = template ps \<or> s = template ps @ ''%'')) \<and>
    (list_all piece_ok qs \<longrightarrow>
       map_option sb_str (replace_args c (template qs) device) = Some (concat (map (piece_value c device) qs)) \<and>
       replace_args c (template qs @ ''%'') device = None)"
  using template_exists [of s] replace_loop_template [OF assms, of qs device "[]" sb_empty]
    replace_loop_template [OF assms, of qs device "''%''" sb_empty]
  by (simp add: replace_args_def sb_append_def sb_empty_def)

theorem replace_args_exact_witness:
  "map_option sb_str (replace_args (initConfig\<lparr>network := Some ''10.0.0.0/8''\<rparr>) ''ifconfig %D up'' ''tun0'') =
     Some (''ifconfig '' @ [CHR 0x27] @ ''tun0'' @ [CHR 0x27] @ '' up'') \<and>
   replace_args (initConfig\<lparr>network := Some ''10.0.0.0/8''\<rparr>) ''ifconfig %D up%'' ''tun0'' = None"
proof -
  let ?c = "initConfig\<lparr>network := Some ''10.0.0.0/8''\<rparr>"
  let ?q = "map Literal ''ifconfig '' @ Device # map Literal '' up''"
  have n: "network ?c \<noteq> None" by simp
  have q: "list_all piece_ok ?q" "template ?q = ''ifconfig %D up''" by (simp_all add: template_def)
  from conjunct2 [OF replace_args_exact [OF n, of "[]" ?q "''tun0''"]] q show ?thesis
    by (simp add: quoted_def)
qed

end
