(* ===== verification/Lock_Order.thy ===== *)
theory Lock_Order
  imports Main
begin

text \<open>
  Threads that lock and unlock mutexes: the programs of the threads are sequences of lock operations,
  a state holds what each thread still has to do and which mutexes it holds, and a mutex is held
  by one thread at a time. A recursive mutex can be locked again by its holder. Programs also create
  and destroy mutexes, which locks nothing (that a mutex exists while it is locked is not the subject
  here), and a thread can wait for something that never comes. The locale states
  the discipline that excludes deadlocks, an order in which mutexes are locked, and carries
  the proof.
\<close>

section \<open>Threads and their steps\<close>

datatype 'm lock_op = Lock 'm | Unlock 'm | Init 'm | Destroy 'm | Block

type_synonym 'm lock_threads = "('m lock_op list \<times> 'm list) list"

definition blocked :: "('m \<Rightarrow> bool) \<Rightarrow> 'm lock_threads \<Rightarrow> nat \<Rightarrow> 'm \<Rightarrow> bool" where
  "blocked rec ts i m \<longleftrightarrow>
     (\<exists>j < length ts. j \<noteq> i \<and> m \<in> set (snd (ts ! j))) \<or> (m \<in> set (snd (ts ! i)) \<and> \<not> rec m)"

definition lock_step :: "('m \<Rightarrow> bool) \<Rightarrow> nat \<Rightarrow> 'm lock_threads \<Rightarrow> 'm lock_threads option" where
  "lock_step rec i ts =
     (if i < length ts then
        (case fst (ts ! i) of
           [] \<Rightarrow> None
         | Lock m # r \<Rightarrow> if blocked rec ts i m then None else Some (ts[i := (r, m # snd (ts ! i))])
         | Unlock m # r \<Rightarrow> if m \<in> set (snd (ts ! i)) then Some (ts[i := (r, remove1 m (snd (ts ! i)))]) else None
         | Init m # r \<Rightarrow> Some (ts[i := (r, snd (ts ! i))])
         | Destroy m # r \<Rightarrow> Some (ts[i := (r, snd (ts ! i))])
         | Block # r \<Rightarrow> None)
      else None)"

fun lock_run :: "('m \<Rightarrow> bool) \<Rightarrow> nat list \<Rightarrow> 'm lock_threads \<Rightarrow> 'm lock_threads option" where
  "lock_run rec [] ts = Some ts"
| "lock_run rec (i # sch) ts = Option.bind (lock_step rec i ts) (lock_run rec sch)"

definition finished :: "'m lock_threads \<Rightarrow> bool" where
  "finished ts \<longleftrightarrow> (\<forall>t \<in> set ts. fst t = [])"

definition deadlocked :: "('m \<Rightarrow> bool) \<Rightarrow> 'm lock_threads \<Rightarrow> bool" where
  "deadlocked rec ts \<longleftrightarrow> \<not> finished ts \<and> (\<forall>i < length ts. lock_step rec i ts = None)"

text \<open>A thread that unlocks a mutex it does not hold.\<close>

definition bad_unlock :: "'m lock_threads \<Rightarrow> bool" where
  "bad_unlock ts \<longleftrightarrow> (\<exists>t \<in> set ts. \<exists>m r. fst t = Unlock m # r \<and> m \<notin> set (snd t))"

text \<open>Threads that make calls, each call being a sequence of lock operations.\<close>

definition call_threads :: "('c \<Rightarrow> 'm lock_op list) \<Rightarrow> 'c list list \<Rightarrow> 'm lock_threads" where
  "call_threads locks css = map (\<lambda>cs. (concat (map locks cs), [])) css"

section \<open>The discipline\<close>

text \<open>A program that starts with the mutexes \<open>h\<close>: each mutex it locks comes after all those it
  holds, unless it is recursive and already held; it unlocks only what it holds, and all of it; it
  creates and destroys no mutex that it holds, and does not wait for ever.\<close>

fun ordered :: "('m \<Rightarrow> nat) \<Rightarrow> ('m \<Rightarrow> bool) \<Rightarrow> 'm list \<Rightarrow> 'm lock_op list \<Rightarrow> bool" where
  "ordered rank rec h [] = (h = [])"
| "ordered rank rec h (Lock m # r) =
     ((rec m \<and> m \<in> set h \<or> (\<forall>x \<in> set h. rank x < rank m)) \<and> ordered rank rec (m # h) r)"
| "ordered rank rec h (Unlock m # r) = (m \<in> set h \<and> ordered rank rec (remove1 m h) r)"
| "ordered rank rec h (Init m # r) = (m \<notin> set h \<and> ordered rank rec h r)"
| "ordered rank rec h (Destroy m # r) = (m \<notin> set h \<and> ordered rank rec h r)"
| "ordered rank rec h (Block # r) = False"

lemma ordered_append:
  "ordered rank rec h xs \<Longrightarrow> ordered rank rec [] ys \<Longrightarrow> ordered rank rec h (xs @ ys)"
  by (induction rank rec h xs rule: ordered.induct) auto

lemma ordered_concat: "(\<And>xs. xs \<in> set xss \<Longrightarrow> ordered rank rec [] xs) \<Longrightarrow> ordered rank rec [] (concat xss)"
  by (induction xss) (auto intro: ordered_append)

locale lock_order =
  fixes rank :: "'m \<Rightarrow> nat" and rec :: "'m \<Rightarrow> bool" and locks :: "'c \<Rightarrow> 'm lock_op list" and good :: "'c \<Rightarrow> bool"
  assumes call_ordered: "good c \<Longrightarrow> ordered rank rec [] (locks c)"
begin

definition lock_inv :: "'m lock_threads \<Rightarrow> bool" where
  "lock_inv ts \<longleftrightarrow> (\<forall>t \<in> set ts. ordered rank rec (snd t) (fst t)) \<and>
     (\<forall>i j. i < length ts \<and> j < length ts \<and> i \<noteq> j \<longrightarrow> set (snd (ts ! i)) \<inter> set (snd (ts ! j)) = {})"

lemma lock_inv_start:
  assumes "\<forall>cs \<in> set css. \<forall>c \<in> set cs. good c"
  shows "lock_inv (call_threads locks css)"
proof -
  have "ordered rank rec [] (concat (map locks cs))" if "cs \<in> set css" for cs
    using assms that call_ordered by (intro ordered_concat) auto
  then show ?thesis by (auto simp: lock_inv_def call_threads_def)
qed

lemma lock_inv_upd:
  assumes inv: "lock_inv ts" and i: "i < length ts" and o: "ordered rank rec h r"
    and h: "\<And>m. m \<in> set h \<Longrightarrow> m \<in> set (snd (ts ! i)) \<or> (\<forall>j < length ts. j \<noteq> i \<longrightarrow> m \<notin> set (snd (ts ! j)))"
  shows "lock_inv (ts[i := (r, h)])"
  unfolding lock_inv_def
proof (intro conjI allI impI ballI)
  fix t
  assume "t \<in> set (ts[i := (r, h)])"
  then have "t = (r, h) \<or> t \<in> set ts" using set_update_subset_insert by fastforce
  then show "ordered rank rec (snd t) (fst t)" using o inv by (auto simp: lock_inv_def)
next
  fix a b
  assume ab: "a < length (ts[i := (r, h)]) \<and> b < length (ts[i := (r, h)]) \<and> a \<noteq> b"
  have excl: "set (snd (ts ! x)) \<inter> set (snd (ts ! y)) = {}" if "x < length ts" "y < length ts" "x \<noteq> y" for x y
    using inv that by (auto simp: lock_inv_def)
  have one: "set h \<inter> set (snd (ts ! y)) = {}" if "y < length ts" "y \<noteq> i" for y
    using h excl [OF i that(1)] that by blast
  show "set (snd (ts[i := (r, h)] ! a)) \<inter> set (snd (ts[i := (r, h)] ! b)) = {}"
    using ab one [of a] one [of b] excl [of a b] by (cases "a = i"; cases "b = i") (auto simp: nth_list_update)
qed

lemma lock_step_inv:
  assumes inv: "lock_inv ts" and st: "lock_step rec i ts = Some ts'"
  shows "lock_inv ts'"
proof -
  have i: "i < length ts" using st by (auto simp: lock_step_def split: if_splits)
  have o: "ordered rank rec (snd (ts ! i)) (fst (ts ! i))" using inv i by (auto simp: lock_inv_def)
  consider (lock) m r where "fst (ts ! i) = Lock m # r" | (unlock) m r where "fst (ts ! i) = Unlock m # r"
    | (other) m r where "fst (ts ! i) = Init m # r \<or> fst (ts ! i) = Destroy m # r" | "fst (ts ! i) = [] \<or> (\<exists>r. fst (ts ! i) = Block # r)"
    by (cases "fst (ts ! i)"; cases "hd (fst (ts ! i))") auto
  then show ?thesis
  proof cases
    case lock
    with st i have nb: "\<not> blocked rec ts i m" "ts' = ts[i := (r, m # snd (ts ! i))]" by (auto simp: lock_step_def split: if_splits)
    show ?thesis unfolding nb(2) by (rule lock_inv_upd [OF inv i]) (use o lock nb(1) in \<open>auto simp: blocked_def\<close>)
  next
    case unlock
    with st i have "ts' = ts[i := (r, remove1 m (snd (ts ! i)))]" by (auto simp: lock_step_def split: if_splits)
    then show ?thesis
      using lock_inv_upd [OF inv i, of "remove1 m (snd (ts ! i))" r] o unlock notin_set_remove1 by fastforce
  next
    case other
    with st i have "ts' = ts[i := (r, snd (ts ! i))]" by (auto simp: lock_step_def)
    then show ?thesis using lock_inv_upd [OF inv i, of "snd (ts ! i)" r] o other by auto
  qed (use st i in \<open>auto simp: lock_step_def\<close>)
qed

lemma lock_run_inv: "lock_inv ts \<Longrightarrow> lock_run rec sch ts = Some ts' \<Longrightarrow> lock_inv ts'"
  by (induction sch arbitrary: ts) (auto simp: bind_eq_Some_conv intro: lock_step_inv)

lemma no_bad_unlock: "lock_inv ts \<Longrightarrow> \<not> bad_unlock ts"
  by (force simp: lock_inv_def bad_unlock_def)

text \<open>A blocked thread waits for a mutex that another thread holds and that comes after all
  its own.\<close>

lemma blocked_waits:
  assumes inv: "lock_inv ts" and i: "i < length ts" and p: "fst (ts ! i) \<noteq> []" and st: "lock_step rec i ts = None"
  obtains m j where "j < length ts" "m \<in> set (snd (ts ! j))" "\<forall>x \<in> set (snd (ts ! i)). rank x < rank m"
proof -
  have o: "ordered rank rec (snd (ts ! i)) (fst (ts ! i))" using inv i by (auto simp: lock_inv_def)
  obtain m r where l: "fst (ts ! i) = Lock m # r" "blocked rec ts i m"
    using st i p o by (cases "fst (ts ! i)"; cases "hd (fst (ts ! i))") (auto simp: lock_step_def split: if_splits)
  have excl: "m \<notin> set (snd (ts ! j))" if "j < length ts" "j \<noteq> i" "m \<in> set (snd (ts ! i))" for j
    using inv i that by (auto simp: lock_inv_def)
  have "\<not> (rec m \<and> m \<in> set (snd (ts ! i)))" using l(2) excl by (auto simp: blocked_def)
  then have below: "\<forall>x \<in> set (snd (ts ! i)). rank x < rank m" using o l(1) by auto
  then have "m \<notin> set (snd (ts ! i))" by auto
  with l(2) obtain j where "j < length ts" "m \<in> set (snd (ts ! j))" by (auto simp: blocked_def)
  with below that show thesis by blast
qed

lemma no_deadlock:
  assumes inv: "lock_inv ts"
  shows "\<not> deadlocked rec ts"
proof
  assume d: "deadlocked rec ts"
  let ?H = "\<Union>j < length ts. set (snd (ts ! j))"
  obtain i where i: "i < length ts" "fst (ts ! i) \<noteq> []" using d by (auto simp: deadlocked_def finished_def in_set_conv_nth)
  obtain m j where "j < length ts" "m \<in> set (snd (ts ! j))"
    using blocked_waits [OF inv i] d i by (metis deadlocked_def)
  then have "m \<in> ?H" "finite ?H" by auto
  then have "?H \<noteq> {}" "finite ?H" by blast+
  then have mx: "Max (rank ` ?H) \<in> rank ` ?H" and top: "\<And>y. y \<in> ?H \<Longrightarrow> rank y \<le> Max (rank ` ?H)" by (simp_all only: Max_in finite_imageI image_is_empty not_False_eq_True Max_ge imageI)
  from mx obtain x where x0: "Max (rank ` ?H) = rank x" "x \<in> ?H" by (rule imageE)
  then have x: "x \<in> ?H" "\<And>y. y \<in> ?H \<Longrightarrow> rank y \<le> rank x" using top by simp_all
  from x(1) obtain k where k: "k < length ts" "x \<in> set (snd (ts ! k))" by auto
  have "ordered rank rec (snd (ts ! k)) (fst (ts ! k))" using inv k by (auto simp: lock_inv_def)
  with k have p: "fst (ts ! k) \<noteq> []" by auto
  obtain m' j' where m': "j' < length ts" "m' \<in> set (snd (ts ! j'))" "rank x < rank m'"
    using blocked_waits [OF inv k(1) p] d k by (metis deadlocked_def)
  then have "rank m' \<le> rank x" using x(2) [of m'] by blast
  with m'(3) show False by simp
qed

lemma step_shortens:
  assumes "lock_step rec i ts = Some ts'"
  shows "sum_list (map (length \<circ> fst) ts') < sum_list (map (length \<circ> fst) ts)"
proof -
  have i: "i < length ts" using assms by (auto simp: lock_step_def split: if_splits)
  obtain r h where u: "ts' = ts[i := (r, h)]" "length r < length (fst (ts ! i))"
    using assms i by (auto simp: lock_step_def split: if_splits list.splits lock_op.splits)
  have t: "ts = take i ts @ ts ! i # drop (Suc i) ts" using i by (rule id_take_nth_drop)
  have "ts' = take i ts @ (r, h) # drop (Suc i) ts" using u(1) i by (simp add: upd_conv_take_nth_drop)
  then show ?thesis using u(2) by (subst t) simp
qed

lemma can_finish:
  assumes "lock_inv ts"
  shows "\<exists>sch ts'. lock_run rec sch ts = Some ts' \<and> finished ts'"
  using assms
proof (induction "sum_list (map (length \<circ> fst) ts)" arbitrary: ts rule: less_induct)
  case less
  show ?case
  proof (cases "finished ts")
    case True
    then have "lock_run rec [] ts = Some ts \<and> finished ts" by simp
    then show ?thesis by blast
  next
    case False
    then obtain i ts1 where s: "lock_step rec i ts = Some ts1" using no_deadlock [OF less.prems] by (auto simp: deadlocked_def)
    obtain sch ts' where "lock_run rec sch ts1 = Some ts'" "finished ts'"
      using less.hyps [OF step_shortens [OF s] lock_step_inv [OF less.prems s]] by blast
    with s show ?thesis by (intro exI [of _ "i # sch"]) auto
  qed
qed

text \<open>Threads that make good calls only never reach a deadlock, never unlock what they do not hold, and
  can all finish, whatever happened so far.\<close>

lemma calls_finish:
  assumes "\<forall>cs \<in> set css. \<forall>c \<in> set cs. good c" and "lock_run rec sch (call_threads locks css) = Some ts"
  shows "\<not> deadlocked rec ts \<and> \<not> bad_unlock ts \<and> (\<exists>sch' ts'. lock_run rec sch' ts = Some ts' \<and> finished ts')"
proof -
  have "lock_inv ts" by (rule lock_run_inv [OF lock_inv_start [OF assms(1)] assms(2)])
  then show ?thesis using no_deadlock no_bad_unlock can_finish by blast
qed

end

end
