(* ===== verification/Thread_Wrappers.thy ===== *)
theory Thread_Wrappers
  imports Campagnol_Prelude Lock_Order
begin

text \<open>
  The wrappers of the thread library (\<^verbatim>\<open>common/pthread_wrap.h\<close>) and of the semaphores
  (\<^verbatim>\<open>common/sem_wrap.h\<close>), which abort the program on every error that they do not pass on. The
  mutexes themselves follow POSIX: an owner and a number of locks for each of them. A call returns, waits,
  aborts the program, or is undefined (\<open>Faults\<close>: a mutex that is not initialised, an unlock by another
  thread). POSIX allows a limit on the recursive locks of one mutex, which is left out: it is far above what the
  program uses.

  The last part relates these mutexes to the abstract ones of \<open>Lock_Order\<close>: threads that lock and unlock mutexes
  which are in place, and only unlock what they hold, never abort and never fault.
\<close>

section \<open>Results\<close>

datatype 'a outcome = Returns 'a | Waits | Aborts | Faults

text \<open>What a call of the library gives: a code and a result, no end so far, or undefined behaviour.\<close>

datatype 'a answer = Code int 'a | Blocks | Undefined

text \<open>Error numbers; their values are those of Linux.\<close>

abbreviation (input) EPERM :: int where "EPERM \<equiv> 1"
abbreviation (input) EINTR :: int where "EINTR \<equiv> 4"
abbreviation (input) EAGAIN :: int where "EAGAIN \<equiv> 11"
abbreviation (input) EBUSY :: int where "EBUSY \<equiv> 16"
abbreviation (input) ETIMEDOUT :: int where "ETIMEDOUT \<equiv> 110"

fun checked :: "'a answer \<Rightarrow> 'a outcome" where
  "checked (Code r x) = (if r \<noteq> 0 then Aborts else Returns x)"
| "checked Blocks = Waits"
| "checked Undefined = Faults"

section \<open>Mutexes\<close>

datatype mutex_type = PTHREAD_MUTEX_DEFAULT | PTHREAD_MUTEX_RECURSIVE

record pthread_mutex =
  mx_type :: mutex_type
  mx_owner :: "nat option"
  mx_count :: nat

type_synonym 'm mutexes = "'m \<Rightarrow> pthread_mutex option"

definition unlocked_mutex :: "mutex_type \<Rightarrow> pthread_mutex" where
  "unlocked_mutex ty = \<lparr>mx_type = ty, mx_owner = None, mx_count = 0\<rparr>"

text \<open>The functions of the library. The first argument of \<open>init\<close> is the error that it reports, if any; \<open>None\<close> as
  attributes is the null pointer. Threads are numbers.\<close>

definition pthread_mutex_init :: "int \<Rightarrow> 'm \<Rightarrow> mutex_type option \<Rightarrow> 'm mutexes \<Rightarrow> 'm mutexes answer" where
  "pthread_mutex_init r m attrs s =
     (if s m \<noteq> None then Undefined
      else if r \<noteq> 0 then Code r s
      else Code 0 (s(m \<mapsto> unlocked_mutex (case attrs of None \<Rightarrow> PTHREAD_MUTEX_DEFAULT | Some ty \<Rightarrow> ty))))"

definition pthread_mutex_destroy :: "'m \<Rightarrow> 'm mutexes \<Rightarrow> 'm mutexes answer" where
  "pthread_mutex_destroy m s =
     (case s m of None \<Rightarrow> Undefined | Some x \<Rightarrow> if mx_owner x \<noteq> None then Code EBUSY s else Code 0 (s(m := None)))"

definition pthread_mutex_lock :: "nat \<Rightarrow> 'm \<Rightarrow> 'm mutexes \<Rightarrow> 'm mutexes answer" where
  "pthread_mutex_lock t m s =
     (case s m of
        None \<Rightarrow> Undefined
      | Some x \<Rightarrow>
          if mx_owner x = None then Code 0 (s(m \<mapsto> x\<lparr>mx_owner := Some t, mx_count := 1\<rparr>))
          else if mx_owner x = Some t \<and> mx_type x = PTHREAD_MUTEX_RECURSIVE then Code 0 (s(m \<mapsto> x\<lparr>mx_count := mx_count x + 1\<rparr>))
          else Blocks)"

definition pthread_mutex_unlock :: "nat \<Rightarrow> 'm \<Rightarrow> 'm mutexes \<Rightarrow> 'm mutexes answer" where
  "pthread_mutex_unlock t m s =
     (case s m of
        None \<Rightarrow> Undefined
      | Some x \<Rightarrow>
          if mx_owner x = Some t then
            (if mx_count x \<le> 1 then Code 0 (s(m \<mapsto> x\<lparr>mx_owner := None, mx_count := 0\<rparr>))
             else Code 0 (s(m \<mapsto> x\<lparr>mx_count := mx_count x - 1\<rparr>)))
          else if mx_type x = PTHREAD_MUTEX_RECURSIVE then Code EPERM s
          else Undefined)"

definition mutexInit :: "int \<Rightarrow> 'm \<Rightarrow> mutex_type option \<Rightarrow> 'm mutexes \<Rightarrow> 'm mutexes outcome" where
  "mutexInit r m attrs s = checked (pthread_mutex_init r m attrs s)"

definition mutexDestroy :: "'m \<Rightarrow> 'm mutexes \<Rightarrow> 'm mutexes outcome" where
  "mutexDestroy m s = checked (pthread_mutex_destroy m s)"

definition mutexLock :: "nat \<Rightarrow> 'm \<Rightarrow> 'm mutexes \<Rightarrow> 'm mutexes outcome" where
  "mutexLock t m s = checked (pthread_mutex_lock t m s)"

definition mutexUnlock :: "nat \<Rightarrow> 'm \<Rightarrow> 'm mutexes \<Rightarrow> 'm mutexes outcome" where
  "mutexUnlock t m s = checked (pthread_mutex_unlock t m s)"

text \<open>Attributes: \<open>None\<close> is an object that is not initialised.\<close>

definition mutexattrInit :: "int \<Rightarrow> mutex_type option outcome" where
  "mutexattrInit r = checked (Code r (Some PTHREAD_MUTEX_DEFAULT))"

definition mutexattrSettype :: "int \<Rightarrow> mutex_type \<Rightarrow> mutex_type option \<Rightarrow> mutex_type option outcome" where
  "mutexattrSettype r ty attrs = checked (if attrs = None then Undefined else Code r (Some ty))"

definition mutexattrDestroy :: "int \<Rightarrow> mutex_type option \<Rightarrow> mutex_type option outcome" where
  "mutexattrDestroy r attrs = checked (if attrs = None then Undefined else Code r None)"

section \<open>Condition variables and threads\<close>

text \<open>The argument is what the library returns. A timed wait passes the timeout on.\<close>

definition conditionInit :: "int \<Rightarrow> unit outcome" where
  "conditionInit r = checked (Code r ())"

definition conditionDestroy :: "int \<Rightarrow> unit outcome" where
  "conditionDestroy r = checked (Code r ())"

definition conditionWait :: "int \<Rightarrow> int outcome" where
  "conditionWait r = (if r \<noteq> 0 then Aborts else Returns r)"

definition conditionTimedwait :: "int \<Rightarrow> int outcome" where
  "conditionTimedwait r = (if r \<noteq> 0 \<and> r \<noteq> ETIMEDOUT then Aborts else Returns r)"

definition conditionBroadcast :: "int \<Rightarrow> int outcome" where
  "conditionBroadcast r = (if r \<noteq> 0 then Aborts else Returns r)"

definition conditionSignal :: "int \<Rightarrow> int outcome" where
  "conditionSignal r = (if r \<noteq> 0 then Aborts else Returns r)"

text \<open>The code and the thread that \<^verbatim>\<open>pthread_create\<close> gives; the code of \<^verbatim>\<open>pthread_detach\<close> for a thread.\<close>

definition createThread :: "int \<times> 't \<Rightarrow> 't outcome" where
  "createThread created = checked (Code (fst created) (snd created))"

definition createDetachedThread :: "int \<times> 't \<Rightarrow> ('t \<Rightarrow> int) \<Rightarrow> 't outcome" where
  "createDetachedThread created detach =
     (case createThread created of
        Returns thread \<Rightarrow> checked (Code (detach thread) thread)
      | other \<Rightarrow> other)"

definition joinThread :: "int \<Rightarrow> unit outcome" where
  "joinThread r = checked (Code r ())"

section \<open>Semaphores\<close>

text \<open>The calls of a waiting function return \<open>(r, errno)\<close> one after the other; the list holds those that have
  returned. On Linux an interrupted call is repeated; \<open>pass\<close> is the error that is passed on.\<close>

fun sem_retry :: "(int \<times> int) list \<Rightarrow> (int \<times> int) option" where
  "sem_retry [] = None"
| "sem_retry ((r, e) # calls) = (if r \<noteq> 0 \<and> e = EINTR then sem_retry calls else Some (r, e))"

fun sem_once :: "(int \<times> int) list \<Rightarrow> (int \<times> int) option" where
  "sem_once [] = None"
| "sem_once (c # calls) = Some c"

definition sem_call :: "bool \<Rightarrow> (int \<times> int) list \<Rightarrow> (int \<times> int) option" where
  "sem_call have_linux calls = (if have_linux then sem_retry calls else sem_once calls)"

definition semWait :: "bool \<Rightarrow> (int \<times> int) list \<Rightarrow> int outcome" where
  "semWait have_linux calls =
     (case sem_call have_linux calls of None \<Rightarrow> Waits | Some (r, e) \<Rightarrow> if r \<noteq> 0 then Aborts else Returns r)"

definition semTimedwait :: "bool \<Rightarrow> (int \<times> int) list \<Rightarrow> int outcome" where
  "semTimedwait have_linux calls =
     (case sem_call have_linux calls of None \<Rightarrow> Waits | Some (r, e) \<Rightarrow> if r \<noteq> 0 \<and> e \<noteq> ETIMEDOUT then Aborts else Returns r)"

definition semTrywait :: "bool \<Rightarrow> (int \<times> int) list \<Rightarrow> int outcome" where
  "semTrywait have_linux calls =
     (case sem_call have_linux calls of None \<Rightarrow> Waits | Some (r, e) \<Rightarrow> if r \<noteq> 0 \<and> e \<noteq> EAGAIN then Aborts else Returns r)"

definition semInit :: "int \<Rightarrow> unit outcome" where
  "semInit r = checked (Code r ())"

definition semDestroy :: "int \<Rightarrow> unit outcome" where
  "semDestroy r = checked (Code r ())"

definition semPost :: "int \<Rightarrow> unit outcome" where
  "semPost r = checked (Code r ())"

definition semGetValue :: "int \<times> int \<Rightarrow> int outcome" where
  "semGetValue got = checked (Code (fst got) (snd got))"

text \<open>A wait on Linux goes over any number of interruptions and then behaves like a single call.\<close>

lemma sem_call_interrupted:
  assumes "\<forall>c \<in> set interrupted. fst c \<noteq> 0 \<and> snd c = EINTR" and "r = 0 \<or> e \<noteq> EINTR"
  shows "sem_call True (interrupted @ (r, e) # calls) = sem_call False [(r, e)]"
  using assms by (induction interrupted) (auto simp: sem_call_def)

section \<open>Threads over mutexes\<close>

fun lock_call :: "nat \<Rightarrow> 'm lock_op \<Rightarrow> 'm mutexes \<Rightarrow> 'm mutexes outcome" where
  "lock_call t (Lock m) s = mutexLock t m s"
| "lock_call t (Unlock m) s = mutexUnlock t m s"
| "lock_call t (Init m) s = mutexInit 0 m None s"
| "lock_call t (Destroy m) s = mutexDestroy m s"
| "lock_call t Block s = Waits"

text \<open>One operation of thread \<open>i\<close>; a thread at its end or behind a locked mutex waits.\<close>

definition posix_step :: "nat \<Rightarrow> 'm lock_op list list \<times> 'm mutexes \<Rightarrow> ('m lock_op list list \<times> 'm mutexes) outcome" where
  "posix_step i x =
     (case x of (ps, s) \<Rightarrow>
        if i < length ps then
          (case ps ! i of
             [] \<Rightarrow> Waits
           | a # r \<Rightarrow> (case lock_call i a s of
                Returns s' \<Rightarrow> Returns (ps[i := r], s') | Waits \<Rightarrow> Waits | Aborts \<Rightarrow> Aborts | Faults \<Rightarrow> Faults))
        else Waits)"

fun posix_run :: "nat list \<Rightarrow> 'm lock_op list list \<times> 'm mutexes \<Rightarrow> ('m lock_op list list \<times> 'm mutexes) outcome" where
  "posix_run [] x = Returns x"
| "posix_run (i # sch) x =
     (case posix_step i x of
        Returns y \<Rightarrow> posix_run sch y | Waits \<Rightarrow> posix_run sch x | Aborts \<Rightarrow> Aborts | Faults \<Rightarrow> Faults)"

definition init_mutexes :: "('m \<Rightarrow> bool) \<Rightarrow> 'm mutexes" where
  "init_mutexes rec = (\<lambda>m. Some (unlocked_mutex (if rec m then PTHREAD_MUTEX_RECURSIVE else PTHREAD_MUTEX_DEFAULT)))"

text \<open>A program that starts with the mutexes \<open>h\<close>, locks and unlocks only, unlocks only what it holds, and all of it.\<close>

fun balanced :: "'m list \<Rightarrow> 'm lock_op list \<Rightarrow> bool" where
  "balanced h [] = (h = [])"
| "balanced h (Lock m # r) = balanced (m # h) r"
| "balanced h (Unlock m # r) = (m \<in> set h \<and> balanced (remove1 m h) r)"
| "balanced h (_ # r) = False"

section \<open>The mutexes implement the abstract ones\<close>

text \<open>The lists of held mutexes and the owners and counters agree.\<close>

definition mutex_agrees :: "('m \<Rightarrow> bool) \<Rightarrow> 'm lock_threads \<Rightarrow> 'm \<Rightarrow> pthread_mutex \<Rightarrow> bool" where
  "mutex_agrees rec ts m x \<longleftrightarrow>
     mx_type x = (if rec m then PTHREAD_MUTEX_RECURSIVE else PTHREAD_MUTEX_DEFAULT) \<and>
     (mx_owner x = None \<longleftrightarrow> mx_count x = 0) \<and> (\<forall>t. mx_owner x = Some t \<longrightarrow> t < length ts) \<and>
     (\<forall>i < length ts. count_list (snd (ts ! i)) m = (if mx_owner x = Some i then mx_count x else 0))"

definition mutex_rel :: "('m \<Rightarrow> bool) \<Rightarrow> 'm lock_threads \<Rightarrow> 'm mutexes \<Rightarrow> bool" where
  "mutex_rel rec ts s \<longleftrightarrow> (\<forall>m. \<exists>x. s m = Some x \<and> mutex_agrees rec ts m x)"

lemma mutex_relE:
  assumes "mutex_rel rec ts s" obtains x where "s m = Some x" and "mutex_agrees rec ts m x"
  using assms that unfolding mutex_rel_def by blast

lemma mutex_rel_at: "mutex_rel rec ts s \<Longrightarrow> s m = Some x \<Longrightarrow> mutex_agrees rec ts m x"
  by (metis mutex_rel_def option.inject)

lemma mutex_rel_init: "\<forall>t \<in> set ts. snd t = [] \<Longrightarrow> mutex_rel rec ts (init_mutexes rec)"
  by (simp add: mutex_rel_def mutex_agrees_def init_mutexes_def unlocked_mutex_def)

lemma mutex_agreesD:
  assumes "mutex_agrees rec ts m x"
  shows "mx_type x = PTHREAD_MUTEX_RECURSIVE \<longleftrightarrow> rec m" and "mx_owner x = None \<longleftrightarrow> mx_count x = 0"
    and "mx_owner x = Some t \<Longrightarrow> t < length ts"
    and "i < length ts \<Longrightarrow> count_list (snd (ts ! i)) m = (if mx_owner x = Some i then mx_count x else 0)"
  using assms unfolding mutex_agrees_def by (auto split: if_split_asm)

lemma held_iff_owner:
  assumes "mutex_agrees rec ts m x" and "i < length ts"
  shows "m \<in> set (snd (ts ! i)) \<longleftrightarrow> mx_owner x = Some i"
proof -
  have "m \<in> set (snd (ts ! i)) \<longleftrightarrow> count_list (snd (ts ! i)) m \<noteq> 0" by (simp add: count_list_0_iff)
  with mutex_agreesD(2) [OF assms(1)] mutex_agreesD(4) [OF assms] show ?thesis by (auto split: if_splits)
qed

lemma blocked_iff:
  assumes x: "mutex_agrees rec ts m x" and i: "i < length ts"
  shows "blocked rec ts i m \<longleftrightarrow> mx_owner x \<noteq> None \<and> \<not> (mx_owner x = Some i \<and> mx_type x = PTHREAD_MUTEX_RECURSIVE)"
proof -
  have held: "m \<in> set (snd (ts ! j)) \<longleftrightarrow> mx_owner x = Some j" if "j < length ts" for j
    using held_iff_owner [OF x that] .
  show ?thesis unfolding blocked_def using held mutex_agreesD(1,3) [OF x] i by (cases "mx_owner x") auto
qed

text \<open>The agreement after a change of one mutex and of the list of the thread that changes it.\<close>

lemma mutex_rel_upd:
  assumes r: "mutex_rel rec ts s" and i: "i < length ts" and x: "s m = Some x"
    and ty: "mx_type x' = mx_type x" and own: "mx_owner x' = None \<longleftrightarrow> mx_count x' = 0" "mx_owner x' = None \<or> mx_owner x' = Some i"
    and others: "\<And>j. j < length ts \<Longrightarrow> j \<noteq> i \<Longrightarrow> m \<notin> set (snd (ts ! j))"
    and cnt: "count_list h m = mx_count x'" and rest: "\<And>k. k \<noteq> m \<Longrightarrow> count_list h k = count_list (snd (ts ! i)) k"
  shows "mutex_rel rec (ts[i := (p, h)]) (s(m \<mapsto> x'))"
  unfolding mutex_rel_def
proof
  fix k
  show "\<exists>y. (s(m \<mapsto> x')) k = Some y \<and> mutex_agrees rec (ts[i := (p, h)]) k y"
  proof (cases "k = m")
    case True
    have "count_list (snd (ts[i := (p, h)] ! j)) m = (if mx_owner x' = Some j then mx_count x' else 0)" if "j < length ts" for j
      using others [OF that] own cnt that i by (cases "j = i") (auto simp: count_list_0_iff)
    moreover have "mx_type x' = (if rec m then PTHREAD_MUTEX_RECURSIVE else PTHREAD_MUTEX_DEFAULT)"
      using mutex_rel_at [OF r x] ty by (simp add: mutex_agrees_def)
    ultimately show ?thesis using True own i by (auto simp: mutex_agrees_def)
  next
    case False
    from r obtain y where y: "s k = Some y" "mutex_agrees rec ts k y" by (rule mutex_relE)
    have "count_list (snd (ts[i := (p, h)] ! j)) k = count_list (snd (ts ! j)) k" if "j < length ts" for j
      using rest [OF False] that i by (cases "j = i") simp_all
    with False y show ?thesis by (simp add: mutex_agrees_def)
  qed
qed

lemma count_list_remove1: "count_list (remove1 m h) k = count_list h k - (if k = m then 1 else 0)"
  by (induction h) (auto simp: count_list_0_iff Suc_diff_le Suc_le_eq neq0_conv [symmetric])

lemma mutexLock_refines:
  assumes r: "mutex_rel rec ts s" and i: "i < length ts" and p: "fst (ts ! i) = Lock m # q"
  shows "case lock_step rec i ts of
     Some ts' \<Rightarrow> \<exists>s'. mutexLock i m s = Returns s' \<and> mutex_rel rec ts' s' | None \<Rightarrow> mutexLock i m s = Waits"
proof -
  obtain x where x: "s m = Some x" and agr: "mutex_agrees rec ts m x" using r by (rule mutex_relE)
  note cnt = mutex_agreesD(2) [OF agr] mutex_agreesD(4) [OF agr i]
  note b = blocked_iff [OF agr i]
  show ?thesis
  proof (cases "blocked rec ts i m")
    case True
    then show ?thesis using i p b x by (auto simp: lock_step_def mutexLock_def pthread_mutex_lock_def)
  next
    case False
    let ?x = "x\<lparr>mx_owner := Some i, mx_count := mx_count x + 1\<rparr>"
    have own: "mx_owner x = None \<or> mx_owner x = Some i" using False b by auto
    have "x\<lparr>mx_count := mx_count x + 1\<rparr> = ?x" if "mx_owner x = Some i" using that by simp
    then have s': "mutexLock i m s = Returns (s(m \<mapsto> ?x))"
      using False b x cnt(1) by (auto simp: mutexLock_def pthread_mutex_lock_def)
    have "mutex_rel rec (ts[i := (q, m # snd (ts ! i))]) (s(m \<mapsto> ?x))"
    proof (rule mutex_rel_upd [OF r i x])
      show "m \<notin> set (snd (ts ! j))" if "j < length ts" "j \<noteq> i" for j
        using held_iff_owner [OF agr that(1)] own that(2) by auto
      show "count_list (m # snd (ts ! i)) m = mx_count ?x" using cnt own by auto
    qed simp_all
    with s' False i p show ?thesis by (simp add: lock_step_def)
  qed
qed

lemma mutexUnlock_refines:
  assumes r: "mutex_rel rec ts s" and i: "i < length ts" and p: "fst (ts ! i) = Unlock m # q" and held: "m \<in> set (snd (ts ! i))"
  shows "\<exists>ts' s'. lock_step rec i ts = Some ts' \<and> mutexUnlock i m s = Returns s' \<and> mutex_rel rec ts' s'"
proof -
  obtain x where x: "s m = Some x" and agr: "mutex_agrees rec ts m x" using r by (rule mutex_relE)
  note cnt = mutex_agreesD(2) [OF agr] mutex_agreesD(4) [OF agr i]
  have own: "mx_owner x = Some i" using held_iff_owner [OF agr i] held by simp
  let ?x = "x\<lparr>mx_owner := if mx_count x \<le> 1 then None else Some i, mx_count := mx_count x - 1\<rparr>"
  have "x\<lparr>mx_owner := Some i, mx_count := c\<rparr> = x\<lparr>mx_count := c\<rparr>" for c using own by simp
  then have s': "mutexUnlock i m s = Returns (s(m \<mapsto> ?x))"
    using own x by (auto simp: mutexUnlock_def pthread_mutex_unlock_def)
  have "mutex_rel rec (ts[i := (q, remove1 m (snd (ts ! i)))]) (s(m \<mapsto> ?x))"
  proof (rule mutex_rel_upd [OF r i x])
    show "m \<notin> set (snd (ts ! j))" if "j < length ts" "j \<noteq> i" for j
      using held_iff_owner [OF agr that(1)] own that(2) by auto
    show "count_list (remove1 m (snd (ts ! i))) m = mx_count ?x" using cnt own by (simp add: count_list_remove1)
  qed (auto simp: count_list_remove1)
  with s' held i p show ?thesis by (simp add: lock_step_def)
qed

text \<open>A state in which every thread is balanced.\<close>

definition threads_balanced :: "'m lock_threads \<Rightarrow> bool" where
  "threads_balanced ts \<longleftrightarrow> (\<forall>t \<in> set ts. balanced (snd t) (fst t))"

lemma lock_step_balanced:
  assumes "threads_balanced ts" and "lock_step rec i ts = Some ts'"
  shows "threads_balanced ts'"
proof -
  have i: "i < length ts" and b: "balanced (snd (ts ! i)) (fst (ts ! i))"
    using assms by (auto simp: lock_step_def threads_balanced_def split: if_splits)
  from assms(2) i b obtain t where "ts' = ts[i := t]" "balanced (snd t) (fst t)"
    by (auto simp: lock_step_def split: if_splits list.splits lock_op.splits)
  with assms(1) set_update_subset_insert [of ts i t] show ?thesis by (auto simp: threads_balanced_def)
qed

text \<open>The simulation: a step over the mutexes is the abstract step, or both wait.\<close>

lemma posix_step_refines:
  assumes r: "mutex_rel rec ts s" and b: "threads_balanced ts"
  shows "case lock_step rec i ts of
     Some ts' \<Rightarrow> \<exists>s'. posix_step i (map fst ts, s) = Returns (map fst ts', s') \<and> mutex_rel rec ts' s'
   | None \<Rightarrow> posix_step i (map fst ts, s) = Waits"
proof (cases "i < length ts \<and> fst (ts ! i) \<noteq> []")
  case False
  then show ?thesis by (auto simp: lock_step_def posix_step_def)
next
  case True
  then obtain a q where i: "i < length ts" and p: "fst (ts ! i) = a # q" by (auto simp: neq_Nil_conv)
  have bal: "balanced (snd (ts ! i)) (a # q)" using b i p [symmetric] by (auto simp: threads_balanced_def)
  show ?thesis
  proof (cases a)
    case (Lock m)
    have step: "lock_step rec i ts = (if blocked rec ts i m then None else Some (ts[i := (q, m # snd (ts ! i))]))"
      using i p Lock by (simp add: lock_step_def)
    show ?thesis using mutexLock_refines [OF r i] p Lock i step by (auto simp: posix_step_def map_update)
  next
    case (Unlock m)
    then have held: "m \<in> set (snd (ts ! i))" using bal by simp
    have step: "lock_step rec i ts = Some (ts[i := (q, remove1 m (snd (ts ! i)))])"
      using i p Unlock held by (simp add: lock_step_def)
    show ?thesis using mutexUnlock_refines [OF r i _ held] p Unlock i step by (auto simp: posix_step_def map_update)
  qed (use bal in simp_all)
qed

lemma posix_run_refines:
  assumes "mutex_rel rec ts s" and "threads_balanced ts"
  shows "\<exists>sch' ts' s'. lock_run rec sch' ts = Some ts' \<and> posix_run sch (map fst ts, s) = Returns (map fst ts', s') \<and>
    mutex_rel rec ts' s' \<and> threads_balanced ts'"
  using assms
proof (induction sch arbitrary: ts s)
  case Nil
  then have "lock_run rec [] ts = Some ts" by simp
  with Nil show ?case by fastforce
next
  case (Cons i sch)
  show ?case
  proof (cases "lock_step rec i ts")
    case None
    then have "posix_step i (map fst ts, s) = Waits" using posix_step_refines [OF Cons.prems, of i] by simp
    with Cons show ?thesis by simp
  next
    case (Some ts1)
    then obtain s1 where s1: "posix_step i (map fst ts, s) = Returns (map fst ts1, s1)" "mutex_rel rec ts1 s1"
      using posix_step_refines [OF Cons.prems, of i] by auto
    from Cons.IH [OF s1(2) lock_step_balanced [OF Cons.prems(2) Some]] obtain sch' ts' s' where
      "lock_run rec sch' ts1 = Some ts'" "posix_run sch (map fst ts1, s1) = Returns (map fst ts', s')"
      "mutex_rel rec ts' s'" "threads_balanced ts'" by blast
    with Some s1 show ?thesis by (intro exI [of _ "i # sch'"]) auto
  qed
qed

text \<open>Threads at their end hold nothing, and every mutex can be destroyed.\<close>

lemma mutex_rel_finished:
  assumes r: "mutex_rel rec ts s" and b: "threads_balanced ts" and f: "finished ts"
  shows "s = init_mutexes rec"
proof
  fix m
  obtain x where x: "s m = Some x" and agr: "mutex_agrees rec ts m x" using r by (rule mutex_relE)
  have "snd t = []" if "t \<in> set ts" for t using b f that by (auto simp: threads_balanced_def finished_def)
  then have "mx_owner x = None" using held_iff_owner [OF agr] mutex_agreesD(3) [OF agr] by (cases "mx_owner x") (auto dest: nth_mem)
  with x agr show "s m = init_mutexes rec m" by (cases x) (simp add: init_mutexes_def unlocked_mutex_def mutex_agrees_def)
qed



end
