(* ===== verification/Tun_Device.thy ===== *)
theory Tun_Device
  imports Tun_Commands Thread_Wrappers
begin

text \<open>
  The TUN device on Linux, FreeBSD, NetBSD and OpenBSD (\<^verbatim>\<open>client/tun_device_linux.c\<close>, \<^verbatim>\<open>client/tun_device_freebsd.c\<close>,
  \<^verbatim>\<open>client/tun_device_netbsd.c\<close>, \<^verbatim>\<open>client/tun_device_openbsd.c\<close>, \<^verbatim>\<open>client/tun_device.h\<close>): creation, configuration
  commands, shut down, and the transfer of packets. What the system calls return is an input. The state holds the
  open descriptors, the name that the static variable \<^verbatim>\<open>device\<close> points to, and the calls that configure the device, in their
  order.

  The locale \<open>tun_driver\<close> is what the main program relies on: a creation that fails leaves everything as it was, one that
  succeeds adds one descriptor, and the shut down gives it back.
\<close>

section \<open>State and system calls\<close>

datatype tun_op = Set_iff u16 "char list" | Set_txqlen "char list" int | Run string

record tun_state =
  open_fds :: "int set"
  device :: "string option"
  tun_ops :: "tun_op list"

record tun_calls =
  tc_open :: "string \<Rightarrow> int"
  tc_setiff :: "u16 \<Rightarrow> char list \<Rightarrow> char list option"
  tc_ioctl :: "string \<Rightarrow> bool"
  tc_socket :: int
  tc_devname :: "int \<Rightarrow> string"

text \<open>\<^verbatim>\<open>strncpy\<close> into an array of \<open>n\<close> characters; the string in an array, \<open>None\<close> when it has no end.\<close>

definition strncpy :: "string \<Rightarrow> nat \<Rightarrow> char list" where
  "strncpy s n = take n (s @ replicate n NUL)"

definition string_in :: "char list \<Rightarrow> string option" where
  "string_in a = (if NUL \<in> set a then Some (takeWhile (\<lambda>c. c \<noteq> NUL) a) else None)"

definition open_fd :: "int \<Rightarrow> tun_state \<Rightarrow> tun_state" where
  "open_fd fd s = s\<lparr>open_fds := insert fd (open_fds s)\<rparr>"

definition close_fd :: "int \<Rightarrow> tun_state \<Rightarrow> tun_state" where
  "close_fd fd s = s\<lparr>open_fds := open_fds s - {fd}\<rparr>"

definition do_op :: "tun_op \<Rightarrow> tun_state \<Rightarrow> tun_state" where
  "do_op a s = s\<lparr>tun_ops := tun_ops s @ [a]\<rparr>"

definition run_up :: "string list \<Rightarrow> configuration \<Rightarrow> string \<Rightarrow> tun_state \<Rightarrow> tun_state option" where
  "run_up defaults c d s = map_option (\<lambda>cmds. s\<lparr>tun_ops := tun_ops s @ map Run cmds\<rparr>) (exec_up_commands (Some defaults) c d)"

definition run_down :: "string list \<Rightarrow> configuration \<Rightarrow> string \<Rightarrow> tun_state \<Rightarrow> tun_state option" where
  "run_down defaults c d s = map_option (\<lambda>cmds. s\<lparr>tun_ops := tun_ops s @ map Run cmds\<rparr>) (exec_down_commands (Some defaults) c d)"

section \<open>Linux\<close>

definition linux_default_up :: "string list" where
  "linux_default_up = [''ifconfig %D %V mtu %M up'', ''ip route replace %N via %V || route add -net %N gw %V'']"

definition linux_default_down :: "string list" where
  "linux_default_down = []"

abbreviation (input) IFNAMSIZ :: nat where "IFNAMSIZ \<equiv> 16"
abbreviation (input) IFF_TUN :: u16 where "IFF_TUN \<equiv> 0x0001"
abbreviation (input) IFF_NO_PI :: u16 where "IFF_NO_PI \<equiv> 0x1000"
abbreviation (input) IFF_ONE_QUEUE :: u16 where "IFF_ONE_QUEUE \<equiv> 0x2000"
abbreviation (input) TUN_READQ_SIZE :: int where "TUN_READQ_SIZE \<equiv> 500"

definition linux_ifr_flags :: "configuration \<Rightarrow> u16" where
  "linux_ifr_flags c = (let flags = or IFF_TUN IFF_NO_PI in if tun_one_queue c \<noteq> 0 then or flags IFF_ONE_QUEUE else flags)"

definition linux_ifr_name :: "configuration \<Rightarrow> char list" where
  "linux_ifr_name c =
     (case tun_device c of
        Some d \<Rightarrow> (strncpy d IFNAMSIZ)[IFNAMSIZ - 1 := NUL]
      | None \<Rightarrow> strncpy ''tun%d'' IFNAMSIZ)"

text \<open>The length of the queue is set on a socket of its own; failures are only logged.\<close>

definition linux_txqueue :: "tun_calls \<Rightarrow> configuration \<Rightarrow> char list \<Rightarrow> tun_state \<Rightarrow> tun_state" where
  "linux_txqueue sys c name s =
     (if txqueue c \<noteq> 0 \<and> txqueue c \<noteq> TUN_READQ_SIZE then
        (if tc_socket sys \<ge> 0 then
           (let s1 = open_fd (tc_socket sys) s;
                s2 = (if tc_ioctl sys ''SIOCSIFTXQLEN'' then do_op (Set_txqlen (takeWhile (\<lambda>x. x \<noteq> NUL) name) (txqueue c)) s1 else s1)
            in close_fd (tc_socket sys) s2)
         else s)
      else s)"

definition linux_init_tun :: "tun_calls \<Rightarrow> configuration \<Rightarrow> tun_state \<Rightarrow> (int \<times> tun_state) option" where
  "linux_init_tun sys c s =
     (let tunfd = tc_open sys ''/dev/net/tun'' in
      if tunfd < 0 then Some (-1, s)
      else
        (let s1 = open_fd tunfd s in
         case tc_setiff sys (linux_ifr_flags c) (linux_ifr_name c) of
           None \<Rightarrow> Some (-1, close_fd tunfd s1)
         | Some name \<Rightarrow>
             let s2 = do_op (Set_iff (linux_ifr_flags c) (linux_ifr_name c)) s1 in
             if \<not> tc_ioctl sys ''TUNSETNOCSUM'' then Some (-1, close_fd tunfd s2)
             else do {
               let s3 = linux_txqueue sys c name s2;
               d \<leftarrow> string_in name;
               s4 \<leftarrow> run_up linux_default_up c d (s3\<lparr>device := Some d\<rparr>);
               Some (tunfd, s4)
             }))"

definition linux_close_tun :: "configuration \<Rightarrow> int \<Rightarrow> tun_state \<Rightarrow> tun_state option" where
  "linux_close_tun c fd s =
     do { d \<leftarrow> device s; s1 \<leftarrow> run_down linux_default_down c d s; Some (close_fd fd (s1\<lparr>device := None\<rparr>)) }"

section \<open>FreeBSD\<close>

definition freebsd_default_up :: "string list" where
  "freebsd_default_up = [''ifconfig %D inet %V %V mtu %M up'', ''route add -net %N %V'']"

definition freebsd_default_down :: "string list" where
  "freebsd_default_down = [''ifconfig %D destroy'']"

text \<open>The name of the device comes from the descriptor each time; it is not stored.\<close>

definition freebsd_init_tun :: "tun_calls \<Rightarrow> configuration \<Rightarrow> tun_state \<Rightarrow> (int \<times> tun_state) option" where
  "freebsd_init_tun sys c s =
     (let tunfd = tc_open sys ''/dev/tun'' in
      if tunfd < 0 then Some (-1, s)
      else
        (let s1 = open_fd tunfd s in
         if \<not> tc_ioctl sys ''TUNSLMODE'' then Some (-1, close_fd tunfd s1)
         else if \<not> tc_ioctl sys ''TUNSIFHEAD'' then Some (-1, close_fd tunfd s1)
         else do { s2 \<leftarrow> run_up freebsd_default_up c (tc_devname sys tunfd) s1; Some (tunfd, s2) }))"

definition freebsd_close_tun :: "tun_calls \<Rightarrow> configuration \<Rightarrow> int \<Rightarrow> tun_state \<Rightarrow> tun_state option" where
  "freebsd_close_tun sys c fd s = run_down freebsd_default_down c (tc_devname sys fd) (close_fd fd s)"

section \<open>NetBSD and OpenBSD\<close>

definition tun_path :: "nat \<Rightarrow> string" where
  "tun_path i = ''/dev/tun'' @ show_nat i"

text \<open>The search for the first device that opens, from number \<open>i\<close> on, with the last result of \<^verbatim>\<open>open\<close> so far. The loop
  ends at a descriptor above 0, so descriptor 0 stays open when it is returned.\<close>

function tun_search :: "(string \<Rightarrow> int) \<Rightarrow> nat \<Rightarrow> int \<Rightarrow> tun_state \<Rightarrow> nat \<times> int \<times> tun_state" where
  "tun_search open_dev i tunfd s =
     (if i < 255 then
        (let fd = open_dev (tun_path i); s1 = (if fd < 0 then s else open_fd fd s) in
         if fd > 0 then (i, fd, s1) else tun_search open_dev (i + 1) fd s1)
      else (i, tunfd, s))"
  by pat_completeness auto

termination tun_search
  by (relation "measure (\<lambda>(_, i, _, _). 255 - i)") auto

declare tun_search.simps [simp del]

definition netbsd_default_up :: "string list" where
  "netbsd_default_up = [''ifconfig %D inet %V %V mtu %M up'', ''route add -net %N %V'']"

definition netbsd_default_down :: "string list" where
  "netbsd_default_down = [''ifconfig %D destroy'']"

definition netbsd_init_tun :: "tun_calls \<Rightarrow> configuration \<Rightarrow> tun_state \<Rightarrow> (int \<times> tun_state) option" where
  "netbsd_init_tun sys c s =
     (case tun_search (tc_open sys) 0 0 s of (i, tunfd, s1) \<Rightarrow>
        if tunfd \<le> 0 then Some (-1, s1)
        else if \<not> tc_ioctl sys ''TUNSLMODE'' then Some (-1, close_fd tunfd s1)
        else if \<not> tc_ioctl sys ''TUNSIFHEAD'' then Some (-1, close_fd tunfd s1)
        else (let d = ''tun'' @ show_nat i in
              do { s2 \<leftarrow> run_up netbsd_default_up c d (s1\<lparr>device := Some d\<rparr>); Some (tunfd, s2) }))"

definition netbsd_close_tun :: "configuration \<Rightarrow> int \<Rightarrow> tun_state \<Rightarrow> tun_state option" where
  "netbsd_close_tun c fd s =
     do { d \<leftarrow> device s; s1 \<leftarrow> run_down netbsd_default_down c d s; Some (close_fd fd (s1\<lparr>device := None\<rparr>)) }"

definition openbsd_default_up :: "string list" where
  "openbsd_default_up = [''ifconfig %D inet %V %V up'', ''route add -net %N %V'']"

definition openbsd_default_down :: "string list" where
  "openbsd_default_down = []"

definition openbsd_init_tun :: "tun_calls \<Rightarrow> configuration \<Rightarrow> tun_state \<Rightarrow> (int \<times> tun_state) option" where
  "openbsd_init_tun sys c s =
     (case tun_search (tc_open sys) 0 0 s of (i, tunfd, s1) \<Rightarrow>
        if tunfd \<le> 0 then Some (-1, s1)
        else if \<not> tc_ioctl sys ''TUNSIFINFO'' then Some (-1, close_fd tunfd s1)
        else (let d = ''tun'' @ show_nat i in
              do { s2 \<leftarrow> run_up openbsd_default_up c d (s1\<lparr>device := Some d\<rparr>); Some (tunfd, s2) }))"

definition openbsd_close_tun :: "configuration \<Rightarrow> int \<Rightarrow> tun_state \<Rightarrow> tun_state option" where
  "openbsd_close_tun c fd s =
     do { d \<leftarrow> device s; s1 \<leftarrow> run_down openbsd_default_down c d s; Some (close_fd fd (s1\<lparr>device := None\<rparr>)) }"

section \<open>The choice of the platform\<close>

datatype tun_os = Linux | FreeBSD | NetBSD | OpenBSD

fun default_up :: "tun_os \<Rightarrow> string list" where
  "default_up Linux = linux_default_up"
| "default_up FreeBSD = freebsd_default_up"
| "default_up NetBSD = netbsd_default_up"
| "default_up OpenBSD = openbsd_default_up"

fun default_down :: "tun_os \<Rightarrow> string list" where
  "default_down Linux = linux_default_down"
| "default_down FreeBSD = freebsd_default_down"
| "default_down NetBSD = netbsd_default_down"
| "default_down OpenBSD = openbsd_default_down"

fun init_tun :: "tun_os \<Rightarrow> tun_calls \<Rightarrow> configuration \<Rightarrow> tun_state \<Rightarrow> (int \<times> tun_state) option" where
  "init_tun Linux sys = linux_init_tun sys"
| "init_tun FreeBSD sys = freebsd_init_tun sys"
| "init_tun NetBSD sys = netbsd_init_tun sys"
| "init_tun OpenBSD sys = openbsd_init_tun sys"

fun close_tun :: "tun_os \<Rightarrow> tun_calls \<Rightarrow> configuration \<Rightarrow> int \<Rightarrow> tun_state \<Rightarrow> tun_state option" where
  "close_tun Linux sys = linux_close_tun"
| "close_tun FreeBSD sys = freebsd_close_tun sys"
| "close_tun NetBSD sys = netbsd_close_tun"
| "close_tun OpenBSD sys = openbsd_close_tun"

section \<open>What the main program relies on\<close>

text \<open>The commands can be expanded; the configured ones can end in a single percent sign, which is a fault.\<close>

definition commands_ok :: "tun_os \<Rightarrow> configuration \<Rightarrow> bool" where
  "commands_ok os c \<longleftrightarrow>
     (\<forall>d. exec_up_commands (Some (default_up os)) c d \<noteq> None \<and> exec_down_commands (Some (default_down os)) c d \<noteq> None)"

text \<open>The assumptions on the system: standard input is open, \<^verbatim>\<open>open\<close> and \<^verbatim>\<open>socket\<close> return descriptors that are not
  in use, the kernel writes a name with its end.\<close>

definition tun_good :: "tun_os \<Rightarrow> tun_calls \<Rightarrow> configuration \<Rightarrow> tun_state \<Rightarrow> bool" where
  "tun_good os sys c s \<longleftrightarrow> commands_ok os c \<and> 0 \<in> open_fds s \<and> device s = None \<and>
     (\<forall>p. tc_open sys p \<notin> open_fds s) \<and>
     tc_socket sys \<notin> open_fds s \<and> tc_socket sys \<noteq> tc_open sys ''/dev/net/tun'' \<and>
     (\<forall>f n n'. tc_setiff sys f n = Some n' \<longrightarrow> NUL \<in> set n')"

text \<open>The result of a creation in the state \<open>s\<close>.\<close>

definition fresh_result :: "tun_state \<Rightarrow> int \<times> tun_state \<Rightarrow> bool" where
  "fresh_result s r \<longleftrightarrow>
     (if fst r < 0 then open_fds (snd r) = open_fds s \<and> device (snd r) = device s
      else fst r > 0 \<and> fst r \<notin> open_fds s \<and> open_fds (snd r) = insert (fst r) (open_fds s))"

locale tun_driver =
  fixes init :: "configuration \<Rightarrow> tun_state \<Rightarrow> (int \<times> tun_state) option"
    and shut :: "configuration \<Rightarrow> int \<Rightarrow> tun_state \<Rightarrow> tun_state option"
    and good :: "configuration \<Rightarrow> tun_state \<Rightarrow> bool"
  assumes init_ends: "good c s \<Longrightarrow> \<exists>r. init c s = Some r \<and> fresh_result s r"
    and shut_ends: "good c s \<Longrightarrow> init c s = Some (fd, s') \<Longrightarrow> 0 \<le> fd \<Longrightarrow>
      \<exists>s''. shut c fd s' = Some s'' \<and> open_fds s'' = open_fds s' - {fd} \<and> device s'' = device s"
begin

text \<open>The device in the life of the main program, which shuts down what it has created.\<close>

definition session :: "configuration \<Rightarrow> tun_state \<Rightarrow> tun_state option" where
  "session c s = do { (fd, s1) \<leftarrow> init c s; if fd < 0 then Some s1 else if fd > 0 then shut c fd s1 else Some s1 }"

lemma session_restores:
  assumes "good c s"
  shows "\<exists>s'. session c s = Some s' \<and> open_fds s' = open_fds s \<and> device s' = device s"
proof -
  obtain fd s1 where i: "init c s = Some (fd, s1)" and r: "fresh_result s (fd, s1)"
    using init_ends [OF assms] by (metis prod.exhaust)
  show ?thesis
  proof (cases "fd < 0")
    case True
    with i r show ?thesis by (simp add: session_def fresh_result_def)
  next
    case False
    with shut_ends [OF assms i] r i show ?thesis by (auto simp: session_def fresh_result_def)
  qed
qed

end

lemma run_up_Some:
  assumes "commands_ok os c"
  obtains s' where "run_up (default_up os) c d s = Some s'" "open_fds s' = open_fds s" "device s' = device s"
proof -
  obtain cmds where "exec_up_commands (Some (default_up os)) c d = Some cmds" using assms unfolding commands_ok_def by blast
  with that show thesis by (simp add: run_up_def)
qed

lemma run_down_Some:
  assumes "commands_ok os c"
  obtains s' where "run_down (default_down os) c d s = Some s'" "open_fds s' = open_fds s" "device s' = device s"
proof -
  obtain cmds where "exec_down_commands (Some (default_down os)) c d = Some cmds" using assms unfolding commands_ok_def by blast
  with that show thesis by (simp add: run_down_def)
qed

lemma linux_txqueue_fds:
  assumes "tc_socket sys \<notin> open_fds s"
  shows "open_fds (linux_txqueue sys c n s) = open_fds s \<and> device (linux_txqueue sys c n s) = device s"
  using assms by (auto simp: linux_txqueue_def open_fd_def close_fd_def do_op_def Let_def)

text \<open>The search returns one new descriptor or none.\<close>

lemma tun_search_result:
  assumes "\<forall>p. open_dev p \<notin> open_fds s" and "0 \<in> open_fds s" and "tunfd \<le> 0"
  shows "case tun_search open_dev i tunfd s of (j, fd, s') \<Rightarrow>
    if fd \<le> 0 then s' = s else fd \<notin> open_fds s \<and> s' = open_fd fd s"
  using assms(3)
proof (induction "255 - i" arbitrary: i tunfd rule: less_induct)
  case less
  have "open_dev (tun_path i) \<noteq> 0" using assms(1,2) by metis
  then show ?case
    using less assms(1) by (subst tun_search.simps) (auto simp: Let_def)
qed

lemma linux_driver_init:
  assumes "tun_good Linux sys c s"
  shows "\<exists>fd s'. linux_init_tun sys c s = Some (fd, s') \<and> fresh_result s (fd, s') \<and> (0 \<le> fd \<longrightarrow> device s' \<noteq> None)"
proof (cases "tc_open sys ''/dev/net/tun'' < 0 \<or> tc_setiff sys (linux_ifr_flags c) (linux_ifr_name c) = None \<or> \<not> tc_ioctl sys ''TUNSETNOCSUM''")
  case True
  then show ?thesis
    using assms
    by (auto simp: linux_init_tun_def tun_good_def fresh_result_def Let_def open_fd_def close_fd_def do_op_def split: option.splits)
next
  case False
  let ?fd = "tc_open sys ''/dev/net/tun''"
  obtain n where n: "tc_setiff sys (linux_ifr_flags c) (linux_ifr_name c) = Some n" using False by auto
  have fd: "?fd \<noteq> 0" "?fd \<notin> open_fds s" using assms unfolding tun_good_def by metis+
  have nul: "string_in n = Some (takeWhile (\<lambda>x. x \<noteq> NUL) n)" using assms n by (auto simp: tun_good_def string_in_def)
  let ?s2 = "do_op (Set_iff (linux_ifr_flags c) (linux_ifr_name c)) (open_fd ?fd s)"
  let ?s3 = "(linux_txqueue sys c n ?s2)\<lparr>device := Some (takeWhile (\<lambda>x. x \<noteq> NUL) n)\<rparr>"
  have q: "open_fds ?s3 = insert ?fd (open_fds s)"
    using linux_txqueue_fds [of sys ?s2 c n] assms by (auto simp: tun_good_def do_op_def open_fd_def)
  have "commands_ok Linux c" using assms by (simp add: tun_good_def)
  then obtain s4 where
    s4: "run_up (default_up Linux) c (takeWhile (\<lambda>x. x \<noteq> NUL) n) ?s3 = Some s4" "open_fds s4 = open_fds ?s3" "device s4 = device ?s3"
    by (rule run_up_Some)
  have "linux_init_tun sys c s = Some (?fd, s4)" using False n nul s4(1) by (simp add: linux_init_tun_def Let_def)
  with False s4 q fd show ?thesis by (auto simp: fresh_result_def)
qed

lemma freebsd_driver_init:
  assumes "tun_good FreeBSD sys c s"
  shows "\<exists>fd s'. freebsd_init_tun sys c s = Some (fd, s') \<and> fresh_result s (fd, s') \<and> device s' = device s"
proof -
  let ?fd = "tc_open sys ''/dev/tun''"
  have fd: "?fd \<noteq> 0" "?fd \<notin> open_fds s" using assms unfolding tun_good_def by metis+
  have "commands_ok FreeBSD c" using assms by (simp add: tun_good_def)
  then obtain s2 where "run_up (default_up FreeBSD) c (tc_devname sys ?fd) (open_fd ?fd s) = Some s2"
    "open_fds s2 = open_fds (open_fd ?fd s)" "device s2 = device (open_fd ?fd s)"
    by (rule run_up_Some)
  with fd show ?thesis by (auto simp: freebsd_init_tun_def fresh_result_def Let_def open_fd_def close_fd_def)
qed

text \<open>NetBSD and OpenBSD share the search.\<close>

lemma bsd_driver_init:
  assumes good: "tun_good os sys c s" and os: "os = NetBSD \<or> os = OpenBSD"
  shows "\<exists>fd s'. init_tun os sys c s = Some (fd, s') \<and> fresh_result s (fd, s') \<and> (0 \<le> fd \<longrightarrow> device s' \<noteq> None)"
proof -
  obtain i fd s1 where search: "tun_search (tc_open sys) 0 0 s = (i, fd, s1)" by (metis prod_cases3)
  have r: "if fd \<le> 0 then s1 = s else fd \<notin> open_fds s \<and> s1 = open_fd fd s"
    using tun_search_result [of "tc_open sys" s 0 0] good search by (simp add: tun_good_def)
  let ?d = "''tun'' @ show_nat i"
  have "commands_ok os c" using good by (simp add: tun_good_def)
  then obtain s2 where up: "run_up (default_up os) c ?d (s1\<lparr>device := Some ?d\<rparr>) = Some s2"
    "open_fds s2 = open_fds (s1\<lparr>device := Some ?d\<rparr>)" "device s2 = device (s1\<lparr>device := Some ?d\<rparr>)" by (rule run_up_Some)
  show ?thesis
  proof (cases "fd \<le> 0")
    case True
    then have "init_tun os sys c s = Some (-1, s)" using os search r by (auto simp: netbsd_init_tun_def openbsd_init_tun_def)
    then show ?thesis by (auto simp: fresh_result_def)
  next
    case False
    then have "init_tun os sys c s = Some (fd, s2) \<or> init_tun os sys c s = Some (-1, close_fd fd s1)"
      using os search up(1) by (elim disjE) (simp_all add: netbsd_init_tun_def openbsd_init_tun_def Let_def)
    moreover have "fresh_result s (fd, s2)" "fresh_result s (-1, close_fd fd s1)"
      using False r up by (auto simp: fresh_result_def open_fd_def close_fd_def)
    ultimately show ?thesis using up(3) by fastforce
  qed
qed

lemma close_with_device:
  assumes "commands_ok os c" and "device s \<noteq> None"
  shows "\<exists>s'. do { d \<leftarrow> device s; s1 \<leftarrow> run_down (default_down os) c d s; Some (close_fd fd (s1\<lparr>device := None\<rparr>)) } = Some s' \<and>
    open_fds s' = open_fds s - {fd} \<and> device s' = None"
proof -
  obtain d where d: "device s = Some d" using assms(2) by blast
  obtain s1 where "run_down (default_down os) c d s = Some s1" "open_fds s1 = open_fds s" 
    using assms(1) by (rule run_down_Some)
  with d show ?thesis by (simp add: close_fd_def)
qed

interpretation linux: tun_driver "linux_init_tun sys" linux_close_tun "tun_good Linux sys" for sys
proof
  show "\<exists>r. linux_init_tun sys c s = Some r \<and> fresh_result s r" if "tun_good Linux sys c s" for c s
    using linux_driver_init [OF that] by metis
  show "\<exists>s''. linux_close_tun c fd s' = Some s'' \<and> open_fds s'' = open_fds s' - {fd} \<and> device s'' = device s"
    if g: "tun_good Linux sys c s" and "linux_init_tun sys c s = Some (fd, s')" "0 \<le> fd" for c s fd s'
    using linux_driver_init [OF g] close_with_device [of Linux c s' fd] that by (auto simp: tun_good_def linux_close_tun_def)
qed

interpretation freebsd: tun_driver "freebsd_init_tun sys" "freebsd_close_tun sys" "tun_good FreeBSD sys" for sys
proof
  show "\<exists>r. freebsd_init_tun sys c s = Some r \<and> fresh_result s r" if "tun_good FreeBSD sys c s" for c s
    using freebsd_driver_init [OF that] by metis
  show "\<exists>s''. freebsd_close_tun sys c fd s' = Some s'' \<and> open_fds s'' = open_fds s' - {fd} \<and> device s'' = device s"
    if g: "tun_good FreeBSD sys c s" and "freebsd_init_tun sys c s = Some (fd, s')" "0 \<le> fd" for c s fd s'
  proof -
    have "commands_ok FreeBSD c" using g by (simp add: tun_good_def)
    then obtain s'' where "run_down (default_down FreeBSD) c (tc_devname sys fd) (close_fd fd s') = Some s''"
      "open_fds s'' = open_fds (close_fd fd s')" "device s'' = device (close_fd fd s')" by (rule run_down_Some)
    with freebsd_driver_init [OF g] that show ?thesis by (auto simp: freebsd_close_tun_def close_fd_def)
  qed
qed

interpretation netbsd: tun_driver "netbsd_init_tun sys" netbsd_close_tun "tun_good NetBSD sys" for sys
proof
  show "\<exists>r. netbsd_init_tun sys c s = Some r \<and> fresh_result s r" if "tun_good NetBSD sys c s" for c s
    using bsd_driver_init [OF that] by (metis init_tun.simps(3))
  show "\<exists>s''. netbsd_close_tun c fd s' = Some s'' \<and> open_fds s'' = open_fds s' - {fd} \<and> device s'' = device s"
    if g: "tun_good NetBSD sys c s" and "netbsd_init_tun sys c s = Some (fd, s')" "0 \<le> fd" for c s fd s'
    using bsd_driver_init [OF g] close_with_device [of NetBSD c s' fd] that by (auto simp: tun_good_def netbsd_close_tun_def)
qed

interpretation openbsd: tun_driver "openbsd_init_tun sys" openbsd_close_tun "tun_good OpenBSD sys" for sys
proof
  show "\<exists>r. openbsd_init_tun sys c s = Some r \<and> fresh_result s r" if "tun_good OpenBSD sys c s" for c s
    using bsd_driver_init [OF that] by (metis init_tun.simps(4))
  show "\<exists>s''. openbsd_close_tun c fd s' = Some s'' \<and> open_fds s'' = open_fds s' - {fd} \<and> device s'' = device s"
    if g: "tun_good OpenBSD sys c s" and "openbsd_init_tun sys c s = Some (fd, s')" "0 \<le> fd" for c s fd s'
    using bsd_driver_init [OF g] close_with_device [of OpenBSD c s' fd] that by (auto simp: tun_good_def openbsd_close_tun_def)
qed

text \<open>The name of the interface that Linux is asked for: an array of 16 characters, terminated, with the first
  15 characters of the configured name.\<close>

lemma linux_ifr_name_bounds:
  assumes "\<And>d. tun_device c = Some d \<Longrightarrow> NUL \<notin> set d"
  shows "length (linux_ifr_name c) = IFNAMSIZ"
    and "string_in (linux_ifr_name c) = Some (case tun_device c of Some d \<Rightarrow> take 15 d | None \<Rightarrow> ''tun%d'')"
proof -
  show "length (linux_ifr_name c) = IFNAMSIZ" by (auto simp: linux_ifr_name_def strncpy_def min_def split: option.splits)
  show "string_in (linux_ifr_name c) = Some (case tun_device c of Some d \<Rightarrow> take 15 d | None \<Rightarrow> ''tun%d'')"
  proof (cases "tun_device c")
    case None
    then show ?thesis by (simp add: linux_ifr_name_def strncpy_def string_in_def numeral_eq_Suc)
  next
    case (Some d)
    have "(strncpy d 16)[15 := NUL] = take 15 d @ replicate (16 - length (take 15 d)) NUL"
      by (rule nth_equalityI) (auto simp: strncpy_def nth_list_update nth_append min_def)
    moreover have "NUL \<notin> set (take 15 d)" using assms [OF Some] by (auto dest: in_set_takeD)
    then have "takeWhile (\<lambda>x. x \<noteq> NUL) (take 15 d @ replicate k NUL) = take 15 d" for k by (subst takeWhile_append2) auto
    moreover have "0 < 16 - length (take 15 d)" by simp
    ultimately have "string_in ((strncpy d 16)[15 := NUL]) = Some (take 15 d)" by (simp only: string_in_def) simp
    with Some show ?thesis by (simp add: linux_ifr_name_def)
  qed
qed

text \<open>The default commands of every platform expand for a configuration with a network.\<close>

lemma default_commands_ok:
  assumes "network c \<noteq> None" and "exec_up c = None" and "exec_down c = None"
  shows "commands_ok os c"
proof -
  obtain n where "network c = Some n" using assms(1) by blast
  with assms(2,3) show ?thesis
    by (cases os) (simp_all add: commands_ok_def exec_up_commands_def exec_down_commands_def exec_internal_def replace_args_def variable_text_def
        linux_default_up_def linux_default_down_def freebsd_default_up_def freebsd_default_down_def
        netbsd_default_up_def netbsd_default_down_def openbsd_default_up_def openbsd_default_down_def)
qed

text \<open>C19. The TUN device on every platform: the creation either fails and leaves the open descriptors as they
  were, or returns one new descriptor; the shut down of a device that was created runs without a fault, closes
  exactly this descriptor and frees the name. The hypotheses are that standard input is open, that
  \<^verbatim>\<open>open\<close> and \<^verbatim>\<open>socket\<close> return unused descriptors, that the kernel terminates the name it returns, and that the
  configured commands do not end in a single percent sign.\<close>

theorem tun_lifecycle:
  assumes "tun_good os sys c s"
  shows "\<exists>fd s1. init_tun os sys c s = Some (fd, s1) \<and>
    (if fd < 0 then open_fds s1 = open_fds s \<and> device s1 = None
     else fd \<notin> open_fds s \<and> open_fds s1 = insert fd (open_fds s) \<and>
       (\<exists>s2. close_tun os sys c fd s1 = Some s2 \<and> open_fds s2 = open_fds s \<and> device s2 = None))"
proof -
  have d: "device s = None" using assms by (simp add: tun_good_def)
  have driver: "tun_driver (init_tun os sys) (close_tun os sys) (tun_good os sys)"
    by (cases os) (simp_all add: linux.tun_driver_axioms freebsd.tun_driver_axioms netbsd.tun_driver_axioms openbsd.tun_driver_axioms)
  obtain fd s1 where i: "init_tun os sys c s = Some (fd, s1)" "fresh_result s (fd, s1)"
    using tun_driver.init_ends [OF driver assms] by (metis prod.exhaust)
  show ?thesis
  proof (cases "fd < 0")
    case True
    with i d show ?thesis by (simp add: fresh_result_def)
  next
    case False
    obtain s2 where "close_tun os sys c fd s1 = Some s2" "open_fds s2 = open_fds s1 - {fd}" "device s2 = device s"
      using tun_driver.shut_ends [OF driver assms i(1)] False by auto
    with False i d show ?thesis by (auto simp: fresh_result_def)
  qed
qed

definition demo_tun_calls :: tun_calls where
  "demo_tun_calls = \<lparr>tc_open = (\<lambda>p. if p = ''/dev/net/tun'' then 5 else -1), tc_setiff = (\<lambda>_ _. Some (strncpy ''tun0'' 16)),
     tc_ioctl = (\<lambda>_. True), tc_socket = 6, tc_devname = (\<lambda>_. ''tun0'')\<rparr>"

definition demo_tun_state :: tun_state where
  "demo_tun_state = \<lparr>open_fds = {0, 1, 2}, device = None, tun_ops = []\<rparr>"

theorem tun_lifecycle_witness:
  "\<exists>s1 s2. init_tun Linux demo_tun_calls (initConfig\<lparr>network := Some ''10.0.0.0/24''\<rparr>) demo_tun_state = Some (5, s1) \<and>
     open_fds s1 = {0, 1, 2, 5} \<and>
     close_tun Linux demo_tun_calls (initConfig\<lparr>network := Some ''10.0.0.0/24''\<rparr>) 5 s1 = Some s2 \<and> open_fds s2 = {0, 1, 2}"
proof -
  let ?c = "initConfig\<lparr>network := Some ''10.0.0.0/24''\<rparr>"
  have "commands_ok Linux ?c" by (rule default_commands_ok) (simp_all add: initConfig_def)
  then have "tun_good Linux demo_tun_calls ?c demo_tun_state"
    by (auto simp: tun_good_def demo_tun_calls_def demo_tun_state_def strncpy_def)
  from tun_lifecycle [OF this] obtain fd s1 where i: "init_tun Linux demo_tun_calls ?c demo_tun_state = Some (fd, s1)"
    and r: "if fd < 0 then open_fds s1 = open_fds demo_tun_state \<and> device s1 = None
     else fd \<notin> open_fds demo_tun_state \<and> open_fds s1 = insert fd (open_fds demo_tun_state) \<and>
       (\<exists>s2. close_tun Linux demo_tun_calls ?c fd s1 = Some s2 \<and> open_fds s2 = open_fds demo_tun_state \<and> device s2 = None)" by blast
  have "fd = 5"
    using i by (auto simp: linux_init_tun_def Let_def demo_tun_calls_def bind_eq_Some_conv)
  with i r show ?thesis by (auto simp: demo_tun_state_def)
qed

section \<open>Packets\<close>

text \<open>Linux, FreeBSD and NetBSD: the result of the system call, or the end of the program.\<close>

definition read_tun :: "int \<Rightarrow> int outcome" where
  "read_tun r = (if r = -1 then Aborts else Returns r)"

definition write_tun :: "int \<Rightarrow> int outcome" where
  "write_tun r = (if r = -1 then Aborts else Returns r)"

text \<open>On OpenBSD every frame starts with the address family in 4 bytes, in network byte order. \<^verbatim>\<open>readv\<close> fills the
  family and then the buffer of \<open>count\<close> bytes; \<open>None\<close> is an error. The result is kept in a \<^verbatim>\<open>size_t\<close>.\<close>

type_synonym u64 = "64 word"

abbreviation (input) AF_INET :: u32 where "AF_INET \<equiv> 2"

definition readv_frame :: "u8 list option \<Rightarrow> nat \<Rightarrow> int \<times> u8 list" where
  "readv_frame frame count =
     (case frame of None \<Rightarrow> (-1, []) | Some f \<Rightarrow> (int (min (length f) (4 + count)), take count (drop 4 f)))"

definition openbsd_read_tun :: "int \<Rightarrow> int outcome" where
  "openbsd_read_tun res =
     (let r = word_of_int res :: u64 in
      if r > 0 then Returns (sint (r - 4))
      else if r = -1 then Aborts
      else Returns (sint r))"

definition openbsd_frame :: "u8 list \<Rightarrow> u8 list" where
  "openbsd_frame buf = bytes_of_u32 (htonl AF_INET) @ buf"

definition openbsd_write_tun :: "int \<Rightarrow> int outcome" where
  "openbsd_write_tun r = (if r = -1 then Aborts else Returns r)"

lemma openbsd_read_result:
  assumes "-1 \<le> n" and "n < 2 ^ 63"
  shows "openbsd_read_tun n = Returns (if n = 0 then 0 else n - 4)"
proof (cases "n = 0")
  case False
  have "\<not> 2 ^ 64 dvd n"
  proof
    assume "2 ^ 64 dvd n"
    then have "\<bar>2 ^ 64\<bar> \<le> \<bar>n\<bar>" by (rule dvd_imp_le_int [OF False])
    with assms show False by simp
  qed
  then have "(word_of_int n :: u64) \<noteq> 0" by (simp add: word_of_int_eq_0_iff)
  moreover have "sint (word_of_int (n - 4) :: u64) = n - 4" using assms by (subst int_word_sint) simp
  then have "sint ((word_of_int n :: u64) - 4) = n - 4" by simp
  ultimately show ?thesis using False by (simp add: openbsd_read_tun_def Let_def word_greater_zero_iff)
qed (simp add: openbsd_read_tun_def)

lemma openbsd_frame_length: "length (openbsd_frame buf) = 4 + length buf"
  by (simp add: openbsd_frame_def bytes_of_u32_def)

text \<open>C37. The framing on OpenBSD. A packet that is written as a frame and read back, into a buffer that is large
  enough, is the same packet, and the number of bytes that is returned is its length without the header. In
  general, for every result that \<^verbatim>\<open>readv\<close> can have, \<^verbatim>\<open>read_tun\<close> returns it less the four bytes of the header,
  or zero for an empty read: because the result is kept in an unsigned variable this also holds for the error
  -1, so that the branch which should abort the program cannot be reached and the caller gets a packet of
  length -5.\<close>

theorem openbsd_framing:
  assumes "length buf \<le> count" and "count < 2 ^ 62" and "-1 \<le> res" and "res < 2 ^ 63"
  shows "(case readv_frame (Some (openbsd_frame buf)) count of (r, got) \<Rightarrow>
      got = buf \<and> openbsd_read_tun r = Returns (int (length buf))) \<and>
    openbsd_read_tun res = Returns (if res = 0 then 0 else res - 4)"
proof -
  have "int (length buf) + 4 < 2 ^ 63" using assms(1,2) by simp
  then have "openbsd_read_tun (int (4 + length buf)) = Returns (int (length buf))"
    using openbsd_read_result [of "int (4 + length buf)"] by simp
  with assms(1) have "case readv_frame (Some (openbsd_frame buf)) count of (r, got) \<Rightarrow>
      got = buf \<and> openbsd_read_tun r = Returns (int (length buf))"
    by (simp add: readv_frame_def openbsd_frame_length min_absorb1) (simp add: openbsd_frame_def bytes_of_u32_def)
  with openbsd_read_result [OF assms(3,4)] show ?thesis by simp
qed

theorem openbsd_framing_witness:
  "(case readv_frame (Some (openbsd_frame [69, 0, 0, 20])) 1619 of (r, got) \<Rightarrow> got = [69, 0, 0, 20] \<and> openbsd_read_tun r = Returns 4) \<and>
   openbsd_read_tun (fst (readv_frame None 1619)) = Returns (-5)"
  using openbsd_framing [of "[69, 0, 0, 20]" 1619 "-1"] by (simp add: readv_frame_def)

end
