(* ===== verification/Tun_Cygwin.thy ===== *)
theory Tun_Cygwin
  imports Tun_Device
begin

text \<open>
  The TUN device on Cygwin (\<^verbatim>\<open>client/tun_device_cygwin.c\<close>): the search for an adapter in the registry, the creation and
  the release of the device with its handles, and the asynchronous reads, of which at most one may be under
  way because they share one \<^verbatim>\<open>OVERLAPPED\<close> structure and one buffer. What the registry holds and what the calls
  of the system return are inputs. Values of the registry are strings; the lengths of the arrays they are read into are left out.
\<close>

section \<open>State and system calls\<close>

text \<open>An adapter in the registry: whether its key can be opened, its values \<^verbatim>\<open>ComponentId\<close> and \<^verbatim>\<open>NetCfgInstanceId\<close> if they are
  strings, and its connection: \<open>None\<close> when that key cannot be opened, \<open>Some None\<close> when it has no name.\<close>

record adapter =
  ad_open :: bool
  ad_component_id :: "string option"
  ad_instance_id :: "string option"
  ad_connection :: "string option option"

record win_calls =
  wc_adapter_key :: bool
  wc_adapters :: "adapter list"
  wc_set_mtu :: bool
  wc_create_file :: bool
  wc_config_tun :: bool
  wc_media_status :: bool
  wc_read_event :: bool
  wc_write_event :: bool

datatype win_op = Set_mtu string | Create_file string | Config_tun u32 u32 u32 | Media_connected | Run_cmd string

text \<open>The numbers of open registry keys and events, whether \<^verbatim>\<open>hEvent\<close> of the two structures for reads and writes is an
  event, whether the device is open, the name behind \<^verbatim>\<open>device\<close>, the flag \<^verbatim>\<open>pending_read\<close>, and the numbers of reads and writes
  that were started and whose end has not been awaited.\<close>

record win_state =
  reg_keys :: nat
  dev_open :: bool
  events :: nat
  read_event :: bool
  write_event :: bool
  win_device :: "string option"
  pending_read :: bool
  reads_under_way :: nat
  writes_under_way :: nat
  win_ops :: "win_op list"

definition cygwin_default_up :: "string list" where
  "cygwin_default_up = [''netsh interface ip set address name=%D static %V %n none'']"

definition cygwin_default_down :: "string list" where
  "cygwin_default_down = []"

definition open_key :: "win_state \<Rightarrow> win_state" where
  "open_key s = s\<lparr>reg_keys := reg_keys s + 1\<rparr>"

definition RegCloseKey :: "win_state \<Rightarrow> win_state" where
  "RegCloseKey s = s\<lparr>reg_keys := reg_keys s - 1\<rparr>"

definition win_do :: "win_op \<Rightarrow> win_state \<Rightarrow> win_state" where
  "win_do a s = s\<lparr>win_ops := win_ops s @ [a]\<rparr>"

section \<open>The search for the adapter\<close>

definition tap_id_of :: "configuration \<Rightarrow> string" where
  "tap_id_of c = (case tap_id c of Some t \<Rightarrow> t | None \<Rightarrow> ''tap0901'')"

text \<open>The key of the connection is opened, its name is compared, and it is closed again.\<close>

definition check_connection :: "string option \<Rightarrow> adapter \<Rightarrow> win_state \<Rightarrow> bool \<times> win_state" where
  "check_connection devname a s =
     (case ad_connection a of
        None \<Rightarrow> (False, s)
      | Some name \<Rightarrow>
          (let s1 = open_key s;
               (found, s2) = (case name of
                  Some n \<Rightarrow> if devname = None \<or> devname = Some n then (True, s1\<lparr>win_device := Some n\<rparr>) else (False, s1)
                | None \<Rightarrow> (False, s1))
           in (found, RegCloseKey s2)))"

text \<open>One turn of the loop over the adapters.\<close>

definition check_adapter :: "string \<Rightarrow> string option \<Rightarrow> adapter \<Rightarrow> win_state \<Rightarrow> string option \<times> win_state" where
  "check_adapter tap devname a s =
     (if \<not> ad_open a then (None, s)
      else
        (let s1 = open_key s in
         case ad_component_id a of
           None \<Rightarrow> (None, RegCloseKey s1)
         | Some component_id \<Rightarrow>
             (case ad_instance_id a of
                None \<Rightarrow> (None, RegCloseKey s1)
              | Some instance_id \<Rightarrow>
                  (let (found, s2) = (if component_id = tap then check_connection devname a s1 else (False, s1))
                   in if found then (Some instance_id, s2) else (None, RegCloseKey s2)))))"

fun find_tap_loop :: "string \<Rightarrow> string option \<Rightarrow> adapter list \<Rightarrow> win_state \<Rightarrow> string option \<times> win_state" where
  "find_tap_loop tap devname [] s = (None, s)"
| "find_tap_loop tap devname (a # as) s =
     (case check_adapter tap devname a s of
        (Some instance_id, s1) \<Rightarrow> (Some instance_id, s1)
      | (None, s1) \<Rightarrow> find_tap_loop tap devname as s1)"

text \<open>The key of the adapter that is found stays open for the caller.\<close>

definition find_tap :: "win_calls \<Rightarrow> configuration \<Rightarrow> win_state \<Rightarrow> string option \<times> win_state" where
  "find_tap sys c s =
     (if \<not> wc_adapter_key sys then (None, s)
      else (let (r, s1) = find_tap_loop (tap_id_of c) (tun_device c) (wc_adapters sys) (open_key s) in (r, RegCloseKey s1)))"

section \<open>Creation and release\<close>

text \<open>The code does not look at the results of \<^verbatim>\<open>CreateEvent\<close>: a failed one leaves a null handle, which \<^verbatim>\<open>CloseHandle\<close> refuses.\<close>

definition cygwin_init_tun :: "win_calls \<Rightarrow> configuration \<Rightarrow> win_state \<Rightarrow> (int \<times> win_state) option" where
  "cygwin_init_tun sys c s =
     (case find_tap sys c s of
        (None, s1) \<Rightarrow> Some (-1, s1)
      | (Some adapterid, s1) \<Rightarrow>
          if \<not> wc_set_mtu sys then Some (-1, RegCloseKey s1)
          else
            (let s2 = RegCloseKey (win_do (Set_mtu (show_int (tun_mtu c))) s1) in
             if \<not> wc_create_file sys then Some (-1, s2)
             else
               (let s3 = win_do (Create_file adapterid) (s2\<lparr>dev_open := True\<rparr>) in
                if \<not> wc_config_tun sys then Some (-1, s3\<lparr>dev_open := False\<rparr>)
                else
                  (let s4 = win_do (Config_tun (vpnIP c) (and (vpnIP c) (vpnNetmask c)) (vpnNetmask c)) s3 in
                   if \<not> wc_media_status sys then Some (-1, s4\<lparr>dev_open := False\<rparr>)
                   else do {
                     d \<leftarrow> win_device s4;
                     cmds \<leftarrow> exec_up_commands (Some cygwin_default_up) c d;
                     let s5 = s4\<lparr>win_ops := win_ops s4 @ Media_connected # map Run_cmd cmds\<rparr>;
                     Some (1, s5\<lparr>events := events s5 + of_bool (wc_read_event sys) + of_bool (wc_write_event sys),
                                 read_event := wc_read_event sys, write_event := wc_write_event sys\<rparr>)
                   }))))"

definition cygwin_close_tun :: "configuration \<Rightarrow> win_state \<Rightarrow> (int \<times> win_state) option" where
  "cygwin_close_tun c s =
     do {
       d \<leftarrow> win_device s;
       cmds \<leftarrow> exec_down_commands (Some cygwin_default_down) c d;
       Some (0, s\<lparr>win_ops := win_ops s @ map Run_cmd cmds,
         events := events s - of_bool (read_event s) - of_bool (write_event s), dev_open := False, win_device := None\<rparr>)
     }"

section \<open>Asynchronous reads\<close>

datatype wait_status = WAIT_OBJECT_0 | WAIT_TIMEOUT | WAIT_FAILED | WAIT_ABANDONED

text \<open>The arguments are whether \<^verbatim>\<open>ReadFile\<close> starts a read, if it is called (the code does not look at its result), and how the
  wait for the event ends.\<close>

definition read_tun_wait :: "bool \<Rightarrow> wait_status \<Rightarrow> win_state \<Rightarrow> int \<times> win_state" where
  "read_tun_wait started status s =
     (let s1 = (if \<not> pending_read s then s\<lparr>reads_under_way := reads_under_way s + of_bool started, pending_read := True\<rparr> else s) in
      if status = WAIT_OBJECT_0 then (1, s1)
      else if status = WAIT_TIMEOUT then (0, s1)
      else (-1, s1))"

text \<open>The length that the system reports; the call waits for the end of the read.\<close>

definition read_tun_finalize :: "nat \<Rightarrow> win_state \<Rightarrow> nat \<times> win_state" where
  "read_tun_finalize got s = (got, s\<lparr>reads_under_way := reads_under_way s - 1, pending_read := False\<rparr>)"

text \<open>\<^verbatim>\<open>CancelIo\<close> asks the system to cancel the read and returns; the read is over, and the system done with the buffer, only when
  it has completed, for which the code does not wait.\<close>

definition read_tun_cancel :: "win_state \<Rightarrow> win_state" where
  "read_tun_cancel s = (if pending_read s then s\<lparr>pending_read := False\<rparr> else s)"

text \<open>The loop of \<^verbatim>\<open>comm_tun\<close> over the outcomes of the turns until the program ends. The result holds, for every turn, the number
  of reads under way after its wait and, if it handles a packet, the length of the packet and the number of reads under way
  while its buffer is used; then the state in which the buffer is freed.\<close>

type_synonym tun_turn = "bool \<times> wait_status \<times> nat"

fun tun_read_turns :: "tun_turn list \<Rightarrow> win_state \<Rightarrow> (nat \<times> (nat \<times> nat) option) list \<times> win_state" where
  "tun_read_turns [] s = ([], s)"
| "tun_read_turns ((started, status, got) # ws) s =
     (let (r_select, s1) = read_tun_wait started status s in
      if r_select > 0 then
        (let (r, s2) = read_tun_finalize got s1; (ts, s3) = tun_read_turns ws s2
         in ((reads_under_way s1, Some (r, reads_under_way s2)) # ts, s3))
      else (let (ts, s3) = tun_read_turns ws s1 in ((reads_under_way s1, None) # ts, s3)))"

definition tun_read_loop :: "tun_turn list \<Rightarrow> win_state \<Rightarrow> (nat \<times> (nat \<times> nat) option) list \<times> win_state" where
  "tun_read_loop ws s = (let (ts, s1) = tun_read_turns ws s in (ts, read_tun_cancel s1))"

section \<open>Writes\<close>

text \<open>A write starts an asynchronous operation on the structure \<^verbatim>\<open>overlapped_write\<close> and waits for its end.\<close>

definition write_tun_start :: "win_state \<Rightarrow> win_state" where
  "write_tun_start s = s\<lparr>writes_under_way := writes_under_way s + 1\<rparr>"

definition write_tun_wait :: "nat \<Rightarrow> win_state \<Rightarrow> nat \<times> win_state" where
  "write_tun_wait got s = (got, s\<lparr>writes_under_way := writes_under_way s - 1\<rparr>)"

definition cygwin_write_tun :: "nat \<Rightarrow> win_state \<Rightarrow> nat \<times> win_state" where
  "cygwin_write_tun got s = write_tun_wait got (write_tun_start s)"

text \<open>A call alone leaves nothing behind. Every peer has a thread that writes to the device, and nothing keeps two calls apart: they
  use one structure for two operations at the same time, which the interface of the system does not allow.\<close>

lemma write_tun_alone: "cygwin_write_tun got s = (got, s)"
  by (simp add: cygwin_write_tun_def write_tun_wait_def write_tun_start_def)

lemma write_tun_shared: "writes_under_way s = 0 \<Longrightarrow> writes_under_way (write_tun_start (write_tun_start s)) = 2"
  by (simp add: write_tun_start_def)

section \<open>Handles\<close>

text \<open>What an operation leaves alone.\<close>

definition same_handles :: "win_state \<Rightarrow> win_state \<Rightarrow> bool" where
  "same_handles s s' \<longleftrightarrow> dev_open s' = dev_open s \<and> events s' = events s \<and> pending_read s' = pending_read s \<and>
     reads_under_way s' = reads_under_way s"

lemma same_handles_trans: "same_handles s t \<Longrightarrow> same_handles t u \<Longrightarrow> same_handles s u"
  by (simp add: same_handles_def)

text \<open>The result of a search: one more key and a name when an adapter is found.\<close>

definition search_result :: "win_state \<Rightarrow> string option \<times> win_state \<Rightarrow> bool" where
  "search_result s x \<longleftrightarrow> same_handles s (snd x) \<and>
     (if fst x = None then reg_keys (snd x) = reg_keys s \<and> win_device (snd x) = win_device s
      else reg_keys (snd x) = reg_keys s + 1 \<and> win_device (snd x) \<noteq> None)"

lemma check_adapter_result: "search_result s (check_adapter tap devname a s)"
  by (auto simp: search_result_def check_adapter_def check_connection_def same_handles_def open_key_def RegCloseKey_def Let_def
      split: option.splits if_splits)

lemma find_tap_loop_result: "search_result s (find_tap_loop tap devname as s)"
proof (induction "as" arbitrary: s)
  case Nil
  then show ?case by (simp add: search_result_def same_handles_def)
next
  case (Cons a "as")
  obtain r s1 where ch: "check_adapter tap devname a s = (r, s1)" by fastforce
  then have c: "search_result s (r, s1)" using check_adapter_result [of s tap devname a] by simp
  show ?case
  proof (cases r)
    case None
    with c Cons [of s1] ch show ?thesis by (auto simp: search_result_def intro: same_handles_trans)
  next
    case (Some i)
    with c ch show ?thesis by simp
  qed
qed

lemma find_tap_result: "search_result s (find_tap sys c s)"
proof -
  obtain r s1 where "find_tap_loop (tap_id_of c) (tun_device c) (wc_adapters sys) (open_key s) = (r, s1)" by fastforce
  with find_tap_loop_result [of "open_key s" "tap_id_of c" "tun_device c" "wc_adapters sys"] show ?thesis
    by (auto simp: find_tap_def search_result_def same_handles_def open_key_def RegCloseKey_def)
qed

text \<open>C38. The TUN device on Cygwin: whatever the registry holds and whichever call fails, a creation that fails leaves no
  registry key, no device handle and no event open, and one that succeeds, with as many of its two events as could be created,
  is undone by the shut down, which frees the name of the adapter too. The hypothesis is that the commands can be expanded.\<close>

theorem cygwin_handles_released:
  assumes "\<And>d. exec_up_commands (Some cygwin_default_up) c d \<noteq> None" and "\<And>d. exec_down_commands (Some cygwin_default_down) c d \<noteq> None"
    and "\<not> dev_open s"
  shows "\<exists>r s1. cygwin_init_tun sys c s = Some (r, s1) \<and> reg_keys s1 = reg_keys s \<and>
    (if r < 0 then \<not> dev_open s1 \<and> events s1 = events s
     else dev_open s1 \<and> events s1 = events s + of_bool (wc_read_event sys) + of_bool (wc_write_event sys) \<and>
       (\<exists>s2. cygwin_close_tun c s1 = Some (0, s2) \<and> \<not> dev_open s2 \<and> events s2 = events s \<and> win_device s2 = None))"
proof -
  obtain r s1 where f: "find_tap sys c s = (r, s1)" by fastforce
  then have res: "search_result s (r, s1)" using find_tap_result [of s sys c] by simp
  show ?thesis
  proof (cases "r \<noteq> None \<and> wc_set_mtu sys \<and> wc_create_file sys \<and> wc_config_tun sys \<and> wc_media_status sys")
    case False
    with f res assms(3) show ?thesis
      by (cases r) (auto simp: cygwin_init_tun_def search_result_def same_handles_def RegCloseKey_def win_do_def Let_def)
  next
    case True
    with res obtain i d where r: "r = Some i" and d: "win_device s1 = Some d" by (auto simp: search_result_def)
    obtain up down where "exec_up_commands (Some cygwin_default_up) c d = Some up" "exec_down_commands (Some cygwin_default_down) c d = Some down"
      using assms(1,2) by blast
    with True f res d r show ?thesis
      by (simp add: cygwin_init_tun_def cygwin_close_tun_def search_result_def same_handles_def RegCloseKey_def win_do_def Let_def)
  qed
qed

definition demo_win_calls :: win_calls where
  "demo_win_calls = \<lparr>wc_adapter_key = True,
     wc_adapters = [\<lparr>ad_open = True, ad_component_id = Some ''tap0901'', ad_instance_id = Some ''guid'', ad_connection = Some (Some ''VPN'')\<rparr>],
     wc_set_mtu = True, wc_create_file = True, wc_config_tun = False, wc_media_status = True, wc_read_event = True, wc_write_event = True\<rparr>"

definition demo_win_state :: win_state where
  "demo_win_state = \<lparr>reg_keys = 0, dev_open = False, events = 0, read_event = False, write_event = False, win_device = None, pending_read = False, reads_under_way = 0, writes_under_way = 0, win_ops = []\<rparr>"

text \<open>The adapter is found and opened, but cannot be set up.\<close>

theorem cygwin_handles_released_witness:
  "\<exists>r s1. cygwin_init_tun demo_win_calls initConfig demo_win_state = Some (r, s1) \<and> reg_keys s1 = 0 \<and> r = -1 \<and> \<not> dev_open s1"
proof -
  have cmds: "exec_up_commands (Some cygwin_default_up) initConfig d \<noteq> None" "exec_down_commands (Some cygwin_default_down) initConfig d \<noteq> None" for d
    by (simp_all add: exec_up_commands_def exec_down_commands_def exec_internal_def replace_args_def variable_text_def
        cygwin_default_up_def cygwin_default_down_def initConfig_def)
  have "\<not> dev_open demo_win_state" by (simp add: demo_win_state_def)
  from cygwin_handles_released [OF cmds this, of demo_win_calls] obtain r s1 where
    i: "cygwin_init_tun demo_win_calls initConfig demo_win_state = Some (r, s1)" and "reg_keys s1 = reg_keys demo_win_state"
    and h: "if r < 0 then \<not> dev_open s1 \<and> events s1 = events demo_win_state
     else dev_open s1 \<and> events s1 = events demo_win_state + of_bool (wc_read_event demo_win_calls) + of_bool (wc_write_event demo_win_calls) \<and>
       (\<exists>s2. cygwin_close_tun initConfig s1 = Some (0, s2) \<and> \<not> dev_open s2 \<and> events s2 = events demo_win_state \<and> win_device s2 = None)"
    by blast
  moreover have "r = -1"
    using i by (simp add: cygwin_init_tun_def find_tap_def tap_id_of_def check_adapter_def check_connection_def Let_def
        demo_win_calls_def initConfig_def)
  ultimately show ?thesis by (simp add: demo_win_state_def)
qed

section \<open>One read at a time\<close>

lemma tun_read_turns_append:
  "tun_read_turns (vs @ ws) s =
     (let (ts, s1) = tun_read_turns vs s; (us, s2) = tun_read_turns ws s1 in (ts @ us, s2))"
proof (induction vs arbitrary: s)
  case (Cons v vs)
  then show ?case by (cases v) (simp add: Let_def split: prod.splits)
qed simp

text \<open>The turns since the last packet, the last one first: the read that the first of them started is still under way.\<close>

definition since_packet :: "tun_turn list \<Rightarrow> tun_turn list" where
  "since_packet ws = takeWhile (\<lambda>(_, status, _). status \<noteq> WAIT_OBJECT_0) (rev ws)"

definition reads_left :: "tun_turn list \<Rightarrow> nat" where
  "reads_left ws = (if since_packet ws = [] then 0 else of_bool (fst (last (since_packet ws))))"

definition packets_told :: "tun_turn list \<Rightarrow> nat list" where
  "packets_told ws = map (\<lambda>(_, _, got). got) (filter (\<lambda>(_, status, _). status = WAIT_OBJECT_0) ws)"

lemma reads_left_le: "reads_left ws \<le> 1"
  by (simp add: reads_left_def)

lemma tun_read_turns_inv:
  assumes "reads_under_way s = 0" "\<not> pending_read s"
  shows "case tun_read_turns ws s of (ts, s') \<Rightarrow>
    list_all (\<lambda>t. fst t \<le> 1) ts \<and> List.map_filter snd ts = map (\<lambda>n. (n, 0)) (packets_told ws) \<and>
    reads_under_way s' = reads_left ws \<and> (pending_read s' \<longleftrightarrow> since_packet ws \<noteq> [])"
proof (induction ws rule: rev_induct)
  case Nil
  then show ?case using assms by (simp add: packets_told_def reads_left_def since_packet_def map_filter_def)
next
  case (snoc w ws)
  obtain started status got where w: "w = (started, status, got)" by (cases w) auto
  obtain ts s' where t: "tun_read_turns ws s = (ts, s')" by fastforce
  note IH = snoc [unfolded t prod.case]
  have left: "reads_left ws \<le> 1" by (rule reads_left_le)
  show ?case
  proof (cases "status = WAIT_OBJECT_0")
    case True
    then have "since_packet (ws @ [w]) = []" "packets_told (ws @ [w]) = packets_told ws @ [got]"
      by (simp_all add: w since_packet_def packets_told_def)
    with True IH left show ?thesis
      by (auto simp: tun_read_turns_append t w read_tun_wait_def read_tun_finalize_def Let_def reads_left_def map_filter_def)
  next
    case False
    then have p: "packets_told (ws @ [w]) = packets_told ws" and c: "since_packet (ws @ [w]) = w # since_packet ws"
      by (simp_all add: w since_packet_def packets_told_def)
    have l: "reads_left (ws @ [w]) = (if since_packet ws = [] then of_bool started else reads_left ws)"
      unfolding reads_left_def c by (simp add: w)
    show ?thesis
      using False IH left c unfolding p l
      by (auto simp: tun_read_turns_append t w read_tun_wait_def Let_def map_filter_def reads_left_def)
  qed
qed

text \<open>C39. The reading loop on Cygwin never has two reads under way, and none while it uses the buffer, and it handles each packet
  whose arrival it is told of exactly once, in order. Its end asks the system to cancel the last read, but does not wait for its
  completion: when the buffer is freed, exactly the read that was started after the last packet, if one was, is still under way
  and may write to the freed buffer.\<close>

theorem one_read_under_way:
  assumes "reads_under_way s = 0" "\<not> pending_read s"
  shows "case tun_read_loop ws s of (ts, s') \<Rightarrow>
    list_all (\<lambda>t. fst t \<le> 1) ts \<and> List.map_filter snd ts = map (\<lambda>n. (n, 0)) (packets_told ws) \<and>
    \<not> pending_read s' \<and> reads_under_way s' = reads_left ws"
proof -
  obtain ts s1 where t: "tun_read_turns ws s = (ts, s1)" by fastforce
  show ?thesis using tun_read_turns_inv [OF assms, of ws] by (simp add: tun_read_loop_def t read_tun_cancel_def)
qed

text \<open>A packet arrives after a wait in vain; then the program ends during the next wait.\<close>

theorem one_read_under_way_witness:
  "case tun_read_loop [(True, WAIT_TIMEOUT, 0), (True, WAIT_OBJECT_0, 60), (True, WAIT_TIMEOUT, 0)] demo_win_state of (ts, s') \<Rightarrow>
     List.map_filter snd ts = [(60, 0)] \<and> reads_under_way s' = 1"
proof -
  let ?ws = "[(True, WAIT_TIMEOUT, 0), (True, WAIT_OBJECT_0, 60), (True, WAIT_TIMEOUT, 0)]"
  obtain ts s' where l: "tun_read_loop ?ws demo_win_state = (ts, s')" by fastforce
  have "reads_under_way demo_win_state = 0" "\<not> pending_read demo_win_state" by (simp_all add: demo_win_state_def)
  from one_read_under_way [OF this, of ?ws] show ?thesis
    unfolding l by (simp add: packets_told_def reads_left_def since_packet_def)
qed

end
