(* ===== verification/Bss_Fifo.thy ===== *)
theory Bss_Fifo
  imports Campagnol_Prelude "HOL-Library.Signed_Division"
begin

text \<open>
  The packet queue between threads (\<^verbatim>\<open>common/bss_fifo.c\<close>, \<^verbatim>\<open>common/bss_fifo.h\<close>): an OpenSSL
  BIO over a ring of preallocated buffers, protected by a mutex and two condition variables.
  The parts of \<^verbatim>\<open>fifo_read\<close> and \<^verbatim>\<open>fifo_write\<close> between two releases of the mutex are
  definitions of their own, on the structure \<^verbatim>\<open>struct fifo_data\<close>; the whole calls are composed
  of them, and so are the steps of a system of one reading and one writing thread.

  Memory blocks are tracked: \<open>live\<close> says which blocks are allocated, freeing a block that is
  not is a fault (\<open>None\<close>), and so is a copy outside of a block or a read of a size that was
  never written. Unwritten bytes of a block are \<open>None\<close>.
\<close>

section \<open>Data\<close>

type_synonym live = "ptr \<Rightarrow> bool"

definition c_free :: "ptr \<Rightarrow> live \<Rightarrow> live option" where
  "c_free p used = (if used p then Some (used(p := False)) else None)"

abbreviation zero_timeval :: timeval where
  "zero_timeval \<equiv> \<lparr>tv_sec = 0, tv_usec = 0\<rparr>"

record fifo_item =
  it_size :: "nat option"
  it_data_size :: nat
  it_data :: "u8 option list"
  it_block :: ptr

record fifo_data =
  fd_size :: u32
  fd_threshold :: u32
  fd_fifo :: "fifo_item list"
  fd_index_read :: u32
  fd_index_write :: u32
  fd_nelem :: u32
  fd_waiting_read :: int
  fd_waiting_write :: int
  fd_rcv_timeout :: timeval
  fd_next_rcv_timeout :: timeval
  fd_curr_rcv_timeout :: timeval
  fd_rcv_timer_exp :: bool
  fd_droptail :: int
  fd_block :: ptr
  fd_array :: ptr

text \<open>The fields of the OpenSSL object that the functions use.\<close>

record fifo_bio =
  bio_init :: int
  bio_shutdown :: int
  bio_num :: int
  bio_retry_read :: bool
  bio_ptr :: "fifo_data option"

section \<open>Creation and destruction\<close>

definition fifo_new :: "fifo_bio \<Rightarrow> fifo_bio" where
  "fifo_new bi = bi\<lparr>bio_shutdown := 1, bio_init := 0, bio_num := -1\<rparr>"

definition new_item :: "ptr \<Rightarrow> nat \<Rightarrow> fifo_item" where
  "new_item p data_size =
     \<lparr>it_size = None, it_data_size = data_size, it_data = replicate data_size None, it_block = p\<rparr>"

text \<open>The loop that allocates the buffers stops at the first failure.\<close>

fun alloc_items :: "allocator \<Rightarrow> nat \<Rightarrow> nat \<Rightarrow> live \<Rightarrow> fifo_item list \<times> live" where
  "alloc_items m 0 data_size used = ([], used)"
| "alloc_items m (Suc n) data_size used =
     (case m used of
        None \<Rightarrow> ([], used)
      | Some p \<Rightarrow>
          (let (items, used') = alloc_items m n data_size (used(p := True))
           in (new_item p data_size # items, used')))"

fun free_items :: "fifo_item list \<Rightarrow> live \<Rightarrow> live option" where
  "free_items [] used = Some used"
| "free_items (it # items) used = do { used' \<leftarrow> c_free (it_block it) used; free_items items used' }"

definition new_fifo_data :: "int \<Rightarrow> ptr \<Rightarrow> fifo_data" where
  "new_fifo_data len p =
     \<lparr>fd_size = word_of_int len, fd_threshold = word_of_int (len sdiv 10), fd_fifo = [],
      fd_index_read = 0, fd_index_write = 0, fd_nelem = 0,
      fd_waiting_read = 0, fd_waiting_write = 0, fd_rcv_timeout = zero_timeval,
      fd_next_rcv_timeout = zero_timeval, fd_curr_rcv_timeout = zero_timeval,
      fd_rcv_timer_exp = False, fd_droptail = 0, fd_block = p, fd_array = 0\<rparr>"

text \<open>On the error paths \<open>bio_ptr\<close> keeps the address of a block that was freed.\<close>

definition fifo_allocate :: "allocator \<Rightarrow> int \<Rightarrow> nat \<Rightarrow> fifo_bio \<Rightarrow> live \<Rightarrow> (int \<times> fifo_bio \<times> live) option" where
  "fifo_allocate m len data_size bi used =
     (case m used of
        None \<Rightarrow> Some (0, bi\<lparr>bio_ptr := None\<rparr>, used)
      | Some p \<Rightarrow>
          (let used1 = used(p := True); d = new_fifo_data len p in
           case m used1 of
             None \<Rightarrow> do { used2 \<leftarrow> c_free p used1; Some (0, bi\<lparr>bio_ptr := Some d\<rparr>, used2) }
           | Some q \<Rightarrow>
               (let (items, used2) = alloc_items m (unat (fd_size d)) data_size (used1(q := True));
                    d = d\<lparr>fd_array := q, fd_fifo := items\<rparr> in
                if length items \<noteq> unat (fd_size d) then
                  do {
                    used3 \<leftarrow> free_items items used2;
                    used4 \<leftarrow> c_free q used3;
                    used5 \<leftarrow> c_free p used4;
                    Some (0, bi\<lparr>bio_ptr := Some d\<rparr>, used5)
                  }
                else Some (1, bi\<lparr>bio_ptr := Some d, bio_init := 1\<rparr>, used2))))"

definition fifo_free :: "fifo_bio option \<Rightarrow> live \<Rightarrow> (int \<times> live) option" where
  "fifo_free b used =
     (case b of
        None \<Rightarrow> Some (0, used)
      | Some bi \<Rightarrow>
          (case (if bio_shutdown bi \<noteq> 0 \<and> bio_init bi \<noteq> 0 then bio_ptr bi else None) of
             None \<Rightarrow> Some (1, used)
           | Some d \<Rightarrow> do {
               used1 \<leftarrow> free_items (fd_fifo d) used;
               used2 \<leftarrow> c_free (fd_array d) used1;
               used3 \<leftarrow> c_free (fd_block d) used2;
               Some (1, used3)
             }))"

text \<open>\<open>obj\<close> is the object that \<^verbatim>\<open>BIO_new\<close> of OpenSSL allocates before it calls \<open>fifo_new\<close>, or
  \<open>None\<close> when that fails; \<^verbatim>\<open>BIO_free\<close> calls \<open>fifo_free\<close>.\<close>

definition BIO_new_fifo :: "allocator \<Rightarrow> fifo_bio option \<Rightarrow> int \<Rightarrow> nat \<Rightarrow> live \<Rightarrow> (fifo_bio option \<times> live) option" where
  "BIO_new_fifo m obj len data_size used =
     (case obj of
        None \<Rightarrow> Some (None, used)
      | Some o0 \<Rightarrow> do {
          (r, bi, used1) \<leftarrow> fifo_allocate m len data_size (fifo_new o0) used;
          if r \<noteq> 1 then do { (_, used2) \<leftarrow> fifo_free (Some bi) used1; Some (None, used2) }
          else Some (Some bi, used1)
        })"

section \<open>Timeouts\<close>

definition set_timeout :: "timeval \<Rightarrow> timeval \<Rightarrow> timespec" where
  "set_timeout now timeout =
     (let nsec = (tv_usec now + tv_usec timeout) * 1000; sec = tv_sec now + tv_sec timeout in
      if nsec \<ge> 1000000000 then \<lparr>ts_sec = sec + 1, ts_nsec = nsec - 1000000000\<rparr>
      else \<lparr>ts_sec = sec, ts_nsec = nsec\<rparr>)"

definition time_left :: "timeval \<Rightarrow> timeval \<Rightarrow> timeval" where
  "time_left next now =
     (let sec = tv_sec next - tv_sec now; usec = tv_usec next - tv_usec now;
          sec1 = (if usec < 0 then sec - 1 else sec);
          usec1 = (if usec < 0 then usec + 1000000 else usec) in
      if sec1 < 0 then \<lparr>tv_sec = 0, tv_usec = 1\<rparr> else \<lparr>tv_sec = sec1, tv_usec = usec1\<rparr>)"

definition next_timeout_set :: "fifo_data \<Rightarrow> bool" where
  "next_timeout_set d \<longleftrightarrow> tv_sec (fd_next_rcv_timeout d) > 0 \<or> tv_usec (fd_next_rcv_timeout d) > 0"

definition fifo_adjust_rcv_timeout :: "timeval \<Rightarrow> fifo_data \<Rightarrow> fifo_data" where
  "fifo_adjust_rcv_timeout timenow d =
     (if next_timeout_set d then
        (let d1 = d\<lparr>fd_rcv_timeout := fd_curr_rcv_timeout d\<rparr>;
             timeleft = time_left (fd_next_rcv_timeout d) timenow;
             rcv = fd_rcv_timeout d1 in
         if (tv_sec rcv = 0 \<and> tv_usec rcv = 0) \<or> tv_sec rcv > tv_sec timeleft
            \<or> (tv_sec rcv = tv_sec timeleft \<and> tv_usec rcv \<ge> tv_usec timeleft)
         then d1\<lparr>fd_curr_rcv_timeout := timeleft\<rparr> else d1)
      else d)"

definition fifo_reset_rcv_timeout :: "fifo_data \<Rightarrow> fifo_data" where
  "fifo_reset_rcv_timeout d =
     (if next_timeout_set d then d\<lparr>fd_curr_rcv_timeout := fd_rcv_timeout d\<rparr> else d)"

section \<open>Reading and writing\<close>

definition next_index :: "u32 \<Rightarrow> u32 \<Rightarrow> u32" where
  "next_index sz i = (if i = sz - 1 then 0 else i + 1)"

text \<open>Up to the wait: either the queue is not empty, or the thread waits on \<^verbatim>\<open>cond_read\<close>, with a
  deadline when a timeout is set.\<close>

datatype read_entry = Read_now | Read_wait "timespec option"

definition fifo_read_enter :: "timeval \<Rightarrow> fifo_data \<Rightarrow> read_entry \<times> fifo_data" where
  "fifo_read_enter now d =
     (if fd_nelem d = 0 then
        (let d1 = fifo_adjust_rcv_timeout now (d\<lparr>fd_waiting_read := fd_waiting_read d + 1\<rparr>);
             t = fd_curr_rcv_timeout d1 in
         (Read_wait (if tv_sec t \<noteq> 0 \<or> tv_usec t \<noteq> 0 then Some (set_timeout now t) else None), d1))
      else (Read_now, d))"

definition fifo_read_leave :: "fifo_data \<Rightarrow> fifo_data" where
  "fifo_read_leave d =
     (let d1 = fifo_reset_rcv_timeout d in d1\<lparr>fd_waiting_read := fd_waiting_read d1 - 1\<rparr>)"

text \<open>What \<^verbatim>\<open>fifo_read\<close> hands back: the return value, the bytes copied, whether it signals
  \<^verbatim>\<open>cond_write\<close>, and whether it sets the retry flag of the BIO.\<close>

record read_result =
  rr_ret :: int
  rr_out :: "u8 option list"
  rr_signal :: bool
  rr_retry :: bool

definition fifo_read_finish :: "bool \<Rightarrow> nat \<Rightarrow> fifo_data \<Rightarrow> (read_result \<times> fifo_data) option" where
  "fifo_read_finish timed_out outl d =
     (if timed_out then
        Some (\<lparr>rr_ret = -1, rr_out = [], rr_signal = False, rr_retry = True\<rparr>, d\<lparr>fd_rcv_timer_exp := True\<rparr>)
      else if unat (fd_index_read d) < length (fd_fifo d) then
        (let item = fd_fifo d ! unat (fd_index_read d) in
         do {
           len \<leftarrow> it_size item;
           (let ret = (if outl \<ge> len then len else outl) in
            if ret \<le> length (it_data item) then
              (let d1 = d\<lparr>fd_index_read := next_index (fd_size d) (fd_index_read d),
                          fd_nelem := fd_nelem d - 1\<rparr> in
               Some (\<lparr>rr_ret = int ret, rr_out = take ret (it_data item),
                      rr_signal = (fd_waiting_write d1 \<noteq> 0 \<and> fd_size d1 - fd_nelem d1 \<ge> fd_threshold d1),
                      rr_retry = False\<rparr>, d1))
            else None)
         })
      else None)"

text \<open>\<open>wait\<close> is the effect of the wait on the condition variable: whether it timed out, and what
  the other threads did to the structure meanwhile.\<close>

definition fifo_read :: "(timespec option \<Rightarrow> fifo_data \<Rightarrow> bool \<times> fifo_data) \<Rightarrow> timeval \<Rightarrow> bool \<Rightarrow> nat
  \<Rightarrow> fifo_bio \<Rightarrow> (read_result \<times> fifo_bio) option" where
  "fifo_read wait now out_null outl b =
     (if out_null then Some (\<lparr>rr_ret = 0, rr_out = [], rr_signal = False, rr_retry = bio_retry_read b\<rparr>, b)
      else do {
        d \<leftarrow> bio_ptr b;
        (r, d2) \<leftarrow> (case fifo_read_enter now d of
                     (Read_now, d1) \<Rightarrow> Some (False, d1)
                   | (Read_wait t, d1) \<Rightarrow> (let (r, d2) = wait t d1 in Some (r, fifo_read_leave d2)));
        (res, d3) \<leftarrow> fifo_read_finish r outl d2;
        Some (res, b\<lparr>bio_ptr := Some d3, bio_retry_read := rr_retry res\<rparr>)
      })"

definition memcpy_into :: "u8 list \<Rightarrow> u8 option list \<Rightarrow> u8 option list" where
  "memcpy_into src block = map Some src @ drop (length src) block"

text \<open>A packet that is larger than the buffer of its slot gets a new buffer; when there is no
  memory for it the packet is cut. The result is the length written and whether \<^verbatim>\<open>cond_read\<close> is
  signalled.\<close>

definition fifo_write_finish :: "allocator \<Rightarrow> u8 list \<Rightarrow> fifo_data \<Rightarrow> live
  \<Rightarrow> (nat \<times> bool \<times> fifo_data \<times> live) option" where
  "fifo_write_finish m inp d used =
     (if unat (fd_index_write d) < length (fd_fifo d) then
        (let item = fd_fifo d ! unat (fd_index_write d) in
         do {
           (item1, inl, used1) \<leftarrow>
             (if length inp > it_data_size item then
                (case m used of
                   Some p \<Rightarrow> do {
                     used' \<leftarrow> c_free (it_block item) (used(p := True));
                     Some (item\<lparr>it_data := replicate (length inp) None, it_block := p,
                                it_data_size := length inp\<rparr>, length inp, used')
                   }
                 | None \<Rightarrow> Some (item, it_data_size item, used))
              else Some (item, length inp, used));
           (if inl \<le> length (it_data item1) then
              (let item2 = item1\<lparr>it_size := Some inl, it_data := memcpy_into (take inl inp) (it_data item1)\<rparr>;
                   d1 = d\<lparr>fd_fifo := (fd_fifo d)[unat (fd_index_write d) := item2],
                          fd_index_write := next_index (fd_size d) (fd_index_write d),
                          fd_nelem := fd_nelem d + 1\<rparr> in
               Some (inl, fd_waiting_read d1 \<noteq> 0, d1, used1))
            else None)
         })
      else None)"

definition fifo_full :: "fifo_data \<Rightarrow> bool" where
  "fifo_full d \<longleftrightarrow> fd_nelem d = fd_size d"

definition fifo_drops :: "fifo_data \<Rightarrow> bool" where
  "fifo_drops d \<longleftrightarrow> fifo_full d \<and> fd_droptail d \<noteq> 0"

text \<open>The loop on \<^verbatim>\<open>cond_write\<close>. \<open>waits\<close> lists what the other threads do during each wait; when it
  is used up the thread is still waiting.\<close>

datatype 'a write_outcome = Written 'a | Still_waiting fifo_data

fun fifo_write_wait :: "(fifo_data \<Rightarrow> fifo_data) list \<Rightarrow> fifo_data \<Rightarrow> fifo_data write_outcome" where
  "fifo_write_wait [] d = (if fifo_full d then Still_waiting (d\<lparr>fd_waiting_write := fd_waiting_write d + 1\<rparr>) else Written d)"
| "fifo_write_wait (w # waits) d =
     (if fifo_full d then
        (let d1 = w (d\<lparr>fd_waiting_write := fd_waiting_write d + 1\<rparr>)
         in fifo_write_wait waits (d1\<lparr>fd_waiting_write := fd_waiting_write d1 - 1\<rparr>))
      else Written d)"

definition fifo_write :: "(fifo_data \<Rightarrow> fifo_data) list \<Rightarrow> allocator \<Rightarrow> u8 list option \<Rightarrow> fifo_bio \<Rightarrow> live
  \<Rightarrow> (int \<times> bool \<times> fifo_bio \<times> live) write_outcome option" where
  "fifo_write waits m inp b used =
     (case inp of
        None \<Rightarrow> Some (Written (-1, False, b, used))
      | Some i \<Rightarrow> do {
          d \<leftarrow> bio_ptr b;
          (if fifo_drops d then Some (Written (int (length i), False, b, used))
           else case fifo_write_wait waits d of
             Still_waiting d1 \<Rightarrow> Some (Still_waiting d1)
           | Written d1 \<Rightarrow> do {
               (n, sig, d2, used1) \<leftarrow> fifo_write_finish m i d1 used;
               Some (Written (int n, sig, b\<lparr>bio_ptr := Some d2, bio_retry_read := False\<rparr>, used1))
             })
        })"

section \<open>Control operations\<close>

datatype fifo_cmd =
    CTRL_RESET | CTRL_EOF | CTRL_GET_CLOSE | CTRL_SET_CLOSE int | CTRL_WPENDING | CTRL_PENDING
  | CTRL_DUP | CTRL_FLUSH | SET_NEXT_TIMEOUT timeval | SET_RECV_TIMEOUT timeval | GET_RECV_TIMEOUT
  | GET_RECV_TIMER_EXP | FIFO_SET_DROPTAIL int | FIFO_GET_DROPTAIL | CTRL_PUSH | CTRL_POP | CTRL_OTHER

text \<open>The loop of \<^verbatim>\<open>BIO_CTRL_PENDING\<close> over \<open>n\<close> items from index \<open>i\<close>.\<close>

fun pending_sum :: "fifo_data \<Rightarrow> nat \<Rightarrow> u32 \<Rightarrow> int option" where
  "pending_sum d 0 i = Some 0"
| "pending_sum d (Suc n) i =
     (let k = unat (if i < fd_size d then i else i - fd_size d) in
      if k < length (fd_fifo d) then
        do { s \<leftarrow> it_size (fd_fifo d ! k); r \<leftarrow> pending_sum d n (i + 1); Some (int s + r) }
      else None)"

text \<open>The return value, what is stored through the pointer argument if anything, and the BIO.\<close>

definition fifo_ctrl :: "fifo_cmd \<Rightarrow> fifo_bio \<Rightarrow> (int \<times> timeval option \<times> fifo_bio) option" where
  "fifo_ctrl cmd b =
     do {
       d \<leftarrow> bio_ptr b;
       (case cmd of
          CTRL_RESET \<Rightarrow> Some (1, None, b\<lparr>bio_ptr := Some (d\<lparr>fd_index_read := 0, fd_index_write := 0, fd_nelem := 0\<rparr>)\<rparr>)
        | CTRL_EOF \<Rightarrow> Some (if fd_nelem d = 0 then 1 else 0, None, b)
        | CTRL_GET_CLOSE \<Rightarrow> Some (bio_shutdown b, None, b)
        | CTRL_SET_CLOSE num \<Rightarrow> Some (1, None, b\<lparr>bio_shutdown := num\<rparr>)
        | CTRL_WPENDING \<Rightarrow> Some (0, None, b)
        | CTRL_PENDING \<Rightarrow>
            do { ret \<leftarrow> pending_sum d (unat (fd_index_read d + fd_nelem d) - unat (fd_index_read d)) (fd_index_read d);
                 Some (ret, None, b) }
        | CTRL_DUP \<Rightarrow> Some (1, None, b)
        | CTRL_FLUSH \<Rightarrow> Some (1, None, b)
        | SET_NEXT_TIMEOUT t \<Rightarrow> Some (1, None, b\<lparr>bio_ptr := Some (d\<lparr>fd_next_rcv_timeout := t\<rparr>)\<rparr>)
        | SET_RECV_TIMEOUT t \<Rightarrow> Some (1, None, b\<lparr>bio_ptr := Some (d\<lparr>fd_curr_rcv_timeout := t\<rparr>)\<rparr>)
        | GET_RECV_TIMEOUT \<Rightarrow> Some (1, Some (fd_curr_rcv_timeout d), b)
        | GET_RECV_TIMER_EXP \<Rightarrow>
            (if fd_rcv_timer_exp d then Some (1, None, b\<lparr>bio_ptr := Some (d\<lparr>fd_rcv_timer_exp := False\<rparr>)\<rparr>)
             else Some (0, None, b))
        | FIFO_SET_DROPTAIL num \<Rightarrow> Some (1, None, b\<lparr>bio_ptr := Some (d\<lparr>fd_droptail := num\<rparr>)\<rparr>)
        | FIFO_GET_DROPTAIL \<Rightarrow> Some (fd_droptail d, None, b)
        | CTRL_PUSH \<Rightarrow> Some (0, None, b)
        | CTRL_POP \<Rightarrow> Some (0, None, b)
        | CTRL_OTHER \<Rightarrow> Some (0, None, b))
     }"

section \<open>Rings\<close>

text \<open>The \<open>n\<close> entries of an array from position \<open>r\<close> on, wrapping around at its end.\<close>

definition ring :: "'a list \<Rightarrow> nat \<Rightarrow> nat \<Rightarrow> 'a list" where
  "ring xs r n = map (\<lambda>k. xs ! ((r + k) mod length xs)) [0..<n]"

lemma length_ring [simp]: "length (ring xs r n) = n"
  by (simp add: ring_def)

lemma ring_zero [simp]: "ring xs r 0 = []"
  by (simp add: ring_def)

lemma ring_Suc: "ring xs r (Suc n) = xs ! (r mod length xs) # ring xs ((r + 1) mod length xs) n"
  by (simp add: ring_def upt_conv_Cons map_Suc_upt [symmetric] mod_simps comp_def del: upt_Suc)

lemma ring_put:
  assumes "n < length xs"
  shows "ring (xs[(r + n) mod length xs := x]) r (Suc n) = ring xs r n @ [x]"
proof -
  have "(r + k) mod length xs \<noteq> (r + n) mod length xs" if "k < n" for k
  proof
    assume "(r + k) mod length xs = (r + n) mod length xs"
    then have "(r + n - (r + k)) mod length xs = 0" by (metis mod_eq_dvd_iff_nat le_add1 nat_add_left_cancel_le
      less_imp_le that mod_0_imp_dvd dvd_imp_mod_0)
    with that assms show False by simp
  qed
  moreover have "0 < length xs" using assms by linarith
  ultimately show ?thesis by (fastforce simp: ring_def)
qed

lemma unat_next_index:
  assumes "i < sz"
  shows "unat (next_index sz i) = (unat i + 1) mod unat sz"
proof (cases "i = sz - 1")
  case True
  have "sz \<noteq> 0" using assms by auto
  then have "unat sz = unat i + 1" using True by (metis Suc_eq_plus1 eq_diff_eq unatSuc add.commute)
  with True show ?thesis by (simp add: next_index_def)
next
  case False
  have lt: "unat i < unat sz" using assms by (simp add: word_less_nat_alt)
  have ne: "unat i \<noteq> unat sz - 1"
  proof
    assume "unat i = unat sz - 1"
    then have "unat sz = unat i + 1" using lt by simp
    then have "sz = i + 1" by (metis of_nat_Suc of_nat_unat ucast_id Suc_eq_plus1 add.commute)
    with False show False by simp
  qed
  have b: "unat sz < 2 ^ 32" by (rule order.strict_trans2 [OF unsigned_less]) simp
  have "unat (i + 1) = unat i + 1"
    using lt ne b by (subst unat_add_lem [THEN iffD1]) auto
  with False lt ne show ?thesis by (simp add: next_index_def)
qed

section \<open>The invariant of the queue\<close>

definition fifo_items :: "fifo_data \<Rightarrow> fifo_item list" where
  "fifo_items d = ring (fd_fifo d) (unat (fd_index_read d)) (unat (fd_nelem d))"

definition item_packet :: "fifo_item \<Rightarrow> u8 option list" where
  "item_packet it = (case it_size it of None \<Rightarrow> [] | Some n \<Rightarrow> take n (it_data it))"

definition item_stored :: "fifo_item \<Rightarrow> bool" where
  "item_stored it \<longleftrightarrow> (case it_size it of None \<Rightarrow> False | Some n \<Rightarrow> n \<le> length (it_data it))"

text \<open>The packets in the queue, in the order in which they will be read.\<close>

definition fifo_packets :: "fifo_data \<Rightarrow> u8 option list list" where
  "fifo_packets d = map item_packet (fifo_items d)"

definition fifo_blocks :: "fifo_data \<Rightarrow> ptr list" where
  "fifo_blocks d = fd_block d # fd_array d # map it_block (fd_fifo d)"

definition fifo_wf :: "fifo_data \<Rightarrow> live \<Rightarrow> bool" where
  "fifo_wf d used \<longleftrightarrow>
     length (fd_fifo d) = unat (fd_size d) \<and> fd_index_read d < fd_size d \<and>
     fd_nelem d \<le> fd_size d \<and> fd_threshold d < fd_size d \<and>
     unat (fd_index_write d) = (unat (fd_index_read d) + unat (fd_nelem d)) mod unat (fd_size d) \<and>
     (\<forall>it \<in> set (fd_fifo d). length (it_data it) = it_data_size it) \<and>
     (\<forall>it \<in> set (fifo_items d). item_stored it) \<and>
     distinct (fifo_blocks d) \<and> (\<forall>p \<in> set (fifo_blocks d). used p)"

lemma length_fifo_packets [simp]: "length (fifo_packets d) = unat (fd_nelem d)"
  by (simp add: fifo_packets_def fifo_items_def)

lemma fifo_packets_Nil: "fifo_packets d = [] \<longleftrightarrow> fd_nelem d = 0"
  by (metis length_0_conv length_fifo_packets unat_eq_zero)

text \<open>Operations that change nothing but counters and timeouts.\<close>

definition same_queue :: "fifo_data \<Rightarrow> fifo_data \<Rightarrow> bool" where
  "same_queue d d' \<longleftrightarrow>
     fd_size d' = fd_size d \<and> fd_threshold d' = fd_threshold d \<and> fd_fifo d' = fd_fifo d \<and>
     fd_index_read d' = fd_index_read d \<and> fd_index_write d' = fd_index_write d \<and>
     fd_nelem d' = fd_nelem d \<and> fd_block d' = fd_block d \<and> fd_array d' = fd_array d"

lemma same_queue_wf: "same_queue d d' \<Longrightarrow> fifo_wf d' used = fifo_wf d used"
  by (simp add: same_queue_def fifo_wf_def fifo_items_def fifo_blocks_def)

lemma same_queue_packets: "same_queue d d' \<Longrightarrow> fifo_packets d' = fifo_packets d"
  by (simp add: same_queue_def fifo_packets_def fifo_items_def)

lemma same_queue_adjust [simp]: "same_queue d (fifo_adjust_rcv_timeout now d)"
  by (simp add: same_queue_def fifo_adjust_rcv_timeout_def Let_def)

lemma same_queue_reset [simp]: "same_queue d (fifo_reset_rcv_timeout d)"
  by (simp add: same_queue_def fifo_reset_rcv_timeout_def)

lemma waiting_adjust [simp]:
  "fd_waiting_read (fifo_adjust_rcv_timeout now d) = fd_waiting_read d"
  "fd_waiting_write (fifo_adjust_rcv_timeout now d) = fd_waiting_write d"
  "fd_waiting_read (fifo_reset_rcv_timeout d) = fd_waiting_read d"
  "fd_waiting_write (fifo_reset_rcv_timeout d) = fd_waiting_write d"
  by (simp_all add: fifo_adjust_rcv_timeout_def fifo_reset_rcv_timeout_def Let_def)

section \<open>Taking and putting a packet\<close>

lemma fifo_read_finish_spec:
  assumes wf: "fifo_wf d used" and ne: "fd_nelem d \<noteq> 0"
  obtains r d' where "fifo_read_finish False outl d = Some (r, d')"
    and "fifo_packets d = p # ps \<Longrightarrow>
           rr_out r = take outl p \<and> rr_ret r = int (min outl (length p)) \<and> fifo_packets d' = ps"
    and "fifo_wf d' used" and "fd_nelem d' = fd_nelem d - 1"
    and "rr_signal r \<longleftrightarrow> fd_waiting_write d \<noteq> 0 \<and> fd_size d - fd_nelem d' \<ge> fd_threshold d"
    and "fd_size d' = fd_size d" "fd_threshold d' = fd_threshold d"
    and "fd_waiting_read d' = fd_waiting_read d" "fd_waiting_write d' = fd_waiting_write d"
proof -
  let ?i = "unat (fd_index_read d)" and ?n = "unat (fd_size d)" and ?e = "unat (fd_nelem d)"
  let ?it = "fd_fifo d ! ?i"
  let ?d = "d\<lparr>fd_index_read := next_index (fd_size d) (fd_index_read d), fd_nelem := fd_nelem d - 1\<rparr>"
  have len: "length (fd_fifo d) = ?n" and ir: "fd_index_read d < fd_size d"
    and e: "fd_nelem d \<le> fd_size d" and st: "\<forall>it \<in> set (fifo_items d). item_stored it"
    using wf by (auto simp: fifo_wf_def)
  have i: "?i < ?n" using ir by (simp add: word_less_nat_alt)
  have e1: "unat (fd_nelem d - 1) = ?e - 1" "0 < ?e"
    using ne by (simp_all add: unat_minus_one unat_gt_0)
  have items: "fifo_items d = ?it # fifo_items ?d"
    using ring_Suc [of "fd_fifo d" ?i "?e - 1"] e1 i len unat_next_index [OF ir]
    by (simp add: fifo_items_def)
  with st obtain n where n: "it_size ?it = Some n" "n \<le> length (it_data ?it)"
    by (auto simp: item_stored_def split: option.splits)
  have nx: "next_index (fd_size d) (fd_index_read d) < fd_size d"
    using unat_next_index [OF ir] i by (simp add: word_less_nat_alt)
  have idx: "(?i + ?e) mod ?n = ((?i + 1) mod ?n + (?e - 1)) mod ?n"
  proof -
    have "?i + ?e = (?i + 1) + (?e - 1)" using e1(2) by simp
    then show ?thesis by (metis mod_add_left_eq)
  qed
  have "fd_nelem d - 1 \<le> fd_size d"
    using e e1(1) by (simp add: word_le_nat_alt)
  then have "fifo_wf ?d used"
    using wf items nx idx e1 unat_next_index [OF ir]
    by (simp add: fifo_wf_def fifo_blocks_def)
  moreover have "fifo_read_finish False outl d =
      Some (\<lparr>rr_ret = int (if outl \<ge> n then n else outl), rr_out = take (if outl \<ge> n then n else outl) (it_data ?it),
        rr_signal = (fd_waiting_write d \<noteq> 0 \<and> fd_size d - (fd_nelem d - 1) \<ge> fd_threshold d), rr_retry = False\<rparr>, ?d)"
    using i len n by (simp add: fifo_read_finish_def)
  moreover have "fifo_packets d = take n (it_data ?it) # fifo_packets ?d"
    using items n by (simp add: fifo_packets_def item_packet_def)
  ultimately show thesis
    using n(2) by (intro that [of "\<lparr>rr_ret = int (if outl \<ge> n then n else outl),
      rr_out = take (if outl \<ge> n then n else outl) (it_data ?it),
      rr_signal = (fd_waiting_write d \<noteq> 0 \<and> fd_size d - (fd_nelem d - 1) \<ge> fd_threshold d),
      rr_retry = False\<rparr>" ?d]) (auto simp: min_def)
qed

text \<open>The buffer of a slot for a packet of a given length: the slot as it is, a larger buffer, or the
  slot as it is for a part of the packet. Blocks are neither lost nor shared.\<close>

definition slot_for :: "allocator \<Rightarrow> nat \<Rightarrow> fifo_item \<Rightarrow> live \<Rightarrow> (fifo_item \<times> nat \<times> live) option" where
  "slot_for m len item used =
     (if len > it_data_size item then
        (case m used of
           Some p \<Rightarrow> do {
             used' \<leftarrow> c_free (it_block item) (used(p := True));
             Some (item\<lparr>it_data := replicate len None, it_block := p, it_data_size := len\<rparr>, len, used')
           }
         | None \<Rightarrow> Some (item, it_data_size item, used))
      else Some (item, len, used))"

lemma slot_for_spec:
  assumes fr: "malloc_fresh m" and live: "used (it_block item)" and len: "length (it_data item) = it_data_size item"
  obtains item' n used' where "slot_for m k item used = Some (item', n, used')"
    and "n \<le> k" "n \<le> length (it_data item')" "length (it_data item') = it_data_size item'"
    and "m used \<noteq> None \<Longrightarrow> n = k"
    and "it_block item' = it_block item \<and> used' = used \<or>
         \<not> used (it_block item') \<and> used' = used(it_block item' := True, it_block item := False)"
proof (cases "k > it_data_size item")
  case False
  with len show thesis by (intro that) (auto simp: slot_for_def)
next
  case True
  show thesis
  proof (cases "m used")
    case None
    with True len show thesis by (intro that) (auto simp: slot_for_def)
  next
    case (Some p)
    with malloc_freshD [OF fr Some] True live show thesis
      by (intro that [of "item\<lparr>it_data := replicate k None, it_block := p, it_data_size := k\<rparr>" k
            "used(p := True, it_block item := False)"]) (auto simp: slot_for_def c_free_def)
  qed
qed

lemma fifo_write_finish_slot:
  "fifo_write_finish m inp d used =
     (if unat (fd_index_write d) < length (fd_fifo d) then
        do {
          (item1, inl, used1) \<leftarrow> slot_for m (length inp) (fd_fifo d ! unat (fd_index_write d)) used;
          (if inl \<le> length (it_data item1) then
             (let item2 = item1\<lparr>it_size := Some inl, it_data := memcpy_into (take inl inp) (it_data item1)\<rparr>;
                  d1 = d\<lparr>fd_fifo := (fd_fifo d)[unat (fd_index_write d) := item2],
                         fd_index_write := next_index (fd_size d) (fd_index_write d),
                         fd_nelem := fd_nelem d + 1\<rparr> in
              Some (inl, fd_waiting_read d1 \<noteq> 0, d1, used1))
           else None)
        }
      else None)"
  by (simp add: fifo_write_finish_def slot_for_def Let_def)

lemma replace_block:
  assumes "o0 \<in> B" "A \<inter> B = {}" "\<forall>p \<in> A \<union> B. used p"
    and "n = o0 \<and> used' = used \<or> \<not> used n \<and> used' = used(n := True, o0 := False)"
  shows "\<forall>p \<in> A \<union> insert n (B - {o0}). used' p"
    "used' p \<longleftrightarrow> used p \<and> p \<notin> A \<union> B \<or> p \<in> A \<union> insert n (B - {o0})"
  using assms by (auto split: if_splits)

lemma list_update_blocks:
  assumes "w < length xs" "distinct (as @ map f xs)"
    and b: "f y = f (xs ! w) \<and> used' = used \<or>
      \<not> used (f y) \<and> used' = used(f y := True, f (xs ! w) := False)"
    and live: "\<forall>p \<in> set (as @ map f xs). used p"
  shows "distinct (as @ map f (xs[w := y]))" "\<forall>p \<in> set (as @ map f (xs[w := y])). used' p"
    "used' p \<longleftrightarrow> used p \<and> p \<notin> set (as @ map f xs) \<or> p \<in> set (as @ map f (xs[w := y]))"
proof -
  have x: "f (xs ! w) \<in> set (map f xs)" using assms(1) by simp
  have m: "map f (xs[w := y]) = (map f xs)[w := f y]" by (simp add: map_update)
  have s: "set ((map f xs)[w := f y]) = insert (f y) (set (map f xs) - {f (xs ! w)})"
    using assms(1,2) by (subst set_update_distinct) auto
  have dis: "set as \<inter> set (map f xs) = {}" using assms(2) by simp
  note r = replace_block [OF x dis live [unfolded set_append] b]
  from r show "\<forall>p \<in> set (as @ map f (xs[w := y])). used' p"
    and "used' p \<longleftrightarrow> used p \<and> p \<notin> set (as @ map f xs) \<or> p \<in> set (as @ map f (xs[w := y]))"
    unfolding m set_append s by blast+
  show "distinct (as @ map f (xs[w := y]))"
    using b
  proof
    assume "f y = f (xs ! w) \<and> used' = used"
    then have "(map f xs)[w := f y] = map f xs" using assms(1) by (simp add: list_update_same_conv)
    then show ?thesis unfolding m using assms(2) by simp
  next
    assume "\<not> used (f y) \<and> used' = used(f y := True, f (xs ! w) := False)"
    then have "f y \<notin> set (as @ map f xs)" using live by blast
    then show ?thesis unfolding m distinct_append s using assms(2) by (auto intro: distinct_list_update)
  qed
qed

lemma fifo_write_finish_spec:
  assumes wf: "fifo_wf d used" and room: "\<not> fifo_full d" and fr: "malloc_fresh m"
  obtains n d' used' where "fifo_write_finish m inp d used = Some (n, fd_waiting_read d \<noteq> 0, d', used')"
    and "fifo_packets d' = fifo_packets d @ [map Some (take n inp)]"
    and "n \<le> length inp" and "m used \<noteq> None \<Longrightarrow> n = length inp"
    and "fifo_wf d' used'"
    and "\<And>p. used' p \<longleftrightarrow> used p \<and> p \<notin> set (fifo_blocks d) \<or> p \<in> set (fifo_blocks d')"
    and "\<And>p. p \<in> set (fifo_blocks d') \<Longrightarrow> p \<in> set (fifo_blocks d) \<or> \<not> used p"
    and "fd_nelem d' = fd_nelem d + 1" "fd_size d' = fd_size d" "fd_threshold d' = fd_threshold d"
    and "fd_waiting_read d' = fd_waiting_read d" "fd_waiting_write d' = fd_waiting_write d"
proof -
  let ?i = "unat (fd_index_read d)" and ?n = "unat (fd_size d)" and ?e = "unat (fd_nelem d)"
  let ?w = "unat (fd_index_write d)"
  have len: "length (fd_fifo d) = ?n" and w: "?w = (?i + ?e) mod ?n" and ir: "fd_index_read d < fd_size d"
    and le: "fd_nelem d \<le> fd_size d" and st: "\<forall>it \<in> set (fifo_items d). item_stored it"
    and dl: "\<forall>it \<in> set (fd_fifo d). length (it_data it) = it_data_size it"
    using wf by (auto simp: fifo_wf_def)
  have e: "?e < ?n"
    using le_neq_trans [OF le] room by (simp add: fifo_full_def word_less_nat_alt)
  have wl: "?w < length (fd_fifo d)" using w len e by simp
  have e1: "unat (fd_nelem d + 1) = Suc ?e"
  proof -
    have "fd_nelem d + 1 \<noteq> 0"
    proof
      assume "fd_nelem d + 1 = 0"
      then have "fd_nelem d = - 1" by (simp add: eq_neg_iff_add_eq_0)
      with e show False by (metis not_less word_less_nat_alt word_n1_ge)
    qed
    then show ?thesis by (metis unatSuc add.commute)
  qed
  let ?it = "fd_fifo d ! ?w"
  have it: "?it \<in> set (fd_fifo d)" using wl by simp
  obtain it' n used' where s: "slot_for m (length inp) ?it used = Some (it', n, used')"
    and n: "n \<le> length inp" "n \<le> length (it_data it')" "length (it_data it') = it_data_size it'"
    and full: "m used \<noteq> None \<Longrightarrow> n = length inp"
    and b: "it_block it' = it_block ?it \<and> used' = used \<or>
         \<not> used (it_block it') \<and> used' = used(it_block it' := True, it_block ?it := False)"
    by (rule slot_for_spec [OF fr, of used ?it "length inp"])
      (use wf it dl in \<open>auto simp: fifo_wf_def fifo_blocks_def\<close>)
  let ?it2 = "it'\<lparr>it_size := Some n, it_data := memcpy_into (take n inp) (it_data it')\<rparr>"
  let ?d = "d\<lparr>fd_fifo := (fd_fifo d)[?w := ?it2], fd_index_write := next_index (fd_size d) (fd_index_write d),
              fd_nelem := fd_nelem d + 1\<rparr>"
  have iw: "fd_index_write d < fd_size d" using w e by (simp add: word_less_nat_alt)
  have items: "fifo_items ?d = fifo_items d @ [?it2]"
    using ring_put [of ?e "fd_fifo d" ?i ?it2] e w len e1 by (simp add: fifo_items_def)
  have pk: "item_packet ?it2 = map Some (take n inp)" "item_stored ?it2"
    using n by (auto simp: item_packet_def item_stored_def memcpy_into_def)
  have bl: "distinct ([fd_block d, fd_array d] @ map it_block (fd_fifo d))"
    "\<forall>p \<in> set ([fd_block d, fd_array d] @ map it_block (fd_fifo d)). used p"
    using wf by (auto simp: fifo_wf_def fifo_blocks_def)
  have b2: "it_block ?it2 = it_block (fd_fifo d ! ?w) \<and> used' = used \<or>
      \<not> used (it_block ?it2) \<and> used' = used(it_block ?it2 := True, it_block (fd_fifo d ! ?w) := False)"
    using b by simp
  note lb = list_update_blocks [OF wl bl(1) b2 bl(2)]
  have dl': "\<forall>it \<in> set (fd_fifo ?d). length (it_data it) = it_data_size it"
    using dl n by (auto simp: memcpy_into_def dest!: set_update_subset_insert [THEN subsetD])
  have "unat (fd_index_write ?d) = (?i + Suc ?e) mod ?n"
    using unat_next_index [OF iw] w by (simp add: mod_simps)
  moreover have "fd_nelem d + 1 \<le> fd_size d" using e e1 by (simp add: word_le_nat_alt)
  ultimately have "fifo_wf ?d used'"
    using wf items pk lb(1,2) dl' e1 by (simp add: fifo_wf_def fifo_blocks_def)
  moreover have "fifo_write_finish m inp d used = Some (n, fd_waiting_read d \<noteq> 0, ?d, used')"
    using wl s n by (simp add: fifo_write_finish_slot)
  moreover have "fifo_packets ?d = fifo_packets d @ [map Some (take n inp)]"
    using items pk by (simp add: fifo_packets_def)
  moreover have "\<And>p. used' p \<longleftrightarrow> used p \<and> p \<notin> set (fifo_blocks d) \<or> p \<in> set (fifo_blocks ?d)"
    using lb(3) by (simp add: fifo_blocks_def)
  moreover have "p \<in> set (fifo_blocks d) \<or> \<not> used p" if "p \<in> set (fifo_blocks ?d)" for p
    using that b2 wl by (auto simp: fifo_blocks_def map_update dest!: set_update_subset_insert [THEN subsetD])
  ultimately show thesis by (intro that [of n ?d used']) (use n full in simp_all)
qed

section \<open>The contract of a packet queue\<close>

text \<open>A bounded first-in first-out queue. \<open>put\<close> returns the packet as it was stored, \<open>get\<close> with an
  option \<open>x\<close> (the room of the receiver) returns a view of the first packet.\<close>

locale packet_queue =
  fixes ok :: "'q \<Rightarrow> bool" and content :: "'q \<Rightarrow> 'p list" and full :: "'q \<Rightarrow> bool"
    and input_ok :: "'i \<Rightarrow> bool" and view :: "'x \<Rightarrow> 'p \<Rightarrow> 'r"
    and put :: "'i \<Rightarrow> 'q \<Rightarrow> ('p \<times> 'q) option" and get :: "'x \<Rightarrow> 'q \<Rightarrow> ('r \<times> 'q) option"
  assumes put_stores: "ok q \<Longrightarrow> \<not> full q \<Longrightarrow> input_ok i \<Longrightarrow>
      \<exists>p q'. put i q = Some (p, q') \<and> ok q' \<and> content q' = content q @ [p]"
    and get_first: "ok q \<Longrightarrow> content q \<noteq> [] \<Longrightarrow>
      \<exists>q'. get x q = Some (view x (hd (content q)), q') \<and> ok q' \<and> content q' = tl (content q)"
begin

text \<open>Packets that went in are the packets that came out followed by the packets inside.\<close>

lemma put_history:
  assumes "ok q" "\<not> full q" "input_ok i" "put i q = Some (p, q')" "ins = outs @ content q"
  shows "ok q'" "ins @ [p] = outs @ content q'"
  using put_stores [OF assms(1-3)] assms(4,5) by auto

lemma get_history:
  assumes "ok q" "content q \<noteq> []" "get x q = Some (r, q')" "ins = outs @ content q"
  shows "ok q'" "ins = (outs @ [hd (content q)]) @ content q'" "r = view x (hd (content q))"
  using get_first [OF assms(1,2), of x] assms(2-4) by (auto simp: hd_Cons_tl)

end

definition fifo_put :: "allocator \<times> u8 list \<Rightarrow> fifo_data \<times> live \<Rightarrow> (u8 option list \<times> fifo_data \<times> live) option" where
  "fifo_put i q =
     do { (n, sig, d', used') \<leftarrow> fifo_write_finish (fst i) (snd i) (fst q) (snd q);
          Some (map Some (take n (snd i)), d', used') }"

definition fifo_get :: "nat \<Rightarrow> fifo_data \<times> live \<Rightarrow> (u8 option list \<times> fifo_data \<times> live) option" where
  "fifo_get outl q = do { (r, d') \<leftarrow> fifo_read_finish False outl (fst q); Some (rr_out r, d', snd q) }"

interpretation fifo: packet_queue "\<lambda>(d, used). fifo_wf d used" "\<lambda>(d, used). fifo_packets d"
  "\<lambda>(d, used). fifo_full d" "\<lambda>(m, inp). malloc_fresh m" take fifo_put fifo_get
proof (unfold_locales, goal_cases)
  case (1 q i)
  obtain d used m inp where q: "q = (d, used)" and i: "i = (m, inp)" by (cases q; cases i)
  from 1 q i have "fifo_wf d used" "\<not> fifo_full d" "malloc_fresh m" by auto
  then show ?case
    by (rule fifo_write_finish_spec [of d used m inp]) (auto simp: q i fifo_put_def)
next
  case (2 q x)
  obtain d used where q: "q = (d, used)" by (cases q)
  from 2 q obtain p ps where wf: "fifo_wf d used" and pk: "fifo_packets d = p # ps"
    by (cases "fifo_packets d") auto
  then have "fd_nelem d \<noteq> 0" by (simp flip: fifo_packets_Nil)
  then show ?case
    by (rule fifo_read_finish_spec [OF wf, of x p ps]) (use pk in \<open>auto simp: q fifo_get_def\<close>)
qed

section \<open>Allocation and release\<close>

lemma alloc_items_spec:
  assumes "malloc_fresh m" "alloc_items m n k used = (items, used')"
  shows "length items \<le> n" "distinct (map it_block items)"
    "\<forall>it \<in> set items. \<not> used (it_block it) \<and> length (it_data it) = it_data_size it"
    "used' = (\<lambda>p. used p \<or> p \<in> set (map it_block items))"
proof -
  have "length items \<le> n \<and> distinct (map it_block items) \<and>
    (\<forall>it \<in> set items. \<not> used (it_block it) \<and> length (it_data it) = it_data_size it) \<and>
    used' = (\<lambda>p. used p \<or> p \<in> set (map it_block items))"
    using assms(2)
  proof (induction n arbitrary: used items used')
    case 0
    then show ?case by simp
  next
    case (Suc n)
    show ?case
    proof (cases "m used")
      case None
      with Suc.prems show ?thesis by simp
    next
      case (Some p)
      from Suc.prems Some obtain xs where xs: "alloc_items m n k (used(p := True)) = (xs, used')"
        and items: "items = new_item p k # xs"
        by (auto split: prod.splits)
      from Suc.IH [OF xs] malloc_freshD [OF assms(1) Some] show ?thesis
        by (auto simp: items new_item_def fun_eq_iff split: if_splits)
    qed
  qed
  then show "length items \<le> n" "distinct (map it_block items)"
    "\<forall>it \<in> set items. \<not> used (it_block it) \<and> length (it_data it) = it_data_size it"
    "used' = (\<lambda>p. used p \<or> p \<in> set (map it_block items))"
    by blast+
qed

lemma free_items_spec:
  "distinct (map it_block items) \<Longrightarrow> \<forall>it \<in> set items. used (it_block it) \<Longrightarrow>
     free_items items used = Some (\<lambda>p. used p \<and> p \<notin> it_block ` set items)"
proof (induction items arbitrary: used)
  case (Cons it items)
  then have "free_items items (used(it_block it := False)) =
      Some (\<lambda>p. (used(it_block it := False)) p \<and> p \<notin> it_block ` set items)"
    using Cons.prems by (intro Cons.IH) (force simp: image_iff)+
  with Cons.prems show ?case by (auto simp: c_free_def fun_eq_iff)
qed simp

lemma fifo_free_spec:
  assumes "fifo_wf d used" "bio_ptr b = Some d" "bio_init b \<noteq> 0" "bio_shutdown b \<noteq> 0"
  shows "fifo_free (Some b) used = Some (1, \<lambda>p. used p \<and> p \<notin> set (fifo_blocks d))"
proof -
  from assms(1) have "free_items (fd_fifo d) used = Some (\<lambda>p. used p \<and> p \<notin> it_block ` set (fd_fifo d))"
    by (intro free_items_spec) (auto simp: fifo_wf_def fifo_blocks_def)
  with assms show ?thesis
    by (auto simp: fifo_free_def c_free_def fifo_wf_def fifo_blocks_def fun_eq_iff)
qed

section \<open>One reading and one writing thread\<close>

text \<open>The state of each thread: outside of a call, or waiting on its condition variable, with a
  flag that says whether the wait has been signalled. The state also records the packets accepted
  from the writer, and the room and the bytes of every read.\<close>

datatype reader = R_idle | R_wait nat "timespec option" bool

datatype writer = W_idle | W_wait "u8 list" bool

record fifo_sys =
  sy_data :: fifo_data
  sy_live :: live
  sy_reader :: reader
  sy_writer :: writer
  sy_accepted :: "u8 list list"
  sy_asked :: "nat list"
  sy_delivered :: "u8 option list list"

definition new_sys :: "fifo_data \<Rightarrow> live \<Rightarrow> fifo_sys" where
  "new_sys d used = \<lparr>sy_data = d, sy_live = used, sy_reader = R_idle, sy_writer = W_idle,
                     sy_accepted = [], sy_asked = [], sy_delivered = []\<rparr>"

fun signal_writer :: "writer \<Rightarrow> writer" where
  "signal_writer W_idle = W_idle"
| "signal_writer (W_wait inp _) = W_wait inp True"

fun signal_reader :: "reader \<Rightarrow> reader" where
  "signal_reader R_idle = R_idle"
| "signal_reader (R_wait n t _) = R_wait n t True"

definition finish_read :: "bool \<Rightarrow> nat \<Rightarrow> fifo_data \<Rightarrow> fifo_sys \<Rightarrow> fifo_sys option" where
  "finish_read timed_out outl d y =
     do {
       (r, d') \<leftarrow> fifo_read_finish timed_out outl d;
       let y1 = y\<lparr>sy_data := d', sy_reader := R_idle,
                  sy_writer := (if rr_signal r then signal_writer (sy_writer y) else sy_writer y)\<rparr>;
       Some (if timed_out then y1
             else y1\<lparr>sy_asked := sy_asked y @ [outl], sy_delivered := sy_delivered y @ [rr_out r]\<rparr>)
     }"

definition finish_write :: "allocator \<Rightarrow> u8 list \<Rightarrow> fifo_data \<Rightarrow> fifo_sys \<Rightarrow> fifo_sys option" where
  "finish_write m inp d y =
     (if fifo_full d then
        Some (y\<lparr>sy_data := d\<lparr>fd_waiting_write := fd_waiting_write d + 1\<rparr>, sy_writer := W_wait inp False\<rparr>)
      else do {
        (n, sig, d', used') \<leftarrow> fifo_write_finish m inp d (sy_live y);
        Some (y\<lparr>sy_data := d', sy_live := used', sy_writer := W_idle,
                sy_reader := (if sig then signal_reader (sy_reader y) else sy_reader y),
                sy_accepted := sy_accepted y @ [take n inp]\<rparr>)
      })"

datatype fifo_event =
    Read_start timeval nat | Read_wakeup | Read_timeout
  | Write_start "u8 list" | Write_wakeup
  | Set_droptail int | Set_next_timeout timeval | Set_recv_timeout timeval

text \<open>POSIX lets a wait on a condition variable return without a signal, so a waiting thread, the
  reader as well as the writer, may go on at any time; a reader with a deadline may also time out.\<close>

fun enabled :: "fifo_event \<Rightarrow> fifo_sys \<Rightarrow> bool" where
  "enabled (Read_start _ _) y = (sy_reader y = R_idle)"
| "enabled Read_wakeup y = (case sy_reader y of R_wait _ _ _ \<Rightarrow> True | R_idle \<Rightarrow> False)"
| "enabled Read_timeout y = (case sy_reader y of R_wait _ t _ \<Rightarrow> t \<noteq> None | R_idle \<Rightarrow> False)"
| "enabled (Write_start _) y = (sy_writer y = W_idle)"
| "enabled Write_wakeup y = (case sy_writer y of W_wait _ _ \<Rightarrow> True | W_idle \<Rightarrow> False)"
| "enabled (Set_droptail _) y = True"
| "enabled (Set_next_timeout _) y = True"
| "enabled (Set_recv_timeout _) y = True"

text \<open>The wait of the reader returns although nobody has signalled it.\<close>

fun spurious_wakeup :: "fifo_event \<Rightarrow> fifo_sys \<Rightarrow> bool" where
  "spurious_wakeup Read_wakeup y = (case sy_reader y of R_wait _ _ sig \<Rightarrow> \<not> sig | R_idle \<Rightarrow> False)"
| "spurious_wakeup _ y = False"

fun fifo_step :: "allocator \<Rightarrow> fifo_event \<Rightarrow> fifo_sys \<Rightarrow> fifo_sys option" where
  "fifo_step m (Read_start now outl) y =
     (case fifo_read_enter now (sy_data y) of
        (Read_now, d) \<Rightarrow> finish_read False outl d y
      | (Read_wait t, d) \<Rightarrow> Some (y\<lparr>sy_data := d, sy_reader := R_wait outl t False\<rparr>))"
| "fifo_step m Read_wakeup y =
     (case sy_reader y of R_wait outl _ _ \<Rightarrow> finish_read False outl (fifo_read_leave (sy_data y)) y | R_idle \<Rightarrow> Some y)"
| "fifo_step m Read_timeout y =
     (case sy_reader y of R_wait outl _ _ \<Rightarrow> finish_read True outl (fifo_read_leave (sy_data y)) y | R_idle \<Rightarrow> Some y)"
| "fifo_step m (Write_start inp) y =
     (if fifo_drops (sy_data y) then Some y else finish_write m inp (sy_data y) y)"
| "fifo_step m Write_wakeup y =
     (case sy_writer y of
        W_wait inp _ \<Rightarrow>
          finish_write m inp ((sy_data y)\<lparr>fd_waiting_write := fd_waiting_write (sy_data y) - 1\<rparr>) y
      | W_idle \<Rightarrow> Some y)"
| "fifo_step m (Set_droptail n) y = Some (y\<lparr>sy_data := (sy_data y)\<lparr>fd_droptail := n\<rparr>\<rparr>)"
| "fifo_step m (Set_next_timeout t) y = Some (y\<lparr>sy_data := (sy_data y)\<lparr>fd_next_rcv_timeout := t\<rparr>\<rparr>)"
| "fifo_step m (Set_recv_timeout t) y = Some (y\<lparr>sy_data := (sy_data y)\<lparr>fd_curr_rcv_timeout := t\<rparr>\<rparr>)"

text \<open>The runs of a queue made by \<open>BIO_new_fifo\<close>: the state after any interleaving of the two
  threads, together with the number of spurious wake ups of the reader on the way; \<open>base\<close> are the
  blocks allocated before.\<close>

inductive fifo_run :: "live \<Rightarrow> nat \<Rightarrow> fifo_sys \<Rightarrow> bool" for base where
  start: "malloc_fresh m \<Longrightarrow> 0 < len \<Longrightarrow> len < 2 ^ 31 \<Longrightarrow>
      BIO_new_fifo m obj len data_size base = Some (Some b, used) \<Longrightarrow> bio_ptr b = Some d \<Longrightarrow>
      fifo_run base 0 (new_sys d used)"
| step: "fifo_run base k y \<Longrightarrow> malloc_fresh m \<Longrightarrow> enabled ev y \<Longrightarrow> fifo_step m ev y = Some y' \<Longrightarrow>
      fifo_run base (if spurious_wakeup ev y then Suc k else k) y'"

text \<open>The states of the runs in which no wait of the reader has returned without a signal.\<close>

definition fifo_reach :: "live \<Rightarrow> fifo_sys \<Rightarrow> bool" where
  "fifo_reach base y \<longleftrightarrow> fifo_run base 0 y"

lemma fifo_reach_start:
  "malloc_fresh m \<Longrightarrow> 0 < len \<Longrightarrow> len < 2 ^ 31 \<Longrightarrow>
     BIO_new_fifo m obj len data_size base = Some (Some b, used) \<Longrightarrow> bio_ptr b = Some d \<Longrightarrow>
     fifo_reach base (new_sys d used)"
  unfolding fifo_reach_def by (rule fifo_run.start)

lemma fifo_reach_step:
  "fifo_reach base y \<Longrightarrow> malloc_fresh m \<Longrightarrow> enabled ev y \<Longrightarrow> \<not> spurious_wakeup ev y \<Longrightarrow>
     fifo_step m ev y = Some y' \<Longrightarrow> fifo_reach base y'"
  using fifo_run.step [of base 0 y m ev y'] by (simp add: fifo_reach_def)

lemma BIO_new_fifo_spec:
  assumes fr: "malloc_fresh m" and len: "0 < len" "len < 2 ^ 31"
  obtains (failed) "BIO_new_fifo m obj len k used = Some (None, used)"
  | (made) b d used' where "BIO_new_fifo m obj len k used = Some (Some b, used')"
      "bio_ptr b = Some d" "bio_init b = 1" "bio_shutdown b = 1" "fifo_wf d used'"
      "fd_nelem d = 0" "fd_waiting_read d = 0" "fd_waiting_write d = 0"
      "\<And>p. used' p \<longleftrightarrow> used p \<or> p \<in> set (fifo_blocks d)" "\<And>p. p \<in> set (fifo_blocks d) \<Longrightarrow> \<not> used p"
proof (cases obj)
  case None
  then show thesis by (intro failed) (simp add: BIO_new_fifo_def)
next
  case (Some o0)
  let ?bi = "fifo_new o0"
  have init: "bio_init ?bi = 0" "bio_shutdown ?bi = 1" by (simp_all add: fifo_new_def)
  have fail: thesis if "fifo_allocate m len k ?bi used = Some (0, b, used)" "bio_init b = 0" for b
    using that Some by (intro failed) (simp add: BIO_new_fifo_def fifo_free_def)
  show thesis
  proof (cases "m used")
    case None
    with init show thesis by (intro fail [of "?bi\<lparr>bio_ptr := None\<rparr>"]) (auto simp: fifo_allocate_def)
  next
    case (Some p)
    note mp = Some and p = malloc_freshD [OF fr Some]
    let ?u1 = "used(p := True)" and ?d = "new_fifo_data len p"
    show thesis
    proof (cases "m ?u1")
      case None
      with mp p init show thesis
        by (intro fail [of "?bi\<lparr>bio_ptr := Some ?d\<rparr>"]) (auto simp: fifo_allocate_def c_free_def fun_eq_iff)
    next
      case (Some q)
      note mq = Some and q = malloc_freshD [OF fr Some]
      obtain items u2 where al: "alloc_items m (unat (fd_size ?d)) k (?u1(q := True)) = (items, u2)"
        by fastforce
      note it = alloc_items_spec [OF fr al]
      let ?d2 = "?d\<lparr>fd_array := q, fd_fifo := items\<rparr>"
      show thesis
      proof (cases "length items = unat (fd_size ?d)")
        case False
        have "free_items items u2 = Some (\<lambda>r. u2 r \<and> r \<notin> it_block ` set items)"
          using it by (intro free_items_spec) auto
        with it p q have "free_items items u2 = Some (?u1(q := True))"
          by (auto simp: fun_eq_iff)
        with False mp mq al p q have "fifo_allocate m len k ?bi used = Some (0, ?bi\<lparr>bio_ptr := Some ?d2\<rparr>, used)"
          by (auto simp: fifo_allocate_def c_free_def fun_eq_iff Let_def)
        with init show thesis by (intro fail [of "?bi\<lparr>bio_ptr := Some ?d2\<rparr>"]) auto
      next
        case True
        have a: "fifo_allocate m len k ?bi used = Some (1, ?bi\<lparr>bio_ptr := Some ?d2, bio_init := 1\<rparr>, u2)"
          using mp mq al True by (simp add: fifo_allocate_def Let_def)
        have sz: "unat (fd_size ?d) = nat len" "unat (fd_threshold ?d) = nat (len div 10)"
          using len by (simp_all add: new_fifo_data_def signed_divide_int_def sgn_if unat_eq_nat_uint uint_word_of_int)
        have t10: "len div 10 < len" using len by simp
        have "fifo_wf ?d2 u2"
          using True it p q len sz t10
          by (auto simp: fifo_wf_def fifo_items_def fifo_blocks_def word_less_nat_alt new_fifo_data_def)
        moreover have "u2 r \<longleftrightarrow> used r \<or> r \<in> set (fifo_blocks ?d2)" for r
          using it(4) by (auto simp: fifo_blocks_def new_fifo_data_def)
        moreover have "\<not> used r" if "r \<in> set (fifo_blocks ?d2)" for r
          using that it(3) p q by (auto simp: fifo_blocks_def new_fifo_data_def split: if_splits)
        ultimately show thesis using a \<open>obj = Some o0\<close> init
          by (intro made [of "?bi\<lparr>bio_ptr := Some ?d2, bio_init := 1\<rparr>" u2 ?d2])
            (simp_all add: BIO_new_fifo_def new_fifo_data_def)
      qed
    qed
  qed
qed

section \<open>The invariant of the two threads\<close>

definition blocks_ok :: "live \<Rightarrow> fifo_data \<Rightarrow> live \<Rightarrow> bool" where
  "blocks_ok base d used \<longleftrightarrow>
     fifo_wf d used \<and> (\<forall>p. used p \<longleftrightarrow> base p \<or> p \<in> set (fifo_blocks d)) \<and> (\<forall>p \<in> set (fifo_blocks d). \<not> base p)"

definition history_ok :: "fifo_sys \<Rightarrow> bool" where
  "history_ok y \<longleftrightarrow>
     (\<exists>taken. map (map Some) (sy_accepted y) = taken @ fifo_packets (sy_data y) \<and>
        length (sy_asked y) = length taken \<and> sy_delivered y = map2 take (sy_asked y) taken)"

fun reader_ok :: "fifo_data \<Rightarrow> reader \<Rightarrow> bool" where
  "reader_ok d R_idle = (fd_waiting_read d = 0)"
| "reader_ok d (R_wait _ _ sig) = (fd_waiting_read d = 1 \<and> (sig \<longleftrightarrow> fd_nelem d \<noteq> 0))"

fun writer_ok :: "fifo_data \<Rightarrow> writer \<Rightarrow> bool" where
  "writer_ok d W_idle = (fd_waiting_write d = 0)"
| "writer_ok d (W_wait _ sig) =
     (fd_waiting_write d = 1 \<and> (sig \<or> fd_nelem d = fd_size d \<or> fd_size d - fd_nelem d < fd_threshold d))"

definition sys_inv :: "live \<Rightarrow> fifo_sys \<Rightarrow> bool" where
  "sys_inv base y \<longleftrightarrow> blocks_ok base (sy_data y) (sy_live y) \<and> history_ok y \<and>
     reader_ok (sy_data y) (sy_reader y) \<and> writer_ok (sy_data y) (sy_writer y)"

lemma same_queue_blocks_ok: "same_queue d d' \<Longrightarrow> blocks_ok base d' used = blocks_ok base d used"
  by (simp add: blocks_ok_def same_queue_wf) (simp add: same_queue_def fifo_blocks_def)

lemma same_queue_history_ok:
  "same_queue (sy_data y) (sy_data y') \<Longrightarrow> sy_accepted y' = sy_accepted y \<Longrightarrow> sy_asked y' = sy_asked y \<Longrightarrow>
     sy_delivered y' = sy_delivered y \<Longrightarrow> history_ok y' = history_ok y"
  by (simp add: history_ok_def same_queue_packets)

lemma finish_read_inv:
  assumes b: "blocks_ok base d (sy_live y)" and h: "history_ok (y\<lparr>sy_data := d\<rparr>)"
    and ne: "fd_nelem d \<noteq> 0" and r: "fd_waiting_read d = 0" and w: "writer_ok d (sy_writer y)"
  obtains y' where "finish_read False outl d y = Some y'" "sys_inv base y'"
proof -
  have wf: "fifo_wf d (sy_live y)" using b by (simp add: blocks_ok_def)
  obtain p ps where pk: "fifo_packets d = p # ps"
    using ne by (metis fifo_packets_Nil list.exhaust)
  obtain x d' where f: "fifo_read_finish False outl d = Some (x, d')"
    and x: "rr_out x = take outl p" and pk': "fifo_packets d' = ps" and wf': "fifo_wf d' (sy_live y)"
    and sig: "rr_signal x \<longleftrightarrow> fd_waiting_write d \<noteq> 0 \<and> fd_size d - fd_nelem d' \<ge> fd_threshold d"
    and sz: "fd_size d' = fd_size d" "fd_threshold d' = fd_threshold d"
      "fd_waiting_read d' = fd_waiting_read d" "fd_waiting_write d' = fd_waiting_write d"
    by (rule fifo_read_finish_spec [OF wf ne, of outl p ps]) (use pk in auto)
  have bl: "fifo_blocks d' = fifo_blocks d"
    using f by (auto simp: fifo_read_finish_def Let_def bind_eq_Some_conv fifo_blocks_def split: if_splits)
  let ?y = "y\<lparr>sy_data := d', sy_reader := R_idle,
      sy_writer := (if rr_signal x then signal_writer (sy_writer y) else sy_writer y),
      sy_asked := sy_asked y @ [outl], sy_delivered := sy_delivered y @ [rr_out x]\<rparr>"
  have "history_ok ?y"
  proof -
    from h obtain taken where "map (map Some) (sy_accepted y) = taken @ p # ps"
      "length (sy_asked y) = length taken" "sy_delivered y = map2 take (sy_asked y) taken"
      using pk by (auto simp: history_ok_def)
    then show ?thesis
      unfolding history_ok_def using x pk' by (intro exI [of _ "taken @ [p]"]) simp
  qed
  moreover have "writer_ok d' (sy_writer ?y)"
    using w sz sig by (cases "sy_writer y") auto
  ultimately have "sys_inv base ?y"
    using b wf' bl r sz by (simp add: sys_inv_def blocks_ok_def)
  with f show thesis by (intro that [of ?y]) (simp_all add: finish_read_def)
qed

lemma finish_write_inv:
  assumes b: "blocks_ok base d (sy_live y)" and h: "history_ok (y\<lparr>sy_data := d\<rparr>)" and fr: "malloc_fresh m"
    and r: "reader_ok d (sy_reader y)" and w: "fd_waiting_write d = 0"
  obtains y' where "finish_write m inp d y = Some y'" "sys_inv base y'"
proof (cases "fifo_full d")
  case True
  let ?d = "d\<lparr>fd_waiting_write := fd_waiting_write d + 1\<rparr>"
  let ?y = "y\<lparr>sy_data := ?d, sy_writer := W_wait inp False\<rparr>"
  have q: "same_queue d ?d" by (simp add: same_queue_def)
  have "history_ok ?y" using h same_queue_history_ok [of "y\<lparr>sy_data := d\<rparr>" ?y] q by simp
  moreover have "reader_ok ?d (sy_reader y)" using r by (cases "sy_reader y") auto
  ultimately have "sys_inv base ?y"
    using b w True q by (simp add: sys_inv_def same_queue_blocks_ok fifo_full_def)
  with True show thesis by (intro that [of ?y]) (simp_all add: finish_write_def)
next
  case False
  have wf: "fifo_wf d (sy_live y)" using b by (simp add: blocks_ok_def)
  obtain n d' u where f: "fifo_write_finish m inp d (sy_live y) = Some (n, fd_waiting_read d \<noteq> 0, d', u)"
    and pk: "fifo_packets d' = fifo_packets d @ [map Some (take n inp)]" and wf': "fifo_wf d' u"
    and u: "\<And>p. u p \<longleftrightarrow> sy_live y p \<and> p \<notin> set (fifo_blocks d) \<or> p \<in> set (fifo_blocks d')"
    and new: "\<And>p. p \<in> set (fifo_blocks d') \<Longrightarrow> p \<in> set (fifo_blocks d) \<or> \<not> sy_live y p"
    and ws: "fd_waiting_read d' = fd_waiting_read d" "fd_waiting_write d' = fd_waiting_write d"
      "fd_nelem d' = fd_nelem d + 1"
    using fifo_write_finish_spec [OF wf False fr, of inp thesis] by simp
  let ?y = "y\<lparr>sy_data := d', sy_live := u, sy_writer := W_idle,
              sy_reader := (if fd_waiting_read d \<noteq> 0 then signal_reader (sy_reader y) else sy_reader y),
              sy_accepted := sy_accepted y @ [take n inp]\<rparr>"
  have ne: "fd_nelem d' \<noteq> 0"
    using arg_cong [OF pk, of length] by auto
  have "history_ok ?y" using h pk by (auto simp: history_ok_def)
  moreover have "reader_ok d' (sy_reader ?y)" using r ws ne by (cases "sy_reader y") auto
  moreover have "blocks_ok base d' u"
    using b wf' u new unfolding blocks_ok_def by blast
  ultimately have "sys_inv base ?y" using ws w by (simp add: sys_inv_def)
  with f False show thesis by (intro that [of ?y]) (simp_all add: finish_write_def)
qed

text \<open>Changes of counters and timeouts.\<close>

lemma sys_inv_same_queue:
  assumes "sys_inv base y" "same_queue (sy_data y) d"
    and "reader_ok d r" "writer_ok d (sy_writer y)"
  shows "sys_inv base (y\<lparr>sy_data := d, sy_reader := r\<rparr>)"
  using assms same_queue_blocks_ok [OF assms(2)]
    same_queue_history_ok [of y "y\<lparr>sy_data := d, sy_reader := r\<rparr>"]
  by (simp add: sys_inv_def)

lemma reader_ok_cong:
  "fd_waiting_read d' = fd_waiting_read d \<Longrightarrow> fd_nelem d' = fd_nelem d \<Longrightarrow> reader_ok d' r = reader_ok d r"
  by (cases r) auto

lemma writer_ok_cong:
  "fd_waiting_write d' = fd_waiting_write d \<Longrightarrow> same_queue d d' \<Longrightarrow> writer_ok d' w = writer_ok d w"
  by (cases w) (auto simp: same_queue_def)

lemma sys_inv_retune:
  assumes "sys_inv base y" "same_queue (sy_data y) d"
    and "fd_waiting_read d = fd_waiting_read (sy_data y)" "fd_waiting_write d = fd_waiting_write (sy_data y)"
  shows "sys_inv base (y\<lparr>sy_data := d\<rparr>)"
proof -
  have "fd_nelem d = fd_nelem (sy_data y)" using assms(2) by (simp add: same_queue_def)
  then have "reader_ok d (sy_reader y)" "writer_ok d (sy_writer y)"
    using assms(1) reader_ok_cong [OF assms(3)] writer_ok_cong [OF assms(4,2)] by (simp_all add: sys_inv_def)
  then have "sys_inv base (y\<lparr>sy_data := d, sy_reader := sy_reader y\<rparr>)"
    by (rule sys_inv_same_queue [OF assms(1,2)])
  moreover have "y\<lparr>sy_data := d, sy_reader := sy_reader y\<rparr> = y\<lparr>sy_data := d\<rparr>" by (cases y) simp
  ultimately show ?thesis by simp
qed

lemma fifo_read_leave_facts:
  "same_queue d (fifo_read_leave d)" "fd_waiting_read (fifo_read_leave d) = fd_waiting_read d - 1"
  "fd_waiting_write (fifo_read_leave d) = fd_waiting_write d"
  using same_queue_reset [of d] by (simp_all add: fifo_read_leave_def same_queue_def)

lemma fifo_read_enter_facts:
  assumes "fifo_read_enter now d = (e, d')"
  shows "same_queue d d'" "fd_waiting_write d' = fd_waiting_write d"
    "e = Read_now \<Longrightarrow> d' = d \<and> fd_nelem d \<noteq> 0"
    "e \<noteq> Read_now \<Longrightarrow> fd_nelem d = 0 \<and> fd_waiting_read d' = fd_waiting_read d + 1"
  using assms same_queue_adjust [of "d\<lparr>fd_waiting_read := fd_waiting_read d + 1\<rparr>" now]
  by (auto simp: fifo_read_enter_def same_queue_def Let_def split: if_splits)

lemma fifo_step_inv:
  assumes inv: "sys_inv base y" and fr: "malloc_fresh m" and en: "enabled ev y"
    and sg: "\<not> spurious_wakeup ev y"
  obtains y' where "fifo_step m ev y = Some y'" "sys_inv base y'"
proof (cases ev)
  case (Read_start now outl)
  obtain e d where e: "fifo_read_enter now (sy_data y) = (e, d)" by fastforce
  note ef = fifo_read_enter_facts [OF e]
  from en Read_start have idle: "sy_reader y = R_idle" by simp
  show thesis
  proof (cases e)
    case Read_now
    with ef have d: "d = sy_data y" "fd_nelem d \<noteq> 0" by auto
    obtain y' where "finish_read False outl d y = Some y'" "sys_inv base y'"
      by (rule finish_read_inv [of base d y outl]) (use inv idle d in \<open>auto simp: sys_inv_def\<close>)
    with that Read_start e Read_now show thesis by simp
  next
    case (Read_wait t)
    with ef have d: "fd_nelem d = 0" "fd_waiting_read d = fd_waiting_read (sy_data y) + 1"
      by (auto simp: same_queue_def)
    have "sys_inv base (y\<lparr>sy_data := d, sy_reader := R_wait outl t False\<rparr>)"
      by (rule sys_inv_same_queue [OF inv ef(1)])
        (use inv idle d writer_ok_cong [OF ef(2,1)] in \<open>auto simp: sys_inv_def\<close>)
    with that Read_start e Read_wait show thesis by simp
  qed
next
  case Read_wakeup
  with en sg obtain outl t where r: "sy_reader y = R_wait outl t True" by (auto split: reader.splits)
  let ?d = "fifo_read_leave (sy_data y)"
  note lf = fifo_read_leave_facts [of "sy_data y"]
  have ne: "fd_nelem ?d \<noteq> 0" using inv r lf(1) by (simp add: sys_inv_def same_queue_def)
  have "history_ok (y\<lparr>sy_data := ?d\<rparr>)"
    using inv same_queue_history_ok [of y "y\<lparr>sy_data := ?d\<rparr>"] lf(1) by (simp add: sys_inv_def)
  then obtain y' where "finish_read False outl ?d y = Some y'" "sys_inv base y'"
    by (rule finish_read_inv [of base ?d y outl, rotated])
      (use inv r ne lf same_queue_blocks_ok [OF lf(1)] writer_ok_cong [OF lf(3,1)] in \<open>auto simp: sys_inv_def\<close>)
  with that Read_wakeup r show thesis by simp
next
  case Read_timeout
  with en obtain outl t s where r: "sy_reader y = R_wait outl t s" by (auto split: reader.splits)
  let ?d = "(fifo_read_leave (sy_data y))\<lparr>fd_rcv_timer_exp := True\<rparr>"
  note lf = fifo_read_leave_facts [of "sy_data y"]
  have q: "same_queue (sy_data y) ?d" using lf(1) by (simp add: same_queue_def)
  have "sys_inv base (y\<lparr>sy_data := ?d, sy_reader := R_idle\<rparr>)"
    by (rule sys_inv_same_queue [OF inv q])
      (use inv r lf writer_ok_cong [OF _ q] in \<open>auto simp: sys_inv_def\<close>)
  with that Read_timeout r show thesis by (simp add: finish_read_def fifo_read_finish_def)
next
  case (Write_start inp)
  obtain y' where "finish_write m inp (sy_data y) y = Some y'" "sys_inv base y'"
    by (rule finish_write_inv [of base "sy_data y" y m inp])
      (use inv fr en Write_start in \<open>auto simp: sys_inv_def\<close>)
  with that [of y] that [of y'] inv Write_start show thesis by (cases "fifo_drops (sy_data y)") simp_all
next
  case Write_wakeup
  with en obtain inp s where w: "sy_writer y = W_wait inp s" by (auto split: writer.splits)
  let ?d = "(sy_data y)\<lparr>fd_waiting_write := fd_waiting_write (sy_data y) - 1\<rparr>"
  have q: "same_queue (sy_data y) ?d" by (simp add: same_queue_def)
  have "history_ok (y\<lparr>sy_data := ?d\<rparr>)"
    using inv same_queue_history_ok [of y "y\<lparr>sy_data := ?d\<rparr>"] q by (simp add: sys_inv_def)
  then obtain y' where "finish_write m inp ?d y = Some y'" "sys_inv base y'"
    by (rule finish_write_inv [of base ?d y m inp, rotated])
      (use inv fr w same_queue_blocks_ok [OF q] reader_ok_cong [of ?d "sy_data y"] in \<open>auto simp: sys_inv_def\<close>)
  with that Write_wakeup w show thesis by simp
next
  case (Set_droptail n)
  show thesis
    by (rule that [of "y\<lparr>sy_data := (sy_data y)\<lparr>fd_droptail := n\<rparr>\<rparr>"])
      (use Set_droptail in \<open>auto intro!: sys_inv_retune [OF inv] simp: same_queue_def\<close>)
next
  case (Set_next_timeout x)
  show thesis
    by (rule that [of "y\<lparr>sy_data := (sy_data y)\<lparr>fd_next_rcv_timeout := x\<rparr>\<rparr>"])
      (use Set_next_timeout in \<open>auto intro!: sys_inv_retune [OF inv] simp: same_queue_def\<close>)
next
  case (Set_recv_timeout x)
  show thesis
    by (rule that [of "y\<lparr>sy_data := (sy_data y)\<lparr>fd_curr_rcv_timeout := x\<rparr>\<rparr>"])
      (use Set_recv_timeout in \<open>auto intro!: sys_inv_retune [OF inv] simp: same_queue_def\<close>)
qed

lemma fifo_read_finish_size: "fifo_read_finish x n d = Some (r, d') \<Longrightarrow> fd_size d' = fd_size d"
  by (auto simp: fifo_read_finish_def bind_eq_Some_conv Let_def split: if_splits)

lemma fifo_write_finish_size:
  assumes "fifo_write_finish m i d used = Some (n, sig, d', used')" shows "fd_size d' = fd_size d"
proof (cases "slot_for m (length i) (fd_fifo d ! unat (fd_index_write d)) used")
  case None
  with assms show ?thesis by (simp add: fifo_write_finish_slot split: if_splits)
next
  case (Some a)
  with assms show ?thesis
    by (cases a) (auto simp: fifo_write_finish_slot Let_def split: if_splits)
qed

lemma finish_read_size: "finish_read x n d y = Some y' \<Longrightarrow> fd_size (sy_data y') = fd_size d"
  by (auto simp: finish_read_def bind_eq_Some_conv Let_def dest!: fifo_read_finish_size)

lemma finish_write_size: "finish_write m i d y = Some y' \<Longrightarrow> fd_size (sy_data y') = fd_size d"
  by (cases "fifo_full d") (auto simp: finish_write_def bind_eq_Some_conv dest!: fifo_write_finish_size)

lemmas finish_fd_size = finish_read_size finish_write_size

lemma fifo_read_leave_size [simp]: "fd_size (fifo_read_leave d) = fd_size d"
  using fifo_read_leave_facts(1) [of d] by (simp add: same_queue_def)

lemma fifo_step_size:
  assumes "fifo_step m ev y = Some y'" shows "fd_size (sy_data y') = fd_size (sy_data y)"
proof (cases ev)
  case (Read_start now n)
  obtain e d where e: "fifo_read_enter now (sy_data y) = (e, d)" by fastforce
  with fifo_read_enter_facts(1) [OF e] assms Read_start show ?thesis
    by (cases e) (auto simp: same_queue_def dest: finish_fd_size)
next
  case Read_wakeup
  with assms show ?thesis by (cases "sy_reader y") (auto dest: finish_fd_size)
next
  case Read_timeout
  with assms show ?thesis by (cases "sy_reader y") (auto dest: finish_fd_size)
next
  case (Write_start i)
  with assms show ?thesis by (cases "fifo_drops (sy_data y)") (auto dest: finish_fd_size)
next
  case Write_wakeup
  with assms show ?thesis by (cases "sy_writer y") (auto dest: finish_fd_size)
qed (use assms in auto)

lemma fifo_run_size: "fifo_run base k y \<Longrightarrow> fd_size (sy_data y) < 2 ^ 31"
proof (induction rule: fifo_run.induct)
  case (start m len obj k b used d)
  from start(4,5) have "fd_size d = word_of_int len"
    by (auto simp: BIO_new_fifo_def fifo_allocate_def new_fifo_data_def bind_eq_Some_conv Let_def
        split: option.splits if_splits prod.splits)
  with start(2,3) show ?case by (simp add: new_sys_def word_less_alt uint_word_of_int)
next
  case (step k y m ev y')
  then show ?case by (simp add: fifo_step_size)
qed

lemma fifo_run_inv: "fifo_run base k y \<Longrightarrow> k = 0 \<Longrightarrow> sys_inv base y"
proof (induction rule: fifo_run.induct)
  case (start m len obj k b used d)
  show ?case
    by (rule BIO_new_fifo_spec [OF start(1-3), of obj k base])
      (use start(4,5) in \<open>auto simp: sys_inv_def new_sys_def blocks_ok_def history_ok_def fifo_packets_Nil\<close>)
next
  case (step k y m ev y')
  then have "sys_inv base y" "\<not> spurious_wakeup ev y" by (simp_all split: if_splits)
  then show ?case using fifo_step_inv [OF _ step(2,3)] step(4) by (metis option.inject)
qed

lemma fifo_reach_inv: "fifo_reach base y \<Longrightarrow> sys_inv base y"
  by (simp add: fifo_reach_def fifo_run_inv)

text \<open>What a spurious wake up does to an empty queue: a fault, or a counter below zero.\<close>

lemma unsignalled_read:
  assumes reach: "fifo_reach base y" and r: "sy_reader y = R_wait n t False"
    and y': "fifo_step m Read_wakeup y = Some y'"
  shows "fd_nelem (sy_data y') = 2 ^ 32 - 1" "\<not> fifo_wf (sy_data y') (sy_live y')"
    "sy_accepted y' = sy_accepted y" "sy_asked y' = sy_asked y @ [n]" "fd_nelem (sy_data y) = 0"
proof -
  have inv: "sys_inv base y" by (rule fifo_reach_inv [OF reach])
  then show z: "fd_nelem (sy_data y) = 0" using r by (simp add: sys_inv_def)
  have lf: "fd_nelem (fifo_read_leave (sy_data y)) = 0"
    using fifo_read_leave_facts(1) [of "sy_data y"] z by (simp add: same_queue_def)
  from y' r obtain rr d' where d: "fifo_read_finish False n (fifo_read_leave (sy_data y)) = Some (rr, d')"
    and eq: "sy_data y' = d'" and h: "sy_accepted y' = sy_accepted y" "sy_asked y' = sy_asked y @ [n]"
    by (auto simp: finish_read_def bind_eq_Some_conv)
  from h show "sy_accepted y' = sy_accepted y" "sy_asked y' = sy_asked y @ [n]" .
  from d lf have w: "fd_nelem d' = - 1"
    by (auto simp: fifo_read_finish_def bind_eq_Some_conv Let_def split: if_splits)
  then show "fd_nelem (sy_data y') = 2 ^ 32 - 1" using eq by simp
  have "fd_size d' < 2 ^ 31"
    using fifo_run_size [of base 0 y] reach fifo_step_size [OF y'] eq by (simp add: fifo_reach_def)
  show "\<not> fifo_wf (sy_data y') (sy_live y')"
  proof
    assume "fifo_wf (sy_data y') (sy_live y')"
    then have "fd_size d' = - 1" using w eq by (simp add: fifo_wf_def) (metis word_n1_ge order_antisym)
    with \<open>fd_size d' < 2 ^ 31\<close> show False by (metis not_less word_n1_ge)
  qed
qed

lemma spurious_wakeupE:
  assumes "spurious_wakeup ev y"
  obtains n t where "ev = Read_wakeup" "sy_reader y = R_wait n t False"
  using assms by (cases ev) (auto split: reader.splits)

section \<open>The results\<close>

text \<open>A queue of one slot of two bytes, at work: the writer has put two packets, of which the
  first one was read; the example states below are reached from it.\<close>

definition demo_bio :: fifo_bio where
  "demo_bio = \<lparr>bio_init = 0, bio_shutdown = 0, bio_num = 0, bio_retry_read = False, bio_ptr = None\<rparr>"

definition demo_fifo :: fifo_data where
  "demo_fifo = (new_fifo_data 1 1)\<lparr>fd_array := 2, fd_fifo := [new_item 3 2]\<rparr>"

definition demo_live :: live where
  "demo_live = (\<lambda>_. False)(1 := True, 2 := True, 3 := True)"

lemma demo_new: "BIO_new_fifo malloc3 (Some demo_bio) 1 2 (\<lambda>_. False) =
    Some (Some (demo_bio\<lparr>bio_shutdown := 1, bio_init := 1, bio_num := -1, bio_ptr := Some demo_fifo\<rparr>), demo_live)"
  by (simp add: BIO_new_fifo_def fifo_allocate_def fifo_new_def malloc3_def new_fifo_data_def
      demo_bio_def demo_fifo_def demo_live_def Suc_eq_plus1 [symmetric] del: Suc_eq_plus1)

lemma demo_reach: "fifo_reach (\<lambda>_. False) (new_sys demo_fifo demo_live)"
  by (rule fifo_reach_start [OF malloc3_fresh _ _ demo_new]) simp_all

lemmas demo_defs_fifo = demo_fifo_def demo_live_def new_sys_def new_fifo_data_def new_item_def
  fifo_drops_def fifo_full_def finish_write_def fifo_write_finish_def next_index_def memcpy_into_def
  fifo_read_enter_def fifo_adjust_rcv_timeout_def next_timeout_set_def finish_read_def
  fifo_read_finish_def fifo_read_leave_def fifo_reset_rcv_timeout_def Let_def

text \<open>Making a queue is all or nothing: whatever allocation fails, no block is leaked and none is
  freed twice; on success the queue is empty and well formed, and freeing it gives every block
  back.\<close>

theorem BIO_new_fifo_all_or_nothing:
  assumes "malloc_fresh m" and "0 < len" "len < 2 ^ 31"
  shows "BIO_new_fifo m obj len data_size used = Some (None, used) \<or>
    (\<exists>b d used'. BIO_new_fifo m obj len data_size used = Some (Some b, used') \<and> bio_ptr b = Some d \<and>
       fifo_wf d used' \<and> fifo_packets d = [] \<and> fifo_free (Some b) used' = Some (1, used))"
proof (rule BIO_new_fifo_spec [OF assms, of obj data_size used], goal_cases)
  case 1
  then show ?case by simp
next
  case (2 b d used')
  have "fifo_free (Some b) used' = Some (1, \<lambda>p. used' p \<and> p \<notin> set (fifo_blocks d))"
    using 2 by (intro fifo_free_spec) auto
  also have "(\<lambda>p. used' p \<and> p \<notin> set (fifo_blocks d)) = used" using 2(9,10) by blast
  finally show ?case using 2(1-6) fifo_packets_Nil [of d] by simp
qed

theorem BIO_new_fifo_all_or_nothing_witness:
  "malloc_fresh malloc3 \<and>
   (BIO_new_fifo malloc3 (Some demo_bio) 1 2 (\<lambda>_. False) = Some (None, \<lambda>_. False) \<or>
    (\<exists>b d used'. BIO_new_fifo malloc3 (Some demo_bio) 1 2 (\<lambda>_. False) = Some (Some b, used') \<and>
       bio_ptr b = Some d \<and> fifo_wf d used' \<and> fifo_packets d = [] \<and>
       fifo_free (Some b) used' = Some (1, \<lambda>_. False)))"
  using BIO_new_fifo_all_or_nothing [OF malloc3_fresh, of 1 "Some demo_bio" 2 "\<lambda>_. False"] malloc3_fresh by simp

text \<open>C27. One reading and one writing thread, in any interleaving, with any timeouts and with
  allocation failures, where the wait of either thread may return without a signal, as POSIX
  permits. After a run in which no wait of the reader has returned without a signal, a step that
  can be taken succeeds, leaves the ring indexes and the counter in bounds and leaves a queue that
  can be freed without a leak, exactly when it is not such a return: the writer is safe against
  spurious wake ups, the reader is not.\<close>

theorem fifo_system_safe:
  assumes "fifo_run base 0 y" and "malloc_fresh m" and "enabled ev y"
  shows "(\<exists>y'. fifo_step m ev y = Some y' \<and> fifo_run base 0 y' \<and> fifo_wf (sy_data y') (sy_live y') \<and>
      fifo_free (Some (b\<lparr>bio_ptr := Some (sy_data y'), bio_init := 1, bio_shutdown := 1\<rparr>)) (sy_live y') = Some (1, base))
    \<longleftrightarrow> \<not> spurious_wakeup ev y"
proof (cases "spurious_wakeup ev y")
  case True
  then obtain n t where "ev = Read_wakeup" "sy_reader y = R_wait n t False" by (rule spurious_wakeupE)
  with unsignalled_read(2) [of base y] assms(1) True show ?thesis unfolding fifo_reach_def by blast
next
  case False
  have reach: "fifo_reach base y" using assms(1) by (simp add: fifo_reach_def)
  obtain y' where y': "fifo_step m ev y = Some y'" and inv: "sys_inv base y'"
    using fifo_step_inv [OF fifo_reach_inv [OF reach] assms(2,3) False] by blast
  have wf: "fifo_wf (sy_data y') (sy_live y')"
    and eq: "(\<lambda>p. sy_live y' p \<and> p \<notin> set (fifo_blocks (sy_data y'))) = base"
    using inv unfolding sys_inv_def blocks_ok_def by blast+
  have "fifo_run base 0 y'" using fifo_reach_step [OF reach assms(2,3) False y'] by (simp add: fifo_reach_def)
  with y' wf False show ?thesis by (simp add: fifo_free_spec [OF wf] eq)
qed

theorem fifo_system_safe_witness:
  "\<exists>y'. fifo_step malloc3 (Write_start [1, 2]) (new_sys demo_fifo demo_live) = Some y' \<and>
     fifo_run (\<lambda>_. False) 0 y' \<and> fifo_wf (sy_data y') (sy_live y') \<and>
     fifo_free (Some (demo_bio\<lparr>bio_ptr := Some (sy_data y'), bio_init := 1, bio_shutdown := 1\<rparr>)) (sy_live y') =
       Some (1, \<lambda>_. False)"
  using fifo_system_safe [OF demo_reach [unfolded fifo_reach_def] malloc3_fresh, of "Write_start [1, 2]" demo_bio]
  by (simp add: new_sys_def)

text \<open>The packets accepted from the writer are the packets that were read, in the same order, followed
  by the packets still in the queue; each read returned the packet cut to the room of the reader.\<close>

definition in_order :: "fifo_sys \<Rightarrow> bool" where
  "in_order y \<longleftrightarrow> (\<exists>taken. map (map Some) (sy_accepted y) = taken @ fifo_packets (sy_data y) \<and>
     length (sy_asked y) = length taken \<and> sy_delivered y = map2 take (sy_asked y) taken)"

lemma fifo_reach_in_order: "fifo_reach base y \<Longrightarrow> in_order y"
  by (drule fifo_reach_inv) (simp add: in_order_def sys_inv_def history_ok_def)

lemma unsignalled_read_order:
  assumes "fifo_reach base y" "sy_reader y = R_wait n t False" "fifo_step m Read_wakeup y = Some y'"
  shows "\<not> in_order y'"
proof
  assume "in_order y'"
  then have "length (sy_asked y') \<le> length (sy_accepted y')"
    unfolding in_order_def by (metis length_append length_map le_add1)
  moreover have "fifo_packets (sy_data y) = []"
    using unsignalled_read(5) [OF assms] by (simp add: fifo_packets_Nil)
  then have "length (sy_asked y) = length (sy_accepted y)"
    using fifo_reach_in_order [OF assms(1)] unfolding in_order_def by (metis append_Nil2 length_map)
  ultimately show False using unsignalled_read(3,4) [OF assms] by simp
qed

text \<open>C4. First in, first out, after every interleaving of one reading and one writing thread in which
  no wait of the reader has returned without a signal: the packets accepted from the writer are the
  packets that were read, in the same order, followed by the packets still in the queue, and each
  read returned the packet cut to the room of the reader. The condition is exact: one more step
  keeps the order if and only if it is not such a return.\<close>

theorem fifo_delivers_in_order:
  assumes "fifo_run base 0 y"
  shows "(\<exists>taken. map (map Some) (sy_accepted y) = taken @ fifo_packets (sy_data y) \<and>
      length (sy_asked y) = length taken \<and> sy_delivered y = map2 take (sy_asked y) taken) \<and>
    (malloc_fresh m \<and> enabled ev y \<and> fifo_step m ev y = Some y' \<longrightarrow>
      (in_order y' \<longleftrightarrow> \<not> spurious_wakeup ev y))"
proof -
  have reach: "fifo_reach base y" using assms by (simp add: fifo_reach_def)
  then have now: "in_order y" by (rule fifo_reach_in_order)
  have "in_order y' \<longleftrightarrow> \<not> spurious_wakeup ev y"
    if s: "malloc_fresh m" "enabled ev y" "fifo_step m ev y = Some y'"
  proof (cases "spurious_wakeup ev y")
    case True
    then obtain n t where "ev = Read_wakeup" "sy_reader y = R_wait n t False" by (rule spurious_wakeupE)
    with unsignalled_read_order [OF reach, of n t m y'] s(3) True show ?thesis by simp
  next
    case False
    from fifo_reach_step [OF reach s(1,2) False s(3)] have "in_order y'" by (rule fifo_reach_in_order)
    with False show ?thesis by simp
  qed
  with now show ?thesis unfolding in_order_def by blast
qed

definition demo_written :: fifo_sys where
  "demo_written = (new_sys (demo_fifo\<lparr>fd_fifo := [(new_item 3 2)\<lparr>it_size := Some 2, it_data := [Some 1, Some 2]\<rparr>],
     fd_nelem := 1\<rparr>) demo_live)\<lparr>sy_accepted := [[1, 2]]\<rparr>"

lemma demo_written_reach: "fifo_reach (\<lambda>_. False) demo_written"
  by (rule fifo_reach_step [OF demo_reach malloc3_fresh, of "Write_start [1, 2]"])
    (simp_all add: demo_written_def demo_defs_fifo)

text \<open>After the packet was read the reader waits again.\<close>

definition demo_read :: fifo_sys where
  "demo_read = demo_written\<lparr>sy_data := (sy_data demo_written)\<lparr>fd_nelem := 0\<rparr>,
     sy_asked := [2], sy_delivered := [[Some 1, Some 2]]\<rparr>"

definition demo_waiting :: fifo_sys where
  "demo_waiting = demo_read\<lparr>sy_data := (sy_data demo_read)\<lparr>fd_waiting_read := 1\<rparr>, sy_reader := R_wait 2 None False\<rparr>"

lemma demo_read_reach: "fifo_reach (\<lambda>_. False) demo_read"
  by (rule fifo_reach_step [OF demo_written_reach malloc3_fresh, of "Read_start zero_timeval 2"])
    (simp_all add: demo_read_def demo_written_def demo_defs_fifo)

lemma demo_waiting_reach: "fifo_reach (\<lambda>_. False) demo_waiting"
  by (rule fifo_reach_step [OF demo_read_reach malloc3_fresh, of "Read_start zero_timeval 2"])
    (simp_all add: demo_waiting_def demo_read_def demo_written_def demo_defs_fifo)

theorem fifo_delivers_in_order_witness:
  "\<exists>taken y'. map (map Some) (sy_accepted demo_waiting) = taken @ fifo_packets (sy_data demo_waiting) \<and>
    length (sy_asked demo_waiting) = length taken \<and> sy_delivered demo_waiting = map2 take (sy_asked demo_waiting) taken \<and>
    fifo_step malloc3 (Write_start [3]) demo_waiting = Some y' \<and> in_order y'"
proof -
  have "malloc_fresh malloc3 \<and> enabled (Write_start [3]) demo_waiting \<and>
      fifo_step malloc3 (Write_start [3]) demo_waiting \<noteq> None"
    by (simp add: malloc3_fresh demo_waiting_def demo_read_def demo_written_def demo_defs_fifo)
  then obtain y' where "malloc_fresh malloc3 \<and> enabled (Write_start [3]) demo_waiting \<and>
      fifo_step malloc3 (Write_start [3]) demo_waiting = Some y'" by blast
  with fifo_delivers_in_order [OF demo_waiting_reach [unfolded fifo_reach_def], of malloc3 "Write_start [3]" y']
  show ?thesis by simp
qed

text \<open>C28. No wake up is lost, as long as no wait of the reader has returned without one: a reader that waits without having been signalled waits on an empty
  queue, a writer that waits without having been signalled waits on a queue that is not empty, so
  both never wait for each other.\<close>

theorem fifo_no_lost_wakeup:
  assumes "fifo_reach base y"
  shows "(sy_reader y = R_wait n t False \<longrightarrow> fifo_packets (sy_data y) = []) \<and>
    (sy_writer y = W_wait inp False \<longrightarrow> fifo_packets (sy_data y) \<noteq> []) \<and>
    \<not> (sy_reader y = R_wait n t False \<and> sy_writer y = W_wait inp False)"
proof -
  let ?d = "sy_data y"
  have inv: "sys_inv base y" by (rule fifo_reach_inv [OF assms])
  then have sz: "fd_index_read ?d < fd_size ?d" "fd_threshold ?d < fd_size ?d"
    by (simp_all add: sys_inv_def blocks_ok_def fifo_wf_def)
  have "fifo_packets ?d \<noteq> []" if "sy_writer y = W_wait inp False"
  proof
    assume "fifo_packets ?d = []"
    then have "fd_nelem ?d = 0" by (simp add: fifo_packets_Nil)
    with inv that sz show False by (auto simp: sys_inv_def)
  qed
  moreover have "fifo_packets ?d = []" if "sy_reader y = R_wait n t False"
    using inv that by (simp add: sys_inv_def fifo_packets_Nil)
  ultimately show ?thesis by blast
qed

theorem fifo_no_lost_wakeup_witness:
  "sy_reader demo_waiting = R_wait 2 None False \<and> fifo_packets (sy_data demo_waiting) = [] \<and>
   sy_writer demo_waiting \<noteq> W_wait [] False"
  using fifo_no_lost_wakeup [OF demo_waiting_reach, of 2 None "[]"] by (simp add: demo_waiting_def)

text \<open>C29. The reader does not check the queue again after its wait. POSIX permits a wait to return
  without a signal; then \<^verbatim>\<open>fifo_read\<close> either reads a size that was never written or hands out an
  old packet again and the unsigned counter wraps around to its maximum.\<close>

theorem fifo_spurious_wakeup:
  assumes "fifo_reach base y" and "sy_reader y = R_wait n t False"
  shows "fifo_step m Read_wakeup y = None \<or>
    (\<exists>y'. fifo_step m Read_wakeup y = Some y' \<and> fd_nelem (sy_data y') = 2 ^ 32 - 1 \<and>
       \<not> fifo_wf (sy_data y') (sy_live y'))"
  using unsignalled_read(1,2) [OF assms, of m] by (cases "fifo_step m Read_wakeup y") auto

theorem fifo_spurious_wakeup_witness:
  "\<exists>y'. fifo_step malloc3 Read_wakeup demo_waiting = Some y' \<and> fd_nelem (sy_data y') = 2 ^ 32 - 1 \<and>
     \<not> fifo_wf (sy_data y') (sy_live y')"
  using fifo_spurious_wakeup [OF demo_waiting_reach, of 2 None malloc3]
  by (simp add: demo_waiting_def demo_read_def demo_written_def demo_defs_fifo)

definition valid_timeval :: "timeval \<Rightarrow> bool" where
  "valid_timeval t \<longleftrightarrow> 0 \<le> tv_sec t \<and> 0 \<le> tv_usec t \<and> tv_usec t < 1000000"

definition usecs :: "timeval \<Rightarrow> int" where
  "usecs t = tv_sec t * 1000000 + tv_usec t"

lemma usecs_zero: "valid_timeval t \<Longrightarrow> usecs t = 0 \<longleftrightarrow> tv_sec t = 0 \<and> tv_usec t = 0"
  unfolding valid_timeval_def usecs_def by (safe; linarith)

lemma usecs_less:
  "valid_timeval a \<Longrightarrow> valid_timeval b \<Longrightarrow>
     usecs b \<le> usecs a \<longleftrightarrow> tv_sec a > tv_sec b \<or> (tv_sec a = tv_sec b \<and> tv_usec a \<ge> tv_usec b)"
  unfolding valid_timeval_def usecs_def by linarith

lemma time_left_spec:
  assumes "valid_timeval nx" "valid_timeval now"
  shows "valid_timeval (time_left nx now)"
    "usecs (time_left nx now) = (if usecs nx < usecs now then 1 else usecs nx - usecs now)"
  using assms unfolding valid_timeval_def usecs_def time_left_def Let_def by auto

lemma set_timeout_spec:
  assumes "valid_timeval now" "valid_timeval t"
  shows "0 \<le> ts_nsec (set_timeout now t)" "ts_nsec (set_timeout now t) < 1000000000"
    "ts_sec (set_timeout now t) * 1000000000 + ts_nsec (set_timeout now t) = (usecs now + usecs t) * 1000"
  using assms unfolding valid_timeval_def usecs_def set_timeout_def Let_def by auto

lemma adjust_spec:
  assumes "valid_timeval now" "valid_timeval (fd_next_rcv_timeout d)" "valid_timeval (fd_curr_rcv_timeout d)"
    and "next_timeout_set d"
  shows "fd_curr_rcv_timeout (fifo_adjust_rcv_timeout now d) =
      (let tl = time_left (fd_next_rcv_timeout d) now; c = fd_curr_rcv_timeout d in
       if usecs c = 0 \<or> usecs tl \<le> usecs c then tl else c)"
    "fd_rcv_timeout (fifo_adjust_rcv_timeout now d) = fd_curr_rcv_timeout d"
    "next_timeout_set (fifo_adjust_rcv_timeout now d)"
  using assms(4) usecs_zero [OF assms(3)] usecs_less [OF assms(3) time_left_spec(1) [OF assms(2,1)]]
  by (auto simp: fifo_adjust_rcv_timeout_def Let_def next_timeout_set_def)

text \<open>The deadline of a blocked read: with a handshake timer set, the read waits until the timer or
  until its own timeout, whichever comes first, and at least a microsecond when the timer has
  passed; the deadline is a normalised time, and the timeout of the queue is restored afterwards.
  At the very microsecond at which the timer is due, the time left is zero, which the code takes
  for no timeout: the read waits without a deadline.\<close>

theorem fifo_read_deadline:
  assumes "valid_timeval now" "valid_timeval (fd_next_rcv_timeout d)" "valid_timeval (fd_curr_rcv_timeout d)"
    and "fd_nelem d = 0" and "next_timeout_set d"
  defines "left \<equiv> (if usecs (fd_next_rcv_timeout d) < usecs now then 1
                   else usecs (fd_next_rcv_timeout d) - usecs now)"
    and "own \<equiv> usecs (fd_curr_rcv_timeout d)"
  shows "\<exists>t d'. fifo_read_enter now d = (Read_wait t, d') \<and>
    fd_curr_rcv_timeout (fifo_read_leave d') = fd_curr_rcv_timeout d \<and>
    (if left = 0 then t = None
     else \<exists>ts. t = Some ts \<and> 0 \<le> ts_nsec ts \<and> ts_nsec ts < 1000000000 \<and>
       ts_sec ts * 1000000000 + ts_nsec ts = (usecs now + (if own = 0 then left else min left own)) * 1000)"
proof -
  let ?wt = "d\<lparr>fd_waiting_read := fd_waiting_read d + 1\<rparr>"
  let ?d = "fifo_adjust_rcv_timeout now ?wt" and ?tl = "time_left (fd_next_rcv_timeout d) now"
  have set: "next_timeout_set ?wt" using assms(5) by (simp add: next_timeout_set_def)
  have v0: "valid_timeval (fd_next_rcv_timeout ?wt)" "valid_timeval (fd_curr_rcv_timeout ?wt)"
    using assms(2,3) by simp_all
  note a = adjust_spec [OF assms(1) v0 set]
  have tl: "valid_timeval ?tl" "usecs ?tl = left"
    using time_left_spec [OF assms(2,1)] by (simp_all add: left_def)
  let ?c = "fd_curr_rcv_timeout ?d"
  have c: "?c = (if own = 0 \<or> left \<le> own then ?tl else fd_curr_rcv_timeout d)"
    using a(1) tl by (simp add: own_def Let_def)
  have v: "valid_timeval ?c" using c tl assms(3) by auto
  have u: "usecs ?c = (if own = 0 then left else min left own)"
    using c tl by (auto simp: own_def)
  have "0 \<le> left" "0 \<le> own" using assms(3) by (auto simp: left_def own_def valid_timeval_def usecs_def)
  then have z: "usecs ?c = 0 \<longleftrightarrow> left = 0" using u by auto
  have e: "fifo_read_enter now d =
      (Read_wait (if usecs ?c \<noteq> 0 then Some (set_timeout now ?c) else None), ?d)"
    using assms(4) usecs_zero [OF v] by (auto simp: fifo_read_enter_def Let_def)
  have "fd_curr_rcv_timeout (fifo_read_leave ?d) = fd_curr_rcv_timeout d"
    using a(2,3) by (simp add: fifo_read_leave_def fifo_reset_rcv_timeout_def Let_def)
  with e z set_timeout_spec [OF assms(1) v] u show ?thesis by auto
qed

theorem fifo_read_deadline_witness:
  defines "d \<equiv> demo_fifo\<lparr>fd_next_rcv_timeout := \<lparr>tv_sec = 7, tv_usec = 0\<rparr>, fd_curr_rcv_timeout := \<lparr>tv_sec = 0, tv_usec = 250000\<rparr>\<rparr>"
  shows "\<exists>t d'. fifo_read_enter \<lparr>tv_sec = 7, tv_usec = 0\<rparr> d = (Read_wait t, d') \<and> t = None"
  using fifo_read_deadline [of "\<lparr>tv_sec = 7, tv_usec = 0\<rparr>" d]
  by (auto simp: d_def demo_fifo_def new_fifo_data_def valid_timeval_def usecs_def next_timeout_set_def)

end
