(* ===== verification/Client_Locks.thy ===== *)
theory Client_Locks
  imports Thread_Wrappers
begin

text \<open>
  The locks of the client: which mutexes each operation of \<^verbatim>\<open>client/peer.c\<close>, \<^verbatim>\<open>client/dtls_utils.c\<close> and
  \<^verbatim>\<open>client/communication.c\<close> creates, locks, unlocks and destroys, in which order, on each of its branches. There are the mutex of the
  table, which is recursive, the mutex of the contexts, four mutexes of each peer (its state, its
  reference counter and its two queues), the mutexes of the rate limiters and the one of the queue of
  server messages. A wait on a condition variable unlocks the mutex and locks it again. A write to a full
  queue waits until the reader of the queue wakes it, or for ever when the reader has ended; both are branches here.
  Condition variables are not objects of the model, and of the calls that OpenSSL makes to the queues and limiters
  only the mutexes appear, in any number and order.

  All operations but one lock the mutex of the table before that of a peer and both before the small ones, and
  the operations that follow this order never deadlock. The exception is the thread of a peer that has got an
  answer of the server: it enters the peer into the index by endpoint while it holds the mutex of the peer.

  The end of the VPN is a race between the main thread and the last peer threads, over mutexes that are created and
  destroyed. The mutexes that OpenSSL uses through callbacks (\<^verbatim>\<open>dtls_utils.c\<close>) come last.
\<close>

section \<open>Mutexes\<close>

datatype client_mutex =
    Peers_mutex | Ctx_lock | Peer_mutex ptr | Ref_mutex ptr | In_fifo ptr | Out_fifo ptr | Rdv_fifo
  | Peer_limiter ptr | Global_limiter

abbreviation GLOBAL_MUTEXLOCK :: "client_mutex lock_op list" where "GLOBAL_MUTEXLOCK \<equiv> [Lock Peers_mutex]"
abbreviation GLOBAL_MUTEXUNLOCK :: "client_mutex lock_op list" where "GLOBAL_MUTEXUNLOCK \<equiv> [Unlock Peers_mutex]"
abbreviation CLIENT_MUTEXLOCK :: "ptr \<Rightarrow> client_mutex lock_op list" where "CLIENT_MUTEXLOCK p \<equiv> [Lock (Peer_mutex p)]"
abbreviation CLIENT_MUTEXUNLOCK :: "ptr \<Rightarrow> client_mutex lock_op list" where "CLIENT_MUTEXUNLOCK p \<equiv> [Unlock (Peer_mutex p)]"

definition recursive_mutex :: "client_mutex \<Rightarrow> bool" where
  "recursive_mutex m \<longleftrightarrow> m = Peers_mutex"

text \<open>The creation of the mutex of the table; the three codes are those of the library.\<close>

definition peers_mutex_init :: "int \<times> int \<times> int \<Rightarrow> client_mutex mutexes \<Rightarrow> client_mutex mutexes outcome" where
  "peers_mutex_init codes s =
     (case codes of (r1, r2, r3) \<Rightarrow>
       (case mutexattrInit r1 of
          Returns attrs \<Rightarrow>
            (case mutexattrSettype r2 PTHREAD_MUTEX_RECURSIVE attrs of
               Returns attrs' \<Rightarrow> mutexInit r3 Peers_mutex attrs' s
             | Waits \<Rightarrow> Waits | Aborts \<Rightarrow> Aborts | Faults \<Rightarrow> Faults)
        | Waits \<Rightarrow> Waits | Aborts \<Rightarrow> Aborts | Faults \<Rightarrow> Faults))"

lemma peers_mutex_init_recursive:
  assumes "s Peers_mutex = None"
  shows "peers_mutex_init (0, 0, 0) s = Returns (s(Peers_mutex := init_mutexes recursive_mutex Peers_mutex))"
  using assms by (simp add: peers_mutex_init_def mutexattrInit_def mutexattrSettype_def mutexInit_def pthread_mutex_init_def
      init_mutexes_def recursive_mutex_def)

text \<open>A wait on a condition variable unlocks the mutex of the peer and locks it again.\<close>

definition cond_wait_locks :: "ptr \<Rightarrow> client_mutex lock_op list" where
  "cond_wait_locks p = CLIENT_MUTEXUNLOCK p @ CLIENT_MUTEXLOCK p"

section \<open>Queues and rate limiters\<close>

text \<open>What a write to a queue meets: room (or a queue that drops what has no room), a full queue whose reader wakes the writer
  the given number of times until there is room, or a full queue whose reader has ended.\<close>

datatype queue_write = No_wait | Woken nat | Never_woken

fun fifo_write_locks :: "client_mutex \<Rightarrow> queue_write \<Rightarrow> client_mutex lock_op list" where
  "fifo_write_locks q No_wait = [Lock q, Unlock q]"
| "fifo_write_locks q (Woken n) = Lock q # concat (replicate n [Unlock q, Lock q]) @ [Unlock q]"
| "fifo_write_locks q Never_woken = [Lock q, Unlock q, Block]"

text \<open>A read that returns; \<open>waits\<close>: the queue is empty and it waits for a packet or its timeout first, once.\<close>

definition fifo_read_locks :: "client_mutex \<Rightarrow> bool \<Rightarrow> client_mutex lock_op list" where
  "fifo_read_locks q waits = Lock q # (if waits then [Unlock q, Lock q] else []) @ [Unlock q]"

definition fifo_droptail_locks :: "client_mutex \<Rightarrow> client_mutex lock_op list" where
  "fifo_droptail_locks q = [Lock q, Unlock q]"

definition tb_count_locks :: "client_mutex \<Rightarrow> client_mutex lock_op list" where
  "tb_count_locks m = [Lock m, Unlock m]"

text \<open>The filter of the rate limiters: whether there is one for the peer and a global one.\<close>

definition ratef_write_locks :: "ptr \<Rightarrow> bool \<Rightarrow> bool \<Rightarrow> client_mutex lock_op list" where
  "ratef_write_locks p limited global =
     (if limited then tb_count_locks (Peer_limiter p) else []) @ (if global then tb_count_locks Global_limiter else [])"

text \<open>The calls that OpenSSL makes to the two ends of a session.\<close>

datatype session_io = Receive bool | Query | Send bool bool

fun session_io_locks :: "ptr \<Rightarrow> session_io \<Rightarrow> client_mutex lock_op list" where
  "session_io_locks p (Receive waits) = fifo_read_locks (In_fifo p) waits"
| "session_io_locks p Query = [Lock (In_fifo p), Unlock (In_fifo p)]"
| "session_io_locks p (Send limited global) = ratef_write_locks p limited global"

definition session_locks :: "ptr \<Rightarrow> session_io list \<Rightarrow> client_mutex lock_op list" where
  "session_locks p ios = concat (map (session_io_locks p) ios)"

section \<open>Operations of the table\<close>

definition incr_ref_locks :: "ptr \<Rightarrow> client_mutex lock_op list" where
  "incr_ref_locks p = [Lock (Ref_mutex p), Unlock (Ref_mutex p)]"

text \<open>The removal of a peer with the counter of peers, which the main thread reads without a lock. \<open>limited\<close>: the peers have
  rate limiters.\<close>

datatype client_op = Mutex "client_mutex lock_op" | Decr_n_clients | Await_no_clients

fun locks_of :: "client_op list \<Rightarrow> client_mutex lock_op list" where
  "locks_of [] = []"
| "locks_of (Mutex a # r) = a # locks_of r"
| "locks_of (_ # r) = locks_of r"

definition peers_remove_ops :: "bool \<Rightarrow> ptr \<Rightarrow> client_op list" where
  "peers_remove_ops limited p =
     map Mutex (GLOBAL_MUTEXLOCK @ [Destroy (Peer_mutex p), Destroy (Ref_mutex p)] @
       (if limited then [Destroy (Peer_limiter p)] else []) @ [Destroy (In_fifo p), Destroy (Out_fifo p)]) @
     [Decr_n_clients] @ map Mutex GLOBAL_MUTEXUNLOCK"

text \<open>A reference that is given back: others are left, or it was the last one and the peer is removed.\<close>

datatype release = Kept | Removed bool

definition peers_decr_ref_ops :: "ptr \<Rightarrow> release \<Rightarrow> client_op list" where
  "peers_decr_ref_ops p rel =
     map Mutex (GLOBAL_MUTEXLOCK @ [Lock (Ref_mutex p), Unlock (Ref_mutex p)]) @
     (case rel of Kept \<Rightarrow> [] | Removed limited \<Rightarrow> peers_remove_ops limited p) @ map Mutex GLOBAL_MUTEXUNLOCK"

definition decr_ref_locks :: "ptr \<Rightarrow> release \<Rightarrow> client_mutex lock_op list" where
  "decr_ref_locks p rel = locks_of (peers_decr_ref_ops p rel)"

text \<open>\<^verbatim>\<open>createClientSSL\<close>: it fails before the first queue is created, or with the second one (\<^verbatim>\<open>SSL_free\<close> then frees
  the first one), or succeeds.\<close>

datatype session_result = No_in_fifo | No_out_fifo | Session

fun createClientSSL_locks :: "ptr \<Rightarrow> session_result \<Rightarrow> client_mutex lock_op list" where
  "createClientSSL_locks p No_in_fifo = [Lock Ctx_lock, Unlock Ctx_lock]"
| "createClientSSL_locks p No_out_fifo = [Lock Ctx_lock, Init (In_fifo p), Destroy (In_fifo p), Unlock Ctx_lock]"
| "createClientSSL_locks p Session =
     [Lock Ctx_lock, Init (In_fifo p), Init (Out_fifo p)] @ fifo_droptail_locks (Out_fifo p) @ [Unlock Ctx_lock]"

text \<open>\<^verbatim>\<open>peers_add\<close>: the limit of peers or the first allocation stops it; the session fails; an index fails (the queue of outgoing
  packets and the rate limiter are left behind); or the peer is added.\<close>

datatype add_result = Refused | No_session ptr bool session_result | No_index ptr bool | Added ptr bool

definition peer_init_locks :: "ptr \<Rightarrow> bool \<Rightarrow> client_mutex lock_op list" where
  "peer_init_locks p limited = [Init (Peer_mutex p), Init (Ref_mutex p)] @ (if limited then [Init (Peer_limiter p)] else [])"

fun add_locks :: "add_result \<Rightarrow> client_mutex lock_op list" where
  "add_locks Refused = GLOBAL_MUTEXLOCK @ GLOBAL_MUTEXUNLOCK"
| "add_locks (No_session p limited r) =
     GLOBAL_MUTEXLOCK @ peer_init_locks p limited @ createClientSSL_locks p r @
     [Destroy (Ref_mutex p), Destroy (Peer_mutex p)] @ GLOBAL_MUTEXUNLOCK"
| "add_locks (No_index p limited) =
     GLOBAL_MUTEXLOCK @ peer_init_locks p limited @ createClientSSL_locks p Session @
     [Destroy (Ref_mutex p), Destroy (Peer_mutex p), Destroy (In_fifo p)] @ GLOBAL_MUTEXUNLOCK"
| "add_locks (Added p limited) =
     GLOBAL_MUTEXLOCK @ peer_init_locks p limited @ createClientSSL_locks p Session @ GLOBAL_MUTEXUNLOCK"

definition register_endpoint_locks :: "client_mutex lock_op list" where
  "register_endpoint_locks = GLOBAL_MUTEXLOCK @ GLOBAL_MUTEXUNLOCK"

text \<open>Both lookups: a peer that is found is returned with its mutex locked.\<close>

fun get_locks :: "ptr option \<Rightarrow> client_mutex lock_op list" where
  "get_locks None = GLOBAL_MUTEXLOCK @ GLOBAL_MUTEXUNLOCK"
| "get_locks (Some p) = GLOBAL_MUTEXLOCK @ incr_ref_locks p @ CLIENT_MUTEXLOCK p @ GLOBAL_MUTEXUNLOCK"

definition rebuildDTLS_locks :: "client_mutex lock_op list" where
  "rebuildDTLS_locks = [Lock Ctx_lock, Unlock Ctx_lock]"

section \<open>Handlers and threads\<close>

text \<open>A peer that is looked up, changed, unlocked and given back, with a write to one of its queues in between, if any.\<close>

definition write_opt_locks :: "client_mutex \<Rightarrow> queue_write option \<Rightarrow> client_mutex lock_op list" where
  "write_opt_locks q w = (case w of None \<Rightarrow> [] | Some x \<Rightarrow> fifo_write_locks q x)"

definition found_locks :: "ptr \<Rightarrow> client_mutex \<Rightarrow> queue_write option \<Rightarrow> release \<Rightarrow> client_mutex lock_op list" where
  "found_locks p q w rel = get_locks (Some p) @ CLIENT_MUTEXUNLOCK p @ write_opt_locks q w @ decr_ref_locks p rel"

text \<open>Starting a thread for a peer takes one more reference; the one of the caller is given back.\<close>

definition start_peer_locks :: "ptr \<Rightarrow> release \<Rightarrow> client_mutex lock_op list" where
  "start_peer_locks p rel = incr_ref_locks p @ decr_ref_locks p rel"

text \<open>\<^verbatim>\<open>rdv_handling\<close>: its queue, the answers of the server, and the request of another client for a known or a new peer.\<close>

definition rdv_read_locks :: "bool \<Rightarrow> client_mutex lock_op list" where
  "rdv_read_locks waits = fifo_read_locks Rdv_fifo waits"

definition rdv_answer_locks :: "ptr option \<Rightarrow> release \<Rightarrow> client_mutex lock_op list" where
  "rdv_answer_locks x rel = (case x of None \<Rightarrow> get_locks None | Some p \<Rightarrow> found_locks p (In_fifo p) None rel)"

definition rdv_forward_known_locks :: "ptr \<Rightarrow> release \<Rightarrow> client_mutex lock_op list" where
  "rdv_forward_known_locks p rel = found_locks p (In_fifo p) None rel"

definition rdv_forward_new_locks :: "add_result \<Rightarrow> release \<Rightarrow> client_mutex lock_op list" where
  "rdv_forward_new_locks a rel =
     get_locks None @ add_locks a @ (case a of Added p _ \<Rightarrow> start_peer_locks p rel | _ \<Rightarrow> [])"

text \<open>\<^verbatim>\<open>comm_socket\<close>: a message of the server, and a datagram of a peer, which goes to its queue when there is a session.\<close>

definition socket_server_locks :: "queue_write \<Rightarrow> client_mutex lock_op list" where
  "socket_server_locks w = fifo_write_locks Rdv_fifo w"

definition comm_socket_locks :: "ptr option \<Rightarrow> queue_write option \<Rightarrow> release \<Rightarrow> client_mutex lock_op list" where
  "comm_socket_locks x w rel = (case x of None \<Rightarrow> get_locks None | Some p \<Rightarrow> found_locks p (In_fifo p) w rel)"

text \<open>\<^verbatim>\<open>comm_tun\<close>: a broadcast packet, written for each peer with a session while both mutexes are held; a packet for a known peer,
  written unless it is closed; a packet for a new peer, whose queue drops what has no room.\<close>

definition broadcast_one_locks :: "ptr \<times> queue_write option \<Rightarrow> client_mutex lock_op list" where
  "broadcast_one_locks pw =
     (case pw of (p, w) \<Rightarrow> CLIENT_MUTEXLOCK p @ write_opt_locks (Out_fifo p) w @ CLIENT_MUTEXUNLOCK p)"

definition tun_broadcast_locks :: "(ptr \<times> queue_write option) list \<Rightarrow> client_mutex lock_op list" where
  "tun_broadcast_locks pws = GLOBAL_MUTEXLOCK @ concat (map broadcast_one_locks pws) @ GLOBAL_MUTEXUNLOCK"

definition tun_known_locks :: "ptr \<Rightarrow> queue_write option \<times> release \<Rightarrow> client_mutex lock_op list" where
  "tun_known_locks p l = found_locks p (Out_fifo p) (fst l) (snd l)"

definition tun_new_locks :: "add_result \<Rightarrow> release \<Rightarrow> client_mutex lock_op list" where
  "tun_new_locks a rel =
     get_locks None @ add_locks a @
     (case a of Added p _ \<Rightarrow> fifo_write_locks (Out_fifo p) No_wait @ start_peer_locks p rel | _ \<Rightarrow> [])"

text \<open>The punching and the writing thread.\<close>

definition punch_turn_locks :: "ptr \<Rightarrow> client_mutex lock_op list" where
  "punch_turn_locks p = CLIENT_MUTEXLOCK p @ CLIENT_MUTEXUNLOCK p"

definition writing_start_locks :: "ptr \<Rightarrow> client_mutex lock_op list" where
  "writing_start_locks p = fifo_droptail_locks (Out_fifo p)"

definition writing_turn_locks :: "ptr \<Rightarrow> bool \<Rightarrow> session_io list \<Rightarrow> client_mutex lock_op list" where
  "writing_turn_locks p waits ios = fifo_read_locks (Out_fifo p) waits @ session_locks p ios"

definition thread_end_locks :: "ptr \<Rightarrow> release \<Rightarrow> client_mutex lock_op list" where
  "thread_end_locks p rel = decr_ref_locks p rel"

text \<open>\<^verbatim>\<open>peer_handling\<close>: one turn of its loop in each state, and the reading loop of an established session.\<close>

definition state_change_locks :: "ptr \<Rightarrow> client_mutex lock_op list" where
  "state_change_locks p = CLIENT_MUTEXLOCK p @ CLIENT_MUTEXUNLOCK p"

definition peer_new_refused_locks :: "ptr \<Rightarrow> client_mutex lock_op list" where
  "peer_new_refused_locks p = CLIENT_MUTEXLOCK p @ cond_wait_locks p @ CLIENT_MUTEXUNLOCK p"

definition peer_new_answered_locks :: "ptr \<Rightarrow> client_mutex lock_op list" where
  "peer_new_answered_locks p = CLIENT_MUTEXLOCK p @ cond_wait_locks p @ register_endpoint_locks @ CLIENT_MUTEXUNLOCK p"

definition peer_punching_locks :: "ptr \<Rightarrow> client_mutex lock_op list" where
  "peer_punching_locks p = CLIENT_MUTEXLOCK p @ incr_ref_locks p @ cond_wait_locks p @ CLIENT_MUTEXUNLOCK p"

definition peer_linked_locks :: "ptr \<Rightarrow> session_io list \<Rightarrow> client_mutex lock_op list" where
  "peer_linked_locks p ios =
     CLIENT_MUTEXLOCK p @ CLIENT_MUTEXUNLOCK p @ session_locks p ios @ CLIENT_MUTEXLOCK p @ CLIENT_MUTEXUNLOCK p"

definition peer_established_locks :: "ptr \<Rightarrow> client_mutex lock_op list" where
  "peer_established_locks p = CLIENT_MUTEXLOCK p @ CLIENT_MUTEXUNLOCK p @ incr_ref_locks p"

text \<open>A read of the session, with a change of the times of the peer, if any; the last read, which closes the session before or after
  the change of the state and then stops the writing thread.\<close>

definition peer_read_locks :: "ptr \<Rightarrow> session_io list \<Rightarrow> bool \<Rightarrow> client_mutex lock_op list" where
  "peer_read_locks p ios touched = session_locks p ios @ (if touched then state_change_locks p else [])"

definition peer_read_end_locks :: "ptr \<Rightarrow> session_io list \<Rightarrow> session_io list \<Rightarrow> queue_write \<Rightarrow> client_mutex lock_op list" where
  "peer_read_end_locks p ios1 ios2 w =
     session_locks p ios1 @ state_change_locks p @ session_locks p ios2 @ fifo_write_locks (Out_fifo p) w"

definition peer_closed_ops :: "ptr \<Rightarrow> release \<Rightarrow> client_op list" where
  "peer_closed_ops p rel = map Mutex (CLIENT_MUTEXLOCK p @ CLIENT_MUTEXUNLOCK p) @ peers_decr_ref_ops p rel"

definition peer_closed_locks :: "ptr \<Rightarrow> release \<Rightarrow> client_mutex lock_op list" where
  "peer_closed_locks p rel = locks_of (peer_closed_ops p rel)"

text \<open>The end of \<^verbatim>\<open>start_vpn\<close>: \<^verbatim>\<open>end_peer_handling\<close> for every peer, then the wait for the peers and the destruction of
  the mutexes (\<open>global\<close>: there is a global rate limiter).\<close>

definition end_peer_locks :: "ptr \<times> queue_write \<Rightarrow> client_mutex lock_op list" where
  "end_peer_locks pw =
     (case pw of (p, w) \<Rightarrow> CLIENT_MUTEXLOCK p @ CLIENT_MUTEXUNLOCK p @ fifo_write_locks (In_fifo p) w)"

definition end_all_peers_locks :: "(ptr \<times> queue_write) list \<Rightarrow> client_mutex lock_op list" where
  "end_all_peers_locks pws = GLOBAL_MUTEXLOCK @ concat (map end_peer_locks pws) @ GLOBAL_MUTEXUNLOCK"

definition clearDTLS_locks :: "client_mutex lock_op list" where
  "clearDTLS_locks = [Destroy Ctx_lock]"

definition peers_mutex_destroy_locks :: "client_mutex lock_op list" where
  "peers_mutex_destroy_locks = [Destroy Peers_mutex]"

definition vpn_end_ops :: "bool \<Rightarrow> client_op list" where
  "vpn_end_ops global =
     Await_no_clients # map Mutex ((if global then [Destroy Global_limiter] else []) @ clearDTLS_locks @ peers_mutex_destroy_locks)"

text \<open>The calls of the threads, by function and branch.\<close>

datatype client_call =
    Rdv_read bool
  | Handle_answer "ptr option" release
  | Handle_forward_known ptr release
  | Handle_forward_new add_result release
  | Socket_server_call queue_write
  | Socket_packet_call "ptr option" "queue_write option" release
  | Tun_broadcast "(ptr \<times> queue_write option) list"
  | Tun_known ptr "queue_write option \<times> release"
  | Tun_new add_result release
  | Punch_turn ptr
  | Writing_start ptr
  | Writing_turn ptr bool "session_io list"
  | Thread_end ptr release
  | Peer_state_change ptr
  | Peer_new_refused ptr
  | Peer_new_answered ptr
  | Peer_punching ptr
  | Peer_linked ptr "session_io list"
  | Peer_established ptr
  | Peer_read ptr "session_io list" bool
  | Peer_read_end ptr "session_io list" "session_io list" queue_write
  | Peer_closed ptr release
  | End_all_peers "(ptr \<times> queue_write) list"
  | Rebuild_contexts

fun client_locks :: "client_call \<Rightarrow> client_mutex lock_op list" where
  "client_locks (Rdv_read waits) = rdv_read_locks waits"
| "client_locks (Handle_answer x rel) = rdv_answer_locks x rel"
| "client_locks (Handle_forward_known p rel) = rdv_forward_known_locks p rel"
| "client_locks (Handle_forward_new a rel) = rdv_forward_new_locks a rel"
| "client_locks (Socket_server_call w) = socket_server_locks w"
| "client_locks (Socket_packet_call x w rel) = comm_socket_locks x w rel"
| "client_locks (Tun_broadcast pws) = tun_broadcast_locks pws"
| "client_locks (Tun_known p l) = tun_known_locks p l"
| "client_locks (Tun_new a rel) = tun_new_locks a rel"
| "client_locks (Punch_turn p) = punch_turn_locks p"
| "client_locks (Writing_start p) = writing_start_locks p"
| "client_locks (Writing_turn p waits ios) = writing_turn_locks p waits ios"
| "client_locks (Thread_end p rel) = thread_end_locks p rel"
| "client_locks (Peer_state_change p) = state_change_locks p"
| "client_locks (Peer_new_refused p) = peer_new_refused_locks p"
| "client_locks (Peer_new_answered p) = peer_new_answered_locks p"
| "client_locks (Peer_punching p) = peer_punching_locks p"
| "client_locks (Peer_linked p ios) = peer_linked_locks p ios"
| "client_locks (Peer_established p) = peer_established_locks p"
| "client_locks (Peer_read p ios touched) = peer_read_locks p ios touched"
| "client_locks (Peer_read_end p ios1 ios2 w) = peer_read_end_locks p ios1 ios2 w"
| "client_locks (Peer_closed p rel) = peer_closed_locks p rel"
| "client_locks (End_all_peers pws) = end_all_peers_locks pws"
| "client_locks Rebuild_contexts = rebuildDTLS_locks"

text \<open>The writes of a call to queues, in order.\<close>

fun queue_writes :: "client_call \<Rightarrow> queue_write list" where
  "queue_writes (Socket_server_call w) = [w]"
| "queue_writes (Socket_packet_call x w rel) = (case w of None \<Rightarrow> [] | Some v \<Rightarrow> [v])"
| "queue_writes (Tun_broadcast pws) = List.map_filter snd pws"
| "queue_writes (Tun_known p l) = (case fst l of None \<Rightarrow> [] | Some v \<Rightarrow> [v])"
| "queue_writes (Peer_read_end p ios1 ios2 w) = [w]"
| "queue_writes (End_all_peers pws) = map snd pws"
| "queue_writes _ = []"

section \<open>The order\<close>

fun mutex_rank :: "client_mutex \<Rightarrow> nat" where
  "mutex_rank Peers_mutex = 0"
| "mutex_rank (Peer_mutex p) = 1"
| "mutex_rank Ctx_lock = 2"
| "mutex_rank (Ref_mutex p) = 3"
| "mutex_rank (In_fifo p) = 4"
| "mutex_rank (Out_fifo p) = 4"
| "mutex_rank Rdv_fifo = 4"
| "mutex_rank (Peer_limiter p) = 5"
| "mutex_rank Global_limiter = 5"

definition in_order :: "client_call \<Rightarrow> bool" where
  "in_order c \<longleftrightarrow> (\<forall>p. c \<noteq> Peer_new_answered p) \<and> Never_woken \<notin> set (queue_writes c)"

text \<open>Operations that a thread which holds \<open>h\<close> can make in order and after which it holds \<open>h\<close> again.\<close>

definition keeps :: "client_mutex list \<Rightarrow> client_mutex lock_op list \<Rightarrow> bool" where
  "keeps h xs \<longleftrightarrow> (\<forall>r. ordered mutex_rank recursive_mutex h r \<longrightarrow> ordered mutex_rank recursive_mutex h (xs @ r))"

lemma keeps_Nil [simp, intro]: "keeps h []"
  by (simp add: keeps_def)

lemma keeps_append [intro]: "keeps h xs \<Longrightarrow> keeps h ys \<Longrightarrow> keeps h (xs @ ys)"
  by (simp add: keeps_def)

lemma keeps_concat: "(\<And>x. x \<in> set xs \<Longrightarrow> keeps h (f x)) \<Longrightarrow> keeps h (concat (map f xs))"
  by (induction xs) auto

lemma keeps_ordered: "keeps [] xs \<Longrightarrow> ordered mutex_rank recursive_mutex [] xs"
  unfolding keeps_def by (metis append_Nil2 ordered.simps(1))

text \<open>A section: a mutex locked around operations.\<close>

lemma keeps_section:
  assumes "\<forall>x \<in> set h. mutex_rank x < mutex_rank m" and "keeps (m # h) xs"
  shows "keeps h (Lock m # xs @ [Unlock m])"
  using assms by (simp add: keeps_def)

lemma keeps_single: "\<forall>x \<in> set h. mutex_rank x < mutex_rank m \<Longrightarrow> keeps h [Lock m, Unlock m]"
  using keeps_section [of h m "[]"] by simp

lemma keeps_wait: "\<forall>x \<in> set h. mutex_rank x < mutex_rank m \<Longrightarrow> keeps (m # h) (concat (replicate n [Unlock m, Lock m]))"
  by (induction n) (simp_all add: keeps_def)

lemma keeps_write:
  assumes "\<forall>x \<in> set h. mutex_rank x < mutex_rank q" and "w \<noteq> Never_woken"
  shows "keeps h (fifo_write_locks q w)"
  using assms keeps_single keeps_section [OF assms(1) keeps_wait] by (cases w) auto

lemma keeps_write_opt:
  assumes "\<forall>x \<in> set h. mutex_rank x < mutex_rank q" and "w \<noteq> Some Never_woken"
  shows "keeps h (write_opt_locks q w)"
  using assms keeps_write by (cases w) (auto simp: write_opt_locks_def)

lemma keeps_read: "keeps [] (fifo_read_locks q e)"
  by (simp add: keeps_def fifo_read_locks_def)

lemma keeps_session: "keeps [] (session_locks p ios)"
proof -
  have "keeps [] (session_io_locks p io)" for io
    using keeps_read by (cases io) (auto simp: keeps_def ratef_write_locks_def tb_count_locks_def)
  then show ?thesis unfolding session_locks_def by (intro keeps_concat)
qed

lemma keeps_decr: "keeps [] (decr_ref_locks p rel)"
  by (cases rel) (simp_all add: keeps_def decr_ref_locks_def peers_decr_ref_ops_def peers_remove_ops_def recursive_mutex_def)

lemma keeps_incr: "keeps [] (incr_ref_locks p)"
  by (simp add: keeps_def incr_ref_locks_def)

lemma keeps_get: "keeps [] (get_locks None)" "keeps [] (get_locks (Some p) @ CLIENT_MUTEXUNLOCK p)"
  by (simp_all add: keeps_def incr_ref_locks_def)

lemma keeps_add: "keeps [] (add_locks a)"
proof (cases a)
  case (No_session p limited r)
  then show ?thesis by (cases r) (simp_all add: keeps_def peer_init_locks_def fifo_droptail_locks_def)
qed (simp_all add: keeps_def peer_init_locks_def fifo_droptail_locks_def)

lemma keeps_found: "w \<noteq> Some Never_woken \<Longrightarrow> keeps [] (found_locks p q w rel)"
  unfolding found_locks_def using keeps_append [OF keeps_get(2) keeps_append [OF keeps_write_opt keeps_decr]] by simp

lemma keeps_state_change: "keeps [] (state_change_locks p)"
  unfolding state_change_locks_def using keeps_single by simp

lemmas keeps_intros = keeps_append keeps_read keeps_session keeps_decr keeps_incr keeps_get(1) keeps_add keeps_found keeps_state_change

text \<open>The walks over the list of peers, under the mutex of the table.\<close>

lemma keeps_broadcast:
  assumes "\<forall>pw \<in> set pws. snd pw \<noteq> Some Never_woken"
  shows "keeps [] (tun_broadcast_locks pws)"
proof -
  have "keeps [Peers_mutex] (broadcast_one_locks pw)" if "pw \<in> set pws" for pw
    using that assms keeps_section [of "[Peers_mutex]" "Peer_mutex (fst pw)", OF _ keeps_write_opt]
    by (auto simp: broadcast_one_locks_def split: prod.split)
  then have "keeps [Peers_mutex] (concat (map broadcast_one_locks pws))" by (intro keeps_concat)
  then show ?thesis using keeps_section [of "[]" Peers_mutex] by (simp add: tun_broadcast_locks_def)
qed

lemma keeps_end_all:
  assumes "\<forall>pw \<in> set pws. snd pw \<noteq> Never_woken"
  shows "keeps [] (end_all_peers_locks pws)"
proof -
  have "keeps [Peers_mutex] (end_peer_locks pw)" if "pw \<in> set pws" for pw
    using that assms keeps_append [OF keeps_single [of "[Peers_mutex]" "Peer_mutex (fst pw)"] keeps_write]
    by (auto simp: end_peer_locks_def split: prod.split)
  then have "keeps [Peers_mutex] (concat (map end_peer_locks pws))" by (intro keeps_concat)
  then show ?thesis using keeps_section [of "[]" Peers_mutex] by (simp add: end_all_peers_locks_def)
qed

lemmas call_defs = rdv_read_locks_def rdv_answer_locks_def rdv_forward_known_locks_def rdv_forward_new_locks_def
  socket_server_locks_def comm_socket_locks_def tun_known_locks_def tun_new_locks_def punch_turn_locks_def
  writing_start_locks_def writing_turn_locks_def thread_end_locks_def peer_new_refused_locks_def
  peer_punching_locks_def peer_linked_locks_def peer_established_locks_def peer_read_locks_def peer_read_end_locks_def
  start_peer_locks_def fifo_droptail_locks_def rebuildDTLS_locks_def

lemma keeps_closed: "keeps [] (peer_closed_locks p rel)"
proof -
  have "peer_closed_locks p rel = state_change_locks p @ decr_ref_locks p rel"
    by (simp add: peer_closed_locks_def peer_closed_ops_def state_change_locks_def decr_ref_locks_def)
  then show ?thesis using keeps_append [OF keeps_state_change keeps_decr] by simp
qed

lemma keeps_linked: "keeps [] (peer_linked_locks p ios)"
  using keeps_append [OF keeps_state_change keeps_append [OF keeps_session keeps_state_change]]
  by (simp add: peer_linked_locks_def state_change_locks_def)

lemma keeps_established: "keeps [] (peer_established_locks p)"
  using keeps_append [OF keeps_state_change keeps_incr] by (simp add: peer_established_locks_def state_change_locks_def)

lemma keeps_new:
  "keeps [] (rdv_forward_new_locks a rel)" "keeps [] (tun_new_locks a rel)"
proof -
  have w: "keeps [] (fifo_write_locks (Out_fifo p) No_wait)" for p by (rule keeps_write) simp_all
  show "keeps [] (rdv_forward_new_locks a rel)" by (cases a) (simp_all only: call_defs add_result.case, (intro keeps_intros keeps_Nil)+)
  show "keeps [] (tun_new_locks a rel)" by (cases a) (simp_all only: call_defs add_result.case, (intro keeps_intros keeps_Nil w)+)
qed

lemma client_call_keeps:
  assumes "in_order c"
  shows "keeps [] (client_locks c)"
proof (cases c)
  case (Socket_packet_call x w rel)
  then show ?thesis using assms keeps_found keeps_get(1) by (cases x; cases w) (auto simp: in_order_def comm_socket_locks_def)
next
  case (Tun_broadcast pws)
  have "Never_woken \<in> set (List.map_filter snd pws)" if "pw \<in> set pws" "snd pw = Some Never_woken" for pw
    using that by (induction pws) (auto split: option.splits)
  then have "\<forall>pw \<in> set pws. snd pw \<noteq> Some Never_woken" using assms Tun_broadcast by (auto simp: in_order_def)
  then show ?thesis using keeps_broadcast Tun_broadcast by simp
next
  case (Tun_known p l)
  then show ?thesis using assms keeps_found by (cases "fst l") (auto simp: in_order_def tun_known_locks_def)
next
  case (End_all_peers pws)
  have "snd pw \<noteq> Never_woken" if "pw \<in> set pws" for pw
    using that assms End_all_peers by (force simp: in_order_def)
  then show ?thesis using keeps_end_all End_all_peers by simp
next
  case (Peer_read p ios touched)
  then show ?thesis using keeps_session keeps_state_change by (auto simp: peer_read_locks_def)
next
  case (Peer_read_end p ios1 ios2 w)
  then have "keeps [] (fifo_write_locks (Out_fifo p) w)" using assms by (intro keeps_write) (simp_all add: in_order_def)
  then show ?thesis using Peer_read_end by (simp add: peer_read_end_locks_def keeps_append keeps_session keeps_state_change)
next
  case (Socket_server_call w)
  then show ?thesis using assms keeps_write by (simp add: in_order_def socket_server_locks_def)
next
  case (Handle_answer x rel)
  then show ?thesis using keeps_found keeps_get(1) by (cases x) (simp_all add: rdv_answer_locks_def)
next
  case (Handle_forward_known p rel)
  then show ?thesis using keeps_found by (simp add: rdv_forward_known_locks_def)
next
  case (Writing_turn p waits ios)
  then show ?thesis using keeps_read keeps_session by (auto simp: writing_turn_locks_def)
next
  case (Peer_new_answered p)
  then show ?thesis using assms by (simp add: in_order_def)
next
  case (Peer_new_refused p)
  then show ?thesis by (simp add: keeps_def peer_new_refused_locks_def cond_wait_locks_def)
next
  case (Peer_punching p)
  then show ?thesis by (simp add: keeps_def peer_punching_locks_def cond_wait_locks_def incr_ref_locks_def)
qed (simp_all add: keeps_new keeps_closed keeps_linked keeps_established keeps_state_change keeps_read keeps_decr
    rdv_read_locks_def thread_end_locks_def keeps_single punch_turn_locks_def writing_start_locks_def fifo_droptail_locks_def rebuildDTLS_locks_def)

interpretation client_mutexes: lock_order mutex_rank recursive_mutex client_locks in_order
  by unfold_locales (rule keeps_ordered [OF client_call_keeps])

text \<open>C10. The lock order of the client. Take threads that make any sequences of the calls of the client, where no call enters an endpoint
  into the index for an answer of the server, and no call writes to a full queue whose reader has ended (a write to a
  full queue whose reader goes on is woken; waits with a timeout end; reads return). They never reach a deadlock, in any
  interleaving, never unlock a mutex they do not hold, and can all finish from every state they reach.\<close>

theorem ordered_calls_finish:
  assumes "\<forall>cs \<in> set css. \<forall>c \<in> set cs. (\<forall>p. c \<noteq> Peer_new_answered p) \<and> Never_woken \<notin> set (queue_writes c)"
    and "lock_run recursive_mutex sch (call_threads client_locks css) = Some ts"
  shows "\<not> deadlocked recursive_mutex ts \<and> \<not> bad_unlock ts \<and>
    (\<exists>sch' ts'. lock_run recursive_mutex sch' ts = Some ts' \<and> finished ts')"
  by (rule client_mutexes.calls_finish) (use assms in \<open>auto simp: in_order_def\<close>)

text \<open>A broadcast that has to wait for room twice, the writing thread of the peer, and one that ends and removes its peer.\<close>

theorem ordered_calls_finish_witness:
  "\<exists>ts. lock_run recursive_mutex [0, 0, 0, 0, 1, 2, 2]
       (call_threads client_locks [[Tun_broadcast [(5, Some (Woken 2))]], [Writing_turn 5 False [Send True False]],
          [Writing_turn 6 True [], Thread_end 6 (Removed False)]]) = Some ts \<and>
     \<not> deadlocked recursive_mutex ts"
proof -
  let ?css = "[[Tun_broadcast [(5, Some (Woken 2))]], [Writing_turn 5 False [Send True False]],
     [Writing_turn 6 True [], Thread_end 6 (Removed False)]]"
  have "lock_run recursive_mutex [0, 0, 0, 0, 1, 2, 2] (call_threads client_locks ?css) \<noteq> None" by code_simp
  then obtain ts where ts: "lock_run recursive_mutex [0, 0, 0, 0, 1, 2, 2] (call_threads client_locks ?css) = Some ts" by blast
  have "\<forall>cs \<in> set ?css. \<forall>c \<in> set cs. (\<forall>p. c \<noteq> Peer_new_answered p) \<and> Never_woken \<notin> set (queue_writes c)"
    by (simp add: List.map_filter_def)
  from ordered_calls_finish [OF this ts] ts show ?thesis by blast
qed

text \<open>The other exception: a broadcast to a peer whose writing thread has left its loop with the queue full keeps both
  mutexes for ever, and the writing thread cannot give its reference back.\<close>

lemma broadcast_dead_queue_deadlocks:
  "\<exists>sch ts. lock_run recursive_mutex sch (call_threads client_locks [[Tun_broadcast [(p, Some Never_woken)]], [Thread_end p rel]]) = Some ts \<and>
     deadlocked recursive_mutex ts"
proof -
  let ?ts = "[([Block, Unlock (Peer_mutex p), Unlock Peers_mutex], [Peer_mutex p, Peers_mutex]), (decr_ref_locks p rel, [])]"
  have "lock_run recursive_mutex [0, 0, 0, 0] (call_threads client_locks [[Tun_broadcast [(p, Some Never_woken)]], [Thread_end p rel]]) = Some ?ts"
    by (simp add: call_threads_def tun_broadcast_locks_def broadcast_one_locks_def write_opt_locks_def thread_end_locks_def
        lock_step_def blocked_def less_Suc_eq_0_disj nth_Cons')
  moreover have "deadlocked recursive_mutex ?ts"
    by (auto simp: deadlocked_def finished_def lock_step_def blocked_def less_Suc_eq decr_ref_locks_def peers_decr_ref_ops_def nth_Cons')
  ultimately show ?thesis by blast
qed

text \<open>C35. The exception deadlocks: for every peer, a thread that looks the peer up for a message of the server or a packet from the
  TUN device and the thread of the peer that takes the answer reach a state in which each of them waits for
  the mutex of the other for ever.\<close>

theorem endpoint_entry_deadlocks:
  "\<exists>sch ts. lock_run recursive_mutex sch (call_threads client_locks [[Peer_new_answered p], [Tun_known p l]]) = Some ts \<and>
     deadlocked recursive_mutex ts"
proof -
  let ?ts = "[([Lock Peers_mutex, Unlock Peers_mutex, Unlock (Peer_mutex p)], [Peer_mutex p]),
     ([Lock (Peer_mutex p), Unlock Peers_mutex, Unlock (Peer_mutex p)] @ write_opt_locks (Out_fifo p) (fst l) @ decr_ref_locks p (snd l), [Peers_mutex])]"
  have "lock_run recursive_mutex [0, 0, 0, 1, 1, 1] (call_threads client_locks [[Peer_new_answered p], [Tun_known p l]]) = Some ?ts"
    by (simp add: call_threads_def peer_new_answered_locks_def tun_known_locks_def found_locks_def lock_step_def blocked_def cond_wait_locks_def
        register_endpoint_locks_def incr_ref_locks_def less_Suc_eq_0_disj all_conj_distrib nth_Cons' conj_disj_distribR ex_disj_distrib)
  moreover have "deadlocked recursive_mutex ?ts"
    by (auto simp: deadlocked_def finished_def lock_step_def blocked_def recursive_mutex_def less_Suc_eq)
  ultimately show ?thesis by blast
qed

section \<open>The end of the VPN\<close>

text \<open>Threads over the mutexes that exist and the counter of peers. The main thread waits for the counter to be 0.\<close>

type_synonym client_state = "client_op list list \<times> client_mutex mutexes \<times> int"

definition client_step :: "nat \<Rightarrow> client_state \<Rightarrow> client_state outcome" where
  "client_step i x =
     (case x of (ps, s, n) \<Rightarrow>
        if i < length ps then
          (case ps ! i of
             [] \<Rightarrow> Waits
           | Mutex a # r \<Rightarrow> (case lock_call i a s of
                Returns s' \<Rightarrow> Returns (ps[i := r], s', n) | Waits \<Rightarrow> Waits | Aborts \<Rightarrow> Aborts | Faults \<Rightarrow> Faults)
           | Decr_n_clients # r \<Rightarrow> Returns (ps[i := r], s, n - 1)
           | Await_no_clients # r \<Rightarrow> if n \<noteq> 0 then Waits else Returns (ps[i := r], s, n))
        else Waits)"

fun client_run :: "nat list \<Rightarrow> client_state \<Rightarrow> client_state outcome" where
  "client_run [] x = Returns x"
| "client_run (i # sch) x =
     (case client_step i x of
        Returns y \<Rightarrow> client_run sch y | Waits \<Rightarrow> client_run sch x | Aborts \<Rightarrow> Aborts | Faults \<Rightarrow> Faults)"

text \<open>The mutexes when the peers \<open>A\<close> are left and no thread holds a mutex.\<close>

fun live_mutexes :: "bool \<Rightarrow> bool \<Rightarrow> ptr set \<Rightarrow> client_mutex mutexes" where
  "live_mutexes limited global A Peers_mutex = Some (unlocked_mutex PTHREAD_MUTEX_RECURSIVE)"
| "live_mutexes limited global A Ctx_lock = Some (unlocked_mutex PTHREAD_MUTEX_DEFAULT)"
| "live_mutexes limited global A (Peer_mutex p) = (if p \<in> A then Some (unlocked_mutex PTHREAD_MUTEX_DEFAULT) else None)"
| "live_mutexes limited global A (Ref_mutex p) = (if p \<in> A then Some (unlocked_mutex PTHREAD_MUTEX_DEFAULT) else None)"
| "live_mutexes limited global A (In_fifo p) = (if p \<in> A then Some (unlocked_mutex PTHREAD_MUTEX_DEFAULT) else None)"
| "live_mutexes limited global A (Out_fifo p) = (if p \<in> A then Some (unlocked_mutex PTHREAD_MUTEX_DEFAULT) else None)"
| "live_mutexes limited global A Rdv_fifo = None"
| "live_mutexes limited global A (Peer_limiter p) = (if limited \<and> p \<in> A then Some (unlocked_mutex PTHREAD_MUTEX_DEFAULT) else None)"
| "live_mutexes limited global A Global_limiter = (if global then Some (unlocked_mutex PTHREAD_MUTEX_DEFAULT) else None)"

text \<open>The main thread at its wait, and a closed peer for each of the other threads, which hold the last references.\<close>

definition vpn_ending :: "bool \<Rightarrow> bool \<Rightarrow> ptr list \<Rightarrow> client_state" where
  "vpn_ending limited global ps =
     (vpn_end_ops global # map (\<lambda>p. peer_closed_ops p (Removed limited)) ps, live_mutexes limited global (set ps), int (length ps))"

text \<open>Operations of one thread while the others do nothing.\<close>

fun run_ops :: "nat \<Rightarrow> client_op list \<Rightarrow> client_mutex mutexes \<times> int \<Rightarrow> (client_mutex mutexes \<times> int) outcome" where
  "run_ops i [] x = Returns x"
| "run_ops i (Mutex a # r) (s, n) =
     (case lock_call i a s of Returns s' \<Rightarrow> run_ops i r (s', n) | Waits \<Rightarrow> Waits | Aborts \<Rightarrow> Aborts | Faults \<Rightarrow> Faults)"
| "run_ops i (Decr_n_clients # r) (s, n) = run_ops i r (s, n - 1)"
| "run_ops i (Await_no_clients # r) (s, n) = (if n \<noteq> 0 then Waits else run_ops i r (s, n))"

lemma client_run_append:
  "client_run sch x = Returns y \<Longrightarrow> client_run (sch @ sch') x = client_run sch' y"
  by (induction sch arbitrary: x) (auto split: outcome.splits)

lemma client_run_alone:
  assumes "i < length ps" and "ps ! i = ops @ rest" and "run_ops i ops (s, n) = Returns (s', n')"
  shows "client_run (replicate (length ops) i) (ps, s, n) = Returns (ps[i := rest], s', n')"
  using assms
proof (induction i ops "(s, n)" arbitrary: ps s n rule: run_ops.induct)
  case (1 i)
  then show ?case using list_update_id [of ps i] by simp
qed (auto simp: client_step_def split: outcome.splits if_splits)

lemma client_run_aborts:
  assumes "i < length ps" and "ps ! i = ops" and "run_ops i ops (s, n) = Aborts"
  shows "client_run (replicate (length ops) i) (ps, s, n) = Aborts"
  using assms
  by (induction i ops "(s, n)" arbitrary: ps s n rule: run_ops.induct)
    (auto simp: client_step_def split: outcome.splits if_splits)

lemmas wrapper_defs = mutexLock_def mutexUnlock_def mutexDestroy_def pthread_mutex_lock_def pthread_mutex_unlock_def
  pthread_mutex_destroy_def unlocked_mutex_def

lemmas end_ops_defs = peer_closed_ops_def peers_decr_ref_ops_def peers_remove_ops_def vpn_end_ops_def clearDTLS_locks_def
  peers_mutex_destroy_locks_def

lemma live_without:
  "(live_mutexes limited global A)(Peer_mutex p := None, Ref_mutex p := None, Peer_limiter p := None, In_fifo p := None, Out_fifo p := None) =
     live_mutexes limited global (A - {p})"
proof
  fix m
  show "((live_mutexes limited global A)(Peer_mutex p := None, Ref_mutex p := None, Peer_limiter p := None, In_fifo p := None,
     Out_fifo p := None)) m = live_mutexes limited global (A - {p}) m" by (cases m) simp_all
qed

text \<open>A peer thread alone removes its peer; before the two unlock operations at its end the counter has changed and the mutex of the table is held
  twice.\<close>

lemma peer_closed_before_unlock:
  assumes "p \<in> A"
  obtains ops where "peer_closed_ops p (Removed limited) = ops @ [Mutex (Unlock Peers_mutex), Mutex (Unlock Peers_mutex)]"
    "run_ops i ops (live_mutexes limited global A, n) =
       Returns ((live_mutexes limited global (A - {p}))
         (Peers_mutex \<mapsto> \<lparr>mx_type = PTHREAD_MUTEX_RECURSIVE, mx_owner = Some i, mx_count = 2\<rparr>), n - 1)"
proof
  let ?ops = "map Mutex ([Lock (Peer_mutex p), Unlock (Peer_mutex p), Lock Peers_mutex, Lock (Ref_mutex p), Unlock (Ref_mutex p), Lock Peers_mutex,
    Destroy (Peer_mutex p), Destroy (Ref_mutex p)] @ (if limited then [Destroy (Peer_limiter p)] else []) @ [Destroy (In_fifo p), Destroy (Out_fifo p)])
    @ [Decr_n_clients]"
  show "peer_closed_ops p (Removed limited) = ?ops @ [Mutex (Unlock Peers_mutex), Mutex (Unlock Peers_mutex)]"
    by (simp add: end_ops_defs)
  show "run_ops i ?ops (live_mutexes limited global A, n) =
       Returns ((live_mutexes limited global (A - {p}))
         (Peers_mutex \<mapsto> \<lparr>mx_type = PTHREAD_MUTEX_RECURSIVE, mx_owner = Some i, mx_count = 2\<rparr>), n - 1)"
    using assms by (simp add: wrapper_defs live_without [symmetric] fun_eq_iff)
qed

lemma peer_closed_alone:
  assumes "p \<in> A"
  shows "run_ops i (peer_closed_ops p (Removed limited)) (live_mutexes limited global A, n) =
    Returns (live_mutexes limited global (A - {p}), n - 1)"
  using assms by (simp add: end_ops_defs wrapper_defs live_without [symmetric] fun_eq_iff)

lemma live_none: "m \<noteq> Peers_mutex \<Longrightarrow> m \<noteq> Ctx_lock \<Longrightarrow> m \<noteq> Global_limiter \<or> \<not> global \<Longrightarrow> live_mutexes limited global {} m = None"
  by (cases m) simp_all

lemma vpn_end_alone: "run_ops i (vpn_end_ops global) (live_mutexes limited global {}, 0) = Returns (\<lambda>_. None, 0)"
  by (cases global) (auto simp: end_ops_defs wrapper_defs fun_eq_iff live_none)

lemma vpn_end_aborts:
  "run_ops i (vpn_end_ops global) ((live_mutexes limited global A)(Peers_mutex \<mapsto> \<lparr>mx_type = ty, mx_owner = Some j, mx_count = c\<rparr>), 0) = Aborts"
  by (simp add: end_ops_defs wrapper_defs)

lemma peers_close:
  assumes "distinct ps" and "set ps \<subseteq> A"
  shows "\<exists>sch. client_run sch (front @ map (\<lambda>p. peer_closed_ops p (Removed limited)) ps @ back, live_mutexes limited global A, n) =
    Returns (front @ replicate (length ps) [] @ back, live_mutexes limited global (A - set ps), n - int (length ps))"
  using assms
proof (induction ps arbitrary: front A n)
  case Nil
  have "client_run [] x = Returns x" for x by simp
  then show ?case by (intro exI [of _ "[]"]) simp
next
  case (Cons p ps)
  let ?x = "(front @ map (\<lambda>p. peer_closed_ops p (Removed limited)) (p # ps) @ back, live_mutexes limited global A, n)"
  let ?y = "((front @ [[]]) @ map (\<lambda>p. peer_closed_ops p (Removed limited)) ps @ back, live_mutexes limited global (A - {p}), n - 1)"
  have one: "client_run (replicate (length (peer_closed_ops p (Removed limited))) (length front)) ?x = Returns ?y"
    using client_run_alone [of "length front" "fst ?x" "peer_closed_ops p (Removed limited)" "[]"] peer_closed_alone Cons.prems
    by (simp add: nth_append list_update_append)
  have "distinct ps" "set ps \<subseteq> A - {p}" using Cons.prems by auto
  from Cons.IH [OF this, of "front @ [[]]" "n - 1"] obtain sch where
    "client_run sch ?y = Returns ((front @ [[]]) @ replicate (length ps) [] @ back, live_mutexes limited global (A - {p} - set ps), n - 1 - int (length ps))"
    by blast
  moreover have "A - {p} - set ps = A - set (p # ps)" by auto
  ultimately show ?case using client_run_append [OF one, of sch] by (intro exI [of _ "_ @ sch"]) (simp add: algebra_simps)
qed

text \<open>C36. The end of the VPN can abort. The main thread destroys the mutex of the table as soon as it reads that the counter of peers is
  0; the last peer thread sets the counter in \<^verbatim>\<open>peers_remove\<close> while it holds this mutex twice. For any number of closed peers, at
  least one: some schedule aborts the program in \<^verbatim>\<open>mutexDestroy\<close>, and another one ends well, with all
  threads at their end and every mutex destroyed.\<close>

theorem shutdown_race_aborts:
  assumes "ps \<noteq> []" and "distinct ps"
  shows "(\<exists>sch. client_run sch (vpn_ending limited global ps) = Aborts) \<and>
    (\<exists>sch. client_run sch (vpn_ending limited global ps) = Returns (replicate (Suc (length ps)) [], \<lambda>_. None, 0))"
proof
  let ?ops = "\<lambda>p. peer_closed_ops p (Removed limited)" and ?live = "live_mutexes limited global"
  obtain qs p where ps: "ps = qs @ [p]" using assms(1) by (metis rev_exhaust)
  have "distinct qs" "set qs \<subseteq> set ps" and p: "set ps - set qs = {p}" using assms(2) ps by auto
  from peers_close [OF this(1,2), of "[vpn_end_ops global]" limited "[?ops p]" global "int (length ps)"] p ps
  obtain sch where a: "client_run sch (vpn_ending limited global ps) =
      Returns (vpn_end_ops global # replicate (length qs) [] @ [?ops p], ?live {p}, 1)" by (auto simp: vpn_ending_def)
  let ?i = "Suc (length qs)" and ?u = "[Mutex (Unlock Peers_mutex), Mutex (Unlock Peers_mutex)]"
  let ?held = "(?live ({p} - {p}))(Peers_mutex \<mapsto> \<lparr>mx_type = PTHREAD_MUTEX_RECURSIVE, mx_owner = Some ?i, mx_count = 2\<rparr>)"
  obtain ops where ops: "?ops p = ops @ ?u" "run_ops ?i ops (?live {p}, 1) = Returns (?held, 1 - 1)"
    using peer_closed_before_unlock [of p "{p}" limited ?i global 1] by blast
  have b: "client_run (replicate (length ops) ?i) (vpn_end_ops global # replicate (length qs) [] @ [?ops p], ?live {p}, 1) =
      Returns (vpn_end_ops global # replicate (length qs) [] @ [?u], ?held, 0)"
    using client_run_alone [OF _ _ ops(2), of "vpn_end_ops global # replicate (length qs) [] @ [?ops p]" ?u] ops(1)
    by (simp add: nth_append list_update_append)
  have "client_run (replicate (length (vpn_end_ops global)) 0) (vpn_end_ops global # replicate (length qs) [] @ [?u], ?held, 0) = Aborts"
    by (rule client_run_aborts) (simp_all add: vpn_end_aborts)
  then show "\<exists>sch. client_run sch (vpn_ending limited global ps) = Aborts"
    using client_run_append [OF a] client_run_append [OF b] by metis
next
  let ?done = "replicate (length ps) []"
  from peers_close [OF assms(2) order_refl, of "[vpn_end_ops global]" limited "[]" global "int (length ps)"]
  obtain sch where a: "client_run sch (vpn_ending limited global ps) = Returns (vpn_end_ops global # ?done, live_mutexes limited global {}, 0)"
    by (auto simp: vpn_ending_def)
  have "client_run (replicate (length (vpn_end_ops global)) 0) (vpn_end_ops global # ?done, live_mutexes limited global {}, 0) =
      Returns ((vpn_end_ops global # ?done)[0 := []], \<lambda>_. None, 0)"
    by (rule client_run_alone [OF _ _ vpn_end_alone]) simp_all
  then show "\<exists>sch. client_run sch (vpn_ending limited global ps) = Returns (replicate (Suc (length ps)) [], \<lambda>_. None, 0)"
    using client_run_append [OF a] by (metis list_update_code(2) replicate_Suc)
qed

text \<open>Two peers with rate limiters.\<close>

theorem shutdown_race_aborts_witness:
  "(\<exists>sch. client_run sch (vpn_ending True True [5, 7]) = Aborts) \<and>
   (\<exists>sch. client_run sch (vpn_ending True True [5, 7]) = Returns ([[], [], []], \<lambda>_. None, 0))"
  using shutdown_race_aborts [of "[5, 7]" True True] by (simp add: numeral_3_eq_3)

section \<open>The mutexes of OpenSSL\<close>

text \<open>The array of mutexes, as many as OpenSSL asks for, and whether the callbacks are set. An index outside of the
  array is a mutex that is not initialised.\<close>

record openssl_threads =
  crypto_mutexes :: "nat mutexes"
  locking_callback :: bool
  id_callback :: bool

fun mutex_loop :: "(nat \<Rightarrow> nat mutexes \<Rightarrow> nat mutexes outcome) \<Rightarrow> nat list \<Rightarrow> nat mutexes \<Rightarrow> nat mutexes outcome" where
  "mutex_loop f [] s = Returns s"
| "mutex_loop f (i # is) s =
     (case f i s of Returns s' \<Rightarrow> mutex_loop f is s' | Waits \<Rightarrow> Waits | Aborts \<Rightarrow> Aborts | Faults \<Rightarrow> Faults)"

abbreviation (input) CRYPTO_LOCK :: int where "CRYPTO_LOCK \<equiv> 1"

definition openssl_locking_function :: "nat \<Rightarrow> int \<Rightarrow> nat \<Rightarrow> nat mutexes \<Rightarrow> nat mutexes outcome" where
  "openssl_locking_function t mode n s = (if and mode CRYPTO_LOCK \<noteq> 0 then mutexLock t n s else mutexUnlock t n s)"

text \<open>\<open>threadid\<close>: the version of OpenSSL identifies threads itself (\<^verbatim>\<open>HAVE_CRYPTO_THREADID_CURRENT\<close>). The codes are what
  the library returns for each mutex.\<close>

definition setup_openssl_thread :: "bool \<Rightarrow> nat \<Rightarrow> (nat \<Rightarrow> int) \<Rightarrow> openssl_threads outcome" where
  "setup_openssl_thread threadid n codes =
     (case mutex_loop (\<lambda>i. mutexInit (codes i) i None) [0..<n] (\<lambda>_. None) of
        Returns s \<Rightarrow> Returns \<lparr>crypto_mutexes = s, locking_callback = True, id_callback = \<not> threadid\<rparr>
      | Waits \<Rightarrow> Waits | Aborts \<Rightarrow> Aborts | Faults \<Rightarrow> Faults)"

definition cleanup_openssl_thread :: "bool \<Rightarrow> nat \<Rightarrow> openssl_threads \<Rightarrow> openssl_threads outcome" where
  "cleanup_openssl_thread threadid n o1 =
     (let o2 = (if threadid then o1 else o1\<lparr>id_callback := False\<rparr>)\<lparr>locking_callback := False\<rparr> in
      case mutex_loop mutexDestroy [0..<n] (crypto_mutexes o2) of
        Returns s \<Rightarrow> Returns (o2\<lparr>crypto_mutexes := s\<rparr>)
      | Waits \<Rightarrow> Waits | Aborts \<Rightarrow> Aborts | Faults \<Rightarrow> Faults)"

lemma mutex_loop_append:
  "mutex_loop f (is @ js) s =
     (case mutex_loop f is s of Returns s' \<Rightarrow> mutex_loop f js s' | Waits \<Rightarrow> Waits | Aborts \<Rightarrow> Aborts | Faults \<Rightarrow> Faults)"
  by (induction "is" arbitrary: s) (auto split: outcome.splits)

lemma init_loop:
  assumes "\<forall>i < n. codes i = 0"
  shows "mutex_loop (\<lambda>i. mutexInit (codes i) i None) [0..<n] (\<lambda>_. None) =
    Returns (\<lambda>i. if i < n then Some (unlocked_mutex PTHREAD_MUTEX_DEFAULT) else None)"
  using assms
proof (induction n)
  case 0
  then show ?case by simp
next
  case (Suc n)
  then show ?case by (simp add: mutex_loop_append mutexInit_def pthread_mutex_init_def fun_eq_iff less_Suc_eq)
qed

lemma destroy_loop:
  assumes "\<forall>i < n. \<exists>ty. s i = Some (unlocked_mutex ty)"
  shows "mutex_loop mutexDestroy [0..<n] s = Returns (\<lambda>i. if i < n then None else s i)"
  using assms
proof (induction n)
  case 0
  then show ?case by simp
next
  case (Suc n)
  then obtain ty where "s n = Some (unlocked_mutex ty)" by auto
  with Suc show ?case
    by (simp add: mutex_loop_append mutexDestroy_def pthread_mutex_destroy_def unlocked_mutex_def fun_eq_iff less_Suc_eq)
qed

lemma lock_unlock:
  assumes "s i = Some (unlocked_mutex ty)"
  shows "\<exists>s'. mutexLock t i s = Returns s' \<and> mutexUnlock t i s' = Returns s"
proof -
  let ?s = "s(i \<mapsto> (unlocked_mutex ty)\<lparr>mx_owner := Some t, mx_count := 1\<rparr>)"
  have "mutexLock t i s = Returns ?s" using assms by (simp add: mutexLock_def pthread_mutex_lock_def unlocked_mutex_def)
  moreover have "mutexUnlock t i ?s = Returns s"
    using assms by (simp add: mutexUnlock_def pthread_mutex_unlock_def unlocked_mutex_def fun_upd_idem)
  ultimately show ?thesis by blast
qed

text \<open>Every mutex that is set up is in place for the callback, unlocked, and destroyed at the end.\<close>

lemma openssl_thread_setup:
  assumes "\<forall>i < n. codes i = 0"
  obtains o1 where "setup_openssl_thread threadid n codes = Returns o1" "locking_callback o1"
    "i < n \<Longrightarrow> \<exists>s. openssl_locking_function t CRYPTO_LOCK i (crypto_mutexes o1) = Returns s \<and>
       openssl_locking_function t 0 i s = Returns (crypto_mutexes o1)"
    "cleanup_openssl_thread threadid n o1 = Returns \<lparr>crypto_mutexes = (\<lambda>_. None), locking_callback = False, id_callback = False\<rparr>"
proof
  let ?s = "\<lambda>i. if i < n then Some (unlocked_mutex PTHREAD_MUTEX_DEFAULT) else None"
  let ?o = "\<lparr>crypto_mutexes = ?s, locking_callback = True, id_callback = \<not> threadid\<rparr>"
  show "setup_openssl_thread threadid n codes = Returns ?o" using init_loop [OF assms] by (simp add: setup_openssl_thread_def)
  show "\<exists>s. openssl_locking_function t CRYPTO_LOCK i (crypto_mutexes ?o) = Returns s \<and>
       openssl_locking_function t 0 i s = Returns (crypto_mutexes ?o)" if "i < n"
    using that lock_unlock [of ?s i] by (simp add: openssl_locking_function_def)
  have "mutex_loop mutexDestroy [0..<n] ?s = Returns (\<lambda>i. if i < n then None else ?s i)" by (rule destroy_loop) auto
  then show "cleanup_openssl_thread threadid n ?o = Returns \<lparr>crypto_mutexes = (\<lambda>_. None), locking_callback = False, id_callback = False\<rparr>"
    by (auto simp: cleanup_openssl_thread_def Let_def)
qed simp

end
