(* ===== verification/Parser_Memory.thy ===== *)
theory Parser_Memory
  imports Config_Parser Search_Tree
begin

text \<open>
  The release of a parsed configuration (\<^verbatim>\<open>free_value\<close>, \<^verbatim>\<open>free_key\<close>, \<^verbatim>\<open>free_section\<close> and \<^verbatim>\<open>parser_free\<close> of \<^verbatim>\<open>common/config_parser.c\<close>) and
  the replacement for \<^verbatim>\<open>tdestroy\<close> on systems that lack it (\<^verbatim>\<open>lib/tdestroy.c\<close>). The other theories keep the
  configuration as a value; here it is on a heap of sections, keys and values, so that a second release or a
  use after the release is a fault. A node and the strings it owns are one block, since they are freed together.

  The locale \<open>tree_release\<close> is what the replacement needs of the function that frees a node.
\<close>

section \<open>The nodes\<close>

record key_node =
  kn_name :: string
  kn_n_values :: int
  kn_values_list :: "ptr list"

record section_node =
  sn_name :: string
  sn_keys_list :: "ptr list"
  sn_keys_tree :: search_tree

record parser_memory =
  pm_values :: "item_value heap"
  pm_keys :: "key_node heap"
  pm_sections :: "section_node heap"

record parser_node =
  pn_sections_list :: "ptr list"
  pn_sections_tree :: search_tree

section \<open>Destroying a tree\<close>

text \<open>\<open>root_of\<close> is the node that the library keeps at the root, \<open>item\<close> reads a node. The node is taken out of the tree
  before it is freed.\<close>

partial_function (option) campagnol_tdestroy :: "(search_tree \<Rightarrow> ptr) \<Rightarrow> ('m \<Rightarrow> 'a heap) \<Rightarrow> ('a \<Rightarrow> 'a \<Rightarrow> int) \<Rightarrow>
  (ptr \<Rightarrow> 'm \<Rightarrow> 'm option) \<Rightarrow> search_tree \<Rightarrow> 'm \<Rightarrow> 'm option" where
  "campagnol_tdestroy root_of item cmp free_node root m =
     (if root = [] then Some m
      else do {
        let node = root_of root;
        v \<leftarrow> item m node;
        root' \<leftarrow> tdelete (cmp_at cmp (item m) v) root;
        m' \<leftarrow> free_node node m;
        campagnol_tdestroy root_of item cmp free_node root' m'
      })"

text \<open>\<open>removed D\<close> is the memory after the release of the nodes \<open>D\<close>, out of the nodes \<open>A\<close>.\<close>

locale tree_release = key_compare cmp key
  for cmp :: "'a \<Rightarrow> 'a \<Rightarrow> int" and key :: "'a \<Rightarrow> 'k" +
  fixes item :: "'m \<Rightarrow> 'a heap" and free_node :: "ptr \<Rightarrow> 'm \<Rightarrow> 'm option"
    and alive :: "'m \<Rightarrow> ptr set \<Rightarrow> bool" and removed :: "'m \<Rightarrow> ptr set \<Rightarrow> 'm"
  assumes item_alive: "alive m0 A \<Longrightarrow> D \<subseteq> A \<Longrightarrow> p \<in> A - D \<Longrightarrow> item (removed m0 D) p = item m0 p \<and> item m0 p \<noteq> None"
    and free_alive: "alive m0 A \<Longrightarrow> D \<subseteq> A \<Longrightarrow> p \<in> A - D \<Longrightarrow> free_node p (removed m0 D) = Some (removed m0 (insert p D))"
begin

lemma tdestroy_from:
  assumes "alive m0 A" and "D \<subseteq> A" and "set root = A - D" and "distinct root" and "inj_on (field_at key (item m0)) (set root)"
    and "\<And>t. t \<noteq> [] \<Longrightarrow> root_of t \<in> set t"
  shows "campagnol_tdestroy root_of item cmp free_node root (removed m0 D) = Some (removed m0 A)"
  using assms(2-5)
proof (induction "length root" arbitrary: root D rule: less_induct)
  case less
  let ?m = "removed m0 D"
  show ?case
  proof (cases "root = []")
    case True
    then have "D = A" using less.prems by auto
    with True show ?thesis by (subst campagnol_tdestroy.simps) simp
  next
    case False
    let ?node = "root_of root"
    have node: "?node \<in> A - D" using assms(6) [OF False] less.prems by simp
    have same: "item ?m q = item m0 q" "item m0 q \<noteq> None" if "q \<in> set root" for q
      using item_alive [OF assms(1) less.prems(1)] that less.prems(2) by auto
    obtain v where v: "item ?m ?node = Some v" using item_alive [OF assms(1) less.prems(1) node] by auto
    have inj: "inj_on (field_at key (item ?m)) (set root)"
    proof (rule inj_on_cong [THEN iffD2])
      show "field_at key (item ?m) q = field_at key (item m0) q" if "q \<in> set root" for q using same(1) [OF that] by (simp add: field_at_def)
      show "inj_on (field_at key (item m0)) (set root)" by (rule less.prems(4))
    qed
    let ?root = "filter (\<lambda>q. field_at key (item ?m) q \<noteq> Some (key v)) root"
    have del: "tdelete (cmp_at cmp (item ?m) v) root = Some ?root"
      using same less.prems(3) inj by (intro tdelete_key) auto
    have eq: "field_at key (item ?m) q = Some (key v) \<longleftrightarrow> q = ?node" if "q \<in> set root" for q
      using inj_on_eq_iff [OF inj that assms(6) [OF False]] field_at_Some [of "item ?m" ?node v key, OF v] by simp
    then have set: "set ?root = A - insert ?node D" using less.prems(2) by auto
    have "?node \<in> set root" "?node \<notin> set ?root" using assms(6) [OF False] eq by auto
    then have "length ?root < length root" using length_filter_less [of ?node root "\<lambda>q. field_at key (item ?m) q \<noteq> Some (key v)"] by simp
    moreover have "inj_on (field_at key (item m0)) (set ?root)" using less.prems(4) by (rule inj_on_subset) auto
    ultimately have "campagnol_tdestroy root_of item cmp free_node ?root (removed m0 (insert ?node D)) = Some (removed m0 A)"
      using less.hyps [of ?root "insert ?node D"] node less.prems set by auto
    moreover have "free_node ?node ?m = Some (removed m0 (insert ?node D))" by (rule free_alive [OF assms(1) less.prems(1) node])
    ultimately show ?thesis using False v del by (subst campagnol_tdestroy.simps) (simp add: Let_def)
  qed
qed

end

section \<open>Releasing values, keys and sections\<close>

definition free_value :: "ptr \<Rightarrow> parser_memory \<Rightarrow> parser_memory option" where
  "free_value p m = (if pm_values m p = None then None else Some (m\<lparr>pm_values := (pm_values m)(p := None)\<rparr>))"

text \<open>The walk over the queue; the next value is read before the current one is freed.\<close>

fun free_values :: "ptr list \<Rightarrow> parser_memory \<Rightarrow> parser_memory option" where
  "free_values [] m = Some m"
| "free_values (p # ps) m = do { m1 \<leftarrow> free_value p m; free_values ps m1 }"

definition free_key :: "ptr \<Rightarrow> parser_memory \<Rightarrow> parser_memory option" where
  "free_key p m =
     do {
       k \<leftarrow> pm_keys m p;
       m1 \<leftarrow> (if kn_n_values k \<noteq> 0 then free_values (kn_values_list k) m else Some m);
       Some (m1\<lparr>pm_keys := (pm_keys m1)(p := None)\<rparr>)
     }"

definition compare_keys :: "key_node \<Rightarrow> key_node \<Rightarrow> int" where
  "compare_keys a b = parser_compare (kn_name a) (kn_name b)"

definition compare_sections :: "section_node \<Rightarrow> section_node \<Rightarrow> int" where
  "compare_sections a b = parser_compare (sn_name a) (sn_name b)"

definition free_section :: "(search_tree \<Rightarrow> ptr) \<Rightarrow> ptr \<Rightarrow> parser_memory \<Rightarrow> parser_memory option" where
  "free_section root_of p m =
     do {
       s \<leftarrow> pm_sections m p;
       m1 \<leftarrow> (if sn_keys_list s \<noteq> [] then campagnol_tdestroy root_of pm_keys compare_keys free_key (sn_keys_tree s) m else Some m);
       Some (m1\<lparr>pm_sections := (pm_sections m1)(p := None)\<rparr>)
     }"

definition parser_free_memory :: "(search_tree \<Rightarrow> ptr) \<Rightarrow> parser_node \<Rightarrow> parser_memory \<Rightarrow> (parser_node \<times> parser_memory) option" where
  "parser_free_memory root_of parser m =
     (if pn_sections_list parser \<noteq> [] then
        do {
          m1 \<leftarrow> campagnol_tdestroy root_of pm_sections compare_sections (free_section root_of) (pn_sections_tree parser) m;
          Some (parser\<lparr>pn_sections_list := [], pn_sections_tree := []\<rparr>, m1)
        }
      else Some (parser, m))"

section \<open>Well formed memory\<close>

definition values_of :: "parser_memory \<Rightarrow> ptr set \<Rightarrow> ptr set" where
  "values_of m K = {v. \<exists>p \<in> K. \<exists>k. pm_keys m p = Some k \<and> v \<in> set (kn_values_list k)}"

definition keys_of :: "parser_memory \<Rightarrow> ptr set \<Rightarrow> ptr set" where
  "keys_of m S = {p. \<exists>q \<in> S. \<exists>s. pm_sections m q = Some s \<and> p \<in> set (sn_keys_tree s)}"

definition removed_keys :: "parser_memory \<Rightarrow> ptr set \<Rightarrow> parser_memory" where
  "removed_keys m D = m\<lparr>pm_keys := (\<lambda>p. if p \<in> D then None else pm_keys m p),
     pm_values := (\<lambda>v. if v \<in> values_of m D then None else pm_values m v)\<rparr>"

definition removed_sections :: "parser_memory \<Rightarrow> ptr set \<Rightarrow> parser_memory" where
  "removed_sections m D = (removed_keys m (keys_of m D))\<lparr>pm_sections := (\<lambda>p. if p \<in> D then None else pm_sections m p)\<rparr>"

text \<open>Keys that are allocated and own their values, each value belonging to one key.\<close>

definition keys_alive :: "parser_memory \<Rightarrow> ptr set \<Rightarrow> bool" where
  "keys_alive m K \<longleftrightarrow>
     (\<forall>p \<in> K. \<exists>k. pm_keys m p = Some k \<and> distinct (kn_values_list k) \<and> (\<forall>v \<in> set (kn_values_list k). pm_values m v \<noteq> None) \<and>
        (kn_n_values k = 0 \<longrightarrow> kn_values_list k = [])) \<and>
     (\<forall>p \<in> K. \<forall>q \<in> K. p \<noteq> q \<longrightarrow> values_of m {p} \<inter> values_of m {q} = {})"

text \<open>Sections that are allocated; the tree and the queue hold the same keys, under different names; each key belongs to
  one section.\<close>

definition sections_alive :: "parser_memory \<Rightarrow> ptr set \<Rightarrow> bool" where
  "sections_alive m S \<longleftrightarrow>
     (\<forall>q \<in> S. \<exists>s. pm_sections m q = Some s \<and> distinct (sn_keys_tree s) \<and> set (sn_keys_tree s) = set (sn_keys_list s) \<and>
        inj_on (field_at kn_name (pm_keys m)) (set (sn_keys_tree s))) \<and>
     keys_alive m (keys_of m S) \<and>
     (\<forall>p \<in> S. \<forall>q \<in> S. p \<noteq> q \<longrightarrow> keys_of m {p} \<inter> keys_of m {q} = {})"

lemma free_values_all:
  assumes "distinct ps" and "\<forall>v \<in> set ps. pm_values m v \<noteq> None"
  shows "free_values ps m = Some (m\<lparr>pm_values := (\<lambda>v. if v \<in> set ps then None else pm_values m v)\<rparr>)"
  using assms
proof (induction ps arbitrary: m)
  case Nil
  then show ?case by simp
next
  case (Cons p ps)
  let ?m = "m\<lparr>pm_values := (pm_values m)(p := None)\<rparr>"
  have "free_values ps ?m = Some (?m\<lparr>pm_values := (\<lambda>v. if v \<in> set ps then None else pm_values ?m v)\<rparr>)"
    using Cons.prems by (intro Cons.IH) auto
  moreover have "(\<lambda>v. if v \<in> set ps then None else pm_values ?m v) = (\<lambda>v. if v \<in> set (p # ps) then None else pm_values m v)"
    by (auto simp: fun_eq_iff)
  ultimately show ?case using Cons.prems by (simp add: free_value_def)
qed

lemma values_of_UN: "values_of m D = (\<Union>q \<in> D. values_of m {q})"
  by (auto simp: values_of_def)

lemma values_of_insert: "values_of m (insert p D) = values_of m {p} \<union> values_of m D"
  by (auto simp: values_of_def)

lemma free_key_alive:
  assumes "keys_alive m K" and "D \<subseteq> K" and "p \<in> K - D"
  shows "free_key p (removed_keys m D) = Some (removed_keys m (insert p D))"
proof -
  obtain k where k: "pm_keys m p = Some k" "distinct (kn_values_list k)" "\<forall>v \<in> set (kn_values_list k). pm_values m v \<noteq> None"
    "kn_n_values k = 0 \<longrightarrow> kn_values_list k = []" using assms(1,3) unfolding keys_alive_def by blast
  have own: "values_of m {p} = set (kn_values_list k)" using k(1) by (auto simp: values_of_def)
  have "values_of m {p} \<inter> values_of m {q} = {}" if "q \<in> D" for q
  proof -
    have "q \<in> K" "p \<in> K" "p \<noteq> q" using assms that by auto
    then show ?thesis using assms(1) by (simp add: keys_alive_def)
  qed
  then have dis: "set (kn_values_list k) \<inter> values_of m D = {}" using own values_of_UN [of m D] by blast
  let ?m = "removed_keys m D"
  have "free_values (kn_values_list k) ?m = Some (?m\<lparr>pm_values := (\<lambda>v. if v \<in> set (kn_values_list k) then None else pm_values ?m v)\<rparr>)"
    using k(2,3) dis by (intro free_values_all) (auto simp: removed_keys_def)
  moreover have "(\<lambda>v. if v \<in> set (kn_values_list k) then None else pm_values ?m v) =
      (\<lambda>v. if v \<in> values_of m (insert p D) then None else pm_values m v)"
    using own by (auto simp: fun_eq_iff removed_keys_def values_of_insert [of m p D])
  moreover have "(pm_keys ?m)(p := None) = (\<lambda>q. if q \<in> insert p D then None else pm_keys m q)" by (auto simp: removed_keys_def)
  moreover have "pm_keys ?m p = Some k" using k(1) assms(3) by (simp add: removed_keys_def)
  moreover have "pm_values ?m = (\<lambda>v. if v \<in> values_of m (insert p D) then None else pm_values m v)" if "kn_values_list k = []"
    using own that by (auto simp: fun_eq_iff removed_keys_def values_of_insert [of m p D])
  ultimately show ?thesis using k(4)
    by (cases "kn_n_values k = 0") (simp_all add: free_key_def removed_keys_def)
qed

interpretation key_release: tree_release compare_keys kn_name pm_keys free_key keys_alive removed_keys
proof
  show "compare_keys a b = 0 \<longleftrightarrow> kn_name a = kn_name b" for a b by (simp add: compare_keys_def)
  show "pm_keys (removed_keys m0 D) p = pm_keys m0 p \<and> pm_keys m0 p \<noteq> None" if "keys_alive m0 A" "p \<in> A - D" for m0 A D p
    using that by (auto simp: keys_alive_def removed_keys_def)
qed (rule free_key_alive)

lemma keys_of_insert: "keys_of m (insert p D) = keys_of m {p} \<union> keys_of m D"
  by (auto simp: keys_of_def)

lemma keys_of_UN: "keys_of m D = (\<Union>q \<in> D. keys_of m {q})"
  by (auto simp: keys_of_def)

lemma keys_alive_mono: "keys_alive m K \<Longrightarrow> L \<subseteq> K \<Longrightarrow> keys_alive m L"
  unfolding keys_alive_def by (meson subsetD)

lemma keys_alive_sections: "keys_alive (m\<lparr>pm_sections := f\<rparr>) K = keys_alive m K"
  by (simp add: keys_alive_def values_of_def)

lemma removed_keys_sections: "removed_keys (m\<lparr>pm_sections := f\<rparr>) K = (removed_keys m K)\<lparr>pm_sections := f\<rparr>"
  by (cases m) (auto simp: removed_keys_def values_of_def fun_eq_iff)

lemma free_section_alive:
  assumes al: "sections_alive m S" and D: "D \<subseteq> S" and p: "p \<in> S - D" and root_of: "\<And>t. t \<noteq> [] \<Longrightarrow> root_of t \<in> set t"
  shows "free_section root_of p (removed_sections m D) = Some (removed_sections m (insert p D))"
proof -
  have ex: "\<exists>s. pm_sections m p = Some s \<and> distinct (sn_keys_tree s) \<and> set (sn_keys_tree s) = set (sn_keys_list s) \<and>
      inj_on (field_at kn_name (pm_keys m)) (set (sn_keys_tree s))"
    using al p by (simp add: sections_alive_def)
  then obtain s where s: "pm_sections m p = Some s" "distinct (sn_keys_tree s)" "set (sn_keys_tree s) = set (sn_keys_list s)"
    "inj_on (field_at kn_name (pm_keys m)) (set (sn_keys_tree s))" by blast
  let ?T = "set (sn_keys_tree s)" and ?E = "keys_of m D"
  let ?m0 = "m\<lparr>pm_sections := (\<lambda>q. if q \<in> D then None else pm_sections m q)\<rparr>"
  have T: "keys_of m {p} = ?T" using s(1) by (auto simp: keys_of_def)
  have "keys_of m {p} \<inter> keys_of m {q} = {}" if "q \<in> D" for q
  proof -
    have "q \<in> S" "p \<in> S" "p \<noteq> q" using D p that by auto
    then show ?thesis using al by (simp add: sections_alive_def)
  qed
  then have dis: "?T \<inter> ?E = {}" using T keys_of_UN [of m D] by blast
  have sub: "?E \<union> ?T \<subseteq> keys_of m S" using D p s(1) by (auto simp: keys_of_def)
  have KI: "keys_of m (insert p D) = ?E \<union> ?T" using T keys_of_insert [of m p D] by blast
  have m1: "removed_sections m D = removed_keys ?m0 ?E" by (simp add: removed_sections_def removed_keys_sections)
  have alive: "keys_alive ?m0 (?E \<union> ?T)" using al keys_alive_mono [OF _ sub] by (simp add: keys_alive_sections sections_alive_def)
  have destroy: "campagnol_tdestroy root_of pm_keys compare_keys free_key (sn_keys_tree s) (removed_keys ?m0 ?E) = Some (removed_keys ?m0 (?E \<union> ?T))"
    using s(2,4) dis root_of by (intro key_release.tdestroy_from [OF alive]) auto
  have "removed_keys ?m0 (?E \<union> ?T) = removed_keys ?m0 ?E" if "sn_keys_list s = []" using s(3) that by simp
  then have "free_section root_of p (removed_keys ?m0 ?E) = Some ((removed_keys ?m0 (?E \<union> ?T))\<lparr>pm_sections := (pm_sections (removed_keys ?m0 ?E))(p := None)\<rparr>)"
    using destroy s(1) p by (cases "sn_keys_list s = []") (simp_all add: free_section_def removed_keys_def)
  also have "(removed_keys ?m0 (?E \<union> ?T))\<lparr>pm_sections := (pm_sections (removed_keys ?m0 ?E))(p := None)\<rparr> = removed_sections m (insert p D)"
    by (simp add: removed_sections_def removed_keys_sections KI fun_upd_def fun_eq_iff)
  finally show ?thesis using m1 by simp
qed

interpretation section_release: tree_release compare_sections sn_name pm_sections "free_section root_of"
  "\<lambda>m S. sections_alive m S \<and> (\<forall>t. t \<noteq> [] \<longrightarrow> root_of t \<in> set t)" removed_sections for root_of
proof
  show "compare_sections a b = 0 \<longleftrightarrow> sn_name a = sn_name b" for a b by (simp add: compare_sections_def)
  show "pm_sections (removed_sections m0 D) p = pm_sections m0 p \<and> pm_sections m0 p \<noteq> None"
    if "sections_alive m0 A \<and> (\<forall>t. t \<noteq> [] \<longrightarrow> root_of t \<in> set t)" "p \<in> A - D" for m0 A D p
    using that by (auto simp: sections_alive_def removed_sections_def)
  show "free_section root_of p (removed_sections m0 D) = Some (removed_sections m0 (insert p D))"
    if "sections_alive m0 A \<and> (\<forall>t. t \<noteq> [] \<longrightarrow> root_of t \<in> set t)" "D \<subseteq> A" "p \<in> A - D" for m0 A D p
    using that by (intro free_section_alive) auto
qed

text \<open>A parser that owns the whole memory.\<close>

definition parser_memory_ok :: "parser_node \<Rightarrow> parser_memory \<Rightarrow> bool" where
  "parser_memory_ok parser m \<longleftrightarrow>
     (let S = set (pn_sections_tree parser) in
      set (pn_sections_list parser) = S \<and> distinct (pn_sections_tree parser) \<and> inj_on (field_at sn_name (pm_sections m)) S \<and>
      sections_alive m S \<and> dom (pm_sections m) = S \<and> dom (pm_keys m) = keys_of m S \<and> dom (pm_values m) = values_of m (keys_of m S))"

text \<open>C18. The release of a parsed configuration, with the replacement of \<^verbatim>\<open>tdestroy\<close> in both of its uses: on a memory that
  holds the sections, keys and values of a parser and nothing else, no node is freed twice or read after it was freed,
  the loops end, and nothing is left allocated, whichever nodes the library keeps at the roots of its trees.\<close>

theorem parser_free_releases_all:
  assumes "parser_memory_ok parser m" and "\<And>t. t \<noteq> [] \<Longrightarrow> root_of t \<in> set t"
  shows "parser_free_memory root_of parser m = Some (\<lparr>pn_sections_list = [], pn_sections_tree = []\<rparr>,
    \<lparr>pm_values = (\<lambda>_. None), pm_keys = (\<lambda>_. None), pm_sections = (\<lambda>_. None)\<rparr>)"
proof -
  let ?S = "set (pn_sections_tree parser)"
  have ok: "set (pn_sections_list parser) = ?S" "distinct (pn_sections_tree parser)" "inj_on (field_at sn_name (pm_sections m)) ?S"
    "sections_alive m ?S" "dom (pm_sections m) = ?S" "dom (pm_keys m) = keys_of m ?S" "dom (pm_values m) = values_of m (keys_of m ?S)"
    using assms(1) by (simp_all add: parser_memory_ok_def Let_def)
  have none: "removed_sections m {} = m" by (cases m) (simp add: removed_sections_def removed_keys_def keys_of_def values_of_def)
  have "pm_sections m p = None" if "p \<notin> ?S" for p using ok(5) that by blast
  moreover have "pm_keys m p = None" if "p \<notin> keys_of m ?S" for p using ok(6) that by blast
  moreover have "pm_values m p = None" if "p \<notin> values_of m (keys_of m ?S)" for p using ok(7) that by blast
  ultimately have all: "removed_sections m ?S = \<lparr>pm_values = (\<lambda>_. None), pm_keys = (\<lambda>_. None), pm_sections = (\<lambda>_. None)\<rparr>"
    by (cases m) (auto simp: removed_sections_def removed_keys_def fun_eq_iff)
  have "campagnol_tdestroy root_of pm_sections compare_sections (free_section root_of) (pn_sections_tree parser) (removed_sections m {}) =
      Some (removed_sections m ?S)"
    using ok assms(2) by (intro section_release.tdestroy_from) auto
  then have d: "campagnol_tdestroy root_of pm_sections compare_sections (free_section root_of) (pn_sections_tree parser) m =
      Some (removed_sections m ?S)" by (simp only: none)
  show ?thesis
  proof (cases "pn_sections_list parser = []")
    case True
    then have "?S = {}" using ok(1) by simp
    with True none all show ?thesis by (cases parser) (simp add: parser_free_memory_def)
  next
    case False
    with d all show ?thesis by (cases parser) (simp add: parser_free_memory_def)
  qed
qed

text \<open>Two sections; both have a key with the same name.\<close>

definition demo_parser_memory :: parser_memory where
  "demo_parser_memory = \<lparr>
     pm_values = [1 \<mapsto> \<lparr>v_s = ''a'', v_nline = 2, v_expanded = sb_empty, v_expanding = False\<rparr>,
       2 \<mapsto> \<lparr>v_s = ''b'', v_nline = 4, v_expanded = sb_empty, v_expanding = False\<rparr>],
     pm_keys = [1 \<mapsto> \<lparr>kn_name = ''k'', kn_n_values = 1, kn_values_list = [1]\<rparr>, 2 \<mapsto> \<lparr>kn_name = ''k'', kn_n_values = 1, kn_values_list = [2]\<rparr>],
     pm_sections = [1 \<mapsto> \<lparr>sn_name = ''s'', sn_keys_list = [1], sn_keys_tree = [1]\<rparr>,
       2 \<mapsto> \<lparr>sn_name = ''t'', sn_keys_list = [2], sn_keys_tree = [2]\<rparr>]\<rparr>"

theorem parser_free_releases_all_witness:
  "parser_free_memory hd \<lparr>pn_sections_list = [1, 2], pn_sections_tree = [2, 1]\<rparr> demo_parser_memory =
     Some (\<lparr>pn_sections_list = [], pn_sections_tree = []\<rparr>, \<lparr>pm_values = (\<lambda>_. None), pm_keys = (\<lambda>_. None), pm_sections = (\<lambda>_. None)\<rparr>)"
proof (rule parser_free_releases_all)
  have k: "keys_of demo_parser_memory {1} = {1}" "keys_of demo_parser_memory {2} = {2}" "keys_of demo_parser_memory {2, 1} = {2, 1}"
    by (auto simp: keys_of_def demo_parser_memory_def)
  have v: "values_of demo_parser_memory {1} = {1}" "values_of demo_parser_memory {2} = {2}" "values_of demo_parser_memory {2, 1} = {2, 1}"
    by (auto simp: values_of_def demo_parser_memory_def)
  have "keys_alive demo_parser_memory {2, 1}" unfolding keys_alive_def using v by (simp add: demo_parser_memory_def)
  then have "sections_alive demo_parser_memory {2, 1}" unfolding sections_alive_def using k by (simp add: demo_parser_memory_def)
  then show "parser_memory_ok \<lparr>pn_sections_list = [1, 2], pn_sections_tree = [2, 1]\<rparr> demo_parser_memory"
    using k v by (auto simp: parser_memory_ok_def Let_def demo_parser_memory_def field_at_def split: if_splits)
qed simp

end
