(* ===== verification/Local_Address.thy ===== *)
theory Local_Address
  imports Client_Config
begin

text \<open>
  The parts of \<^verbatim>\<open>client/configuration.c\<close> that depend on the platform, and \<^verbatim>\<open>freeConfig\<close>: the search for a local address on
  systems without \<^verbatim>\<open>getifaddrs\<close>, which asks the kernel for a table of unknown size, and the lookup of the name of an
  interface on Cygwin. The search is shown to end and to agree with the one over \<^verbatim>\<open>getifaddrs\<close> of \<open>Client_Config\<close>.
\<close>

section \<open>The search over \<open>SIOCGIFCONF\<close>\<close>

text \<open>An entry of the table. What the two requests return is an input: the entries that fit into a table of \<open>room\<close>
  entries, and the flags of an interface (loopback, running, up).\<close>

record ifreq =
  ifr_name :: string
  ifr_addr :: u32

record ifconf_calls =
  ic_ifconf :: "nat \<Rightarrow> ifreq list option"
  ic_flags :: "string \<Rightarrow> (bool \<times> bool \<times> bool) option"

text \<open>The table grows until the answer does not fill it. \<open>Some None\<close> is a failing request; the loop may run for ever, which
  is the value \<open>None\<close>.\<close>

partial_function (option) ifconf_loop :: "(nat \<Rightarrow> ifreq list option) \<Rightarrow> nat \<Rightarrow> ifreq list option option" where
  "ifconf_loop ioctl room =
     (case ioctl room of
        None \<Rightarrow> Some None
      | Some ifc \<Rightarrow> if room \<le> length ifc then ifconf_loop ioctl (room + 1) else Some (Some ifc))"

abbreviation (input) INADDR_ANY :: u32 where "INADDR_ANY \<equiv> 0"
abbreviation (input) INADDR_NONE :: u32 where "INADDR_NONE \<equiv> 0xffffffff"

text \<open>\<open>None\<close> is a failing request for the flags.\<close>

fun search_ifreq :: "(string \<Rightarrow> (bool \<times> bool \<times> bool) option) \<Rightarrow> string option \<Rightarrow> ifreq list \<Rightarrow> u32 option option" where
  "search_ifreq flags ifn [] = Some None"
| "search_ifreq flags ifn (ifr # rest) =
     (case flags (ifr_name ifr) of
        None \<Rightarrow> None
      | Some (loopback, running, iface_up) \<Rightarrow>
          if ifn = None \<and> (loopback \<or> \<not> running \<or> \<not> iface_up) then search_ifreq flags ifn rest
          else if (ifn = None \<or> strcmp (ifr_name ifr) (the ifn) = 0) \<and> ifr_addr ifr \<noteq> INADDR_ANY \<and> ifr_addr ifr \<noteq> INADDR_NONE
          then Some (Some (ifr_addr ifr))
          else search_ifreq flags ifn rest)"

text \<open>The result as in \<open>get_local_IP\<close>, and whether the socket is closed and the table freed.\<close>

definition get_local_IP_ifconf :: "ifconf_calls \<Rightarrow> string option \<Rightarrow> (u32 option option \<times> bool) option" where
  "get_local_IP_ifconf sys ifn =
     do {
       ifc \<leftarrow> ifconf_loop (ic_ifconf sys) 2;
       Some (case ifc of
         None \<Rightarrow> (None, False)
       | Some ifrs \<Rightarrow>
           (case search_ifreq (ic_flags sys) ifn ifrs of
              None \<Rightarrow> (None, False)
            | Some ip \<Rightarrow> (Some ip, True)))
     }"

text \<open>A kernel with the table \<open>ifrs\<close> fills what it is given.\<close>

lemma ifconf_loop_table:
  assumes "\<And>n. ioctl n = Some (take n ifrs)"
  shows "ifconf_loop ioctl room = Some (Some ifrs)"
proof (induction "Suc (length ifrs) - room" arbitrary: room rule: less_induct)
  case less
  show ?case
  proof (cases "room \<le> length ifrs")
    case True
    then have "ifconf_loop ioctl (room + 1) = Some (Some ifrs)" by (intro less) simp
    with True assms show ?thesis by (subst ifconf_loop.simps) simp
  next
    case False
    with assms show ?thesis by (subst ifconf_loop.simps) simp
  qed
qed

text \<open>The table that belongs to a list of interfaces: those with an IPv4 address.\<close>

fun ifreq_table :: "ifaddrs list \<Rightarrow> ifreq list" where
  "ifreq_table [] = []"
| "ifreq_table (i # rest) =
     (case ifa_addr i of Some (True, ip) \<Rightarrow> \<lparr>ifr_name = ifa_name i, ifr_addr = ip\<rparr> # ifreq_table rest | _ \<Rightarrow> ifreq_table rest)"

lemma search_agrees:
  assumes "\<And>i. i \<in> set ifs \<Longrightarrow> flags (ifa_name i) = Some (ifa_loopback i, ifa_running i, ifa_is_up i)"
    and "\<And>i. i \<in> set ifs \<Longrightarrow> ifa_addr i \<noteq> Some (True, INADDR_ANY) \<and> ifa_addr i \<noteq> Some (True, INADDR_NONE)"
  shows "search_ifreq flags ifn (ifreq_table ifs) = Some (search_ifaddrs ifn ifs)"
  using assms
proof (induction ifs)
  case Nil
  then show ?case by simp
next
  case (Cons i rest)
  have IH: "search_ifreq flags ifn (ifreq_table rest) = Some (search_ifaddrs ifn rest)" using Cons by simp
  show ?case
  proof (cases "\<exists>ip. ifa_addr i = Some (True, ip)")
    case True
    then obtain ip where ip: "ifa_addr i = Some (True, ip)" by blast
    have "ip \<noteq> INADDR_ANY" "ip \<noteq> INADDR_NONE" using Cons.prems(2) [of i] ip by auto
    with ip IH Cons.prems(1) [of i] show ?thesis by (cases ifn) simp_all
  next
    case False
    then have "ifreq_table (i # rest) = ifreq_table rest" by (auto split: option.splits bool.splits)
    moreover have "search_ifaddrs ifn (i # rest) = search_ifaddrs ifn rest" using False by (auto split: option.splits bool.splits)
    ultimately show ?thesis using IH by simp
  qed
qed

text \<open>C40. Both variants of the search for a local address agree: when the kernel answers both kinds of requests from the
  same interfaces and none of them has the address 0.0.0.0 or 255.255.255.255, the loop that grows the table ends, and the
  search over the table finds the address that the search over \<^verbatim>\<open>getifaddrs\<close> finds, and releases its resources.\<close>

theorem local_IP_variants_agree:
  assumes "\<And>n. ic_ifconf sys n = Some (take n (ifreq_table ifs))"
    and "\<And>i. i \<in> set ifs \<Longrightarrow> ic_flags sys (ifa_name i) = Some (ifa_loopback i, ifa_running i, ifa_is_up i)"
    and "\<And>i. i \<in> set ifs \<Longrightarrow> ifa_addr i \<noteq> Some (True, INADDR_ANY) \<and> ifa_addr i \<noteq> Some (True, INADDR_NONE)"
  shows "get_local_IP_ifconf sys ifn = Some (get_local_IP (Some ifs) ifn, True)"
  using ifconf_loop_table [of "ic_ifconf sys" "ifreq_table ifs", OF assms(1)] search_agrees [of ifs "ic_flags sys" ifn, OF assms(2,3)]
  by (simp add: get_local_IP_ifconf_def get_local_IP_def)

definition demo_ifs :: "ifaddrs list" where
  "demo_ifs = [\<lparr>ifa_name = ''lo'', ifa_loopback = True, ifa_running = True, ifa_is_up = True, ifa_addr = Some (True, 0x0100007f)\<rparr>,
     \<lparr>ifa_name = ''eth0'', ifa_loopback = False, ifa_running = True, ifa_is_up = True, ifa_addr = Some (False, 0)\<rparr>,
     \<lparr>ifa_name = ''eth0'', ifa_loopback = False, ifa_running = True, ifa_is_up = True, ifa_addr = Some (True, 0x0a01a8c0)\<rparr>]"

theorem local_IP_variants_agree_witness:
  "get_local_IP_ifconf \<lparr>ic_ifconf = (\<lambda>n. Some (take n (ifreq_table demo_ifs))),
      ic_flags = (\<lambda>n. if n = ''lo'' then Some (True, True, True) else Some (False, True, True))\<rparr> None = Some (Some (Some 0x0a01a8c0), True)"
proof -
  have "get_local_IP (Some demo_ifs) None = Some (Some 0x0a01a8c0)" by (simp add: get_local_IP_def demo_ifs_def)
  moreover have "get_local_IP_ifconf \<lparr>ic_ifconf = (\<lambda>n. Some (take n (ifreq_table demo_ifs))),
      ic_flags = (\<lambda>n. if n = ''lo'' then Some (True, True, True) else Some (False, True, True))\<rparr> None = Some (get_local_IP (Some demo_ifs) None, True)"
    by (rule local_IP_variants_agree) (auto simp: demo_ifs_def)
  ultimately show ?thesis by simp
qed

section \<open>Interface names on Cygwin\<close>

text \<open>A network connection in the registry: its identifier, and \<open>None\<close> when its key cannot be opened, \<open>Some None\<close> when it has no name.\<close>

record connection =
  cn_guid :: string
  cn_name :: "string option option"

text \<open>The identifier of the connection with the given name, and the registry keys that stay open: the key of the connection
  that is found.\<close>

fun connection_search :: "string \<Rightarrow> connection list \<Rightarrow> string option \<times> nat" where
  "connection_search v [] = (None, 0)"
| "connection_search v (c # cs) =
     (case cn_name c of
        Some (Some adapter_name) \<Rightarrow> if strcmp v adapter_name = 0 then (Some (cn_guid c), 1) else connection_search v cs
      | _ \<Rightarrow> connection_search v cs)"

text \<open>\<open>None\<close> for the list of connections: the registry cannot be read.\<close>

definition iface_cygwin :: "connection list option \<Rightarrow> string \<Rightarrow> string \<times> nat" where
  "iface_cygwin cs v =
     (case cs of
        None \<Rightarrow> (v, 0)
      | Some l \<Rightarrow> (case connection_search v l of (Some guid, keys) \<Rightarrow> (guid, keys) | (None, keys) \<Rightarrow> (v, keys)))"

definition conf_interface_cygwin :: "connection list option \<Rightarrow> conf_step" where
  "conf_interface_cygwin cs = opt_string ''NETWORK'' ''interface'' (\<lambda>v. iface_update (\<lambda>_. Some (fst (iface_cygwin cs v))))"

lemma connection_search_first:
  "connection_search v cs = (case find (\<lambda>c. cn_name c = Some (Some v)) cs of Some c \<Rightarrow> (Some (cn_guid c), 1) | None \<Rightarrow> (None, 0))"
  by (induction v cs rule: connection_search.induct) (auto split: option.splits)

text \<open>A name that is found leaves a key open; any other value is kept as it is.\<close>

lemma iface_cygwin_key_leak: "snd (iface_cygwin (Some cs) v) = (if \<exists>c \<in> set cs. cn_name c = Some (Some v) then 1 else 0)"
  by (auto simp: iface_cygwin_def connection_search_first find_None_iff find_Some_iff split: option.splits)

section \<open>Releasing the configuration\<close>

text \<open>The blocks that the structure can own: the strings of its fields, the arrays of commands and the commands.\<close>

datatype conf_block = Field string | Commands string | Command string nat

definition free_field :: "string \<Rightarrow> string option \<Rightarrow> conf_block list" where
  "free_field n v = (if v \<noteq> None then [Field n] else [])"

definition free_commands :: "string \<Rightarrow> string list option \<Rightarrow> conf_block list" where
  "free_commands n v = (case v of None \<Rightarrow> [] | Some cmds \<Rightarrow> map (Command n) [0..<length cmds] @ [Commands n])"

text \<open>The blocks in the order in which they are freed.\<close>

definition freeConfig :: "configuration \<Rightarrow> conf_block list" where
  "freeConfig c =
     free_field ''crl'' (crl c) @ free_field ''iface'' (iface c) @ free_field ''network'' (network c) @
     free_field ''certificate_pem'' (certificate_pem c) @ free_field ''key_pem'' (key_pem c) @ free_field ''verif_pem'' (verif_pem c) @
     free_field ''verif_dir'' (verif_dir c) @ free_field ''cipher_list'' (cipher_list c) @ free_field ''pidfile'' (pidfile c) @
     free_field ''tun_device'' (tun_device c) @ free_field ''tap_id'' (tap_id c) @
     free_commands ''exec_up'' (exec_up c) @ free_commands ''exec_down'' (exec_down c)"

lemma distinct_commands: "distinct (free_commands n v)"
  by (auto simp: free_commands_def distinct_map inj_on_def split: option.splits)

lemma in_free_field: "Field n \<in> set (free_field m v) \<longleftrightarrow> n = m \<and> v \<noteq> None"
  by (simp add: free_field_def)

lemma distinct_free_field: "Field n \<notin> set bs \<Longrightarrow> distinct bs \<Longrightarrow> distinct (free_field n v @ bs)"
  by (simp add: free_field_def)

text \<open>No block is freed twice, and a command is freed before the array that leads to it.\<close>

lemma freeConfig_distinct: "distinct (freeConfig c)"
proof -
  have f: "Field m \<notin> set (free_commands n v)" for m n v by (auto simp: free_commands_def split: option.splits)
  have "set (free_commands ''exec_up'' u) \<inter> set (free_commands ''exec_down'' d) = {}" for u d
    by (auto simp: free_commands_def split: option.splits)
  then have "distinct (free_commands ''exec_up'' (exec_up c) @ free_commands ''exec_down'' (exec_down c))" by (simp add: distinct_commands)
  then show ?thesis unfolding freeConfig_def by (intro distinct_free_field) (simp_all add: in_free_field f)
qed

end
