(* ===== verification/Logging.thy ===== *)
theory Logging
  imports Tun_Commands Thread_Wrappers
begin

text \<open>
  The messages of both programs: \<^verbatim>\<open>common/log.c\<close> with the macros of \<^verbatim>\<open>common/log.h\<close>, and the table that the server
  prints for each message in debug mode (\<^verbatim>\<open>type_to_string\<close> and \<^verbatim>\<open>dump_message\<close> of \<^verbatim>\<open>rdvserver/server.c\<close>). The output is the list
  of what is written where; a formatted message is its text. String buffers are used through their abstract operations.
\<close>

section \<open>Log messages\<close>

record log_state =
  log_enabled :: bool
  log_level :: int

datatype log_stream = Log_stdout | Log_stderr

datatype log_output = Openlog string | Closelog | Syslog string | Print log_stream string

definition log_init :: "bool \<Rightarrow> int \<Rightarrow> string \<Rightarrow> log_state \<times> log_output list" where
  "log_init enabled level nm = (\<lparr>log_enabled = enabled, log_level = level\<rparr>, if enabled then [Openlog nm] else [])"

definition log_close :: "log_output list" where
  "log_close = [Closelog]"

text \<open>\<open>None\<close> as stream is the null pointer.\<close>

definition log_message_inner :: "log_state \<Rightarrow> log_stream option \<Rightarrow> string \<Rightarrow> log_output list" where
  "log_message_inner s out msg =
     (if log_enabled s then [Syslog msg]
      else (case out of Some f \<Rightarrow> [Print f msg, Print f [CHR 0x0A]] | None \<Rightarrow> []))"

definition log_message :: "log_state \<Rightarrow> string \<Rightarrow> log_output list" where
  "log_message s msg = log_message_inner s (Some Log_stdout) msg"

definition log_message_level :: "log_state \<Rightarrow> int \<Rightarrow> string \<Rightarrow> log_output list" where
  "log_message_level s level msg = (if level \<le> log_level s then log_message_inner s (Some Log_stdout) msg else [])"

definition log_message_syslog :: "log_state \<Rightarrow> string \<Rightarrow> log_output list" where
  "log_message_syslog s msg = (if log_enabled s then [Syslog msg] else [])"

text \<open>Text of an error number: the GNU version of \<^verbatim>\<open>strerror_r\<close> and \<^verbatim>\<open>strerror\<close> always give one, the POSIX version can fail.\<close>

definition error_text :: "string option \<Rightarrow> string" where
  "error_text strerror = (case strerror of Some t \<Rightarrow> t | None \<Rightarrow> ''Could not get the error message'')"

text \<open>\<open>msg = None\<close>: no format is given.\<close>

definition log_error_prefix :: "string \<Rightarrow> nat \<Rightarrow> string \<Rightarrow> string option \<Rightarrow> strbuf" where
  "log_error_prefix filename linenumber functionname msg =
     (let sb = sb_append (filename @ '':'' @ show_nat linenumber @ '':'' @ functionname @ '': '') sb_empty in
      case msg of Some t \<Rightarrow> sb_append t sb | None \<Rightarrow> sb_append ''Error'' sb)"

definition log_error :: "log_state \<Rightarrow> (int \<Rightarrow> string option) \<Rightarrow> string \<Rightarrow> nat \<Rightarrow> string \<Rightarrow> int \<Rightarrow> string option \<Rightarrow> log_output list" where
  "log_error s strerror filename linenumber functionname error_code msg =
     (let sb = log_error_prefix filename linenumber functionname msg in
      if error_code \<noteq> -1 then log_message_inner s (Some Log_stderr) (sb_str sb @ '': '' @ error_text (strerror error_code))
      else log_message_inner s (Some Log_stderr) (sb_str sb))"

text \<open>The version for Windows errors differs in the source of the text, which \<^verbatim>\<open>FormatMessage\<close> gives or not.\<close>

definition log_error_cygwin :: "log_state \<Rightarrow> (int \<Rightarrow> string option) \<Rightarrow> string \<Rightarrow> nat \<Rightarrow> string \<Rightarrow> int \<Rightarrow> string option \<Rightarrow> log_output list" where
  "log_error_cygwin s format_message filename linenumber functionname error_code msg =
     (let sb = log_error_prefix filename linenumber functionname msg in
      if error_code \<noteq> -1 then log_message_inner s (Some Log_stderr) (sb_str sb @ '': '' @ error_text (format_message error_code))
      else log_message_inner s (Some Log_stderr) (sb_str sb))"

text \<open>The macros: an allocation that fails ends the program with a message; a failed assertion is logged and aborts.\<close>

datatype 'a fatal = Continues 'a | Exits int | Aborted

definition CHECK_ALLOC_FATAL :: "log_state \<Rightarrow> (int \<Rightarrow> string option) \<Rightarrow> string \<Rightarrow> nat \<Rightarrow> string \<Rightarrow> int \<Rightarrow> ptr option \<Rightarrow>
  ptr fatal \<times> log_output list" where
  "CHECK_ALLOC_FATAL s strerror filename linenumber functionname errno p =
     (case p of
        None \<Rightarrow> (Exits 1, log_error s strerror filename linenumber functionname errno (Some ''Fatal error''))
      | Some q \<Rightarrow> (Continues q, []))"

definition ASSERT :: "log_state \<Rightarrow> bool \<Rightarrow> string \<Rightarrow> nat \<Rightarrow> string \<Rightarrow> string \<Rightarrow> bool \<Rightarrow> unit fatal \<times> log_output list" where
  "ASSERT s ndebug filename linenumber functionname expr_text expr =
     (if ndebug then (Continues (), [])
      else if expr then (Continues (), [])
      else (Aborted, log_message_syslog s (filename @ '':'' @ show_nat linenumber @ '': '' @ functionname @ '': Assertion `'' @ expr_text @
        [CHR 0x27] @ '' failed.'')))"

text \<open>A message goes to one place: to syslog when that is enabled, to the terminal otherwise.\<close>

definition to_syslog :: "log_output \<Rightarrow> bool" where
  "to_syslog x = (case x of Print _ _ \<Rightarrow> False | _ \<Rightarrow> True)"

lemma log_one_place:
  "\<forall>x \<in> set (log_message s msg @ log_message_level s level msg @ log_error s strerror f l fn e m). to_syslog x = log_enabled s"
  by (auto simp: log_message_def log_message_level_def log_error_def log_message_inner_def to_syslog_def Let_def)

section \<open>Messages of the server in debug mode\<close>

definition type_to_string :: "u8 \<Rightarrow> string" where
  "type_to_string ty =
     (if ty = HELLO then ''HELLO'' else if ty = PING then ''PING'' else if ty = ASK_CONNECTION then ''ASK_CONNECTION''
      else if ty = PONG then ''PONG'' else if ty = OK then ''OK'' else if ty = NOK then ''NOK''
      else if ty = FWD_CONNECTION then ''FWD_CONNECTION'' else if ty = ANS_CONNECTION then ''ANS_CONNECTION''
      else if ty = REJ_CONNECTION then ''REJ_CONNECTION'' else if ty = PUNCH then ''PUNCH'' else if ty = BYE then ''BYE''
      else if ty = RECONNECT then ''RECONNECT'' else if ty = CLOSE_CONNECTION then ''CLOSE_CONNECTION''
      else ''UNKNOWN MESSAGE'')"

definition dump_type :: "u8 \<Rightarrow> string" where
  "dump_type ty =
     (if ty = HELLO then ''HELLO'' else if ty = PING then ''PING'' else if ty = ASK_CONNECTION then ''ASK''
      else if ty = PONG then ''PONG'' else if ty = OK then ''OK'' else if ty = NOK then ''NOK''
      else if ty = FWD_CONNECTION then ''FWD'' else if ty = ANS_CONNECTION then ''ANS''
      else if ty = REJ_CONNECTION then ''REJ'' else if ty = PUNCH then ''PUNCH'' else if ty = PUNCH_KEEP_ALIVE then ''ALIVE''
      else if ty = BYE then ''BYE'' else if ty = RECONNECT then ''RCNCT'' else if ty = CLOSE_CONNECTION then ''CLOSE''
      else ''?'')"

text \<open>\<^verbatim>\<open>printf\<close> with a minimal width: blanks on the left.\<close>

definition pad_left :: "nat \<Rightarrow> string \<Rightarrow> string" where
  "pad_left w t = replicate (w - length t) (CHR '' '') @ t"

definition dump_rule :: string where
  "dump_rule = replicate 53 (CHR ''-'')"

definition dump_row :: "message_t \<Rightarrow> string" where
  "dump_row msg =
     ''| '' @ pad_left 5 (dump_type (m_type msg)) @ '' | '' @ pad_left 5 (show_nat (unat (ntohs (m_port msg)))) @ '' | '' @
     pad_left 15 (inet_ntoa (m_ip1 msg)) @ '' | '' @ pad_left 15 (inet_ntoa (m_ip2 msg)) @ '' |''"

text \<open>The three lines of the table.\<close>

definition dump_message :: "message_t \<Rightarrow> string list" where
  "dump_message msg = [dump_rule, dump_row msg, dump_rule]"

lemma show_nat_length: "n < 10 ^ Suc k \<Longrightarrow> length (show_nat n) \<le> Suc k"
proof (induction k arbitrary: n)
  case 0
  then show ?case by (subst show_nat.simps) simp
next
  case (Suc k)
  have "n div 10 < 10 ^ Suc k" using Suc.prems by (simp add: less_mult_imp_div_less mult.commute)
  with Suc.IH [of "n div 10"] show ?case by (subst show_nat.simps) simp
qed

lemma inet_ntoa_length: "length (inet_ntoa a) \<le> 15"
proof -
  have b: "length (show_nat (unat (x :: u8))) \<le> 3" for x
  proof -
    have "unat x < 256" using unsigned_less [of x] by simp
    then show ?thesis using show_nat_length [of "unat x" 2] by simp
  qed
  show ?thesis
    using b [of "ucast a"] b [of "ucast (drop_bit 8 a)"] b [of "ucast (drop_bit 16 a)"] b [of "ucast (drop_bit 24 a)"]
    by (simp add: inet_ntoa_def bytes_of_u32_def)
qed

text \<open>The table of a message is rectangular for every message: each field fits into its column, so all lines have the
  same 53 characters, and the type, the port and the addresses are at the same places.\<close>

theorem dump_message_rectangular: "\<forall>line \<in> set (dump_message msg). length line = 53"
proof -
  have "length (dump_type (m_type msg)) \<le> 5" by (simp add: dump_type_def)
  moreover have "unat (ntohs (m_port msg)) < 65536" using unsigned_less [of "ntohs (m_port msg)"] by simp
  then have "length (show_nat (unat (ntohs (m_port msg)))) \<le> 5" using show_nat_length [of _ 4] by simp
  ultimately show ?thesis
    using inet_ntoa_length [of "m_ip1 msg"] inet_ntoa_length [of "m_ip2 msg"]
    by (simp add: dump_message_def dump_rule_def dump_row_def pad_left_def)
qed

end
