(* ===== verification/Pid_File.thy ===== *)
theory Pid_File
  imports Tun_Commands
begin

text \<open>
  The pid file of both programs (\<^verbatim>\<open>create_pidfile\<close> and \<^verbatim>\<open>remove_pidfile\<close> of \<^verbatim>\<open>rdvserver/campagnol_rdv.c\<close> and
  \<^verbatim>\<open>client/campagnol.c\<close>, which are the same). A file system has names, which lead to a file or are symbolic links, and the contents of the
  files. Another process can change it between the two system calls that replace an old pid file.
\<close>

section \<open>Files\<close>

datatype entry = Hard_link nat | Symlink string | Directory

record file_system =
  entries :: "string \<Rightarrow> entry option"
  contents :: "nat \<Rightarrow> string"

text \<open>What the system allows: to remove and to create files in the directory, and the stream for the descriptor. A new file gets an
  unused number.\<close>

record pid_calls =
  pf_may_unlink :: bool
  pf_may_create :: bool
  pf_fdopen :: bool
  pf_new_file :: "file_system \<Rightarrow> nat"

datatype unlink_result = Unlinked file_system | ENOENT | Unlink_error

definition unlink :: "pid_calls \<Rightarrow> string \<Rightarrow> file_system \<Rightarrow> unlink_result" where
  "unlink sys p fs =
     (case entries fs p of
        None \<Rightarrow> ENOENT
      | Some Directory \<Rightarrow> Unlink_error
      | Some _ \<Rightarrow> if pf_may_unlink sys then Unlinked (fs\<lparr>entries := (entries fs)(p := None)\<rparr>) else Unlink_error)"

text \<open>\<^verbatim>\<open>open\<close> with \<^verbatim>\<open>O_CREAT | O_WRONLY | O_TRUNC | O_NOFOLLOW\<close>: the number of the file.\<close>

definition open_pidfile :: "pid_calls \<Rightarrow> string \<Rightarrow> file_system \<Rightarrow> (nat \<times> file_system) option" where
  "open_pidfile sys p fs =
     (case entries fs p of
        None \<Rightarrow> if pf_may_create sys
                then (let i = pf_new_file sys fs in Some (i, fs\<lparr>entries := (entries fs)(p \<mapsto> Hard_link i), contents := (contents fs)(i := [])\<rparr>))
                else None
      | Some (Hard_link i) \<Rightarrow> Some (i, fs\<lparr>contents := (contents fs)(i := [])\<rparr>)
      | Some (Symlink _) \<Rightarrow> None
      | Some Directory \<Rightarrow> None)"

text \<open>The old file goes away; a file that does not exist is no error.\<close>

definition unlink_old :: "pid_calls \<Rightarrow> string \<Rightarrow> file_system \<Rightarrow> file_system option" where
  "unlink_old sys p fs = (case unlink sys p fs of Unlinked fs' \<Rightarrow> Some fs' | ENOENT \<Rightarrow> Some fs | Unlink_error \<Rightarrow> None)"

text \<open>The new file system, whether the removal at the end is registered, and whether a descriptor stays open. \<open>other\<close> is what other
  processes do after the old file is removed.\<close>

definition create_pidfile :: "pid_calls \<Rightarrow> (file_system \<Rightarrow> file_system) \<Rightarrow> string \<Rightarrow> int \<Rightarrow> file_system \<Rightarrow> file_system \<times> bool \<times> bool" where
  "create_pidfile sys other p pid fs =
     (if p = [] then (fs, False, False)
      else case unlink_old sys p fs of
        None \<Rightarrow> (fs, False, False)
      | Some fs0 \<Rightarrow>
          (let fs1 = other fs0 in
           case open_pidfile sys p fs1 of
             None \<Rightarrow> (fs1, False, False)
           | Some (i, fs2) \<Rightarrow>
               if \<not> pf_fdopen sys then (fs2, False, True)
               else (fs2\<lparr>contents := (contents fs2)(i := show_int pid @ [CHR 0x0A])\<rparr>, True, False)))"

definition remove_pidfile :: "pid_calls \<Rightarrow> string \<Rightarrow> file_system \<Rightarrow> file_system" where
  "remove_pidfile sys p fs = (case unlink sys p fs of Unlinked fs' \<Rightarrow> fs' | _ \<Rightarrow> fs)"

section \<open>Only the pid file is written\<close>

lemma unlink_old_result:
  "pf_may_unlink sys \<Longrightarrow> unlink_old sys p fs = (if entries fs p = Some Directory then None else Some (fs\<lparr>entries := (entries fs)(p := None)\<rparr>))"
  by (cases fs) (auto simp: unlink_old_def unlink_def fun_upd_idem split: option.splits entry.splits)

text \<open>A pid file never overwrites another file through an old pid file or a symbolic link: when nobody else changes the directory at
  the same time, every other name stays as it is and leads to a file with the same content, and when the removal is
  registered the name leads to a new file with the process number, which the removal takes away again.\<close>

theorem pidfile_safe:
  assumes "create_pidfile sys id p pid fs = (fs', registered, fd_open)"
    and "\<And>q. q \<noteq> p \<Longrightarrow> entries fs q \<noteq> Some (Hard_link (pf_new_file sys (fs\<lparr>entries := (entries fs)(p := None)\<rparr>)))"
    and "pf_may_unlink sys"
  shows "(\<forall>q. q \<noteq> p \<longrightarrow> entries fs' q = entries fs q \<and> (\<forall>i. entries fs q = Some (Hard_link i) \<longrightarrow> contents fs' i = contents fs i)) \<and>
    (registered \<longrightarrow> (\<exists>i. entries fs' p = Some (Hard_link i) \<and> contents fs' i = show_int pid @ [CHR 0x0A]) \<and>
       entries (remove_pidfile sys p fs') p = None)"
proof (cases "p = [] \<or> entries fs p = Some Directory")
  case True
  then have "create_pidfile sys id p pid fs = (fs, False, False)" using assms(3) by (cases "p = []") (simp_all add: create_pidfile_def unlink_old_result)
  then show ?thesis using assms(1) by simp
next
  case False
  let ?fs1 = "fs\<lparr>entries := (entries fs)(p := None)\<rparr>"
  let ?i = "pf_new_file sys ?fs1"
  have old: "unlink_old sys p fs = Some ?fs1" using False assms(3) by (simp add: unlink_old_result)
  have fresh: "?i \<noteq> i" if "entries fs q = Some (Hard_link i)" "q \<noteq> p" for q i using assms(2) [of q] that by auto
  show ?thesis
  proof (cases "pf_may_create sys")
    case no_create: False
    with assms(1) old False show ?thesis by (auto simp: create_pidfile_def open_pidfile_def)
  next
    case True
    with assms(1,3) old False show ?thesis
      by (auto simp: create_pidfile_def open_pidfile_def remove_pidfile_def unlink_def Let_def split: if_splits dest: fresh)
  qed
qed

definition demo_pid_calls :: pid_calls where
  "demo_pid_calls = \<lparr>pf_may_unlink = True, pf_may_create = True, pf_fdopen = True, pf_new_file = (\<lambda>_. 7)\<rparr>"

definition demo_fs :: file_system where
  "demo_fs = \<lparr>entries = [''passwd'' \<mapsto> Hard_link 1, ''pid'' \<mapsto> Symlink ''passwd''], contents = (\<lambda>_. ''root'')\<rparr>"

text \<open>The old pid file is a symbolic link to a file that must not change.\<close>

theorem pidfile_safe_witness:
  "\<exists>fs' fd_open. create_pidfile demo_pid_calls id ''pid'' 42 demo_fs = (fs', True, fd_open) \<and> contents fs' 1 = ''root'' \<and>
     entries (remove_pidfile demo_pid_calls ''pid'' fs') ''pid'' = None"
proof -
  obtain fs' r fd where c: "create_pidfile demo_pid_calls id ''pid'' 42 demo_fs = (fs', r, fd)" by (metis prod_cases3)
  then have r: "r" by (auto simp: create_pidfile_def unlink_old_def unlink_def open_pidfile_def demo_pid_calls_def demo_fs_def Let_def)
  have pw: "entries demo_fs ''passwd'' = Some (Hard_link 1)" "contents demo_fs 1 = ''root''" by (simp_all add: demo_fs_def)
  have "(\<forall>q. q \<noteq> ''pid'' \<longrightarrow> entries fs' q = entries demo_fs q \<and>
      (\<forall>i. entries demo_fs q = Some (Hard_link i) \<longrightarrow> contents fs' i = contents demo_fs i)) \<and>
    (r \<longrightarrow> (\<exists>i. entries fs' ''pid'' = Some (Hard_link i) \<and> contents fs' i = show_int 42 @ [CHR 0x0A]) \<and>
       entries (remove_pidfile demo_pid_calls ''pid'' fs') ''pid'' = None)"
    by (rule pidfile_safe [OF c]) (auto simp: demo_fs_def demo_pid_calls_def)
  note safe = this [THEN conjunct1, THEN spec, of "''passwd''"] this [THEN conjunct2]
  from safe(1) pw have "contents fs' 1 = ''root''" by simp
  with safe(2) r c show ?thesis by auto
qed

end
