(* ===== verification/Getline.thy ===== *)
theory Getline
  imports Campagnol_Prelude
begin

text \<open>
  The replacement of \<^verbatim>\<open>getline\<close> (\<^verbatim>\<open>lib/getline.c\<close>): a line of a stream in a buffer that grows. The source stores what \<^verbatim>\<open>fgetc\<close>
  returns in a \<^verbatim>\<open>char\<close> before it compares with \<^verbatim>\<open>EOF\<close>, so what a byte 255 and the end of the stream look like depends on
  whether \<^verbatim>\<open>char\<close> is signed.
\<close>

section \<open>The function\<close>

text \<open>The next byte, -1 at the end; the value of the variable \<^verbatim>\<open>c\<close> after the conversion.\<close>

fun next_byte :: "u8 list \<Rightarrow> int \<times> u8 list" where
  "next_byte [] = (-1, [])"
| "next_byte (b # s) = (uint b, s)"

definition to_char :: "bool \<Rightarrow> int \<Rightarrow> int" where
  "to_char char_signed v = (if char_signed then signed_take_bit 7 v else take_bit 8 v)"

abbreviation (input) EOF :: int where "EOF \<equiv> -1"
abbreviation (input) newline :: int where "newline \<equiv> 10"

text \<open>The result: the length or -1, the buffer, the rest of the stream. \<open>None\<close> is a write out of bounds or a loop without an
  end. \<open>realloc n\<close> says whether a block of \<open>n\<close> bytes can be had; new bytes are 0 here.\<close>

type_synonym line_result = "int \<times> u8 list \<times> u8 list"

definition getline_end :: "nat \<Rightarrow> u8 list \<Rightarrow> u8 list \<Rightarrow> line_result option" where
  "getline_end pos buf s =
     (if pos = 0 then Some (-1, buf, s)
      else if pos < length buf then Some (int pos, buf[pos := 0], s)
      else None)"

partial_function (option) getline_loop :: "bool \<Rightarrow> (nat \<Rightarrow> bool) \<Rightarrow> u8 list \<Rightarrow> nat \<Rightarrow> u8 list \<Rightarrow> line_result option" where
  "getline_loop char_signed realloc s pos buf =
     (case next_byte s of (v, s') \<Rightarrow>
       let c = to_char char_signed v in
       if c = EOF then getline_end pos buf s'
       else if pos + 2 > length buf \<and> \<not> realloc (length buf + 120) then Some (-1, buf, s')
       else
         (let buf1 = (if pos + 2 > length buf then buf @ replicate 120 0 else buf) in
          if pos < length buf1 then
            (let buf2 = buf1[pos := word_of_int c] in
             if c = newline then getline_end (pos + 1) buf2 s' else getline_loop char_signed realloc s' (pos + 1) buf2)
          else None))"

text \<open>An empty buffer is the null pointer.\<close>

definition getline :: "bool \<Rightarrow> (nat \<Rightarrow> bool) \<Rightarrow> u8 list \<Rightarrow> u8 list \<Rightarrow> line_result option" where
  "getline char_signed realloc buf s =
     (if buf = [] then (if \<not> realloc 120 then Some (-1, buf, s) else getline_loop char_signed realloc s 0 (replicate 120 0))
      else getline_loop char_signed realloc s 0 buf)"

section \<open>What it reads\<close>

text \<open>The first line of a stream and what follows; a byte 255 ends the line and is lost.\<close>

fun split_line :: "u8 list \<Rightarrow> u8 list \<times> u8 list" where
  "split_line [] = ([], [])"
| "split_line (b # s) =
     (if b = 255 then ([], s) else if b = 10 then ([b], s) else (b # fst (split_line s), snd (split_line s)))"

lemma to_char_byte:
  "to_char True (uint (b :: u8)) = EOF \<longleftrightarrow> b = 255" "to_char True (uint b) = newline \<longleftrightarrow> b = 10" "word_of_int (to_char True (uint b)) = b"
proof -
  have s: "to_char True (uint b) = sint b" by (simp add: to_char_def sint_uint)
  have inj: "sint b = sint (x :: u8) \<longleftrightarrow> b = x" for x by (metis signed_word_eqI)
  have "sint (255 :: u8) = -1" "sint (10 :: u8) = 10" by simp_all
  with inj [of 255] inj [of 10] show "to_char True (uint b) = EOF \<longleftrightarrow> b = 255" "to_char True (uint b) = newline \<longleftrightarrow> b = 10" using s by simp_all
  show "word_of_int (to_char True (uint b)) = b" using s by simp
qed

lemma getline_loop_line:
  assumes "pos < length buf"
  shows "\<exists>buf'. getline_loop True (\<lambda>_. True) s pos buf = getline_end (pos + length (fst (split_line s))) buf' (snd (split_line s)) \<and>
    take (pos + length (fst (split_line s))) buf' = take pos buf @ fst (split_line s) \<and> pos + length (fst (split_line s)) < length buf'"
  using assms
proof (induction s arbitrary: pos buf)
  case Nil
  then show ?case by (intro exI [of _ buf]) (simp add: getline_loop.simps to_char_def)
next
  case (Cons b s)
  let ?buf1 = "if pos + 2 > length buf then buf @ replicate 120 0 else buf"
  let ?buf2 = "?buf1[pos := b]"
  have len: "pos + 1 < length ?buf2" "pos < length ?buf1" using Cons.prems by (auto split: if_splits)
  have tk: "take (pos + 1) ?buf2 = take pos buf @ [b]"
  proof -
    have "take (Suc pos) ?buf2 = take pos ?buf1 @ [b]" by (rule take_Suc_update [OF len(2)])
    moreover have "take pos ?buf1 = take pos buf" using Cons.prems by simp
    ultimately show ?thesis by simp
  qed
  have unfold: "getline_loop True (\<lambda>_. True) (b # s) pos buf =
    (if b = 255 then getline_end pos buf s else if b = 10 then getline_end (pos + 1) ?buf2 s
     else getline_loop True (\<lambda>_. True) s (pos + 1) ?buf2)"
    using len(2) by (subst getline_loop.simps) (simp only: next_byte.simps prod.case Let_def to_char_byte simp_thms if_True if_False split: if_split)
  consider "b = 255" | "b = 10" | "b \<noteq> 255" "b \<noteq> 10" by blast
  then show ?case
  proof cases
    case 1
    with Cons.prems unfold show ?thesis by (intro exI [of _ buf]) simp
  next
    case 2
    with unfold len tk show ?thesis by (intro exI [of _ ?buf2]) simp
  next
    case 3
    from Cons.IH [OF len(1)] tk 3 show ?thesis unfolding unfold by (auto simp: add.assoc)
  qed
qed

text \<open>The replacement of \<^verbatim>\<open>getline\<close> where \<^verbatim>\<open>char\<close> is signed and memory suffices: it returns and never writes out of its
  buffer; the buffer holds the bytes up to and including the first newline, or up to the end of the stream, and a
  terminating zero, and the result is their number, or -1 when there are none. A byte 255 counts as the end of the
  stream and is lost.\<close>

theorem getline_reads_line:
  "\<exists>r buf'. getline True (\<lambda>_. True) buf s = Some (r, buf', snd (split_line s)) \<and>
    (let line = fst (split_line s) in
     take (length line) buf' = line \<and> (if line = [] then r = -1 else r = int (length line) \<and> length line < length buf' \<and> buf' ! length line = 0))"
proof -
  let ?buf = "if buf = [] then replicate 120 0 else buf" and ?l = "fst (split_line s)"
  have "0 < length ?buf" by simp
  from getline_loop_line [OF this, of s] obtain buf' where
    "getline_loop True (\<lambda>_. True) s 0 ?buf = getline_end (length ?l) buf' (snd (split_line s))" "take (length ?l) buf' = ?l" "length ?l < length buf'"
    by auto
  moreover have "getline True (\<lambda>_. True) buf s = getline_loop True (\<lambda>_. True) s 0 ?buf" by (simp add: getline_def)
  ultimately show ?thesis
    by (cases "?l = []") (simp_all add: getline_end_def Let_def)
qed

text \<open>Where \<^verbatim>\<open>char\<close> is unsigned the comparison with \<^verbatim>\<open>EOF\<close> is never true: at the end of the stream the loop goes on as long as
  there is memory.\<close>

lemma getline_unsigned_no_end:
  assumes "getline_loop char_signed realloc s pos buf = Some r" and "\<not> char_signed" and "s = []"
  shows "\<exists>n. \<not> realloc n"
  using assms(2,3)
proof (induction rule: getline_loop.raw_induct [OF _ assms(1), consumes 0, case_names step])
  case (step loop char_signed realloc s pos buf r)
  have "to_char False (-1) = 255" by (simp add: to_char_def take_bit_int_def)
  with step show ?case by (auto simp: Let_def split: if_splits)
qed

end
