(* ===== verification/Spec2Isabelle.thy ===== *)
theory Spec2Isabelle
  imports Main_Programs Tun_Cygwin Bss_Fifo Client_Locks Parser_Memory Local_Address Logging Pid_File Getline
begin

text \<open>
  Campagnol is a distributed VPN over UDP. Every client runs a TUN device and one UDP socket. A
  rendezvous server knows the public endpoint of each registered client. When a packet for an
  unknown VPN address leaves the TUN device, the client asks the server for the endpoint of that
  address (\<^verbatim>\<open>ASK_CONNECTION\<close>); the server answers with the endpoint (\<^verbatim>\<open>ANS_CONNECTION\<close>) and tells
  the other side (\<^verbatim>\<open>FWD_CONNECTION\<close>); both then punch a hole through their NAT (\<^verbatim>\<open>PUNCH\<close>), do a
  DTLS handshake and exchange the packets of the TUN devices over the session.

  \<^bold>\<open>Foundations.\<close>
  \<^item> \<open>Campagnol_Prelude\<close>: words, pointers, heaps, the allocator, the C character classes.
  \<^item> \<open>Linked_List\<close>: the two list idioms of the sources over any structure (locale \<open>linked_node\<close>,
    interpreted for the clients and the sessions of the server and for the peers of the client).
  \<^item> \<open>Search_Tree\<close>: what POSIX promises of \<^verbatim>\<open>tsearch\<close>, \<^verbatim>\<open>tfind\<close>, \<^verbatim>\<open>tdelete\<close> (locale \<open>key_compare\<close>,
    interpreted for the comparison functions of the program).
  \<^item> \<open>Messages\<close>: \<^verbatim>\<open>message_t\<close> and its bytes in memory.
  \<^item> \<open>C_Float\<close>: the values of \<^verbatim>\<open>float\<close> and \<^verbatim>\<open>double\<close>, infinities and no number among them, and the cast to \<^verbatim>\<open>size_t\<close>.
  \<^item> \<open>Lock_Order\<close>: threads that lock and unlock mutexes, and that an order of the mutexes excludes deadlocks
    (locale \<open>lock_order\<close>, interpreted for the client).
  \<^item> \<open>Thread_Wrappers\<close> (\<^verbatim>\<open>pthread_wrap.h\<close>, \<^verbatim>\<open>sem_wrap.h\<close>): POSIX mutexes with owners and counters behind the wrappers that
    abort on errors, and that, as long as no mutex is created or destroyed, they implement the mutexes of \<open>Lock_Order\<close>.
  \<^item> \<open>Logging\<close> (\<^verbatim>\<open>log.c\<close>, \<^verbatim>\<open>log.h\<close>): where a message goes, the fatal macros, and the table of a message that the server prints.
  \<^item> \<open>Getline\<close> (\<^verbatim>\<open>lib/getline.c\<close>): the replacement of \<^verbatim>\<open>getline\<close>.

  \<^bold>\<open>The rendezvous server\<close> (\<^verbatim>\<open>src/rdvserver\<close>).
  \<^item> \<open>Rdv_Peer\<close> (\<^verbatim>\<open>peer.c\<close>) and \<open>Rdv_Session\<close> (\<^verbatim>\<open>session.c\<close>): the two tables, on heaps, with their
    counters, lists and indexes; every operation returns \<open>None\<close> for a fault.
  \<^item> \<open>Rdv_Server\<close> (\<^verbatim>\<open>server.c\<close>): the handler of a datagram, one definition per branch, the removal of
    dead clients, the main loop over a list of \<^verbatim>\<open>select\<close> outcomes.
  \<^item> \<open>Rdv_Protocol\<close>: no run faults or leaks, the tables stay consistent, and what each message does
    to the tables and makes the server send.

  \<^bold>\<open>Configuration files\<close> (\<^verbatim>\<open>src/common\<close>).
  \<^item> \<open>Strlib\<close> (\<^verbatim>\<open>strlib.c\<close>): growing buffers in bounds, and that they implement strings with a mark
    (locale \<open>string_buffer\<close>). The other theories use the abstract strings.
  \<^item> \<open>Config_Parser\<close> (\<^verbatim>\<open>config_parser.c\<close>): sections, keys, values (locale \<open>named_items\<close>), the expansion
    of references, conversions. The expansion is a recursion over the values; its fuel is the number of
    values plus one, which is enough because a value that is being expanded is not entered again, and
    the theorem of termination says so for cyclic references too.
  \<^item> \<open>Config_IO\<close> (\<^verbatim>\<open>config_io.c\<close>): the automata of the reader and the writer; a written configuration is
    read back.
  \<^item> \<open>Parser_Memory\<close> (\<^verbatim>\<open>config_parser.c\<close>, \<^verbatim>\<open>lib/tdestroy.c\<close>): the release of sections, keys and values on a heap (locale
    \<open>tree_release\<close>, interpreted for the trees of keys and of sections).

  \<^bold>\<open>The client\<close> (\<^verbatim>\<open>src/client\<close>, \<^verbatim>\<open>src/common/bss_fifo.c\<close>).
  \<^item> \<open>Bss_Fifo\<close> (\<^verbatim>\<open>bss_fifo.c\<close>): the queue of packets between two threads. The steps are the critical
    sections; the ring implements a queue (locale \<open>packet_queue\<close>) under every interleaving in which no wait
    of the reader returns without a signal. Such a spurious return, which POSIX permits, is a step too, and it is exactly
    the step that breaks the queue.
  \<^item> \<open>Client_Config\<close> (\<^verbatim>\<open>configuration.c\<close>): every option of \<^verbatim>\<open>parseConfFile\<close>; what an accepted file gives,
    rates that are no number included.
  \<^item> \<open>Local_Address\<close> (\<^verbatim>\<open>configuration.c\<close>): the search for a local address without \<^verbatim>\<open>getifaddrs\<close>, the names of interfaces on
    Cygwin, \<^verbatim>\<open>freeConfig\<close>.
  \<^item> \<open>Token_Bucket\<close> (\<^verbatim>\<open>rate_limiter.c\<close>, \<^verbatim>\<open>bf_rate_limiter.c\<close>): the limit on the bytes in any interval, with the byte per packet that
    the rounding of refills costs.
  \<^item> \<open>Tun_Commands\<close> (\<^verbatim>\<open>tun_device_common.c\<close>): the expansion of the up and down commands, variable by variable.
  \<^item> \<open>Tun_Device\<close> (\<^verbatim>\<open>tun_device_linux.c\<close>, \<^verbatim>\<open>tun_device_freebsd.c\<close>, \<^verbatim>\<open>tun_device_netbsd.c\<close>, \<^verbatim>\<open>tun_device_openbsd.c\<close>) and
    \<open>Tun_Cygwin\<close> (\<^verbatim>\<open>tun_device_cygwin.c\<close>): creation, shut down and packets of the TUN device; nothing leaks on any path
    (locale \<open>tun_driver\<close>, interpreted for the four drivers with descriptors), one asynchronous read at a time, and the
    read that is still under way when its buffer is freed.
  \<^item> \<open>Dtls_Context\<close> (\<^verbatim>\<open>dtls_utils.c\<close>): creation, replacement and release of the two contexts, and the three
    calls whose results the code does not check.
  \<^item> \<open>Client_Peer\<close> (\<^verbatim>\<open>peer.c\<close>): the reference counted table of peers; safe under any interleaving of
    threads that return the references they take, without two mishaps against which the code has no guard; what one of them
    does to the table.
  \<^item> \<open>Client_Packet\<close> (\<^verbatim>\<open>communication.c\<close>): messages, registration, checksum, size limit of records.
  \<^item> \<open>Client_Comm\<close> (\<^verbatim>\<open>communication.c\<close>): the handlers and threads, cut at their waits.
  \<^item> \<open>Client_Locks\<close> (\<^verbatim>\<open>peer.c\<close>, \<^verbatim>\<open>communication.c\<close>, \<^verbatim>\<open>dtls_utils.c\<close>, with the mutexes of the queues and rate limiters): how every call of the
    client creates, locks, unlocks and destroys mutexes. The calls are free of deadlocks, but for two: one that breaks the lock
    order and deadlocks, and a write to a full queue whose reader has ended. The race at the end of the VPN. The mutexes of OpenSSL.
  \<^item> \<open>Client_System\<close>: all threads over one table. Without the two mishaps no step faults and structures live exactly as long as
    threads refer to them; connections follow their state machine, peer threads end.

  \<^bold>\<open>The programs.\<close>
  \<^item> \<open>Main_Programs\<close> (\<^verbatim>\<open>campagnol_rdv.c\<close>, \<^verbatim>\<open>campagnol.c\<close>, \<^verbatim>\<open>net_socket.c\<close>, \<^verbatim>\<open>start_vpn\<close>): command lines, exit codes,
    signals and restarts, the resources of a run, and that the server started with any command line does
    not fault.
  \<^item> \<open>Pid_File\<close> (\<^verbatim>\<open>campagnol_rdv.c\<close>, \<^verbatim>\<open>campagnol.c\<close>): the pid file is replaced without touching other files.
  \<^item> This theory: the client and the server together. The registration message of a client registers it,
    and a request for a connection makes both clients punch to each other.

  \<^bold>\<open>Conventions.\<close> Machine integers are words of their width where they can wrap around; times are
  integers. A result \<open>None\<close> of an operation on a heap is a read or write through a pointer that is not
  allocated, so a theorem with \<open>Some\<close> in its conclusion is a statement of memory safety. Walks over
  pointer chains are partial functions with \<open>None\<close> for a chain without an end; the invariants give
  that they return. What is outside of the program is an argument: the allocator (which must
  return unused blocks), the failures of \<^verbatim>\<open>tsearch\<close>, the results of OpenSSL calls, clocks, name
  resolution, the parsing of floating point numbers and their rounding to \<^verbatim>\<open>float\<close>. Finite \<^verbatim>\<open>double\<close> numbers of the
  rate limiter are exact reals. In \<open>Client_System\<close> a handler is one step although it takes the mutexes more than once; the finer
  interleaving of the table operations is the subject of \<open>Client_Peer\<close>, and that of the lock operations the subject of \<open>Client_Locks\<close>. The counters of references are
  assumed to stay below their 32 bit limit. That the endpoint of a peer is changed once it is an index key, and that
  the node for the endpoint of a calling peer cannot be allocated, are events of the models which the theorems of safety
  exclude by hypotheses (\<open>late_answer\<close>, \<open>moves_indexed\<close>; \<open>caller_node_fails\<close>, \<open>node_fails\<close>), since the code has no guard against them;
  \<open>Client_Peer\<close> shows what a failed allocation of that node leaves behind. The deadlock theorem of
  \<open>Client_Locks\<close> is about the order of locks only: that a mutex of a peer exists while it is locked is what those theorems give.

  \<^bold>\<open>Not modelled.\<close> The texts of usage and of log messages, the name resolution of the C library, the \<^verbatim>\<open>select\<close> calls
  and timers, which only wait, the log of certificate names; the unused macros and declarations of the headers, and the constants of the driver interface in \<^verbatim>\<open>tap-win32_common.h\<close>, which are
  not part of the program.
\<close>

section \<open>Registration of a client\<close>

text \<open>C15. The registration of a client and the rendezvous server fit together: when neither the
  endpoint nor the VPN address of the client is registered and the server has room and memory, the
  \<^verbatim>\<open>HELLO\<close> message that the client builds makes the server register the client under both keys and send
  one answer, and a client that reads this answer at its first try is registered after one
  message.\<close>

theorem registration_completes:
  assumes "rdv_reachable cfg sockfd (t, s)" and "max_clients cfg \<ge> 0" and "malloc_fresh (rm_malloc mem)"
    and "\<forall>p c. cl_heap s p = Some c \<longrightarrow> cl_clientaddr c \<noteq> a"
    and "\<forall>p c. cl_heap s p = Some c \<longrightarrow> cl_vpnIP c \<noteq> vpnIP config"
    and "\<not> registration_fails cfg mem s" and "\<not> stop 0"
  shows "\<exists>s' p answer. handle_packet cfg mem now (register_message config) a sockfd s = Some s' \<and>
    sent s' = sent s @ [(a, answer)] \<and>
    get_client_real a s' = Some (Some p) \<and> get_client_VPN (vpnIP config) s' = Some (Some p) \<and>
    register_rdv config stop (\<lambda>_. Some answer) = (True, [register_message config])"
proof -
  have m: "m_type (register_message config) = HELLO" "m_ip1 (register_message config) = vpnIP config"
    by (simp_all add: register_message_def init_smsg_def)
  have vpn: "\<forall>p c. cl_heap s p = Some c \<longrightarrow> cl_vpnIP c \<noteq> m_ip1 (register_message config)" using assms(5) m by simp
  let ?ok = "\<lparr>m_type = OK, m_port = 0, m_ip1 = 0, m_ip2 = 0\<rparr> :: message_t"
  have "register_rdv config stop (\<lambda>_. Some ?ok) = (True, [register_message config])"
    unfolding register_rdv_def by (subst register_loop.simps) (simp add: assms(7) register_loop_start)
  moreover obtain s' p where "handle_packet cfg mem now (register_message config) a sockfd s = Some s'"
    "sent s' = sent s @ [(a, ?ok)]" "get_client_real a s' = Some (Some p)"
    "get_client_VPN (m_ip1 (register_message config)) s' = Some (Some p)"
    using hello_registered [OF assms(1-3) m(1) assms(4) vpn assms(6), of now] by blast
  ultimately show ?thesis using m(2) by auto
qed

text \<open>A third client joins the server that knows two.\<close>

theorem registration_completes_witness:
  "\<exists>s' p answer. handle_packet demo_cfg Rdv_Protocol.demo_mem 6 (register_message initConfig) demo_a3 3 demo_server = Some s' \<and>
    sent s' = sent demo_server @ [(demo_a3, answer)] \<and>
    get_client_real demo_a3 s' = Some (Some p) \<and> get_client_VPN (vpnIP initConfig) s' = Some (Some p) \<and>
    register_rdv initConfig (\<lambda>_. False) (\<lambda>_. Some answer) = (True, [register_message initConfig])"
proof (rule registration_completes [OF demo_reachable demo_fresh(2,1)])
  have "vpnIP initConfig = 0" by (simp add: initConfig_def)
  then show "\<forall>p c. cl_heap demo_server p = Some c \<longrightarrow> cl_vpnIP c \<noteq> vpnIP initConfig"
    by (auto simp: demo_server_def demo_c1_def demo_c2_def new_client_def)
  show "\<forall>p c. cl_heap demo_server p = Some c \<longrightarrow> cl_clientaddr c \<noteq> demo_a3"
    by (auto simp: demo_server_def demo_c1_def demo_c2_def demo_a3_def new_client_def)
  show "\<not> registration_fails demo_cfg Rdv_Protocol.demo_mem demo_server"
    by (simp add: registration_fails_def demo_cfg_def Rdv_Protocol.demo_mem_def demo_server_def malloc3_def)
qed simp

section \<open>Two clients meet\<close>

text \<open>The endpoint under which a client is reached, as the server gives it to a second one.\<close>

definition endpoint_for :: "rdv_client \<Rightarrow> rdv_client \<Rightarrow> sockaddr_in" where
  "endpoint_for c d = (if same_network c d then cl_localaddr d else cl_clientaddr d)"

definition punching_to :: "vpn_sys \<Rightarrow> ptr \<Rightarrow> u32 \<Rightarrow> sockaddr_in \<Rightarrow> bool" where
  "punching_to s p vpn e \<longleftrightarrow> vs_pc s p = Top \<and>
     (\<exists>c. pe_heap (vs_table s) p = Some c \<and> pe_state c = PUNCHING \<and> pe_vpnIP c = vpn \<and> pe_clientaddr c = e)"

text \<open>The first step of the thread of a new peer asks the server.\<close>

lemma ask_step:
  assumes "vs_pc a x = Top" and "pe_heap (vs_table a) x = Some c" and "pe_state c = NEW"
  shows "vpn_step config (Peer_step x (Go False)) a =
    Some ([Sendto (serverAddr config) (bytes_of_message (init_smsg ASK_CONNECTION (pe_vpnIP c) 0))], a\<lparr>vs_pc := (vs_pc a)(x := Wait_answer)\<rparr>)"
  using assms by (simp add: peer_top_def commit_def to_server_def)

text \<open>The caller, from its question to the punching: it asks, takes the answer from the server, and
  goes on.\<close>

lemma caller_punches:
  assumes inv: "vpn_inv a" and few: "few_threads a"
    and pc: "vs_pc a x = Top" and c: "pe_heap (vs_table a) x = Some c" "pe_state c = NEW"
    and get: "peers_get_by_VPN vpn (vs_table a) = Some (Some x, t1)"
    and index: "\<forall>y \<in> set (peers_address_root (vs_table a)). field_at pe_vpnIP (pe_heap (vs_table a)) y \<noteq> Some vpn"
    and fr: "malloc_fresh (pm_malloc (Client_Comm.ev_mem env))" "pm_tsearch_addr (Client_Comm.ev_mem env)"
  shows "\<exists>a1 a2 a3. vpn_step config (Peer_step x (Go False)) a =
      Some ([Sendto (serverAddr config) (bytes_of_message (init_smsg ASK_CONNECTION vpn 0))], a1) \<and>
    vpn_step config (Rdv_message env args \<lparr>m_type = ANS_CONNECTION, m_port = sin_port e, m_ip1 = sin_addr e, m_ip2 = vpn\<rparr>) a1 =
      Some ([Signal x, Session_calls []], a2) \<and>
    vpn_step config (Peer_step x (Answer_wait False False u True)) a2 = Some ([], a3) \<and> punching_to a3 x vpn e"
proof -
  let ?m = "\<lparr>m_type = ANS_CONNECTION, m_port = sin_port e, m_ip1 = sin_addr e, m_ip2 = vpn\<rparr> :: message_t"
  let ?a1 = "a\<lparr>vs_pc := (vs_pc a)(x := Wait_answer)\<rparr>"
  have vpn: "pe_vpnIP c = vpn" using get_by_VPN_key [OF get] c(1) by (simp add: field_at_Some)
  have s1: "vpn_step config (Peer_step x (Go False)) a =
      Some ([Sendto (serverAddr config) (bytes_of_message (init_smsg ASK_CONNECTION vpn 0))], ?a1)"
    using ask_step [OF pc c, of config] vpn by simp
  have al1: "vpn_allowed (Peer_step x (Go False)) a" using pc by simp
  have inv1: "vpn_inv ?a1" using vpn_step_ok [OF inv al1 few, of config] s1 by auto
  have "thread_refs ?a1 = thread_refs a" using pc by (simp add: thread_refs_def fun_eq_iff)
  then have few1: "few_threads ?a1" using few by (simp add: few_threads_def)
  have al2: "vpn_allowed (Rdv_message env args ?m) ?a1" using index fr by simp
  obtain t2 where s2: "vpn_step config (Rdv_message env args ?m) ?a1 = Some ([Signal x, Session_calls []], ?a1\<lparr>vs_table := t2\<rparr>)"
    and t2: "pe_heap t2 x = Some (c\<lparr>pe_rdv_answer := Some ANS_CONNECTION, pe_clientaddr := \<lparr>sin_addr = sin_addr e, sin_port = sin_port e\<rparr>\<rparr>)"
    using answer_received [OF inv1, of ?m x t1 c config env args] get c(1) by auto
  have inv2: "vpn_inv (?a1\<lparr>vs_table := t2\<rparr>)" using vpn_step_ok [OF inv1 al2 few1, of config] s2 by auto
  obtain t3 where s3: "vpn_step config (Peer_step x (Answer_wait False False u True)) (?a1\<lparr>vs_table := t2\<rparr>) =
      Some ([], ?a1\<lparr>vs_table := t2\<rparr>\<lparr>vs_pc := (vs_pc (?a1\<lparr>vs_table := t2\<rparr>))(x := Top), vs_table := t3\<rparr>)"
    and t3: "pe_heap t3 x = Some (c\<lparr>pe_rdv_answer := Some ANS_CONNECTION, pe_clientaddr := e, pe_state := PUNCHING\<rparr>)"
    using answer_taken [OF inv2, of x _ config u] t2 by auto
  have "punching_to (?a1\<lparr>vs_table := t2\<rparr>\<lparr>vs_pc := (vs_pc (?a1\<lparr>vs_table := t2\<rparr>))(x := Top), vs_table := t3\<rparr>) x vpn e"
    using t3 vpn by (simp add: punching_to_def)
  with s1 s2 s3 show ?thesis by blast
qed

text \<open>The called client starts a peer that punches to the caller.\<close>

lemma called_punches:
  assumes inv: "vpn_inv b" and few: "few_threads b"
    and fr: "malloc_fresh (pm_malloc (Client_Comm.ev_mem env))" "pm_tsearch_addr (Client_Comm.ev_mem env)"
    and new: "peers_get_by_VPN vpn (vs_table b) = Some (None, vs_table b)"
    and room: "add_possible config (Client_Comm.ev_mem env) (vs_table b)"
  shows "\<exists>y es b1. vpn_step config (Rdv_message env args
      \<lparr>m_type = FWD_CONNECTION, m_port = sin_port e, m_ip1 = sin_addr e, m_ip2 = vpn\<rparr>) b = Some (es, b1) \<and>
    Start_peer_handling y \<in> set es \<and> punching_to b1 y vpn e"
proof -
  let ?m = "\<lparr>m_type = FWD_CONNECTION, m_port = sin_port e, m_ip1 = sin_addr e, m_ip2 = vpn\<rparr> :: message_t"
  obtain y es t c where s: "vpn_step config (Rdv_message env args ?m) b = Some (es, b\<lparr>vs_table := t, vs_pc := (vs_pc b)(y := Top)\<rparr>)"
    and y: "Start_peer_handling y \<in> set es" and c: "pe_heap t y = Some c"
    and pay: "pe_payload c = new_peer config (ev_clock env) (ca_sockfd args) (ca_tunfd args) PUNCHING (ev_time env) (sin_addr e) (sin_port e) vpn False"
    using forward_received [OF inv few _ fr(1), of ?m config args] fr(2) new room by auto
  have "pe_state c = PUNCHING \<and> pe_vpnIP c = vpn \<and> pe_clientaddr c = e"
    using arg_cong [OF pay, of pe_state] arg_cong [OF pay, of pe_vpnIP] arg_cong [OF pay, of pe_clientaddr]
    by (simp add: pe_payload_def new_peer_def)
  with s y c show ?thesis by (auto simp: punching_to_def)
qed

text \<open>C5. Two registered clients meet. When a client has a packet for the VPN address of a second one, the
  message its peer thread sends makes the rendezvous server send two messages; the caller, taking the
  first, and the called client, taking the second, then both have a thread that is about to
  punch a hole, each to the endpoint under which the other one is reached: the local endpoints
  when both announced one and share their public address, the public endpoints otherwise. The
  conditions are those of the code: the called client is not timed out and has room and memory for
  a peer that it does not know yet, and the caller has the endpoint of no other peer for this address.\<close>

theorem connection_request_meets:
  assumes server: "rdv_reachable cfg sockfd (t, s)" "max_clients cfg \<ge> 0" "malloc_fresh (rm_malloc mem)" "session_memory mem s"
    and known: "cl_heap s p = Some ca" "cl_heap s q = Some cb" "get_client_VPN (cl_vpnIP cb) s = Some (Some q)"
      "now \<le> cl_time cb + PEER_TIMEOUT"
    and caller: "vpn_reachable confA a" "few_threads a" "vs_pc a x = Top" "pe_heap (vs_table a) x = Some c" "pe_state c = NEW"
      "peers_get_by_VPN (cl_vpnIP cb) (vs_table a) = Some (Some x, t1)"
      "\<forall>y \<in> set (peers_address_root (vs_table a)). field_at pe_vpnIP (pe_heap (vs_table a)) y \<noteq> Some (cl_vpnIP cb)"
    and called: "vpn_reachable confB b" "few_threads b"
      "peers_get_by_VPN (cl_vpnIP ca) (vs_table b) = Some (None, vs_table b)" "add_possible confB (Client_Comm.ev_mem env) (vs_table b)"
    and mem: "malloc_fresh (pm_malloc (Client_Comm.ev_mem env))" "pm_tsearch_addr (Client_Comm.ev_mem env)"
  shows "\<exists>ask s' ans fwd a1 a2 a3 y es b1.
    vpn_step confA (Peer_step x (Go False)) a = Some ([Sendto (serverAddr confA) (bytes_of_message ask)], a1) \<and>
    handle_packet cfg mem now ask (cl_clientaddr ca) sockfd s = Some s' \<and>
    sent s' = sent s @ [(cl_clientaddr ca, ans), (cl_clientaddr cb, fwd)] \<and>
    vpn_step confA (Rdv_message env args ans) a1 = Some ([Signal x, Session_calls []], a2) \<and>
    vpn_step confA (Peer_step x (Answer_wait False False u True)) a2 = Some ([], a3) \<and>
    vpn_step confB (Rdv_message env args' fwd) b = Some (es, b1) \<and> Start_peer_handling y \<in> set es \<and>
    punching_to a3 x (cl_vpnIP cb) (endpoint_for ca cb) \<and> punching_to b1 y (cl_vpnIP ca) (endpoint_for cb ca)"
proof -
  let ?ask = "init_smsg ASK_CONNECTION (cl_vpnIP cb) 0"
  have sym: "same_network cb ca \<longleftrightarrow> same_network ca cb" by (auto simp: same_network_def)
  have answers: "peer_answer ANS_CONNECTION (same_network ca cb) ca cb = (cl_clientaddr ca, \<lparr>m_type = ANS_CONNECTION,
      m_port = sin_port (endpoint_for ca cb), m_ip1 = sin_addr (endpoint_for ca cb), m_ip2 = cl_vpnIP cb\<rparr>)"
    "peer_answer FWD_CONNECTION (same_network ca cb) cb ca = (cl_clientaddr cb, \<lparr>m_type = FWD_CONNECTION,
      m_port = sin_port (endpoint_for cb ca), m_ip1 = sin_addr (endpoint_for cb ca), m_ip2 = cl_vpnIP ca\<rparr>)"
    by (simp_all add: peer_answer_def endpoint_for_def sym Let_def)
  have ask: "m_type ?ask = ASK_CONNECTION" "m_ip1 ?ask = cl_vpnIP cb" by (simp_all add: init_smsg_def)
  obtain s' where s': "handle_packet cfg mem now ?ask (cl_clientaddr ca) sockfd s = Some s'"
    "sent s' = sent s @ [peer_answer ANS_CONNECTION (same_network ca cb) ca cb, peer_answer FWD_CONNECTION (same_network ca cb) cb ca]"
    using ask_answered [OF server(1-3) ask(1) known(1) refl _ known(2) known(4) server(4)] known(3) ask(2) by metis
  show ?thesis
    using caller_punches [OF vpn_reachable_inv [OF caller(1)] caller(2-7) mem, of confA args "endpoint_for ca cb" u]
      called_punches [OF vpn_reachable_inv [OF called(1)] called(2) mem called(3,4), of args' "endpoint_for cb ca"] s' answers
    by metis
qed

text \<open>The client with VPN address 100 has a first packet for the one with address 200; both announced a
  local endpoint behind the same public address.\<close>

theorem connection_request_meets_witness:
  "\<exists>ask s' ans fwd a1 a2 a3 y es b1.
    vpn_step initConfig (Peer_step 1 (Go False)) demo_first = Some ([Sendto (serverAddr initConfig) (bytes_of_message ask)], a1) \<and>
    handle_packet demo_cfg Rdv_Protocol.demo_mem 6 ask demo_a1 3 demo_server = Some s' \<and>
    sent s' = sent demo_server @ [(demo_a1, ans), (demo_a2, fwd)] \<and>
    vpn_step initConfig (Rdv_message demo_comm_env demo_args ans) a1 = Some ([Signal 1, Session_calls []], a2) \<and>
    vpn_step initConfig (Peer_step 1 (Answer_wait False False False True)) a2 = Some ([], a3) \<and>
    vpn_step initConfig (Rdv_message demo_comm_env demo_args fwd) vpn_init = Some (es, b1) \<and> Start_peer_handling y \<in> set es \<and>
    punching_to a3 1 200 \<lparr>sin_addr = 77, sin_port = 7\<rparr> \<and> punching_to b1 y 100 \<lparr>sin_addr = 77, sin_port = 7\<rparr>"
proof -
  let ?e = "Tun_packet demo_comm_env demo_args demo_packet 20"
  have mem: "malloc_fresh (pm_malloc (Client_Comm.ev_mem demo_comm_env))" "pm_tsearch_addr (Client_Comm.ev_mem demo_comm_env)"
    by (simp_all add: demo_comm_env_def Client_Peer.demo_mem_def malloc3_fresh)
  have al: "vpn_allowed ?e vpn_init" using mem(1) by simp
  obtain es0 where st0: "vpn_step initConfig ?e vpn_init = Some (es0, demo_first)" using demo_first_step by blast
  have r: "vpn_reachable initConfig demo_first" by (rule vpn_next [OF vpn_start al few_threads_init st0])
  have few: "few_threads demo_first" by (simp add: few_threads_def thread_refs_def demo_first_def)
  let ?c = "new_peer initConfig demo_now 3 4 NEW 0 0 0 200 True"
  have c: "vs_pc demo_first 1 = Top" "pe_heap (vs_table demo_first) 1 = Some ?c" "pe_state ?c = NEW" by (simp_all add: demo_first_def)
  have get: "\<exists>t1. peers_get_by_VPN 200 (vs_table demo_first) = Some (Some 1, t1)"
    by (simp add: peers_get_by_VPN_def demo_first_def peers_incr_ref_def compare_peers_vpn_def memcmp_zero peer_tmp_def new_peer_def)
  have room: "add_possible initConfig (Client_Comm.ev_mem demo_comm_env) (vs_table vpn_init)"
    by (simp add: add_possible_def demo_comm_env_def Client_Peer.demo_mem_def vpn_init_def no_peers_def malloc3_def initConfig_def)
  have srv: "cl_vpnIP demo_c2 = 200" "cl_vpnIP demo_c1 = 100" "cl_clientaddr demo_c1 = demo_a1" "cl_clientaddr demo_c2 = demo_a2"
    "endpoint_for demo_c1 demo_c2 = \<lparr>sin_addr = 77, sin_port = 7\<rparr>" "endpoint_for demo_c2 demo_c1 = \<lparr>sin_addr = 77, sin_port = 7\<rparr>"
    by (simp_all add: endpoint_for_def same_network_def demo_c1_def demo_c2_def demo_a1_def demo_a2_def new_client_def)
  obtain t1 where t1: "peers_get_by_VPN (cl_vpnIP demo_c2) (vs_table demo_first) = Some (Some 1, t1)" using get srv(1) by auto
  have none: "peers_get_by_VPN (cl_vpnIP demo_c1) (vs_table vpn_init) = Some (None, vs_table vpn_init)"
    by (simp add: peers_get_by_VPN_def vpn_init_def no_peers_def)
  have idx: "\<forall>y \<in> set (peers_address_root (vs_table demo_first)). field_at pe_vpnIP (pe_heap (vs_table demo_first)) y \<noteq> Some (cl_vpnIP demo_c2)"
    by (simp add: demo_first_def)
  have look: "get_client_VPN (cl_vpnIP demo_c2) demo_server = Some (Some 2)" "(6::int) \<le> cl_time demo_c2 + PEER_TIMEOUT"
    using demo_lookup(1,7) srv(1) by simp_all
  show ?thesis
    using connection_request_meets [OF demo_reachable demo_fresh(2,1) demo_session_memory demo_lookup(3,4) look r few c t1 idx
        vpn_start few_threads_init none room mem, of demo_args False demo_args]
    unfolding srv .
qed

end
